(* ===== verification/Prelude.thy ===== *)
theory Prelude
  imports Main "HOL-Library.Word" "HOL-Library.Monad_Syntax"
begin

text \<open>Shared vocabulary of the development.  A Go \<^verbatim>\<open>string\<close> and a Go
  \<^verbatim>\<open>[]byte\<close> are both byte sequences, so both are modelled as \<^typ>\<open>string\<close>:
  an Isabelle \<^typ>\<open>char\<close> has exactly 256 values.  A call that returns
  \<^verbatim>\<open>(T, error)\<close> is a value of \<open>'e + 'a\<close>, with \<open>Inl\<close> the error.  The
  lemmas are the generic facts on sums, lists, decimal and hexadecimal digits
  that several components use.\<close>

type_synonym bytes = string

named_theorems result_simps \<open>how results of fallible calls compose\<close>
named_theorems byte_simps \<open>facts on bytes and digits\<close>

section \<open>Results of fallible calls\<close>

definition bindR :: "'e + 'a \<Rightarrow> ('a \<Rightarrow> 'e + 'b) \<Rightarrow> 'e + 'b" where
  "bindR r f = (case r of Inl e \<Rightarrow> Inl e | Inr x \<Rightarrow> f x)"

definition guardR :: "bool \<Rightarrow> 'e \<Rightarrow> 'e + unit" where
  "guardR b e = (if b then Inr () else Inl e)"

lemma bindR_Inl [simp, result_simps]: "bindR (Inl e) f = Inl e"
  by (simp add: bindR_def)

lemma bindR_Inr [simp, result_simps]: "bindR (Inr x) f = f x"
  by (simp add: bindR_def)

lemma bindR_eq_Inr [result_simps]:
  "bindR r f = Inr y \<longleftrightarrow> (\<exists>x. r = Inr x \<and> f x = Inr y)"
  by (cases r) auto

lemma bindR_eq_Inl [result_simps]:
  "bindR r f = Inl e \<longleftrightarrow> r = Inl e \<or> (\<exists>x. r = Inr x \<and> f x = Inl e)"
  by (cases r) auto

lemma guardR_eq [result_simps]:
  "guardR b e = Inr u \<longleftrightarrow> b" "guardR b e = Inl e' \<longleftrightarrow> \<not> b \<and> e' = e"
  by (auto simp: guardR_def)

lemma case_result_eq_Inr [result_simps]:
  "(case r of Inl e \<Rightarrow> Inl (g e) | Inr p \<Rightarrow> Inr (f p)) = Inr y \<longleftrightarrow> (\<exists>p. r = Inr p \<and> y = f p)"
  by (cases r) auto

section \<open>Self-delimiting prefixes\<close>

lemma append_stop_inj:
  assumes "a @ c # x = b @ d # y" "list_all P a" "list_all P b" "\<not> P c" "\<not> P d"
  shows "a = b \<and> c = d \<and> x = y"
  using assms
proof (induction a arbitrary: b)
  case Nil
  then show ?case by (cases b) auto
next
  case (Cons h t)
  then show ?case by (cases b) auto
qed

lemma append_eq_len:
  "a @ x = b @ y \<Longrightarrow> length a = length b \<Longrightarrow> a = b \<and> x = y"
  by simp

section \<open>Byte values and digits\<close>

definition byte_val :: "char \<Rightarrow> nat" where
  "byte_val c = of_char c"

lemma byte_val_less [simp, byte_simps]: "byte_val c < 256"
  using nat_of_char_less_256 [of c] by (simp add: byte_val_def)

lemma char_of_byte_val [simp, byte_simps]: "char_of (byte_val c) = c"
  by (simp add: byte_val_def)

lemma byte_val_char_of [byte_simps]: "n < 256 \<Longrightarrow> byte_val (char_of n) = n"
  by (simp add: byte_val_def)

lemma byte_val_inj [simp]: "byte_val c = byte_val d \<longleftrightarrow> c = d"
  by (metis char_of_byte_val)

text \<open>The digits \<^verbatim>\<open>"0123456789abcdef"\<close>, which both \<^verbatim>\<open>encoding/hex\<close> and the
  escapes of the canonical JSON writer index.\<close>

definition hexDigits :: string where
  "hexDigits = ''0123456789abcdef''"

definition hexDigit :: "nat \<Rightarrow> char" where
  "hexDigit n = hexDigits ! n"

text \<open>\<^verbatim>\<open>encoding/hex\<close> reads a digit of either case.\<close>

definition fromHexChar :: "char \<Rightarrow> nat option" where
  "fromHexChar c = (let n = byte_val c in
     if 48 \<le> n \<and> n \<le> 57 then Some (n - 48)
     else if 97 \<le> n \<and> n \<le> 102 then Some (n - 87)
     else if 65 \<le> n \<and> n \<le> 70 then Some (n - 55)
     else None)"

lemma below_by_enum: "n < k \<Longrightarrow> list_all P [0..<k] \<Longrightarrow> P (n :: nat)"
  by (simp add: list_all_iff)

lemma fromHexChar_hexDigit [simp, byte_simps]:
  "n < 16 \<Longrightarrow> fromHexChar (hexDigit n) = Some n"
  by (erule below_by_enum)
     (simp add: hexDigit_def hexDigits_def fromHexChar_def byte_val_def upt_rec)

lemma fromHexChar_less [byte_simps]: "fromHexChar c = Some n \<Longrightarrow> n < 16"
  by (auto simp: fromHexChar_def Let_def split: if_splits)

lemma byte_nibbles [simp, byte_simps]:
  "char_of (16 * (byte_val c div 16) + byte_val c mod 16) = c"
  by (simp only: mult_div_mod_eq char_of_byte_val)

lemma byte_nibble_bounds [simp, byte_simps]: "byte_val c div 16 < 16" "byte_val c mod 16 < 16"
  using byte_val_less [of c] by (auto simp: less_mult_imp_div_less simp del: byte_val_less)

section \<open>Decimal numbers\<close>

text \<open>\<^verbatim>\<open>strconv.FormatInt(x, 10)\<close>, with \<^verbatim>\<open>strconv.Itoa\<close>, and reading the digits back.\<close>

definition decDigit :: "nat \<Rightarrow> char" where
  "decDigit n = ''0123456789'' ! n"

fun fmtNat :: "nat \<Rightarrow> string" where
  "fmtNat n = (if n < 10 then [decDigit n] else fmtNat (n div 10) @ [decDigit (n mod 10)])"

declare fmtNat.simps [simp del]

definition fmtInt :: "int \<Rightarrow> string" where
  "fmtInt i = (if i < 0 then CHR ''-'' # fmtNat (nat (- i)) else fmtNat (nat i))"

definition isDecDigit :: "char \<Rightarrow> bool" where
  "isDecDigit c \<longleftrightarrow> 48 \<le> byte_val c \<and> byte_val c \<le> 57"

definition readNat :: "string \<Rightarrow> nat" where
  "readNat s = foldl (\<lambda>a c. 10 * a + (byte_val c - 48)) 0 s"

lemma decDigit_props:
  assumes "n < 10"
  shows "isDecDigit (decDigit n)" "byte_val (decDigit n) - 48 = n"
  using assms
  by - (erule below_by_enum; simp add: decDigit_def isDecDigit_def byte_val_def upt_rec)+

lemma fmtNat_digits: "list_all isDecDigit (fmtNat n)"
proof (induction n rule: fmtNat.induct)
  case (1 n)
  then show ?case
    by (subst fmtNat.simps) (simp add: decDigit_props(1))
qed

lemma fmtNat_nonempty [simp]: "fmtNat n \<noteq> []"
  by (subst fmtNat.simps) simp

lemma readNat_snoc: "readNat (s @ [c]) = 10 * readNat s + (byte_val c - 48)"
  by (simp add: readNat_def)

lemma readNat_fmtNat [simp]: "readNat (fmtNat n) = n"
proof (induction n rule: fmtNat.induct)
  case (1 n)
  show ?case
  proof (cases "n < 10")
    case True
    then show ?thesis
      by (subst fmtNat.simps) (simp add: readNat_def decDigit_props(2))
  next
    case False
    then have "readNat (fmtNat (n div 10)) = n div 10" using 1 by simp
    then show ?thesis using False
      by (subst fmtNat.simps) (simp add: readNat_snoc decDigit_props(2) del: One_nat_def)
  qed
qed

lemma fmtNat_inj: "fmtNat a = fmtNat b \<Longrightarrow> a = b"
  by (metis readNat_fmtNat)

lemma minus_not_digit [simp]: "\<not> isDecDigit (CHR ''-'')"
  by (simp add: isDecDigit_def byte_val_def)

lemma fmtNat_not_minus: "fmtNat n \<noteq> CHR ''-'' # s"
  using fmtNat_digits [of n] by (auto simp: isDecDigit_def byte_val_def)

lemma fmtInt_inj: "fmtInt a = fmtInt b \<Longrightarrow> a = b"
  using fmtNat_not_minus
  by (auto simp: fmtInt_def split: if_splits dest!: fmtNat_inj) (metis fmtNat_not_minus)+

definition isIntChar :: "char \<Rightarrow> bool" where
  "isIntChar c \<longleftrightarrow> isDecDigit c \<or> c = CHR ''-''"

lemma fmtInt_chars: "list_all isIntChar (fmtInt i)"
  using fmtNat_digits
  by (auto simp: fmtInt_def isIntChar_def list_all_iff)

text \<open>\<^verbatim>\<open>strconv.Atoi\<close>: an optional sign, then digits, within an \<^verbatim>\<open>int64\<close>.\<close>

definition atoiDigits :: "string \<Rightarrow> nat option" where
  "atoiDigits s = (if s \<noteq> [] \<and> list_all isDecDigit s then Some (readNat s) else None)"

definition atoi :: "string \<Rightarrow> int option" where
  "atoi s = (case s of [] \<Rightarrow> None
     | c # r \<Rightarrow>
        if c = CHR ''-'' then
          (case atoiDigits r of None \<Rightarrow> None
           | Some n \<Rightarrow> if int n \<le> 2 ^ 63 then Some (- int n) else None)
        else (case atoiDigits (if c = CHR ''+'' then r else s) of None \<Rightarrow> None
           | Some n \<Rightarrow> if int n < 2 ^ 63 then Some (int n) else None))"

lemma atoi_fmtNat: "int n < 2 ^ 63 \<Longrightarrow> atoi (fmtNat n) = Some (int n)"
proof -
  assume n: "int n < 2 ^ 63"
  obtain c r where cr: "fmtNat n = c # r" using fmtNat_nonempty by (cases "fmtNat n") auto
  have "isDecDigit c" using fmtNat_digits [of n] cr by simp
  then have "c \<noteq> CHR ''-''" "c \<noteq> CHR ''+''" by (auto simp: isDecDigit_def byte_val_def)
  then show ?thesis
    using n cr fmtNat_digits [of n] readNat_fmtNat [of n] by (simp add: atoi_def atoiDigits_def)
qed

section \<open>Sums and small list facts\<close>

lemma sum_list_filter_le:
  "sum_list (map f (filter P xs)) \<le> sum_list (map (f :: 'a \<Rightarrow> nat) xs)"
  by (induction xs) auto

lemma set_update_cases: "x \<in> set (xs[i := y]) \<Longrightarrow> x = y \<or> x \<in> set xs"
  using set_update_subset_insert [of xs i y] by auto

lemma sum_list_remove1:
  "x \<in> set xs \<Longrightarrow> sum_list (map f xs) = f x + sum_list (map (f :: 'a \<Rightarrow> nat) (remove1 x xs))"
  by (induction xs) auto

section \<open>Big-endian lengths\<close>

fun beBytes :: "nat \<Rightarrow> nat \<Rightarrow> bytes" where
  "beBytes 0 n = []"
| "beBytes (Suc k) n = char_of (n div 256 ^ k mod 256) # beBytes k n"

lemma length_beBytes [simp]: "length (beBytes k n) = k"
  by (induction k) auto

lemma quot_rem_eq:
  "r < A \<Longrightarrow> r' < A \<Longrightarrow> A * q + r = A * q' + r' \<longleftrightarrow> q = q' \<and> r = (r' :: nat)"
  by (metis add_cancel_right_right div_less div_mult_self4 gr_implies_not0 mod_less mod_mult_self4)

lemma beBytes_mod: "n mod 256 ^ k = m mod 256 ^ k \<longleftrightarrow> beBytes k n = beBytes k m"
proof (induction k)
  case (Suc k)
  have split: "x mod 256 ^ Suc k = 256 ^ k * (x div 256 ^ k mod 256) + x mod 256 ^ k" for x :: nat
    by (simp only: power_Suc2 mod_mult2_eq)
  have lt: "x mod 256 ^ k < 256 ^ k" for x :: nat by simp
  have "n mod 256 ^ Suc k = m mod 256 ^ Suc k \<longleftrightarrow>
      n div 256 ^ k mod 256 = m div 256 ^ k mod 256 \<and> n mod 256 ^ k = m mod 256 ^ k"
    unfolding split by (rule quot_rem_eq) (rule lt)+
  with Suc show ?case by (simp add: String.char_of_eq_iff take_bit_eq_mod)
qed simp

lemma beBytes_inj: "n < 256 ^ k \<Longrightarrow> m < 256 ^ k \<Longrightarrow> beBytes k n = beBytes k m \<Longrightarrow> n = m"
  using beBytes_mod [of n k m] by simp

section \<open>Prefix codes\<close>

text \<open>The contract of a self-delimiting encoding: no code word is empty and none
  is a proper prefix of another.  A concatenation of code words then determines
  the words.\<close>

locale prefix_code =
  fixes enc :: "'a \<Rightarrow> bytes" and ok :: "'a \<Rightarrow> bool"
  assumes enc_nonempty: "enc x \<noteq> []"
    and enc_cancel: "ok x \<Longrightarrow> ok y \<Longrightarrow> enc x @ r = enc y @ r' \<Longrightarrow> x = y \<and> r = r'"
begin

lemma enc_list_cancel:
  assumes "list_all ok xs" "list_all ok ys" "concat (map enc xs) = concat (map enc ys)"
  shows "xs = ys"
  using assms
proof (induction xs arbitrary: ys)
  case Nil
  then show ?case by (cases ys) (auto simp: enc_nonempty)
next
  case (Cons x xs)
  show ?case
  proof (cases ys)
    case Nil
    with Cons.prems show ?thesis by (auto simp: enc_nonempty)
  next
    case (Cons y ys')
    with Cons.prems enc_cancel [of x y "concat (map enc xs)" "concat (map enc ys')"]
    have "x = y" "concat (map enc xs) = concat (map enc ys')" by auto
    with Cons.IH [of ys'] Cons.prems Cons show ?thesis by simp
  qed
qed

text \<open>The words may be followed by a byte that starts no word.\<close>

lemma enc_list_stop:
  assumes "list_all ok xs" "list_all ok ys"
    and "\<And>x t. enc x \<noteq> c # t"
    and "concat (map enc xs) @ c # u = concat (map enc ys) @ c # v"
  shows "xs = ys \<and> u = v"
  using assms
proof (induction xs arbitrary: ys)
  case Nil
  then show ?case
    by (cases ys) (auto simp: enc_nonempty Cons_eq_append_conv dest: sym)
next
  case (Cons x xs)
  show ?case
  proof (cases ys)
    case Nil
    with Cons.prems show ?thesis
      by (auto simp: enc_nonempty append_eq_Cons_conv)
  next
    case (Cons y ys')
    with Cons.prems enc_cancel [of x y "concat (map enc xs) @ c # u" "concat (map enc ys') @ c # v"]
    have "x = y" "concat (map enc xs) @ c # u = concat (map enc ys') @ c # v" by auto
    with Cons.IH [of ys'] Cons.prems Cons show ?thesis by simp
  qed
qed

end

end
