(* ===== verification/Seal_AAD.thy ===== *)
theory Seal_AAD
  imports Prelude Complex_Main "HOL-Library.List_Lexorder" "HOL-Library.Char_ord" "HOL-Library.Multiset"
begin

text \<open>The associated data of the sealing layer, \<^verbatim>\<open>internal/seal/aad.go\<close>: the
  canonical JSON writer, and the three byte strings that AES-GCM binds a payload,
  a wrapped data key and a key bundle to.  The lemmas show that the writer is
  self-delimiting, so that the bytes determine the user, the scope, the row and
  the key id, and that the three kinds of associated data never coincide.\<close>

section \<open>Constants and inputs\<close>

datatype seal_error =
    ErrAADInvalid | ErrNonFinite | ErrUnsupportedType
  | ErrKeySize | ErrKeyIDSize | ErrHex | ErrCipher | ErrRandom
  | ErrUnknownFormat | ErrV2Malformed | ErrV0Malformed | ErrV1Malformed
  | ErrNoMatchingKey | ErrLegacyDecrypt | ErrUnsupportedAlg | ErrPlaintextTooLarge
  | ErrIVEncoding | ErrGzip | ErrDecompressedTooLarge
  | ErrOpHashKeyMaterial | ErrSearchKeyMaterial
  | ErrShareTooLarge | ErrShareInvalid

definition AADDomain :: string where "AADDomain = ''tinfoil-sync-envelope-v2''"
definition DEKWrapAADDomain :: string where "DEKWrapAADDomain = ''tinfoil-dek-wrap-v2''"
definition BundleAADDomain :: string where "BundleAADDomain = ''tinfoil-key-bundle-v2''"
definition EnvelopeVersion :: int where "EnvelopeVersion = 2"
definition AlgAESGCM :: string where "AlgAESGCM = ''AES-256-GCM''"
definition ProfileSingletonID :: string where "ProfileSingletonID = ''profile''"

definition ScopeChat :: string where "ScopeChat = ''chat''"
definition ScopeProfile :: string where "ScopeProfile = ''profile''"
definition ScopeProject :: string where "ScopeProject = ''project''"
definition ScopeProjectDocument :: string where "ScopeProjectDocument = ''project_document''"

definition scopeValid :: "string \<Rightarrow> bool" where
  "scopeValid s \<longleftrightarrow>
     s = ScopeChat \<or> s = ScopeProfile \<or> s = ScopeProject \<or> s = ScopeProjectDocument"

record AAD =
  aKeyIDHex :: string
  aScope :: string
  aID :: string
  aClerkUserID :: string

record BundleAAD =
  bClerkUserID :: string
  bKeyIDHex :: string
  bCredentialID :: string

definition isLowerHex :: "string \<Rightarrow> bool" where
  "isLowerHex s = list_all (\<lambda>c. let n = byte_val c in
     (48 \<le> n \<and> n \<le> 57) \<or> (97 \<le> n \<and> n \<le> 102)) s"

section \<open>The canonical JSON writer\<close>

text \<open>A finite \<^verbatim>\<open>float64\<close> is a rational number.  The conversion \<^verbatim>\<open>int64(x)\<close>
  truncates; out of range it yields the least \<^verbatim>\<open>int64\<close>, as on amd64.  The
  shortest decimal form \<^verbatim>\<open>FormatFloat(x, 'g', -1, 64)\<close> is the argument \<open>fmtG\<close>.\<close>

datatype float64 = F_NaN | F_PosInf | F_NegInf | F_Fin rat

definition maxFloat64 :: rat where
  "maxFloat64 = (2 ^ 53 - 1) * 2 ^ 971"

definition isFinite :: "float64 \<Rightarrow> bool" where
  "isFinite f = (case f of
     F_NaN \<Rightarrow> False | F_PosInf \<Rightarrow> False | F_NegInf \<Rightarrow> False
   | F_Fin q \<Rightarrow> \<not> (q > maxFloat64 \<or> q < - maxFloat64))"

definition int64_of_rat :: "rat \<Rightarrow> int" where
  "int64_of_rat q = (let t = (if q < 0 then \<lceil>q\<rceil> else \<lfloor>q\<rfloor>) in
     if - (2 ^ 63) \<le> t \<and> t < 2 ^ 63 then t else - (2 ^ 63))"

definition writeFloat :: "(rat \<Rightarrow> string) \<Rightarrow> float64 \<Rightarrow> seal_error + string" where
  "writeFloat fmtG f = (if \<not> isFinite f then Inl ErrNonFinite else
     case f of F_Fin q \<Rightarrow>
       Inr (if q = of_int (int64_of_rat q) then fmtInt (int64_of_rat q) else fmtG q)
     | _ \<Rightarrow> Inl ErrNonFinite)"

datatype any =
    ANil | ABool bool | AString string | AInt int | AInt64 int | AFloat64 float64
  | ANumber string | AMap "(string \<times> any) list" | ASlice "any list" | AOther

definition escapeByte :: "char \<Rightarrow> string" where
  "escapeByte c =
    (if c = CHR 0x22 then [CHR 0x5C, CHR 0x22]
     else if c = CHR 0x5C then [CHR 0x5C, CHR 0x5C]
     else if c = CHR 0x0A then [CHR 0x5C, CHR ''n'']
     else if c = CHR 0x0D then [CHR 0x5C, CHR ''r'']
     else if c = CHR 0x09 then [CHR 0x5C, CHR ''t'']
     else if c = CHR 0x08 then [CHR 0x5C, CHR ''b'']
     else if c = CHR 0x0C then [CHR 0x5C, CHR ''f'']
     else if byte_val c < 0x20 then
       [CHR 0x5C, CHR ''u'', CHR ''0'', CHR ''0'',
        hexDigit (byte_val c div 16), hexDigit (byte_val c mod 16)]
     else [c])"

definition writeJSONString :: "string \<Rightarrow> string" where
  "writeJSONString s = [CHR 0x22] @ concat (map escapeByte s) @ [CHR 0x22]"

fun joinComma :: "string list \<Rightarrow> string" where
  "joinComma [] = []"
| "joinComma [x] = x"
| "joinComma (x # y # xs) = x @ '','' @ joinComma (y # xs)"

fun seqR :: "('e + 'a) list \<Rightarrow> 'e + 'a list" where
  "seqR [] = Inr []"
| "seqR (r # rs) = bindR r (\<lambda>x. bindR (seqR rs) (\<lambda>xs. Inr (x # xs)))"

lemma any_map_size [simp]:
  "p \<in> set xs \<Longrightarrow> size (snd p) < Suc (size_list (size_prod (\<lambda>x. 0) size) xs)"
  by (induction xs) (auto simp: less_Suc_eq_le trans_le_add1 trans_le_add2)

text \<open>A Go map has no order and no repeated key; its entries are listed in
  iteration order, and the writer sorts them by key.\<close>

function (sequential) writeCanonicalValue :: "(rat \<Rightarrow> string) \<Rightarrow> any \<Rightarrow> seal_error + string" where
  "writeCanonicalValue g ANil = Inr ''null''"
| "writeCanonicalValue g (ABool b) = Inr (if b then ''true'' else ''false'')"
| "writeCanonicalValue g (AString s) = Inr (writeJSONString s)"
| "writeCanonicalValue g (AInt i) = Inr (fmtInt i)"
| "writeCanonicalValue g (AInt64 i) = Inr (fmtInt i)"
| "writeCanonicalValue g (AFloat64 f) = writeFloat g f"
| "writeCanonicalValue g (ANumber s) = Inr s"
| "writeCanonicalValue g (AMap x) =
     bindR (seqR (map (\<lambda>p. bindR (writeCanonicalValue g (snd p))
                            (\<lambda>s. Inr (writeJSONString (fst p) @ '':'' @ s))) (sort_key fst x)))
       (\<lambda>ss. Inr (''{'' @ joinComma ss @ ''}''))"
| "writeCanonicalValue g (ASlice xs) =
     bindR (seqR (map (writeCanonicalValue g) xs)) (\<lambda>ss. Inr (''['' @ joinComma ss @ '']''))"
| "writeCanonicalValue g AOther = Inl ErrUnsupportedType"
  by pat_completeness auto
termination
  by (relation "measure (\<lambda>(g, v). size v)") (auto simp: less_Suc_eq_le size_list_estimation')

definition marshalCanonical :: "(rat \<Rightarrow> string) \<Rightarrow> (string \<times> any) list \<Rightarrow> seal_error + bytes" where
  "marshalCanonical g kvs =
     bindR (seqR (map (\<lambda>f. bindR (writeCanonicalValue g (snd f))
                            (\<lambda>s. Inr (writeJSONString (fst f) @ '':'' @ s))) kvs))
       (\<lambda>ss. Inr (''{'' @ joinComma ss @ ''}''))"

section \<open>The three associated data\<close>

text \<open>The fields of the three hold strings and integers only, so the float
  formatter is never called; it is fixed to the empty string.\<close>

definition noFloat :: "rat \<Rightarrow> string" where
  "noFloat q = []"

definition CanonicalPayloadAAD :: "AAD \<Rightarrow> seal_error + bytes" where
  "CanonicalPayloadAAD a =
    (if \<not> scopeValid (aScope a) then Inl ErrAADInvalid
     else if aClerkUserID a = [] then Inl ErrAADInvalid
     else if aScope a = ScopeProfile \<and> aID a \<noteq> ProfileSingletonID then Inl ErrAADInvalid
     else if aID a = [] then Inl ErrAADInvalid
     else marshalCanonical noFloat
       [(''alg'', AString AlgAESGCM),
        (''clerk_user_id'', AString (aClerkUserID a)),
        (''domain'', AString AADDomain),
        (''id'', AString (aID a)),
        (''scope'', AString (aScope a)),
        (''v'', AInt EnvelopeVersion)])"

definition CanonicalDEKWrapAAD :: "AAD \<Rightarrow> seal_error + bytes" where
  "CanonicalDEKWrapAAD a =
    (if \<not> scopeValid (aScope a) then Inl ErrAADInvalid
     else if length (aKeyIDHex a) \<noteq> 32 \<or> \<not> isLowerHex (aKeyIDHex a) then Inl ErrAADInvalid
     else if aClerkUserID a = [] then Inl ErrAADInvalid
     else if aScope a = ScopeProfile \<and> aID a \<noteq> ProfileSingletonID then Inl ErrAADInvalid
     else if aID a = [] then Inl ErrAADInvalid
     else marshalCanonical noFloat
       [(''clerk_user_id'', AString (aClerkUserID a)),
        (''domain'', AString DEKWrapAADDomain),
        (''id'', AString (aID a)),
        (''kid'', AString (aKeyIDHex a)),
        (''scope'', AString (aScope a)),
        (''v'', AInt EnvelopeVersion)])"

definition CanonicalBundleAAD :: "BundleAAD \<Rightarrow> seal_error + bytes" where
  "CanonicalBundleAAD a =
    (if bClerkUserID a = [] \<or> bCredentialID a = [] then Inl ErrAADInvalid
     else if length (bKeyIDHex a) \<noteq> 32 \<or> \<not> isLowerHex (bKeyIDHex a) then Inl ErrAADInvalid
     else marshalCanonical noFloat
       [(''clerk_user_id'', AString (bClerkUserID a)),
        (''credential_id'', AString (bCredentialID a)),
        (''domain'', AString BundleAADDomain),
        (''key_id'', AString (bKeyIDHex a))])"

section \<open>The writer is self-delimiting\<close>

text \<open>A reader of one escaped byte, which inverts the escape.\<close>

definition unescapeByte :: "string \<Rightarrow> (char \<times> string) option" where
  "unescapeByte s = (case s of
     [] \<Rightarrow> None
   | c # r \<Rightarrow>
      if c \<noteq> CHR 0x5C then Some (c, r) else
      (case r of [] \<Rightarrow> None
       | k # t \<Rightarrow>
          if k = CHR ''n'' then Some (CHR 0x0A, t)
          else if k = CHR ''r'' then Some (CHR 0x0D, t)
          else if k = CHR ''t'' then Some (CHR 0x09, t)
          else if k = CHR ''b'' then Some (CHR 0x08, t)
          else if k = CHR ''f'' then Some (CHR 0x0C, t)
          else if k = CHR ''u'' then
            (case (fromHexChar (t ! 2), fromHexChar (t ! 3)) of
               (Some h, Some l) \<Rightarrow> Some (char_of (16 * h + l), drop 4 t) | _ \<Rightarrow> None)
          else Some (k, t)))"

lemma unescape_escape: "unescapeByte (escapeByte c @ r) = Some (c, r)"
  unfolding escapeByte_def
  by (simp only: split: if_split, intro conjI impI; simp add: unescapeByte_def)

lemma escapeByte_inj:
  "escapeByte c @ x = escapeByte d @ y \<Longrightarrow> c = d \<and> x = y"
  by (metis unescape_escape option.inject prod.inject)

lemma escapeByte_head: "\<exists>h t. escapeByte c = h # t \<and> h \<noteq> CHR 0x22"
  by (simp add: escapeByte_def)

interpretation esc: prefix_code escapeByte "\<lambda>c. True"
proof
  show "escapeByte c \<noteq> []" for c using escapeByte_head [of c] by auto
qed (rule escapeByte_inj)

lemma escaped_quote_inj:
  "concat (map escapeByte s) @ CHR 0x22 # x = concat (map escapeByte t) @ CHR 0x22 # y \<Longrightarrow>
   s = t \<and> x = y"
  by (rule esc.enc_list_stop) (use escapeByte_head in \<open>auto simp: list_all_iff, metis list.inject\<close>)

lemma writeJSONString_inj:
  "writeJSONString s @ x = writeJSONString t @ y \<longleftrightarrow> s = t \<and> x = y"
  using escaped_quote_inj [of s x t y] by (auto simp: writeJSONString_def)

lemma writeJSONString_inj' [simp]: "writeJSONString s = writeJSONString t \<longleftrightarrow> s = t"
  using writeJSONString_inj [of s "[]" t "[]"] by simp

text \<open>The flat field lists the three associated data are made of: string and
  integer values.  A value is followed by a comma or the closing brace.\<close>

fun flatValue :: "any \<Rightarrow> bool" where
  "flatValue (AString s) = True"
| "flatValue (AInt i) = True"
| "flatValue _ = False"

fun flatText :: "any \<Rightarrow> string" where
  "flatText (AString s) = writeJSONString s"
| "flatText (AInt i) = fmtInt i"
| "flatText _ = []"

definition fieldText :: "string \<times> any \<Rightarrow> string" where
  "fieldText p = writeJSONString (fst p) @ '':'' @ flatText (snd p)"

lemma flat_write: "flatValue v \<Longrightarrow> writeCanonicalValue g v = Inr (flatText v)"
  by (cases v) auto

lemma seqR_map_Inr: "(\<forall>x\<in>set xs. f x = Inr (h x)) \<Longrightarrow> seqR (map f xs) = Inr (map h xs)"
  by (induction xs) auto

lemma marshal_flat:
  assumes "list_all (flatValue \<circ> snd) fs"
  shows "marshalCanonical g fs = Inr (''{'' @ joinComma (map fieldText fs) @ ''}'')"
proof -
  have "seqR (map (\<lambda>f. bindR (writeCanonicalValue g (snd f))
      (\<lambda>s. Inr (writeJSONString (fst f) @ '':'' @ s))) fs) = (Inr (map fieldText fs) :: seal_error + string list)"
    using assms by (intro seqR_map_Inr) (auto simp: list_all_iff flat_write fieldText_def)
  then show ?thesis by (simp add: marshalCanonical_def)
qed

definition stopByte :: "char \<Rightarrow> bool" where
  "stopByte c \<longleftrightarrow> c = CHR '','' \<or> c = CHR 0x7D"

lemma stop_not_int: "stopByte c \<Longrightarrow> \<not> isIntChar c"
  by (auto simp: stopByte_def isIntChar_def isDecDigit_def byte_val_def)

lemma fmtInt_head: "\<exists>h t. fmtInt i = h # t \<and> h \<noteq> CHR 0x22"
proof (cases "fmtInt i")
  case Nil
  then show ?thesis by (auto simp: fmtInt_def split: if_splits)
next
  case (Cons h t)
  with fmtInt_chars [of i] have "isIntChar h" by simp
  with Cons show ?thesis by (auto simp: isIntChar_def isDecDigit_def byte_val_def)
qed

lemma flatText_inj:
  assumes "flatValue v" "flatValue w" "stopByte c" "stopByte d"
    and eq: "flatText v @ c # x = flatText w @ d # y"
  shows "v = w \<and> c # x = d # y"
proof (cases v; cases w)
  fix i j assume vw: "v = AInt i" "w = AInt j"
  with eq have "fmtInt i @ c # x = fmtInt j @ d # y" by simp
  from append_stop_inj [OF this fmtInt_chars fmtInt_chars] assms vw show ?thesis
    by (auto simp: stop_not_int dest: fmtInt_inj)
next
  fix s i assume vw: "v = AString s" "w = AInt i"
  with eq fmtInt_head [of i] show ?thesis by (auto simp: writeJSONString_def)
next
  fix s i assume vw: "v = AInt i" "w = AString s"
  with eq fmtInt_head [of i] show ?thesis by (auto simp: writeJSONString_def)
qed (use assms in \<open>auto simp: writeJSONString_inj\<close>)

lemma fieldText_inj:
  assumes "flatValue (snd p)" "flatValue (snd q)" "stopByte c" "stopByte d"
    and "fieldText p @ c # x = fieldText q @ d # y"
  shows "p = q \<and> c # x = d # y"
  using assms flatText_inj [of "snd p" "snd q" c d x y]
  by (auto simp: fieldText_def writeJSONString_inj prod_eq_iff)

lemma joinComma_Cons:
  "joinComma (x # xs) = x @ (if xs = [] then [] else '','' @ joinComma xs)"
  by (cases xs) auto

lemma joinComma_fields_inj:
  assumes "list_all (flatValue \<circ> snd) fs" "list_all (flatValue \<circ> snd) gs"
    and "joinComma (map fieldText fs) @ ''}'' = joinComma (map fieldText gs) @ ''}''"
  shows "fs = gs"
  using assms
proof (induction fs arbitrary: gs)
  case Nil
  then show ?case
    by (cases gs) (auto simp: joinComma_Cons fieldText_def writeJSONString_def split: if_splits)
next
  case (Cons f fs)
  show ?case
  proof (cases gs)
    case Nil
    with Cons.prems show ?thesis
      by (auto simp: joinComma_Cons fieldText_def writeJSONString_def split: if_splits)
  next
    case (Cons g gs')
    define rest where "rest ks = (if ks = [] then [] else '','' @ joinComma (map fieldText ks)) @ ''}''"
      for ks :: "(string \<times> any) list"
    have stop: "\<exists>c x. rest ks = c # x \<and> stopByte c" for ks
      by (auto simp: rest_def stopByte_def)
    obtain c x where cx: "rest fs = c # x" "stopByte c" using stop by blast
    obtain d y where dy: "rest gs' = d # y" "stopByte d" using stop by blast
    have "fieldText f @ c # x = fieldText g @ d # y"
      using Cons.prems(3) Cons unfolding cx(1) [symmetric] dy(1) [symmetric]
      by (simp add: joinComma_Cons rest_def)
    then have "f = g" "rest fs = rest gs'"
      using fieldText_inj [of f g c d x y] Cons.prems Cons cx dy by auto
    moreover from this(2) have "fs = gs'"
      using Cons.IH [of gs'] Cons.prems Cons
      by (auto simp: rest_def split: if_splits)
    ultimately show ?thesis using Cons by simp
  qed
qed

theorem marshal_flat_inj:
  assumes "list_all (flatValue \<circ> snd) fs" "list_all (flatValue \<circ> snd) gs"
    and "marshalCanonical g fs = marshalCanonical g gs"
  shows "fs = gs"
  using assms joinComma_fields_inj by (simp add: marshal_flat)

section \<open>What the associated data binds\<close>

lemmas aad_defs = CanonicalPayloadAAD_def CanonicalDEKWrapAAD_def CanonicalBundleAAD_def

lemma payload_ok:
  "CanonicalPayloadAAD a = Inr b \<longleftrightarrow>
     scopeValid (aScope a) \<and> aClerkUserID a \<noteq> [] \<and> aID a \<noteq> [] \<and>
     (aScope a = ScopeProfile \<longrightarrow> aID a = ProfileSingletonID) \<and>
     marshalCanonical noFloat
       [(''alg'', AString AlgAESGCM), (''clerk_user_id'', AString (aClerkUserID a)),
        (''domain'', AString AADDomain), (''id'', AString (aID a)),
        (''scope'', AString (aScope a)), (''v'', AInt EnvelopeVersion)] = Inr b"
  by (auto simp: CanonicalPayloadAAD_def)

lemma wrap_ok:
  "CanonicalDEKWrapAAD a = Inr b \<longleftrightarrow>
     scopeValid (aScope a) \<and> aClerkUserID a \<noteq> [] \<and> aID a \<noteq> [] \<and>
     (aScope a = ScopeProfile \<longrightarrow> aID a = ProfileSingletonID) \<and>
     length (aKeyIDHex a) = 32 \<and> isLowerHex (aKeyIDHex a) \<and>
     marshalCanonical noFloat
       [(''clerk_user_id'', AString (aClerkUserID a)), (''domain'', AString DEKWrapAADDomain),
        (''id'', AString (aID a)), (''kid'', AString (aKeyIDHex a)),
        (''scope'', AString (aScope a)), (''v'', AInt EnvelopeVersion)] = Inr b"
  by (auto simp: CanonicalDEKWrapAAD_def)

lemma bundle_ok:
  "CanonicalBundleAAD a = Inr b \<longleftrightarrow>
     bClerkUserID a \<noteq> [] \<and> bCredentialID a \<noteq> [] \<and>
     length (bKeyIDHex a) = 32 \<and> isLowerHex (bKeyIDHex a) \<and>
     marshalCanonical noFloat
       [(''clerk_user_id'', AString (bClerkUserID a)), (''credential_id'', AString (bCredentialID a)),
        (''domain'', AString BundleAADDomain), (''key_id'', AString (bKeyIDHex a))] = Inr b"
  by (auto simp: CanonicalBundleAAD_def)

lemmas aad_ok = payload_ok wrap_ok bundle_ok

lemma marshal_same:
  assumes "marshalCanonical g fs = Inr b" "marshalCanonical g gs = Inr b"
    and "list_all (flatValue \<circ> snd) fs" "list_all (flatValue \<circ> snd) gs"
  shows "fs = gs"
  using assms marshal_flat_inj by metis

lemma payload_ignores_kid:
  "CanonicalPayloadAAD (a\<lparr>aKeyIDHex := k\<rparr>) = CanonicalPayloadAAD a"
  by (simp add: CanonicalPayloadAAD_def)

lemma payload_same:
  assumes "CanonicalPayloadAAD a = Inr b" "CanonicalPayloadAAD a' = Inr b"
  shows "aClerkUserID a = aClerkUserID a' \<and> aScope a = aScope a' \<and> aID a = aID a'"
proof -
  have "marshalCanonical noFloat
       [(''alg'', AString AlgAESGCM), (''clerk_user_id'', AString (aClerkUserID x)),
        (''domain'', AString AADDomain), (''id'', AString (aID x)),
        (''scope'', AString (aScope x)), (''v'', AInt EnvelopeVersion)] = Inr b"
    if "x = a \<or> x = a'" for x using that assms unfolding payload_ok by blast
  from marshal_same [OF this [of a] this [of a']] show ?thesis by simp
qed

lemma wrap_same:
  assumes "CanonicalDEKWrapAAD a = Inr b" "CanonicalDEKWrapAAD a' = Inr b"
  shows "a = a'"
proof -
  have "marshalCanonical noFloat
       [(''clerk_user_id'', AString (aClerkUserID x)), (''domain'', AString DEKWrapAADDomain),
        (''id'', AString (aID x)), (''kid'', AString (aKeyIDHex x)),
        (''scope'', AString (aScope x)), (''v'', AInt EnvelopeVersion)] = Inr b"
    if "x = a \<or> x = a'" for x using that assms unfolding wrap_ok by blast
  from marshal_same [OF this [of a] this [of a']] show ?thesis by simp
qed

lemma bundle_same:
  assumes "CanonicalBundleAAD a = Inr b" "CanonicalBundleAAD a' = Inr b"
  shows "a = a'"
proof -
  have "marshalCanonical noFloat
       [(''clerk_user_id'', AString (bClerkUserID x)), (''credential_id'', AString (bCredentialID x)),
        (''domain'', AString BundleAADDomain), (''key_id'', AString (bKeyIDHex x))] = Inr b"
    if "x = a \<or> x = a'" for x using that assms unfolding bundle_ok by blast
  from marshal_same [OF this [of a] this [of a']] show ?thesis by simp
qed

lemma aad_kinds_differ:
  "CanonicalPayloadAAD a = Inr b \<Longrightarrow> CanonicalDEKWrapAAD a' \<noteq> Inr b"
  "CanonicalPayloadAAD a = Inr b \<Longrightarrow> CanonicalBundleAAD c \<noteq> Inr b"
  "CanonicalDEKWrapAAD a' = Inr b \<Longrightarrow> CanonicalBundleAAD c \<noteq> Inr b"
  unfolding aad_ok by (clarify, drule (1) marshal_same; simp)+

text \<open>C31: the associated data of a wrapped data key determines the key id, the
  scope, the row and the user it was built from, and that of a payload the scope,
  the row and the user, whatever bytes the ids hold; and no payload, wrap or
  bundle associated data equals one of another kind.\<close>

theorem aad_binds_its_inputs:
  assumes "CanonicalDEKWrapAAD a = Inr w" "CanonicalPayloadAAD p = Inr q"
    and "CanonicalBundleAAD k = Inr u"
  shows "(\<forall>a'. CanonicalDEKWrapAAD a' = Inr w \<longrightarrow> a' = a) \<and>
    (\<forall>p'. CanonicalPayloadAAD p' = Inr q \<longrightarrow>
       aClerkUserID p' = aClerkUserID p \<and> aScope p' = aScope p \<and> aID p' = aID p) \<and>
    (\<forall>k'. CanonicalBundleAAD k' = Inr u \<longrightarrow> k' = k) \<and>
    w \<noteq> q \<and> w \<noteq> u \<and> q \<noteq> u"
  using assms wrap_same payload_same bundle_same aad_kinds_differ by blast

definition kidA :: string where "kidA = ''0123456789abcdef0123456789abcdef''"

theorem aad_binds_its_inputs_witness:
  "\<exists>w q u. CanonicalDEKWrapAAD \<lparr>aKeyIDHex = kidA, aScope = ScopeChat, aID = ''c1'', aClerkUserID = ''u1''\<rparr> = Inr w \<and>
     CanonicalPayloadAAD \<lparr>aKeyIDHex = [], aScope = ScopeChat, aID = ''c1'', aClerkUserID = ''u1''\<rparr> = Inr q \<and>
     CanonicalBundleAAD \<lparr>bClerkUserID = ''u1'', bKeyIDHex = kidA, bCredentialID = ''k''\<rparr> = Inr u \<and>
     w \<noteq> q \<and> w \<noteq> u \<and> q \<noteq> u"
proof -
  let ?a = "\<lparr>aKeyIDHex = kidA, aScope = ScopeChat, aID = ''c1'', aClerkUserID = ''u1''\<rparr>"
  let ?p = "\<lparr>aKeyIDHex = [], aScope = ScopeChat, aID = ''c1'', aClerkUserID = ''u1''\<rparr>"
  let ?k = "\<lparr>bClerkUserID = ''u1'', bKeyIDHex = kidA, bCredentialID = ''k''\<rparr>"
  have "\<exists>w. CanonicalDEKWrapAAD ?a = Inr w" "\<exists>q. CanonicalPayloadAAD ?p = Inr q"
    "\<exists>u. CanonicalBundleAAD ?k = Inr u"
    by (simp_all add: aad_defs marshal_flat scopeValid_def kidA_def isLowerHex_def byte_val_def
          ScopeChat_def ScopeProfile_def)
  then show ?thesis using aad_binds_its_inputs [of ?a _ ?p _ ?k] by blast
qed

text \<open>The associated data of a payload does not depend on the key id, which
  is what lets a rewrap reseal the data key alone; and the builders refuse exactly
  the inputs that name no valid scope, no user, no row, another profile row than
  the singleton or, for a wrap, a key id that is not 32 lower-case hex digits.\<close>

theorem aad_error_branches:
  "(CanonicalPayloadAAD (a\<lparr>aKeyIDHex := k\<rparr>) = CanonicalPayloadAAD a) \<and>
   (CanonicalPayloadAAD a = Inl ErrAADInvalid \<longleftrightarrow>
      \<not> (scopeValid (aScope a) \<and> aClerkUserID a \<noteq> [] \<and> aID a \<noteq> [] \<and>
         (aScope a = ScopeProfile \<longrightarrow> aID a = ProfileSingletonID))) \<and>
   (CanonicalDEKWrapAAD a = Inl ErrAADInvalid \<longleftrightarrow>
      CanonicalPayloadAAD a = Inl ErrAADInvalid \<or>
      \<not> (length (aKeyIDHex a) = 32 \<and> isLowerHex (aKeyIDHex a)))"
  by (auto simp: payload_ignores_kid CanonicalPayloadAAD_def CanonicalDEKWrapAAD_def marshal_flat)

theorem aad_error_branches_witness:
  "CanonicalPayloadAAD \<lparr>aKeyIDHex = [], aScope = ''chat'', aID = ''c'', aClerkUserID = []\<rparr> = Inl ErrAADInvalid"
  using aad_error_branches [where a = "\<lparr>aKeyIDHex = [], aScope = ''chat'', aID = ''c'', aClerkUserID = []\<rparr>"]
  by simp

section \<open>Map entries are written in key order\<close>

lemma sort_key_perm:
  assumes "mset xs = mset ys" "distinct (map fst xs)"
  shows "sort_key fst xs = sort_key fst (ys :: ('a::linorder \<times> 'b) list)"
proof (rule map_inj_on [where f = fst])
  have set_eq: "set xs = set ys" using mset_eq_setD [OF assms(1)] .
  have "distinct (map fst ys)"
    using assms mset_eq_imp_distinct_iff [of "map fst xs" "map fst ys"] by simp
  moreover have "mset (map fst (sort_key fst zs)) = mset (map fst zs)" for zs :: "('a \<times> 'b) list"
    by simp
  ultimately have "distinct (map fst (sort_key fst xs))" "distinct (map fst (sort_key fst ys))"
    using assms(2) mset_eq_imp_distinct_iff by metis+
  then show "map fst (sort_key fst xs) = map fst (sort_key fst ys)"
    by (intro sorted_distinct_set_unique) (auto simp: set_eq)
  show "inj_on fst (set (sort_key fst xs) \<union> set (sort_key fst ys))"
    using assms(2) set_eq by (simp add: distinct_map)
qed

text \<open>A map is written the same whatever order its entries are iterated in.\<close>

lemma write_map_order:
  assumes "mset xs = mset ys" "distinct (map fst xs)"
  shows "writeCanonicalValue g (AMap xs) = writeCanonicalValue g (AMap ys)"
  using sort_key_perm [OF assms] by simp

end
