(* ===== verification/Op_Hash.thy ===== *)
theory Op_Hash
  imports Seal_AAD
begin

text \<open>The operation hash, \<^verbatim>\<open>internal/seal/ophash.go\<close>: the length-prefixed tuple
  a keyed MAC is computed over, and the derived keys.  A length is written as a
  big-endian \<^verbatim>\<open>uint32\<close>, so it wraps at \<open>2 ^ 32\<close>.  HKDF and HMAC are arguments.
  The lemmas show when the tuple determines the operation: below the wrap it does,
  up to the one collision the encoding keeps for compatibility, an absent
  associated data against an empty one.\<close>

section \<open>The encoding\<close>

text \<open>A nil \<^verbatim>\<open>[]byte\<close> is \<^const>\<open>None\<close>; an empty one is \<open>Some []\<close>.\<close>

record CanonicalInput =
  Method :: string
  Path :: string
  KeyIDHex :: string
  IfMatch :: string
  IdempotencyKey :: string
  Body :: "bytes option"
  AADBytes :: "bytes option"
  Envelope :: "bytes option"
  ProfileSyncProtocol :: string

definition sliceBytes :: "bytes option \<Rightarrow> bytes" where
  "sliceBytes b = (case b of None \<Rightarrow> [] | Some x \<Rightarrow> x)"

definition putUint32 :: "32 word \<Rightarrow> bytes" where
  "putUint32 w = map (\<lambda>k. char_of (unat (drop_bit k w) mod 256)) [24, 16, 8, 0]"

definition appendLenPrefixed :: "bytes \<Rightarrow> bytes \<Rightarrow> bytes" where
  "appendLenPrefixed dst b = dst @ putUint32 (word_of_nat (length b)) @ b"

definition AppendCanonical :: "bytes \<Rightarrow> CanonicalInput \<Rightarrow> bytes" where
  "AppendCanonical dst inp =
    (let dst = appendLenPrefixed dst (Method inp);
         dst = appendLenPrefixed dst (Path inp);
         dst = appendLenPrefixed dst (KeyIDHex inp);
         dst = appendLenPrefixed dst (IfMatch inp);
         dst = appendLenPrefixed dst (IdempotencyKey inp);
         dst = appendLenPrefixed dst (sliceBytes (Body inp));
         dst = (if AADBytes inp \<noteq> None \<or> Envelope inp \<noteq> None \<or> ProfileSyncProtocol inp \<noteq> []
                then appendLenPrefixed (appendLenPrefixed dst (sliceBytes (AADBytes inp)))
                       (sliceBytes (Envelope inp))
                else dst)
     in if ProfileSyncProtocol inp \<noteq> [] then appendLenPrefixed dst (ProfileSyncProtocol inp)
        else dst)"

section \<open>Derived keys and the MAC\<close>

definition KeySize :: nat where "KeySize = 32"
definition opHashInfo :: string where "opHashInfo = ''tinfoil-op-hash-v1''"
definition opHashKeySize :: nat where "opHashKeySize = 32"
definition searchIndexKeyInfo :: string where "searchIndexKeyInfo = ''tinfoil-search-index-v1''"
definition searchIndexKeySize :: nat where "searchIndexKeySize = 32"
definition keyIDInfo :: string where "keyIDInfo = ''tinfoil-key-id-v1''"
definition KeyIDSize :: nat where "KeyIDSize = 16"

text \<open>\<open>hkdf ikm info n\<close> is the first \<open>n\<close> bytes of HKDF-SHA-256 with no salt.\<close>

type_synonym hkdf = "bytes \<Rightarrow> bytes \<Rightarrow> nat \<Rightarrow> bytes"

definition DeriveOpHashKey :: "hkdf \<Rightarrow> bytes \<Rightarrow> seal_error + bytes" where
  "DeriveOpHashKey hkdf cek =
    (if length cek \<noteq> KeySize then Inl ErrOpHashKeyMaterial
     else Inr (hkdf cek opHashInfo opHashKeySize))"

definition DeriveSearchIndexKey :: "hkdf \<Rightarrow> bytes \<Rightarrow> seal_error + bytes" where
  "DeriveSearchIndexKey hkdf cek =
    (if length cek \<noteq> KeySize then Inl ErrSearchKeyMaterial
     else Inr (hkdf cek searchIndexKeyInfo searchIndexKeySize))"

definition DeriveKeyID :: "hkdf \<Rightarrow> bytes \<Rightarrow> seal_error + bytes" where
  "DeriveKeyID hkdf key =
    (if length key \<noteq> KeySize then Inl ErrKeySize else Inr (hkdf key keyIDInfo KeyIDSize))"

fun hexEncode :: "bytes \<Rightarrow> string" where
  "hexEncode [] = []"
| "hexEncode (b # bs) = hexDigit (byte_val b div 16) # hexDigit (byte_val b mod 16) # hexEncode bs"

fun hexDecode :: "string \<Rightarrow> bytes option" where
  "hexDecode [] = Some []"
| "hexDecode [c] = None"
| "hexDecode (c # d # s) =
     (case (fromHexChar c, fromHexChar d) of
        (Some h, Some l) \<Rightarrow> map_option (Cons (char_of (16 * h + l))) (hexDecode s)
      | _ \<Rightarrow> None)"

definition keyIDHexOf :: "bytes \<Rightarrow> string" where
  "keyIDHexOf kid = hexEncode kid"

definition ParseKeyIDHex :: "string \<Rightarrow> seal_error + bytes" where
  "ParseKeyIDHex s =
    (if length s \<noteq> KeyIDSize * 2 then Inl ErrKeyIDSize
     else case hexDecode s of None \<Rightarrow> Inl ErrHex | Some b \<Rightarrow> Inr b)"

definition sha256Size :: nat where "sha256Size = 32"

definition ComputeOperationHash :: "(bytes \<Rightarrow> bytes \<Rightarrow> bytes) \<Rightarrow> bytes \<Rightarrow> CanonicalInput \<Rightarrow> string" where
  "ComputeOperationHash hmac opKey inp = hexEncode (hmac opKey (AppendCanonical [] inp))"

definition VerifyOperationHash ::
  "hkdf \<Rightarrow> (bytes \<Rightarrow> bytes \<Rightarrow> bytes) \<Rightarrow> bytes \<Rightarrow> string \<Rightarrow> CanonicalInput \<Rightarrow> seal_error + bool" where
  "VerifyOperationHash hkdf hmac cek provided inp =
    bindR (DeriveOpHashKey hkdf cek) (\<lambda>opKey.
      case hexDecode provided of
        None \<Rightarrow> Inr False
      | Some want \<Rightarrow>
          if length want \<noteq> sha256Size then Inr False
          else Inr (hmac opKey (AppendCanonical [] inp) = want))"

section \<open>Hexadecimal\<close>

lemma hexDecode_hexEncode [simp]: "hexDecode (hexEncode bs) = Some bs"
  by (induction bs) auto

lemma length_hexEncode [simp]: "length (hexEncode bs) = 2 * length bs"
  by (induction bs) auto

lemma length_hexDecode: "hexDecode s = Some bs \<Longrightarrow> length s = 2 * length bs"
  by (induction s arbitrary: bs rule: hexDecode.induct) (auto split: option.splits)

lemma hexDigit_lower: "n < 16 \<Longrightarrow> isLowerHex [hexDigit n]"
  by (erule below_by_enum)
     (simp add: hexDigit_def hexDigits_def isLowerHex_def byte_val_def upt_rec)

lemma isLowerHex_hexEncode [simp]: "isLowerHex (hexEncode bs)"
proof (induction bs)
  case (Cons b bs)
  have "isLowerHex [hexDigit (byte_val b div 16)]" "isLowerHex [hexDigit (byte_val b mod 16)]"
    by (simp_all add: hexDigit_lower)
  with Cons show ?case by (simp add: isLowerHex_def)
qed (simp add: isLowerHex_def)

text \<open>On lower-case input decoding is injective: the encoding is the only spelling.\<close>

lemma hexDigit_fromHexChar:
  "isLowerHex [c] \<Longrightarrow> fromHexChar c = Some n \<Longrightarrow> hexDigit n = c"
proof -
  assume a: "isLowerHex [c]" "fromHexChar c = Some n"
  then have "n < 16" "byte_val c = (if n < 10 then n + 48 else n + 87)"
    by (auto simp: isLowerHex_def fromHexChar_def Let_def split: if_splits)
  moreover have "byte_val (hexDigit m) = (if m < 10 then m + 48 else m + 87)" if "m < 16" for m
    using that
    by (rule below_by_enum) (simp add: hexDigit_def hexDigits_def byte_val_def upt_rec)
  ultimately have "byte_val (hexDigit n) = byte_val c" by simp
  then show ?thesis by simp
qed

lemma hexEncode_hexDecode:
  "isLowerHex s \<Longrightarrow> hexDecode s = Some bs \<Longrightarrow> hexEncode bs = s"
proof (induction s arbitrary: bs rule: hexDecode.induct)
  case (3 c d s)
  then obtain h l t where *: "fromHexChar c = Some h" "fromHexChar d = Some l"
    "hexDecode s = Some t" "bs = char_of (16 * h + l) # t"
    by (auto split: option.splits)
  then have "h < 16" "l < 16" using fromHexChar_less by auto
  then have "byte_val (char_of (16 * h + l)) = 16 * h + l" by (intro byte_val_char_of) simp
  with * 3 \<open>l < 16\<close> show ?case
    by (simp add: isLowerHex_def hexDigit_fromHexChar)
qed auto

section \<open>The tuple determines the operation\<close>

definition lenPrefixed :: "bytes \<Rightarrow> bytes" where
  "lenPrefixed b = appendLenPrefixed [] b"

definition tupleParts :: "CanonicalInput \<Rightarrow> bytes list" where
  "tupleParts inp =
     [Method inp, Path inp, KeyIDHex inp, IfMatch inp, IdempotencyKey inp, sliceBytes (Body inp)] @
     (if AADBytes inp \<noteq> None \<or> Envelope inp \<noteq> None \<or> ProfileSyncProtocol inp \<noteq> []
      then [sliceBytes (AADBytes inp), sliceBytes (Envelope inp)] else []) @
     (if ProfileSyncProtocol inp \<noteq> [] then [ProfileSyncProtocol inp] else [])"

lemma putUint32_beBytes: "putUint32 w = beBytes 4 (unat w)"
proof -
  have "beBytes 4 n = map (\<lambda>k. char_of (n div 2 ^ k mod 256)) [24, 16, 8, 0]" for n
  proof -
    have "beBytes 4 n = beBytes (Suc (Suc (Suc (Suc 0)))) n" by (rule arg_cong2) simp_all
    then show ?thesis by (simp del: char_of_mod_256)
  qed
  then show ?thesis by (simp add: putUint32_def unat_drop_bit_eq drop_bit_eq_div unat_div)
qed

lemma appendLenPrefixed_app: "appendLenPrefixed dst b = dst @ lenPrefixed b"
  by (simp add: appendLenPrefixed_def lenPrefixed_def)

lemma AppendCanonical_parts:
  "AppendCanonical dst inp = dst @ concat (map lenPrefixed (tupleParts inp))"
  by (simp add: AppendCanonical_def tupleParts_def appendLenPrefixed_app Let_def)

definition fits32 :: "bytes \<Rightarrow> bool" where
  "fits32 b \<longleftrightarrow> length b < 2 ^ 32"

interpretation lp: prefix_code lenPrefixed fits32
proof
  show "lenPrefixed b \<noteq> []" for b
    by (simp add: lenPrefixed_def appendLenPrefixed_def putUint32_def)
  fix x y r r' assume ok: "fits32 x" "fits32 y" and eq: "lenPrefixed x @ r = lenPrefixed y @ r'"
  have "unat (word_of_nat (length x) :: 32 word) = length x"
    "unat (word_of_nat (length y) :: 32 word) = length y"
    using ok by (simp_all add: fits32_def unat_of_nat take_bit_nat_eq_self)
  then have "beBytes 4 (length x) @ x @ r = beBytes 4 (length y) @ y @ r'"
    using eq by (simp add: lenPrefixed_def appendLenPrefixed_def putUint32_beBytes)
  then have "beBytes 4 (length x) = beBytes 4 (length y)" and rest: "x @ r = y @ r'"
    using append_eq_len by fastforce+
  then have "length x = length y"
    using ok by (intro beBytes_inj [of _ 4]) (simp_all add: fits32_def)
  with rest show "x = y \<and> r = r'" by simp
qed

definition inputFits :: "CanonicalInput \<Rightarrow> bool" where
  "inputFits inp = list_all fits32 (tupleParts inp)"

text \<open>C32: when every field is shorter than \<open>2 ^ 32\<close> bytes, two operations with the
  same MAC input have the same method, path, key id, precondition, idempotency key,
  body, associated data, envelope and profile protocol (a nil slice counting as an
  empty one): no field can run into the next.\<close>

theorem op_tuple_injective:
  assumes "inputFits a" "inputFits b" "AppendCanonical dst a = AppendCanonical dst b"
  shows "Method a = Method b \<and> Path a = Path b \<and> KeyIDHex a = KeyIDHex b \<and>
    IfMatch a = IfMatch b \<and> IdempotencyKey a = IdempotencyKey b \<and>
    sliceBytes (Body a) = sliceBytes (Body b) \<and>
    sliceBytes (AADBytes a) = sliceBytes (AADBytes b) \<and>
    sliceBytes (Envelope a) = sliceBytes (Envelope b) \<and>
    ProfileSyncProtocol a = ProfileSyncProtocol b"
proof -
  have "tupleParts a = tupleParts b"
    using assms lp.enc_list_cancel [of "tupleParts a" "tupleParts b"]
    by (simp add: inputFits_def AppendCanonical_parts)
  then show ?thesis
    by (auto simp: tupleParts_def sliceBytes_def split: if_splits)
qed

definition opA :: CanonicalInput where
  "opA = \<lparr>Method = ''PUT'', Path = ''/c'', KeyIDHex = ''00'', IfMatch = ''1'', IdempotencyKey = ''k'',
     Body = Some ''b'', AADBytes = Some ''a'', Envelope = None, ProfileSyncProtocol = []\<rparr>"

theorem op_tuple_injective_witness:
  "inputFits opA \<and> inputFits (opA\<lparr>Envelope := Some []\<rparr>) \<and>
   AppendCanonical [] opA = AppendCanonical [] (opA\<lparr>Envelope := Some []\<rparr>) \<and>
   sliceBytes (Envelope opA) = sliceBytes (Envelope (opA\<lparr>Envelope := Some []\<rparr>))"
proof -
  have "inputFits opA" "inputFits (opA\<lparr>Envelope := Some []\<rparr>)"
    "AppendCanonical [] opA = AppendCanonical [] (opA\<lparr>Envelope := Some []\<rparr>)"
    by (simp_all add: inputFits_def tupleParts_def opA_def sliceBytes_def fits32_def
          AppendCanonical_parts)
  then show ?thesis using op_tuple_injective by blast
qed

text \<open>A hash computed for an operation verifies for it under the same key, and,
  when the key is not 32 bytes long, verification fails with its error whatever
  is provided; the MAC is any function that returns 32 bytes.\<close>

theorem verify_computed_hash:
  assumes "\<And>k m. length (hmac k m) = sha256Size" "DeriveOpHashKey hkdf cek = Inr opKey"
  shows "VerifyOperationHash hkdf hmac cek (ComputeOperationHash hmac opKey inp) inp = Inr True"
  using assms by (simp add: VerifyOperationHash_def ComputeOperationHash_def)

definition toyMac :: "bytes \<Rightarrow> bytes \<Rightarrow> bytes" where
  "toyMac k m = replicate 32 (CHR ''m'')"

definition toyHkdf :: hkdf where
  "toyHkdf k i n = take n (i @ k @ replicate n (CHR 0x00))"

theorem verify_computed_hash_witness:
  "VerifyOperationHash toyHkdf toyMac (replicate 32 (CHR ''c''))
     (ComputeOperationHash toyMac (toyHkdf (replicate 32 (CHR ''c'')) opHashInfo 32) opA) opA = Inr True"
  by (rule verify_computed_hash)
     (simp_all add: toyMac_def sha256Size_def DeriveOpHashKey_def KeySize_def opHashKeySize_def)

text \<open>Parsing a key id gives back the bytes it was printed from.\<close>

lemma ParseKeyIDHex_roundtrip:
  "length b = KeyIDSize \<Longrightarrow> ParseKeyIDHex (keyIDHexOf b) = Inr b"
  by (simp add: ParseKeyIDHex_def keyIDHexOf_def)

end
