(* ===== verification/Base64.thy ===== *)
theory Base64
  imports Op_Hash
begin

text \<open>Base64 as \<^verbatim>\<open>encoding/base64\<close> reads and writes it, and the shape check the
  envelope layer adds, \<^verbatim>\<open>isCanonicalStdBase64\<close> of \<^verbatim>\<open>internal/seal/envelope.go\<close>.  The
  decoder skips line breaks and, unless strict, ignores the spare bits of the last
  group; the lemmas show that the check and the strict decoder together leave each
  byte string one spelling.\<close>

section \<open>Alphabets\<close>

definition stdChar :: "nat \<Rightarrow> char" where
  "stdChar n = ''ABCDEFGHIJKLMNOPQRSTUVWXYZabcdefghijklmnopqrstuvwxyz0123456789+/'' ! n"

definition stdVal :: "char \<Rightarrow> nat option" where
  "stdVal c = (let n = byte_val c in
     if 65 \<le> n \<and> n \<le> 90 then Some (n - 65)
     else if 97 \<le> n \<and> n \<le> 122 then Some (n - 71)
     else if 48 \<le> n \<and> n \<le> 57 then Some (n + 4)
     else if n = 43 then Some 62 else if n = 47 then Some 63 else None)"

definition urlVal :: "char \<Rightarrow> nat option" where
  "urlVal c = (if c = CHR ''-'' then Some 62 else if c = CHR ''_'' then Some 63
     else if c = CHR ''+'' \<or> c = CHR ''/'' then None else stdVal c)"

section \<open>Encoding and decoding\<close>

definition padChar :: char where "padChar = CHR ''=''"

fun b64Encode :: "bytes \<Rightarrow> string" where
  "b64Encode [] = []"
| "b64Encode [a] =
     [stdChar (byte_val a div 4), stdChar (byte_val a mod 4 * 16), padChar, padChar]"
| "b64Encode [a, b] =
     [stdChar (byte_val a div 4), stdChar (byte_val a mod 4 * 16 + byte_val b div 16),
      stdChar (byte_val b mod 16 * 4), padChar]"
| "b64Encode (a # b # c # r) =
     stdChar (byte_val a div 4) # stdChar (byte_val a mod 4 * 16 + byte_val b div 16) #
     stdChar (byte_val b mod 16 * 4 + byte_val c div 64) # stdChar (byte_val c mod 64) # b64Encode r"

definition byte1 :: "nat \<Rightarrow> nat \<Rightarrow> char" where
  "byte1 u v = char_of (u * 4 + v div 16)"
definition byte2 :: "nat \<Rightarrow> nat \<Rightarrow> char" where
  "byte2 v w = char_of (v mod 16 * 16 + w div 4)"
definition byte3 :: "nat \<Rightarrow> nat \<Rightarrow> char" where
  "byte3 w x = char_of (w mod 4 * 64 + x)"

definition group2 :: "bool \<Rightarrow> nat \<Rightarrow> nat \<Rightarrow> bytes option" where
  "group2 strict u v = (if strict \<and> v mod 16 \<noteq> 0 then None else Some [byte1 u v])"

definition group3 :: "bool \<Rightarrow> nat \<Rightarrow> nat \<Rightarrow> nat \<Rightarrow> bytes option" where
  "group3 strict u v w = (if strict \<and> w mod 4 \<noteq> 0 then None else Some [byte1 u v, byte2 v w])"

text \<open>\<open>decodeQuanta val padded strict\<close> reads groups of four characters.  A padded
  encoding ends in a full group, a raw one may end in two or three characters.\<close>

fun decodeQuanta :: "(char \<Rightarrow> nat option) \<Rightarrow> bool \<Rightarrow> bool \<Rightarrow> string \<Rightarrow> bytes option" where
  "decodeQuanta vl padded strict [] = Some []"
| "decodeQuanta vl padded strict [c0] = None"
| "decodeQuanta vl padded strict [c0, c1] =
     (if padded then None else
      case (vl c0, vl c1) of (Some u, Some v) \<Rightarrow> group2 strict u v | _ \<Rightarrow> None)"
| "decodeQuanta vl padded strict [c0, c1, c2] =
     (if padded then None else
      case (vl c0, vl c1, vl c2) of (Some u, Some v, Some w) \<Rightarrow> group3 strict u v w | _ \<Rightarrow> None)"
| "decodeQuanta vl padded strict (c0 # c1 # c2 # c3 # r) =
     (case (vl c0, vl c1) of
        (Some u, Some v) \<Rightarrow>
          if padded \<and> c2 = padChar then
            (if c3 = padChar \<and> r = [] then group2 strict u v else None)
          else (case vl c2 of None \<Rightarrow> None
            | Some w \<Rightarrow>
                if padded \<and> c3 = padChar then (if r = [] then group3 strict u v w else None)
                else (case vl c3 of None \<Rightarrow> None
                  | Some x \<Rightarrow> map_option (\<lambda>t. byte1 u v # byte2 v w # byte3 w x # t)
                                (decodeQuanta vl padded strict r)))
      | _ \<Rightarrow> None)"

definition isNewline :: "char \<Rightarrow> bool" where
  "isNewline c \<longleftrightarrow> c = CHR 0x0A \<or> c = CHR 0x0D"

definition b64Decode :: "(char \<Rightarrow> nat option) \<Rightarrow> bool \<Rightarrow> bool \<Rightarrow> string \<Rightarrow> bytes option" where
  "b64Decode vl padded strict s = decodeQuanta vl padded strict (filter (\<lambda>c. \<not> isNewline c) s)"

abbreviation stdDecode :: "string \<Rightarrow> bytes option" where
  "stdDecode \<equiv> b64Decode stdVal True False"
abbreviation stdStrictDecode :: "string \<Rightarrow> bytes option" where
  "stdStrictDecode \<equiv> b64Decode stdVal True True"
abbreviation rawStdDecode :: "string \<Rightarrow> bytes option" where
  "rawStdDecode \<equiv> b64Decode stdVal False False"
abbreviation rawURLDecode :: "string \<Rightarrow> bytes option" where
  "rawURLDecode \<equiv> b64Decode urlVal False False"

definition isStdAlphabet :: "char \<Rightarrow> bool" where
  "isStdAlphabet c = (let n = byte_val c in
     (65 \<le> n \<and> n \<le> 90) \<or> (97 \<le> n \<and> n \<le> 122) \<or> (48 \<le> n \<and> n \<le> 57) \<or> n = 43 \<or> n = 47)"

definition isCanonicalStdBase64 :: "string \<Rightarrow> bool" where
  "isCanonicalStdBase64 s =
    (if length s = 0 \<or> length s mod 4 \<noteq> 0 then False else
     let n = length s;
         pad = (if s ! (n - 1) = padChar then (if s ! (n - 2) = padChar then 2 else 1) else 0)
     in list_all isStdAlphabet (take (n - pad) s))"

section \<open>Values and characters\<close>

lemma stdVal_stdChar [simp]: "n < 64 \<Longrightarrow> stdVal (stdChar n) = Some n"
  by (erule below_by_enum) (simp add: stdChar_def stdVal_def byte_val_def upt_rec)

lemma stdChar_not [simp]:
  "n < 64 \<Longrightarrow> stdChar n \<noteq> padChar \<and> \<not> isNewline (stdChar n) \<and> isStdAlphabet (stdChar n)"
  by (erule below_by_enum)
     (simp add: stdChar_def padChar_def isNewline_def isStdAlphabet_def byte_val_def upt_rec)

lemma stdVal_less: "stdVal c = Some n \<Longrightarrow> n < 64"
  by (auto simp: stdVal_def Let_def split: if_splits)

lemma stdVal_pad [simp]: "stdVal padChar = None"
  by (simp add: stdVal_def padChar_def byte_val_def)

lemma stdVal_alphabet: "isStdAlphabet c \<longleftrightarrow> stdVal c \<noteq> None"
  by (auto simp: isStdAlphabet_def stdVal_def Let_def)

lemma byte_val_stdChar:
  "n < 64 \<Longrightarrow> byte_val (stdChar n) =
     (if n < 26 then n + 65 else if n < 52 then n + 71 else if n < 62 then n - 4 else if n = 62 then 43 else 47)"
  by (erule below_by_enum) (simp add: stdChar_def byte_val_def upt_rec)

lemma stdChar_stdVal: "stdVal c = Some n \<Longrightarrow> stdChar n = c"
proof -
  assume a: "stdVal c = Some n"
  then have "byte_val (stdChar n) = byte_val c"
    using stdVal_less [OF a] by (auto simp: byte_val_stdChar stdVal_def Let_def split: if_splits)
  then show ?thesis by simp
qed

lemma alphabet_no_newline: "isStdAlphabet c \<Longrightarrow> \<not> isNewline c"
  by (auto simp: isStdAlphabet_def isNewline_def byte_val_def Let_def)

section \<open>Decoding what was encoded\<close>

lemma sextet_bounds [simp]:
  "byte_val a div 4 < 64" "byte_val a mod 4 * 16 + byte_val b div 16 < 64"
  "byte_val b mod 16 * 4 + byte_val c div 64 < 64" "byte_val c mod 64 < 64"
  "byte_val a mod 4 * 16 < 64" "byte_val a mod 16 * 4 < 64"
  using byte_val_less [of a] byte_val_less [of b] byte_val_less [of c] by linarith+

lemma bytes_of_sextets [simp]:
  "byte1 (byte_val a div 4) (byte_val a mod 4 * 16) = a"
  "byte1 (byte_val a div 4) (byte_val a mod 4 * 16 + byte_val b div 16) = a"
  "byte2 (byte_val a mod 4 * 16 + byte_val b div 16) (byte_val b mod 16 * 4) = b"
  "byte2 (byte_val a mod 4 * 16 + byte_val b div 16) (byte_val b mod 16 * 4 + byte_val c div 64) = b"
  "byte3 (byte_val b mod 16 * 4 + byte_val c div 64) (byte_val c mod 64) = c"
proof -
  have q16: "(q * 16 + r) div 16 = q" "(q * 16 + r) mod 16 = r" if "r < 16" for q r :: nat
    using that by simp_all
  have q4: "(q * 4 + r) div 4 = q" "(q * 4 + r) mod 4 = r" if "r < 4" for q r :: nat
    using that by simp_all
  have bnd: "byte_val b div 16 < 16" "byte_val c div 64 < 4"
    using byte_val_less [of b] byte_val_less [of c] by linarith+
  have "byte_val a div 4 * 4 + byte_val a mod 4 * 16 div 16 = byte_val a"
    "byte_val a div 4 * 4 + (byte_val a mod 4 * 16 + byte_val b div 16) div 16 = byte_val a"
    "(byte_val a mod 4 * 16 + byte_val b div 16) mod 16 * 16 + byte_val b mod 16 * 4 div 4 = byte_val b"
    "(byte_val a mod 4 * 16 + byte_val b div 16) mod 16 * 16 +
       (byte_val b mod 16 * 4 + byte_val c div 64) div 4 = byte_val b"
    "(byte_val b mod 16 * 4 + byte_val c div 64) mod 4 * 64 + byte_val c mod 64 = byte_val c"
    unfolding q16 [OF bnd(1)] q4 [OF bnd(2)] by simp_all
  then show "byte1 (byte_val a div 4) (byte_val a mod 4 * 16) = a"
    "byte1 (byte_val a div 4) (byte_val a mod 4 * 16 + byte_val b div 16) = a"
    "byte2 (byte_val a mod 4 * 16 + byte_val b div 16) (byte_val b mod 16 * 4) = b"
    "byte2 (byte_val a mod 4 * 16 + byte_val b div 16) (byte_val b mod 16 * 4 + byte_val c div 64) = b"
    "byte3 (byte_val b mod 16 * 4 + byte_val c div 64) (byte_val c mod 64) = c"
    unfolding byte1_def byte2_def byte3_def by (simp_all only: char_of_byte_val)
qed

lemma decodeQuanta_encode: "decodeQuanta stdVal True strict (b64Encode bs) = Some bs"
  by (induction bs rule: b64Encode.induct) (auto simp: group2_def group3_def)

lemma pad_no_newline [simp]: "\<not> isNewline padChar"
  by (simp add: isNewline_def padChar_def)

lemma encode_no_newline: "filter (\<lambda>c. \<not> isNewline c) (b64Encode bs) = b64Encode bs"
  by (induction bs rule: b64Encode.induct) auto

lemma stdDecode_encode [simp]: "b64Decode stdVal True strict (b64Encode bs) = Some bs"
  by (simp add: b64Decode_def encode_no_newline decodeQuanta_encode)

lemma b64Encode_length: "length (b64Encode bs) mod 4 = 0" "bs \<noteq> [] \<Longrightarrow> b64Encode bs \<noteq> []"
  by (induction bs rule: b64Encode.induct) auto

lemma b64Encode_shape:
  "\<exists>p. p \<le> 2 \<and> (\<exists>t. b64Encode bs = t @ replicate p padChar \<and> list_all isStdAlphabet t)"
proof (induction bs rule: b64Encode.induct)
  case 1
  then show ?case by (intro exI [of _ 0]) simp
next
  case (2 a)
  show ?case by (intro exI [of _ 2] conjI exI [of _ "[stdChar (byte_val a div 4), stdChar (byte_val a mod 4 * 16)]"])
    (simp_all add: numeral_2_eq_2)
next
  case (3 a b)
  show ?case
    by (intro exI [of _ 1] conjI exI [of _ "[stdChar (byte_val a div 4),
        stdChar (byte_val a mod 4 * 16 + byte_val b div 16), stdChar (byte_val b mod 16 * 4)]"]) simp_all
next
  case (4 a b c r)
  then obtain p t where "p \<le> 2" "b64Encode r = t @ replicate p padChar" "list_all isStdAlphabet t"
    by blast
  then show ?case
    by (intro exI [of _ p] conjI exI [of _ "stdChar (byte_val a div 4) #
        stdChar (byte_val a mod 4 * 16 + byte_val b div 16) #
        stdChar (byte_val b mod 16 * 4 + byte_val c div 64) # stdChar (byte_val c mod 64) # t"]) simp_all
qed

lemma encode_canonical:
  assumes "bs \<noteq> []"
  shows "isCanonicalStdBase64 (b64Encode bs)"
proof -
  obtain p t where p: "p \<le> 2" "b64Encode bs = t @ replicate p padChar" "list_all isStdAlphabet t"
    using b64Encode_shape by blast
  have ne: "b64Encode bs \<noteq> []" "length (b64Encode bs) mod 4 = 0"
    using assms b64Encode_length by auto
  have al: "\<not> isStdAlphabet padChar" by (simp add: stdVal_alphabet)
  have le: "length t \<ge> 2"
  proof -
    have "length (b64Encode bs) \<ge> 4"
      using ne dvd_imp_le [of 4 "length (b64Encode bs)"] by (simp add: mod_eq_0_iff_dvd)
    then show ?thesis using p by simp
  qed
  have nth: "t ! i \<noteq> padChar" if "i < length t" for i
    using p(3) al that by (auto simp: list_all_length)
  consider "p = 0" | "p = 1" | "p = 2" using p(1) by linarith
  then show ?thesis
  proof cases
    case 1
    with p ne le nth [of "length t - 1"] show ?thesis by (simp add: isCanonicalStdBase64_def)
  next
    case 2
    with p ne le nth [of "length t - 1"] show ?thesis
      by (simp add: isCanonicalStdBase64_def nth_append)
  next
    case 3
    with p ne le show ?thesis by (simp add: isCanonicalStdBase64_def nth_append numeral_2_eq_2)
  qed
qed

section \<open>Strict decoding leaves one spelling\<close>

lemma byte_val_bytes:
  "u < 64 \<Longrightarrow> v < 64 \<Longrightarrow> byte_val (byte1 u v) = u * 4 + v div 16"
  "v < 64 \<Longrightarrow> w < 64 \<Longrightarrow> byte_val (byte2 v w) = v mod 16 * 16 + w div 4"
  "w < 64 \<Longrightarrow> x < 64 \<Longrightarrow> byte_val (byte3 w x) = w mod 4 * 64 + x"
  unfolding byte1_def byte2_def byte3_def by (rule byte_val_char_of, linarith)+

lemma sextets_of_bytes:
  assumes "u < 64" "v < 64" "w < 64" "x < 64"
  shows "byte_val (byte1 u v) div 4 = u"
    "v mod 16 = 0 \<Longrightarrow> byte_val (byte1 u v) mod 4 * 16 = v"
    "byte_val (byte1 u v) mod 4 * 16 + byte_val (byte2 v w) div 16 = v"
    "w mod 4 = 0 \<Longrightarrow> byte_val (byte2 v w) mod 16 * 4 = w"
    "byte_val (byte2 v w) mod 16 * 4 + byte_val (byte3 w x) div 64 = w"
    "byte_val (byte3 w x) mod 64 = x"
  using assms by (simp_all add: byte_val_bytes) presburger+

lemma strict_unique_quanta:
  "decodeQuanta stdVal True True s = Some bs \<Longrightarrow> b64Encode bs = s"
proof (induction stdVal True True s arbitrary: bs rule: decodeQuanta.induct)
  case (5 c0 c1 c2 c3 r)
  obtain u v where uv: "stdVal c0 = Some u" "stdVal c1 = Some v" "u < 64" "v < 64"
    using 5(2) stdVal_less by (auto split: option.splits)
  note c01 = stdChar_stdVal [OF uv(1)] stdChar_stdVal [OF uv(2)]
  show ?case
  proof (cases "c2 = padChar")
    case True
    with 5(2) uv have "c3 = padChar" "r = []" "v mod 16 = 0" "bs = [byte1 u v]"
      by (auto simp: group2_def split: if_splits)
    with True uv c01 show ?thesis by (simp add: sextets_of_bytes)
  next
    case False
    with 5(2) uv obtain w where w: "stdVal c2 = Some w" "w < 64"
      using stdVal_less by (auto split: option.splits)
    note c2 = stdChar_stdVal [OF w(1)]
    show ?thesis
    proof (cases "c3 = padChar")
      case True
      with 5(2) uv w False have "r = []" "w mod 4 = 0" "bs = [byte1 u v, byte2 v w]"
        by (auto simp: group3_def split: if_splits)
      with True uv w c01 c2 show ?thesis by (simp add: sextets_of_bytes)
    next
      case c3: False
      with 5(2) uv w False obtain x t where x: "stdVal c3 = Some x"
        "decodeQuanta stdVal True True r = Some t" "bs = byte1 u v # byte2 v w # byte3 w x # t"
        by (auto split: option.splits)
      have "b64Encode t = r" using 5(1) [OF refl uv(1,2) _ w(1) _ x(1) x(2)] False c3 by simp
      with x stdVal_less [OF x(1)] stdChar_stdVal [OF x(1)] uv w c01 c2 show ?thesis
        by (simp add: sextets_of_bytes)
    qed
  qed
qed auto

lemma canonical_no_newline:
  assumes "isCanonicalStdBase64 s"
  shows "filter (\<lambda>c. \<not> isNewline c) s = s"
proof -
  define n where "n = length s"
  define pad where "pad = (if s ! (n - 1) = padChar then (if s ! (n - 2) = padChar then 2 else 1) else (0::nat))"
  have "n > 0" "4 dvd n" and al: "list_all isStdAlphabet (take (n - pad) s)"
    using assms by (auto simp: isCanonicalStdBase64_def n_def pad_def Let_def split: if_splits)
  then have n: "n \<ge> 2" using dvd_imp_le [of 4 n] by simp
  have "\<not> isNewline (s ! i)" if i: "i < n" for i
  proof (cases "i < n - pad")
    case True
    then show ?thesis using al alphabet_no_newline by (auto simp: list_all_length n_def)
  next
    case False
    then have "i = n - 1 \<or> i = n - 2" "i \<ge> n - pad" using i by (auto simp: pad_def split: if_splits)
    then have "s ! i = padChar" using i n False by (auto simp: pad_def split: if_splits)
    then show ?thesis by simp
  qed
  then show ?thesis unfolding filter_id_conv by (metis in_set_conv_nth n_def)
qed

lemma canonical_unique:
  assumes "isCanonicalStdBase64 s" "stdStrictDecode s = Some bs"
  shows "s = b64Encode bs"
  using assms strict_unique_quanta [of s bs] by (simp add: b64Decode_def canonical_no_newline)

end
