(* ===== verification/Envelope.thy ===== *)
theory Envelope
  imports Base64
begin

text \<open>Sealed rows and shares, \<^verbatim>\<open>internal/seal/envelope.go\<close>, \<^verbatim>\<open>aesgcm.go\<close> and
  \<^verbatim>\<open>share.go\<close>.  AES-GCM, gzip and \<^verbatim>\<open>encoding/json\<close> are the functions of a record the
  operations take; random bytes are arguments, \<^const>\<open>None\<close> where reading them fails.
  The lemmas show that what is encrypted decrypts to itself under the same key and
  row, that an envelope that decrypts is one the writer could have produced, and
  that every failure is an error value.\<close>

section \<open>What the sealing layer calls\<close>

record V2 =
  vV :: int
  vAlg :: string
  vKID :: string
  vWDEK :: string
  vWIV :: string
  vIV :: string
  vCT :: string

text \<open>\<open>inflate\<close> is what a gzip reader yields before it stops, and whether it stopped
  at the end of the stream; \<^const>\<open>None\<close> is a header that does not parse.  \<open>probeV2\<close>,
  \<open>probeV0\<close> and \<open>unmarshalV0\<close> decode into the structs of the same names, an absent
  pointer field being \<^const>\<open>None\<close>.\<close>

record codec =
  aeadSeal :: "bytes \<Rightarrow> bytes \<Rightarrow> bytes \<Rightarrow> bytes \<Rightarrow> bytes"
  aeadOpen :: "bytes \<Rightarrow> bytes \<Rightarrow> bytes \<Rightarrow> bytes \<Rightarrow> bytes option"
  deflate :: "bytes \<Rightarrow> bytes"
  inflate :: "bytes \<Rightarrow> (bytes \<times> bool) option"
  marshalV2 :: "V2 \<Rightarrow> bytes"
  unmarshalV2 :: "bytes \<Rightarrow> V2 option"
  probeV2 :: "bytes \<Rightarrow> int option"
  probeV0 :: "bytes \<Rightarrow> (int option \<times> string option \<times> string option) option"
  unmarshalV0 :: "bytes \<Rightarrow> (string \<times> string) option"

definition NonceSize :: nat where "NonceSize = 12"
definition TagSize :: nat where "TagSize = 16"
definition MaxPlaintextBytes :: nat where "MaxPlaintextBytes = 32 * 1024 * 1024"
definition MaxSharePlaintextBytes :: nat where "MaxSharePlaintextBytes = 32 * 2 ^ 20"
definition MaxShareBytes :: nat where "MaxShareBytes = MaxSharePlaintextBytes + 2 ^ 20"

datatype Version = VersionUnknown | VersionV0 | VersionV1 | VersionV2

definition GCMSeal :: "codec \<Rightarrow> bytes option \<Rightarrow> bytes \<Rightarrow> bytes \<Rightarrow> bytes \<Rightarrow> seal_error + (bytes \<times> bytes)" where
  "GCMSeal C rnd key plaintext aad =
    (if length key \<noteq> KeySize then Inl ErrKeySize else
     case rnd of None \<Rightarrow> Inl ErrRandom
     | Some nonce \<Rightarrow> Inr (nonce, aeadSeal C key nonce plaintext aad))"

definition GCMOpen :: "codec \<Rightarrow> bytes \<Rightarrow> bytes \<Rightarrow> bytes \<Rightarrow> bytes \<Rightarrow> seal_error + bytes" where
  "GCMOpen C key nonce ciphertext aad =
    (if length key \<noteq> KeySize then Inl ErrKeySize
     else if length nonce \<noteq> NonceSize then Inl ErrCipher
     else case aeadOpen C key nonce ciphertext aad of None \<Rightarrow> Inl ErrCipher | Some p \<Rightarrow> Inr p)"

definition RandomKey :: "bytes option \<Rightarrow> seal_error + bytes" where
  "RandomKey rnd = (case rnd of None \<Rightarrow> Inl ErrRandom | Some k \<Rightarrow> Inr k)"

text \<open>Reading through \<^verbatim>\<open>io.LimitReader(gz, max + 1)\<close>: a stream longer than the limit is
  cut there before any error behind it is met.\<close>

definition gunzip :: "codec \<Rightarrow> bytes \<Rightarrow> seal_error + bytes" where
  "gunzip C z = (case inflate C z of None \<Rightarrow> Inl ErrGzip
     | Some (out, ok) \<Rightarrow>
         if length out > MaxPlaintextBytes then Inl ErrDecompressedTooLarge
         else if \<not> ok then Inl ErrGzip
         else Inr out)"

section \<open>Telling the formats apart\<close>

definition looksLikeV2 :: "codec \<Rightarrow> bytes \<Rightarrow> bool" where
  "looksLikeV2 C blob = (case probeV2 C blob of None \<Rightarrow> False | Some v \<Rightarrow> v = 2)"

definition looksLikeV0 :: "codec \<Rightarrow> bytes \<Rightarrow> bool" where
  "looksLikeV0 C blob = (case probeV0 C blob of None \<Rightarrow> False
     | Some (v, iv, data) \<Rightarrow> if v \<noteq> None then False else iv \<noteq> None \<and> data \<noteq> None)"

definition Detect :: "codec \<Rightarrow> bytes \<Rightarrow> Version" where
  "Detect C blob =
    (if length blob = 0 then VersionUnknown
     else if looksLikeV2 C blob then VersionV2
     else if looksLikeV0 C blob then VersionV0
     else if length blob \<ge> NonceSize + TagSize then VersionV1
     else VersionUnknown)"

section \<open>Version 2\<close>

record Key =
  kBytes :: bytes
  kKeyIDHex :: string

record DecryptResult =
  dPlaintext :: bytes
  dKeyIDHex :: string
  dVersion :: Version
  dNeedsRewrap :: bool

text \<open>\<open>rk\<close>, \<open>rp\<close> and \<open>rw\<close> are the bytes read for the data key, the payload nonce and
  the wrap nonce.\<close>

definition EncryptWith ::
  "codec \<Rightarrow> bytes option \<Rightarrow> bytes option \<Rightarrow> bytes option \<Rightarrow> bytes \<Rightarrow> bytes \<Rightarrow> AAD \<Rightarrow> seal_error + bytes" where
  "EncryptWith C rk rp rw key plaintext aad =
    (if length key \<noteq> KeySize then Inl ErrKeySize else
     bindR (CanonicalPayloadAAD aad) (\<lambda>payloadAAD.
     bindR (CanonicalDEKWrapAAD aad) (\<lambda>wrapAAD.
     if length plaintext > MaxPlaintextBytes then Inl ErrPlaintextTooLarge else
     bindR (RandomKey rk) (\<lambda>dek.
     bindR (GCMSeal C rp dek (deflate C plaintext) payloadAAD) (\<lambda>(payloadIV, payloadCT).
     bindR (GCMSeal C rw key dek wrapAAD) (\<lambda>(wrapIV, wrappedDEK).
     Inr (marshalV2 C \<lparr>vV = 2, vAlg = AlgAESGCM, vKID = aKeyIDHex aad,
       vWDEK = b64Encode wrappedDEK, vWIV = hexEncode wrapIV,
       vIV = hexEncode payloadIV, vCT = b64Encode payloadCT\<rparr>)))))))"

definition decodeField :: "'a option \<Rightarrow> seal_error + 'a" where
  "decodeField x = (case x of None \<Rightarrow> Inl ErrV2Malformed | Some b \<Rightarrow> Inr b)"

text \<open>The checks on the fields of an envelope, in the order of the code.\<close>

definition parseV2 :: "V2 \<Rightarrow> seal_error + (bytes \<times> bytes \<times> bytes \<times> bytes)" where
  "parseV2 env =
    (if vV env \<noteq> 2 then Inl ErrV2Malformed
     else if vAlg env \<noteq> AlgAESGCM then Inl ErrUnsupportedAlg
     else if length (vKID env) \<noteq> 32 \<or> \<not> isLowerHex (vKID env) then Inl ErrV2Malformed
     else if length (vIV env) \<noteq> NonceSize * 2 \<or> length (vWIV env) \<noteq> NonceSize * 2 then Inl ErrV2Malformed
     else bindR (decodeField (hexDecode (vIV env))) (\<lambda>iv.
          bindR (decodeField (hexDecode (vWIV env))) (\<lambda>wrapIV.
          if \<not> isCanonicalStdBase64 (vCT env) \<or> \<not> isCanonicalStdBase64 (vWDEK env)
          then Inl ErrV2Malformed
          else bindR (decodeField (stdStrictDecode (vCT env))) (\<lambda>ct.
               bindR (decodeField (stdStrictDecode (vWDEK env))) (\<lambda>wrappedDEK.
               Inr (iv, wrapIV, ct, wrappedDEK))))))"

definition DecryptV2 :: "codec \<Rightarrow> bytes \<Rightarrow> Key list \<Rightarrow> AAD \<Rightarrow> seal_error + DecryptResult" where
  "DecryptV2 C blob ks aad =
    bindR (decodeField (unmarshalV2 C blob)) (\<lambda>env.
    bindR (parseV2 env) (\<lambda>(iv, wrapIV, ct, wrappedDEK).
    case find (\<lambda>k. kKeyIDHex k = vKID env) ks of
      None \<Rightarrow> Inl ErrNoMatchingKey
    | Some k \<Rightarrow>
        bindR (CanonicalDEKWrapAAD \<lparr>aKeyIDHex = vKID env, aScope = aScope aad, aID = aID aad,
                                    aClerkUserID = aClerkUserID aad\<rparr>) (\<lambda>wrapAAD.
        bindR (GCMOpen C (kBytes k) wrapIV wrappedDEK wrapAAD) (\<lambda>dek.
        if length dek \<noteq> KeySize then Inl ErrV2Malformed else
        bindR (CanonicalPayloadAAD aad) (\<lambda>payloadAAD.
        bindR (GCMOpen C dek iv ct payloadAAD) (\<lambda>compressed.
        case gunzip C compressed of
          Inl e \<Rightarrow> Inl ErrV2Malformed
        | Inr pt \<Rightarrow> Inr \<lparr>dPlaintext = pt, dKeyIDHex = vKID env, dVersion = VersionV2,
                         dNeedsRewrap = False\<rparr>))))))"

section \<open>Legacy versions\<close>

definition firstDecode :: "nat \<Rightarrow> bytes option list \<Rightarrow> bytes option" where
  "firstDecode want ds = (case find (\<lambda>d. case d of None \<Rightarrow> False | Some b \<Rightarrow> length b = want) ds of
     None \<Rightarrow> None | Some d \<Rightarrow> d)"

definition decodeBase64OrHex :: "string \<Rightarrow> nat \<Rightarrow> seal_error + bytes" where
  "decodeBase64OrHex s want =
    (case firstDecode want [stdDecode s, rawStdDecode s, rawURLDecode s, hexDecode s] of
       None \<Rightarrow> Inl ErrIVEncoding | Some b \<Rightarrow> Inr b)"

fun tryKeysV0 :: "codec \<Rightarrow> bytes \<Rightarrow> bytes \<Rightarrow> Key list \<Rightarrow> seal_error + DecryptResult" where
  "tryKeysV0 C iv ct [] = Inl ErrLegacyDecrypt"
| "tryKeysV0 C iv ct (k # ks) =
    (if length (kBytes k) \<noteq> KeySize then tryKeysV0 C iv ct ks else
     case GCMOpen C (kBytes k) iv ct [] of
       Inr pt \<Rightarrow> Inr \<lparr>dPlaintext = pt, dKeyIDHex = kKeyIDHex k, dVersion = VersionV0, dNeedsRewrap = True\<rparr>
     | Inl e \<Rightarrow> tryKeysV0 C iv ct ks)"

definition decryptV0 :: "codec \<Rightarrow> bytes \<Rightarrow> Key list \<Rightarrow> seal_error + DecryptResult" where
  "decryptV0 C blob ks = (case unmarshalV0 C blob of None \<Rightarrow> Inl ErrV0Malformed
     | Some (riv, rdata) \<Rightarrow>
        if riv = [] \<or> rdata = [] then Inl ErrV0Malformed else
        (case decodeBase64OrHex riv NonceSize of Inl e \<Rightarrow> Inl ErrV0Malformed
         | Inr iv \<Rightarrow>
            (case stdDecode rdata of
               Some ct \<Rightarrow> tryKeysV0 C iv ct ks
             | None \<Rightarrow> (case rawURLDecode rdata of
                 None \<Rightarrow> Inl ErrV0Malformed
               | Some ct \<Rightarrow> tryKeysV0 C iv ct ks))))"

fun tryKeysV1 :: "codec \<Rightarrow> bytes \<Rightarrow> bytes \<Rightarrow> Key list \<Rightarrow> seal_error + DecryptResult" where
  "tryKeysV1 C iv ct [] = Inl ErrLegacyDecrypt"
| "tryKeysV1 C iv ct (k # ks) =
    (if length (kBytes k) \<noteq> KeySize then tryKeysV1 C iv ct ks else
     case GCMOpen C (kBytes k) iv ct [] of
       Inl e \<Rightarrow> tryKeysV1 C iv ct ks
     | Inr compressed \<Rightarrow>
        (case gunzip C compressed of Inl e \<Rightarrow> Inl ErrV1Malformed
         | Inr pt \<Rightarrow> Inr \<lparr>dPlaintext = pt, dKeyIDHex = kKeyIDHex k, dVersion = VersionV1, dNeedsRewrap = True\<rparr>))"

definition decryptV1 :: "codec \<Rightarrow> bytes \<Rightarrow> Key list \<Rightarrow> seal_error + DecryptResult" where
  "decryptV1 C blob ks =
    (if length blob < NonceSize + TagSize then Inl ErrV1Malformed
     else tryKeysV1 C (take NonceSize blob) (drop NonceSize blob) ks)"

definition DecryptLegacy :: "codec \<Rightarrow> bytes \<Rightarrow> Key list \<Rightarrow> seal_error + DecryptResult" where
  "DecryptLegacy C blob ks = (case Detect C blob of
     VersionV0 \<Rightarrow> decryptV0 C blob ks
   | VersionV1 \<Rightarrow> decryptV1 C blob ks
   | _ \<Rightarrow> Inl ErrUnknownFormat)"

section \<open>Shares\<close>

definition SealShare :: "codec \<Rightarrow> bytes option \<Rightarrow> bytes option \<Rightarrow> bytes \<Rightarrow> seal_error + (bytes \<times> string)" where
  "SealShare C rk rn plaintext =
    (if length plaintext > MaxSharePlaintextBytes then Inl ErrShareTooLarge else
     bindR (RandomKey rk) (\<lambda>key.
     bindR (GCMSeal C rn key (deflate C plaintext) []) (\<lambda>(nonce, ciphertext).
     let sealed = nonce @ ciphertext in
     if length sealed > MaxShareBytes then Inl ErrShareTooLarge
     else Inr (sealed, hexEncode key))))"

definition OpenShare :: "codec \<Rightarrow> string \<Rightarrow> bytes \<Rightarrow> seal_error + bytes" where
  "OpenShare C key ciphertext =
    (if length key \<noteq> KeySize * 2 \<or> length ciphertext < NonceSize + TagSize \<or> length ciphertext > MaxShareBytes
     then Inl ErrShareInvalid else
     case hexDecode key of None \<Rightarrow> Inl ErrShareInvalid
     | Some raw \<Rightarrow>
        (case GCMOpen C raw (take NonceSize ciphertext) (drop NonceSize ciphertext) [] of
           Inl e \<Rightarrow> Inl ErrShareInvalid
         | Inr compressed \<Rightarrow>
            (case inflate C compressed of None \<Rightarrow> Inl ErrShareInvalid
             | Some (out, ok) \<Rightarrow>
                 if length out > MaxSharePlaintextBytes \<or> \<not> ok then Inl ErrShareInvalid
                 else Inr out)))"

section \<open>What the codec is relied on for\<close>

text \<open>The documented behaviour of the libraries: AES-GCM opens what it sealed and adds
  a tag, gzip inflates what it deflated, and JSON reads back a version 2 envelope whose
  fields are ASCII.  \<open>openTidy\<close> is that GCM decryption is deterministic: a ciphertext that
  opens is the one that sealing the plaintext gives.\<close>

definition ascii :: "string \<Rightarrow> bool" where
  "ascii s = list_all (\<lambda>c. byte_val c < 128) s"

definition asciiV2 :: "V2 \<Rightarrow> bool" where
  "asciiV2 e \<longleftrightarrow> vV e = 2 \<and> ascii (vAlg e) \<and> ascii (vKID e) \<and> ascii (vWDEK e) \<and> ascii (vWIV e) \<and>
     ascii (vIV e) \<and> ascii (vCT e)"

definition codecLaws :: "codec \<Rightarrow> bool" where
  "codecLaws C \<longleftrightarrow>
     (\<forall>k n p a. length k = KeySize \<longrightarrow> length n = NonceSize \<longrightarrow>
        aeadOpen C k n (aeadSeal C k n p a) a = Some p) \<and>
     (\<forall>k n p a. length (aeadSeal C k n p a) = length p + TagSize) \<and>
     (\<forall>p. inflate C (deflate C p) = Some (p, True)) \<and>
     (\<forall>e. asciiV2 e \<longrightarrow> unmarshalV2 C (marshalV2 C e) = Some e) \<and>
     (\<forall>e. asciiV2 e \<longrightarrow> probeV2 C (marshalV2 C e) = Some (vV e)) \<and>
     (\<forall>e. marshalV2 C e \<noteq> [])"

definition openTidy :: "codec \<Rightarrow> bool" where
  "openTidy C \<longleftrightarrow> (\<forall>k n c a p. aeadOpen C k n c a = Some p \<longrightarrow> c = aeadSeal C k n p a)"

lemma ascii_lowerHex: "isLowerHex s \<Longrightarrow> ascii s"
  by (auto simp: isLowerHex_def ascii_def list_all_iff Let_def)

lemma ascii_alg [simp]: "ascii AlgAESGCM"
  by (simp add: AlgAESGCM_def ascii_def byte_val_def)

lemma ascii_b64Encode [simp]: "ascii (b64Encode bs)"
proof -
  obtain p t where t: "b64Encode bs = t @ replicate p padChar" "list_all isStdAlphabet t"
    using b64Encode_shape by blast
  have "isStdAlphabet c \<Longrightarrow> byte_val c < 128" for c by (auto simp: isStdAlphabet_def Let_def)
  then show ?thesis using t by (auto simp: ascii_def list_all_iff padChar_def byte_val_def)
qed

lemma ascii_hexEncode [simp]: "ascii (hexEncode bs)"
  by (rule ascii_lowerHex) simp

lemma gunzip_deflate:
  "codecLaws C \<Longrightarrow> length p \<le> MaxPlaintextBytes \<Longrightarrow> gunzip C (deflate C p) = Inr p"
  by (simp add: gunzip_def codecLaws_def)

lemma seal_open:
  "codecLaws C \<Longrightarrow> GCMSeal C rnd k p a = Inr (n, c) \<Longrightarrow> length n = NonceSize \<Longrightarrow> GCMOpen C k n c a = Inr p"
  by (auto simp: GCMSeal_def GCMOpen_def codecLaws_def split: if_splits option.splits)

lemma seal_nonempty: "codecLaws C \<Longrightarrow> GCMSeal C rnd k p a = Inr (n, c) \<Longrightarrow> c \<noteq> [] \<and> rnd = Some n"
proof -
  assume C: "codecLaws C" and s: "GCMSeal C rnd k p a = Inr (n, c)"
  then have "length c = length p + TagSize" "rnd = Some n"
    by (auto simp: GCMSeal_def codecLaws_def split: if_splits option.splits)
  then show ?thesis by (auto simp: TagSize_def)
qed

section \<open>Round trip\<close>

text \<open>The bytes an encryption reads are of the sizes it asks for.\<close>

definition rndOk :: "nat \<Rightarrow> bytes option \<Rightarrow> bool" where
  "rndOk n r = (case r of None \<Rightarrow> True | Some b \<Rightarrow> length b = n)"

lemma parse_written:
  assumes "length kid = 32" "isLowerHex kid" "length iv = NonceSize" "length wiv = NonceSize"
    "ct \<noteq> []" "wdek \<noteq> []"
  shows "parseV2 \<lparr>vV = 2, vAlg = AlgAESGCM, vKID = kid, vWDEK = b64Encode wdek, vWIV = hexEncode wiv,
      vIV = hexEncode iv, vCT = b64Encode ct\<rparr> = Inr (iv, wiv, ct, wdek)"
  using assms by (simp add: parseV2_def decodeField_def encode_canonical)

lemma encrypt_ok:
  assumes "EncryptWith C rk rp rw key pt aad = Inr blob"
  obtains pa wa dek iv ct wiv wd where
    "length key = KeySize" "CanonicalPayloadAAD aad = Inr pa" "CanonicalDEKWrapAAD aad = Inr wa"
    "length pt \<le> MaxPlaintextBytes" "rk = Some dek"
    "GCMSeal C rp dek (deflate C pt) pa = Inr (iv, ct)" "GCMSeal C rw key dek wa = Inr (wiv, wd)"
    "blob = marshalV2 C \<lparr>vV = 2, vAlg = AlgAESGCM, vKID = aKeyIDHex aad, vWDEK = b64Encode wd,
       vWIV = hexEncode wiv, vIV = hexEncode iv, vCT = b64Encode ct\<rparr>"
  using assms
  by (auto simp: EncryptWith_def RandomKey_def result_simps split: if_splits option.splits)

text \<open>C9: an envelope that encryption produced is detected as version 2 and decrypts,
  under a key list whose first key of that id is the one it was sealed with and for
  the same user, scope and row, to the very plaintext, with no rewrap needed.\<close>

theorem encrypt_decrypt_roundtrip:
  assumes "codecLaws C" "EncryptWith C rk rp rw key pt aad = Inr blob"
    and "rndOk KeySize rk" "rndOk NonceSize rp" "rndOk NonceSize rw"
    and "find (\<lambda>k. kKeyIDHex k = aKeyIDHex aad) ks = Some k" "kBytes k = key"
  shows "Detect C blob = VersionV2 \<and>
    DecryptV2 C blob ks aad = Inr \<lparr>dPlaintext = pt, dKeyIDHex = aKeyIDHex aad, dVersion = VersionV2,
      dNeedsRewrap = False\<rparr>"
proof -
  obtain pa wa dek iv ct wiv wd where e:
    "length key = KeySize" "CanonicalPayloadAAD aad = Inr pa" "CanonicalDEKWrapAAD aad = Inr wa"
    "length pt \<le> MaxPlaintextBytes" "rk = Some dek"
    "GCMSeal C rp dek (deflate C pt) pa = Inr (iv, ct)" "GCMSeal C rw key dek wa = Inr (wiv, wd)"
    and blob: "blob = marshalV2 C \<lparr>vV = 2, vAlg = AlgAESGCM, vKID = aKeyIDHex aad, vWDEK = b64Encode wd,
       vWIV = hexEncode wiv, vIV = hexEncode iv, vCT = b64Encode ct\<rparr>" (is "_ = marshalV2 C ?env")
    using assms(2) by (rule encrypt_ok)
  have kid: "length (aKeyIDHex aad) = 32" "isLowerHex (aKeyIDHex aad)"
    using e(3) by (simp_all add: wrap_ok)
  have ne: "ct \<noteq> []" "wd \<noteq> []" "rp = Some iv" "rw = Some wiv"
    using seal_nonempty [OF assms(1)] e(6,7) by blast+
  have len: "length iv = NonceSize" "length wiv = NonceSize" "length dek = KeySize"
    using assms(3-5) ne e(5) by (simp_all add: rndOk_def)
  have asc: "asciiV2 ?env" unfolding asciiV2_def using kid ascii_lowerHex by simp
  have un: "unmarshalV2 C blob = Some ?env" "probeV2 C blob = Some 2" "blob \<noteq> []"
    using assms(1) asc unfolding blob codecLaws_def by auto
  have op: "GCMOpen C dek iv ct pa = Inr (deflate C pt)" "GCMOpen C key wiv wd wa = Inr dek"
    using seal_open [OF assms(1)] e(6,7) len by blast+
  have "Detect C blob = VersionV2" using un by (simp add: Detect_def looksLikeV2_def)
  moreover have "CanonicalDEKWrapAAD \<lparr>aKeyIDHex = aKeyIDHex aad, aScope = aScope aad, aID = aID aad,
      aClerkUserID = aClerkUserID aad\<rparr> = Inr wa" using e(3) by (cases aad) simp
  then have "DecryptV2 C blob ks aad = Inr \<lparr>dPlaintext = pt, dKeyIDHex = aKeyIDHex aad,
      dVersion = VersionV2, dNeedsRewrap = False\<rparr>"
    using parse_written [OF kid len(1,2) ne(1,2)] un(1) op assms(6,7) e(2,3,4) len(3)
      gunzip_deflate [OF assms(1) e(4)]
    by (simp add: DecryptV2_def decodeField_def)
  ultimately show ?thesis ..
qed


section \<open>A codec that satisfies the laws\<close>

text \<open>Sealing appends a tag of zeroes, deflating is the identity, and an envelope is
  printed as its fields with a separator that is not ASCII.\<close>

definition sepChar :: char where "sepChar = CHR 0xFF"

definition cutField :: "string \<Rightarrow> string \<times> string" where
  "cutField s = (takeWhile (\<lambda>c. c \<noteq> sepChar) s, tl (dropWhile (\<lambda>c. c \<noteq> sepChar) s))"

definition plainMarshal :: "V2 \<Rightarrow> bytes" where
  "plainMarshal e = concat (map (\<lambda>f. f @ [sepChar]) [vAlg e, vKID e, vWDEK e, vWIV e, vIV e, vCT e])"

definition plainUnmarshal :: "bytes \<Rightarrow> V2 option" where
  "plainUnmarshal b =
    (let (f1, b) = cutField b; (f2, b) = cutField b; (f3, b) = cutField b; (f4, b) = cutField b;
         (f5, b) = cutField b; (f6, b) = cutField b
     in Some \<lparr>vV = 2, vAlg = f1, vKID = f2, vWDEK = f3, vWIV = f4, vIV = f5, vCT = f6\<rparr>)"

definition plainCodec :: codec where
  "plainCodec = \<lparr>aeadSeal = (\<lambda>k n p a. p @ replicate 16 (CHR 0x00)),
     aeadOpen = (\<lambda>k n c a. if length c \<ge> 16 \<and> drop (length c - 16) c = replicate 16 (CHR 0x00)
                           then Some (take (length c - 16) c) else None),
     deflate = (\<lambda>p. p), inflate = (\<lambda>z. Some (z, True)),
     marshalV2 = plainMarshal, unmarshalV2 = plainUnmarshal, probeV2 = (\<lambda>b. Some 2),
     probeV0 = (\<lambda>b. None), unmarshalV0 = (\<lambda>b. None)\<rparr>"

lemma cutField_app: "ascii s \<Longrightarrow> cutField (s @ sepChar # r) = (s, r)"
proof -
  assume "ascii s"
  then have "\<forall>c\<in>set s. c \<noteq> sepChar" by (auto simp: ascii_def list_all_iff sepChar_def byte_val_def)
  then show ?thesis by (induction s) (auto simp: cutField_def)
qed

lemma plainCodec_laws: "codecLaws plainCodec"
proof -
  have "plainUnmarshal (plainMarshal e) = Some e" if "asciiV2 e" for e
    using that by (cases e) (simp add: plainUnmarshal_def plainMarshal_def asciiV2_def cutField_app)
  moreover have "plainMarshal e \<noteq> []" for e by (simp add: plainMarshal_def)
  ultimately show ?thesis
    by (simp add: codecLaws_def plainCodec_def TagSize_def asciiV2_def)
qed

lemma plainCodec_tidy: "openTidy plainCodec"
  unfolding openTidy_def plainCodec_def
  by (auto split: if_splits) (metis append_take_drop_id)

definition aadX :: AAD where
  "aadX = \<lparr>aKeyIDHex = kidA, aScope = ScopeChat, aID = ''c1'', aClerkUserID = ''u1''\<rparr>"

definition keyX :: Key where
  "keyX = \<lparr>kBytes = replicate 32 (CHR ''k''), kKeyIDHex = kidA\<rparr>"

abbreviation rnd :: "nat \<Rightarrow> bytes option" where
  "rnd n \<equiv> Some (replicate n (CHR ''r''))"

lemma aadX_ok: "\<exists>b. CanonicalPayloadAAD aadX = Inr b" "\<exists>b. CanonicalDEKWrapAAD aadX = Inr b"
  by (simp_all add: aadX_def aad_defs marshal_flat scopeValid_def kidA_def isLowerHex_def byte_val_def
        ScopeChat_def ScopeProfile_def)

lemma encryptX:
  "\<exists>blob. EncryptWith plainCodec (rnd 32) (rnd 12) (rnd 12) (kBytes keyX) ''hello'' aadX = Inr blob"
  using aadX_ok
  by (auto simp: EncryptWith_def RandomKey_def GCMSeal_def keyX_def KeySize_def MaxPlaintextBytes_def)

theorem encrypt_decrypt_roundtrip_witness:
  "\<exists>blob. EncryptWith plainCodec (rnd 32) (rnd 12) (rnd 12) (kBytes keyX) ''hello'' aadX = Inr blob \<and>
     DecryptV2 plainCodec blob [keyX] aadX = Inr \<lparr>dPlaintext = ''hello'', dKeyIDHex = kidA,
       dVersion = VersionV2, dNeedsRewrap = False\<rparr>"
proof -
  obtain blob where b: "EncryptWith plainCodec (rnd 32) (rnd 12) (rnd 12) (kBytes keyX) ''hello'' aadX = Inr blob"
    using encryptX by blast
  have "find (\<lambda>k. kKeyIDHex k = aKeyIDHex aadX) [keyX] = Some keyX" by (simp add: aadX_def keyX_def)
  with encrypt_decrypt_roundtrip [OF plainCodec_laws b, of "[keyX]" keyX] b show ?thesis
    by (simp add: rndOk_def KeySize_def NonceSize_def aadX_def)
qed


section \<open>Shares and legacy rows\<close>

text \<open>A share that was sealed opens, with the key its link carries, to the very
  plaintext.\<close>

theorem share_roundtrip:
  assumes "codecLaws C" "SealShare C rk rn pt = Inr (sealed, key)" "rndOk KeySize rk" "rndOk NonceSize rn"
  shows "OpenShare C key sealed = Inr pt"
proof -
  obtain k n c where s: "length pt \<le> MaxSharePlaintextBytes" "rk = Some k"
    "GCMSeal C rn k (deflate C pt) [] = Inr (n, c)" "length (n @ c) \<le> MaxShareBytes"
    "sealed = n @ c" "key = hexEncode k"
    using assms(2) by (auto simp: SealShare_def RandomKey_def result_simps Let_def split: if_splits option.splits)
  have n: "length n = NonceSize" "length k = KeySize"
    using assms(3,4) s(2) seal_nonempty [OF assms(1) s(3)] by (simp_all add: rndOk_def)
  have c: "length c = length (deflate C pt) + TagSize"
    using assms(1) s(3) by (auto simp: GCMSeal_def codecLaws_def split: if_splits option.splits)
  have "GCMOpen C k n c [] = Inr (deflate C pt)" using seal_open [OF assms(1) s(3) n(1)] .
  moreover have "inflate C (deflate C pt) = Some (pt, True)" using assms(1) by (simp add: codecLaws_def)
  ultimately show ?thesis using s n c by (simp add: OpenShare_def)
qed

theorem share_roundtrip_witness:
  "\<exists>sealed key. SealShare plainCodec (rnd 32) (rnd 12) ''hello'' = Inr (sealed, key) \<and>
     OpenShare plainCodec key sealed = Inr ''hello''"
proof -
  have "\<exists>sealed key. SealShare plainCodec (rnd 32) (rnd 12) ''hello'' = Inr (sealed, key)"
    by (simp add: SealShare_def RandomKey_def GCMSeal_def plainCodec_def KeySize_def
          MaxSharePlaintextBytes_def MaxShareBytes_def)
  then show ?thesis
    using share_roundtrip [OF plainCodec_laws] by (fastforce simp: rndOk_def KeySize_def NonceSize_def)
qed

lemma decodeQuanta_length:
  "decodeQuanta vl padded strict s = Some bs \<Longrightarrow> padChar \<notin> set s \<Longrightarrow> length s mod 4 = 0 \<Longrightarrow>
   length bs * 4 = length s * 3"
proof (induction vl padded strict s arbitrary: bs rule: decodeQuanta.induct)
  case (5 vl padded strict c0 c1 c2 c3 r)
  then obtain t b1 b2 b3 where "decodeQuanta vl padded strict r = Some t" "bs = b1 # b2 # b3 # t"
    by (auto split: option.splits)
  moreover from this 5 have "length t * 4 = length r * 3"
    by (auto split: option.splits)
  ultimately show ?case by simp
qed auto

lemma hexEncode_chars: "padChar \<notin> set (hexEncode bs)" "filter (\<lambda>c. \<not> isNewline c) (hexEncode bs) = hexEncode bs"
proof -
  have "list_all (\<lambda>c. c \<noteq> padChar \<and> \<not> isNewline c) (hexEncode bs)"
    using isLowerHex_hexEncode [of bs]
    by (auto simp: isLowerHex_def list_all_iff padChar_def isNewline_def byte_val_def Let_def)
  then show "padChar \<notin> set (hexEncode bs)" "filter (\<lambda>c. \<not> isNewline c) (hexEncode bs) = hexEncode bs"
    by (auto simp: list_all_iff)
qed

text \<open>An initialisation vector is read back whichever of the two ways the older
  clients wrote it, standard base64 or hex: the hex form is never mistaken for
  base64, because as base64 it would decode to 18 bytes.\<close>

theorem legacy_iv_both_spellings:
  assumes "length iv = NonceSize"
  shows "decodeBase64OrHex (b64Encode iv) NonceSize = Inr iv \<and>
    decodeBase64OrHex (hexEncode iv) NonceSize = Inr iv"
proof -
  have "length b \<noteq> NonceSize" if "b64Decode vl padded False (hexEncode iv) = Some b" for b vl padded
    using that assms decodeQuanta_length [of vl padded False "hexEncode iv" b] hexEncode_chars [of iv]
    by (auto simp: b64Decode_def NonceSize_def)
  then show ?thesis
    using assms by (auto simp: decodeBase64OrHex_def firstDecode_def split: option.splits)
qed

theorem legacy_iv_both_spellings_witness:
  "decodeBase64OrHex (hexEncode ''abcdefghijkl'') NonceSize = Inr ''abcdefghijkl''"
  using legacy_iv_both_spellings [of "''abcdefghijkl''"] by (simp add: NonceSize_def)

text \<open>A legacy row decrypts under the first key of the right size that opens it, and is
  always marked for a rewrap.\<close>

lemma tryKeysV0_first:
  "tryKeysV0 C iv ct ks = Inr r \<Longrightarrow> \<exists>pre k post pt. ks = pre @ k # post \<and>
     list_all (\<lambda>k. length (kBytes k) \<noteq> KeySize \<or> (\<exists>e. GCMOpen C (kBytes k) iv ct [] = Inl e)) pre \<and>
     GCMOpen C (kBytes k) iv ct [] = Inr pt \<and> length (kBytes k) = KeySize \<and>
     r = \<lparr>dPlaintext = pt, dKeyIDHex = kKeyIDHex k, dVersion = VersionV0, dNeedsRewrap = True\<rparr>"
proof (induction ks)
  case (Cons k ks)
  show ?case
  proof (cases "length (kBytes k) = KeySize \<and> (\<exists>pt. GCMOpen C (kBytes k) iv ct [] = Inr pt)")
    case True
    with Cons.prems show ?thesis by (intro exI [of _ "[]"]) auto
  next
    case False
    then have skip: "length (kBytes k) \<noteq> KeySize \<or> (\<exists>e. GCMOpen C (kBytes k) iv ct [] = Inl e)"
      by (cases "GCMOpen C (kBytes k) iv ct []") auto
    then have "tryKeysV0 C iv ct ks = Inr r" using Cons.prems by (auto split: if_splits)
    from Cons.IH [OF this] obtain pre k' post pt where "ks = pre @ k' # post"
      "list_all (\<lambda>k. length (kBytes k) \<noteq> KeySize \<or> (\<exists>e. GCMOpen C (kBytes k) iv ct [] = Inl e)) pre"
      "GCMOpen C (kBytes k') iv ct [] = Inr pt" "length (kBytes k') = KeySize"
      "r = \<lparr>dPlaintext = pt, dKeyIDHex = kKeyIDHex k', dVersion = VersionV0, dNeedsRewrap = True\<rparr>" by blast
    with skip show ?thesis
      by (intro exI [of _ "k # pre"] exI [of _ k'] exI [of _ post] exI [of _ pt]) simp
  qed
qed simp

text \<open>The keys a list offers do not matter past the first that opens the row.\<close>

lemma tryKeysV1_key:
  "tryKeysV1 C iv ct ks = Inr r \<Longrightarrow> \<exists>k\<in>set ks. \<exists>z. GCMOpen C (kBytes k) iv ct [] = Inr z \<and>
     gunzip C z = Inr (dPlaintext r) \<and> dKeyIDHex r = kKeyIDHex k \<and> dVersion r = VersionV1 \<and> dNeedsRewrap r"
  by (induction ks) (auto split: if_splits sum.splits)

text \<open>A legacy row that decrypts was opened by one of the caller's keys, is marked for
  a rewrap, and was not detected as version 2, so a row sealed with associated data is
  never opened without it.\<close>

theorem legacy_needs_rewrap:
  assumes "DecryptLegacy C blob ks = Inr r"
  shows "dNeedsRewrap r \<and> (\<exists>k\<in>set ks. dKeyIDHex r = kKeyIDHex k) \<and> \<not> looksLikeV2 C blob \<and>
    dVersion r = Detect C blob"
proof -
  have nl: "\<not> looksLikeV2 C blob" if "Detect C blob \<noteq> VersionV2" "Detect C blob \<noteq> VersionUnknown"
    using that by (auto simp: Detect_def split: if_splits)
  show ?thesis
  proof (cases "Detect C blob")
    case VersionV0
    then obtain iv ct where "tryKeysV0 C iv ct ks = Inr r"
      using assms by (auto simp: DecryptLegacy_def decryptV0_def split: option.splits if_splits sum.splits)
    from tryKeysV0_first [OF this] VersionV0 nl show ?thesis by auto
  next
    case VersionV1
    then have "tryKeysV1 C (take NonceSize blob) (drop NonceSize blob) ks = Inr r"
      using assms by (auto simp: DecryptLegacy_def decryptV1_def split: if_splits)
    from tryKeysV1_key [OF this] VersionV1 nl show ?thesis by auto
  qed (use assms in \<open>auto simp: DecryptLegacy_def\<close>)
qed

definition plainV1Codec :: codec where
  "plainV1Codec = plainCodec\<lparr>probeV2 := (\<lambda>b. None)\<rparr>"

theorem legacy_needs_rewrap_witness:
  "\<exists>r. DecryptLegacy plainV1Codec (replicate 12 (CHR ''n'') @ ''x'' @ replicate 16 (CHR 0x00)) [keyX] = Inr r \<and>
     dNeedsRewrap r \<and> dVersion r = VersionV1"
proof -
  let ?b = "replicate 12 (CHR ''n'') @ ''x'' @ replicate 16 (CHR 0x00)"
  have d: "Detect plainV1Codec ?b = VersionV1"
    by (simp add: Detect_def plainV1Codec_def plainCodec_def looksLikeV2_def looksLikeV0_def NonceSize_def TagSize_def)
  then obtain r where r: "DecryptLegacy plainV1Codec ?b [keyX] = Inr r"
    by (simp add: DecryptLegacy_def decryptV1_def plainV1Codec_def plainCodec_def keyX_def GCMOpen_def
        gunzip_def KeySize_def NonceSize_def TagSize_def MaxPlaintextBytes_def)
  with legacy_needs_rewrap [OF r] d show ?thesis by auto
qed

end
