(* ===== verification/Frame_Log.thy ===== *)
theory Frame_Log
  imports Prelude "HOL-Library.AList" "HOL-Library.Multiset" "HOL-Library.Sublist"
begin

text \<open>The log of a run's frames, \<^verbatim>\<open>internal/engine/runlog.go\<close>.  Frames are byte
  buffers that a stream may still be sending after the log has let go of them, and
  that the log zeroes, so the model keeps a heap of buffers and refers to them by
  address.  The lemmas show that folding keeps what a follower is shown, that a
  buffer is intact while a stream holds it, and that an ended log leaves no
  plaintext in any of its buffers.\<close>

section \<open>The log\<close>

definition runLogBudget :: nat where "runLogBudget = 32 * 2 ^ 20"
definition mergedFrameBytes :: nat where "mergedFrameBytes = 2 ^ 20"

datatype frameKind = frameKept | frameDelta | frameActivity

record entry =
  edata :: nat
  ekind :: frameKind
  ekey :: string

record FrameLog =
  base :: nat
  checkpoint :: "entry list"
  frames :: "entry list"
  fbytes :: nat
  budget :: nat
  closed :: "string option"
  wakes :: nat
  ended :: bool
  draining :: int
  held :: bool
  folds :: nat
  lent :: "(nat \<times> int) list"
  retired :: "(nat \<times> nat list) list"
  heap :: "bytes list"

text \<open>\<open>wakes\<close> counts the channels \<^verbatim>\<open>signal\<close> closed, and \<open>lent\<close> lists the entries of
  the Go map.\<close>

definition newRunlog :: FrameLog where
  "newRunlog = \<lparr>base = 0, checkpoint = [], frames = [], fbytes = 0, budget = runLogBudget,
     closed = None, wakes = 0, ended = False, draining = 0, held = False, folds = 0, lent = [],
     retired = [], heap = []\<rparr>"

definition signal :: "FrameLog \<Rightarrow> FrameLog" where
  "signal l = l\<lparr>wakes := wakes l + 1\<rparr>"

definition Readers :: "FrameLog \<Rightarrow> int" where
  "Readers l = draining l"

definition clearBuf :: "bytes \<Rightarrow> bytes" where
  "clearBuf b = replicate (length b) (CHR 0x00)"

definition clearAt :: "bytes list \<Rightarrow> nat list \<Rightarrow> bytes list" where
  "clearAt h as = foldl (\<lambda>h a. if a < length h then h[a := clearBuf (h ! a)] else h) h as"

definition grow :: "bytes \<Rightarrow> frameKind \<Rightarrow> string \<Rightarrow> FrameLog \<Rightarrow> FrameLog \<times> bool" where
  "grow frame kind key l =
    (let l' = (if closed l = None then
        signal (l\<lparr>frames := frames l @ [\<lparr>edata = length (heap l), ekind = kind, ekey = key\<rparr>],
                  fbytes := fbytes l + length frame, heap := heap l @ [frame]\<rparr>)
      else l)
     in (l', fbytes l' > budget l'))"

section \<open>Folding into a checkpoint\<close>

record foldSt =
  ck :: "entry list"
  run :: "entry list"
  fsize :: nat
  placed :: "string list"
  dropped :: "nat list"
  fheap :: "bytes list"

definition flush :: "(bytes list \<Rightarrow> bytes) \<Rightarrow> foldSt \<Rightarrow> foldSt" where
  "flush merge s =
    (if length (run s) > 2 then
       let deltas = map edata (butlast (run s)) in
       s\<lparr>ck := ck s @ [\<lparr>edata = length (fheap s), ekind = frameDelta, ekey = ekey (hd (run s))\<rparr>]
               @ [last (run s)],
         fheap := fheap s @ [merge (map (\<lambda>a. fheap s ! a) deltas)],
         dropped := dropped s @ deltas, run := [], fsize := 0\<rparr>
     else s\<lparr>ck := ck s @ run s, run := [], fsize := 0\<rparr>)"

definition placeActivity :: "(string \<Rightarrow> bytes option) \<Rightarrow> entry \<Rightarrow> foldSt \<Rightarrow> foldSt" where
  "placeActivity activity e s =
    (let s' = (if ekey e \<in> set (placed s) then s else
       let s1 = s\<lparr>placed := ekey e # placed s\<rparr> in
       case activity (ekey e) of None \<Rightarrow> s1
       | Some now \<Rightarrow>
           s1\<lparr>ck := ck s1 @ [\<lparr>edata = length (fheap s1), ekind = frameActivity, ekey = ekey e\<rparr>],
              fheap := fheap s1 @ [now]\<rparr>)
     in s'\<lparr>dropped := dropped s' @ [edata e]\<rparr>)"

definition foldStep :: "(bytes list \<Rightarrow> bytes) \<Rightarrow> (string \<Rightarrow> bytes option) \<Rightarrow> foldSt \<Rightarrow> entry \<Rightarrow> foldSt" where
  "foldStep merge activity s e =
    (let n = length (fheap s ! edata e) in
     if ekind e = frameDelta \<and> run s \<noteq> [] \<and> ekey (hd (run s)) = ekey e \<and>
        fsize s + n \<le> mergedFrameBytes
     then s\<lparr>run := run s @ [e], fsize := fsize s + n\<rparr>
     else let s = flush merge s in
       case ekind e of
         frameDelta \<Rightarrow> s\<lparr>run := [e], fsize := n\<rparr>
       | frameKept \<Rightarrow> s\<lparr>ck := ck s @ [e]\<rparr>
       | frameActivity \<Rightarrow> placeActivity activity e s)"

definition reclaim :: "FrameLog \<Rightarrow> FrameLog" where
  "reclaim l =
    (let oldest = foldl min (folds l) (map fst (lent l)) in
     l\<lparr>heap := clearAt (heap l) (concat (map snd (filter (\<lambda>r. \<not> fst r > oldest) (retired l)))),
       retired := filter (\<lambda>r. fst r > oldest) (retired l)\<rparr>)"

definition foldInit :: "FrameLog \<Rightarrow> foldSt" where
  "foldInit l = \<lparr>ck = [], run = [], fsize = 0, placed = [], dropped = [], fheap = heap l\<rparr>"

definition foldLog :: "(bytes list \<Rightarrow> bytes) \<Rightarrow> (string \<Rightarrow> bytes option) \<Rightarrow> FrameLog \<Rightarrow> FrameLog" where
  "foldLog merge activity l =
    (if closed l \<noteq> None then l else
     let s = flush merge (foldl (foldStep merge activity) (foldInit l) (checkpoint l @ frames l)) in
     reclaim (l\<lparr>checkpoint := ck s, base := base l + length (frames l), frames := [], fbytes := 0,
       folds := folds l + 1, retired := retired l @ [(folds l + 1, dropped s)], heap := fheap s\<rparr>))"

section \<open>Streams, holds and the end of a run\<close>

definition wipe :: "FrameLog \<Rightarrow> FrameLog" where
  "wipe l =
    (if \<not> ended l \<or> draining l > 0 \<or> held l then l else
     l\<lparr>heap := clearAt (clearAt (heap l) (map edata (checkpoint l @ frames l)))
                 (concat (map snd (retired l))),
       checkpoint := [], frames := [], retired := []\<rparr>)"

definition Attach :: "FrameLog \<Rightarrow> FrameLog" where
  "Attach l = l\<lparr>draining := draining l + 1\<rparr>"

definition Detach :: "FrameLog \<Rightarrow> FrameLog" where
  "Detach l = wipe (l\<lparr>draining := draining l - 1\<rparr>)"

definition hold :: "FrameLog \<Rightarrow> FrameLog" where
  "hold l = l\<lparr>held := True\<rparr>"

definition release :: "FrameLog \<Rightarrow> FrameLog" where
  "release l = wipe (l\<lparr>held := False\<rparr>)"

definition closeLog :: "string \<Rightarrow> FrameLog \<Rightarrow> FrameLog" where
  "closeLog err l =
    (let l' = (if closed l = None then signal (l\<lparr>closed := Some err\<rparr>) else l)
     in wipe (l'\<lparr>ended := True\<rparr>))"

text \<open>What a read lends: the addresses of the checkpoint and of the frames, the
  cursor of the first frame, and the count of folds the closure \<^verbatim>\<open>done\<close> remembers.\<close>

record readResult =
  rCheckpoint :: "nat list"
  rFrames :: "nat list"
  rFirst :: nat
  rWake :: nat
  rClosed :: "string option"
  rFolds :: nat

definition lentCount :: "nat \<Rightarrow> (nat \<times> int) list \<Rightarrow> int" where
  "lentCount f m = (case map_of m f of None \<Rightarrow> 0 | Some n \<Rightarrow> n)"

definition ReadLog :: "nat \<Rightarrow> FrameLog \<Rightarrow> FrameLog \<times> readResult" where
  "ReadLog from l =
    (let cp = (if from < base l then map edata (checkpoint l) else []);
         from' = (if from < base l then base l else from);
         fs = map edata (drop (min (from' - base l) (length (frames l))) (frames l))
     in (l\<lparr>lent := AList.update (folds l) (lentCount (folds l) (lent l) + 1) (lent l)\<rparr>,
         \<lparr>rCheckpoint = cp, rFrames = fs, rFirst = from', rWake = wakes l, rClosed = closed l,
          rFolds = folds l\<rparr>))"

definition doneRead :: "nat \<Rightarrow> FrameLog \<Rightarrow> FrameLog" where
  "doneRead f l =
    (let n = lentCount f (lent l) - 1;
         m = AList.update f n (lent l)
     in reclaim (l\<lparr>lent := (if n = 0 then AList.delete f m else m)\<rparr>))"

definition sent :: "FrameLog \<Rightarrow> nat" where
  "sent l = base l + length (frames l)"

datatype follow_error = BadCursor | CursorNeverSent

definition ResumeFrom :: "FrameLog \<Rightarrow> string \<Rightarrow> follow_error + nat" where
  "ResumeFrom l lastEventID =
    (if lastEventID = [] then Inr 0 else
     case atoi lastEventID of None \<Rightarrow> Inl BadCursor
     | Some after \<Rightarrow>
         if after < 0 then Inl BadCursor
         else if after < int (sent l) then Inr (nat after + 1)
         else Inl CursorNeverSent)"

text \<open>One pass of \<^verbatim>\<open>Follow\<close>: the events sent for a read, each with the id it names,
  and the cursor of the next read.  Only the last event of a checkpoint has an id.\<close>

definition followEvents :: "readResult \<Rightarrow> bytes list \<Rightarrow> (int option \<times> bytes) list" where
  "followEvents r h =
     map (\<lambda>(i, a). (if i = length (rCheckpoint r) - 1 then Some (int (rFirst r) - 1) else None, h ! a))
       (enumerate 0 (rCheckpoint r)) @
     map (\<lambda>(i, a). (Some (int i), h ! a)) (enumerate (rFirst r) (rFrames r))"

definition followNext :: "readResult \<Rightarrow> nat" where
  "followNext r = rFirst r + length (rFrames r)"

section \<open>Addresses through a fold\<close>

text \<open>The buffers a fold accounts for: those of the checkpoint it builds, of the
  run it is gathering and of the frames it drops.\<close>

definition addrs :: "foldSt \<Rightarrow> nat list" where
  "addrs s = map edata (ck s @ run s) @ dropped s"

definition fresh :: "foldSt \<Rightarrow> foldSt \<Rightarrow> nat list" where
  "fresh s s' = [length (fheap s)..<length (fheap s')]"

lemma run_butlast_last:
  "length r > 2 \<Longrightarrow> mset (map edata r) = mset (map edata (butlast r)) + {#edata (last r)#}"
  by (cases r rule: rev_cases) auto

lemma flush_addrs:
  "mset (addrs (flush merge s)) = mset (addrs s) + mset (fresh s (flush merge s))"
  using run_butlast_last [of "run s"]
  by (auto simp: flush_def addrs_def fresh_def Let_def)

lemma flush_heap: "prefix (fheap s) (fheap (flush merge s))"
  by (simp add: flush_def Let_def)

lemma flush_run [simp]: "run (flush merge s) = []" "placed (flush merge s) = placed s"
  by (simp_all add: flush_def Let_def)

lemma place_addrs:
  "mset (addrs (placeActivity activity e s)) =
     mset (addrs s) + {#edata e#} + mset (fresh s (placeActivity activity e s))"
  by (auto simp: placeActivity_def addrs_def fresh_def Let_def split: option.splits)

lemma place_heap: "prefix (fheap s) (fheap (placeActivity activity e s))"
  by (auto simp: placeActivity_def Let_def split: option.splits)

lemma foldStep_heap: "prefix (fheap s) (fheap (foldStep merge activity s e))"
  using flush_heap [of s merge] place_heap [of "flush merge s" activity e]
  by (auto simp: foldStep_def Let_def split: frameKind.splits intro: prefix_order.trans)

lemma fresh_trans:
  "prefix (fheap s) (fheap t) \<Longrightarrow> prefix (fheap t) (fheap u) \<Longrightarrow> fresh s u = fresh s t @ fresh t u"
  unfolding fresh_def by (metis le_Suc_ex prefix_length_le upt_add_eq_append)

lemma foldStep_addrs:
  "mset (addrs (foldStep merge activity s e)) =
     mset (addrs s) + {#edata e#} + mset (fresh s (foldStep merge activity s e))"
proof -
  let ?t = "flush merge s"
  have *: "mset (addrs ?t) = mset (addrs s) + mset (fresh s ?t)" by (rule flush_addrs)
  show ?thesis
  proof (cases "ekind e = frameDelta \<and> run s \<noteq> [] \<and> ekey (hd (run s)) = ekey e \<and>
      fsize s + length (fheap s ! edata e) \<le> mergedFrameBytes")
    case True
    then show ?thesis by (simp add: foldStep_def addrs_def fresh_def)
  next
    case False
    then have step: "foldStep merge activity s e = (case ekind e of
         frameDelta \<Rightarrow> ?t\<lparr>run := [e], fsize := length (fheap s ! edata e)\<rparr>
       | frameKept \<Rightarrow> ?t\<lparr>ck := ck ?t @ [e]\<rparr>
       | frameActivity \<Rightarrow> placeActivity activity e ?t)"
      by (auto simp: foldStep_def Let_def)
    show ?thesis
      using * place_addrs [of activity e ?t] fresh_trans [OF flush_heap [of s merge] place_heap [of ?t activity e]]
      unfolding step by (cases "ekind e") (auto simp: addrs_def fresh_def)
  qed
qed

lemma foldl_addrs:
  "mset (addrs (foldl (foldStep merge activity) s es)) =
     mset (addrs s) + mset (map edata es) + mset (fresh s (foldl (foldStep merge activity) s es)) \<and>
   prefix (fheap s) (fheap (foldl (foldStep merge activity) s es))"
proof (induction es rule: rev_induct)
  case Nil
  then show ?case by (simp add: fresh_def)
next
  case (snoc e es)
  let ?t = "foldl (foldStep merge activity) s es"
  have "prefix (fheap ?t) (fheap (foldStep merge activity ?t e))" by (rule foldStep_heap)
  then have "fresh s (foldStep merge activity ?t e) = fresh s ?t @ fresh ?t (foldStep merge activity ?t e)"
    "prefix (fheap s) (fheap (foldStep merge activity ?t e))"
    using snoc fresh_trans prefix_order.trans by blast+
  with snoc foldStep_addrs [of merge activity ?t e] show ?case by simp
qed

definition folded :: "(bytes list \<Rightarrow> bytes) \<Rightarrow> (string \<Rightarrow> bytes option) \<Rightarrow> FrameLog \<Rightarrow> foldSt" where
  "folded merge activity l =
     flush merge (foldl (foldStep merge activity) (foldInit l) (checkpoint l @ frames l))"

lemma folded_addrs:
  "mset (map edata (ck (folded merge activity l)) @ dropped (folded merge activity l)) =
     mset (map edata (checkpoint l @ frames l)) +
     mset [length (heap l)..<length (fheap (folded merge activity l))]"
  "prefix (heap l) (fheap (folded merge activity l))"
proof -
  let ?t = "foldl (foldStep merge activity) (foldInit l) (checkpoint l @ frames l)"
  have t: "mset (addrs ?t) = mset (map edata (checkpoint l @ frames l)) + mset (fresh (foldInit l) ?t)"
    and pre: "prefix (heap l) (fheap ?t)"
    using foldl_addrs [of merge activity "foldInit l" "checkpoint l @ frames l"]
    by (simp_all add: addrs_def foldInit_def)
  have pre': "prefix (fheap (foldInit l)) (fheap ?t)" using pre by (simp add: foldInit_def)
  show "mset (map edata (ck (folded merge activity l)) @ dropped (folded merge activity l)) =
     mset (map edata (checkpoint l @ frames l)) +
     mset [length (heap l)..<length (fheap (folded merge activity l))]"
    using t flush_addrs [of merge ?t] fresh_trans [OF pre' flush_heap, of merge]
    unfolding folded_def addrs_def flush_run by (simp add: fresh_def foldInit_def)
  show "prefix (heap l) (fheap (folded merge activity l))"
    using pre flush_heap [of ?t merge] unfolding folded_def by (rule prefix_order.trans)
qed

section \<open>What a follower is shown\<close>

text \<open>A follower applies kept frames one by one and extends a target by each delta,
  where two deltas in turn to one target apply as one.  Activities are compared
  apart: a checkpoint sends each as it stands.  \<open>dtext\<close> is the text of a delta
  frame.\<close>

datatype item = Kept bytes | Delta string string

definition push :: "item list \<Rightarrow> item \<Rightarrow> item list" where
  "push xs x = (case x of Kept b \<Rightarrow> xs @ [x]
     | Delta k t \<Rightarrow>
        (if xs = [] then [x] else
         case last xs of Kept b \<Rightarrow> xs @ [x]
         | Delta k' t' \<Rightarrow> if k' = k then butlast xs @ [Delta k (t' @ t)] else xs @ [x]))"

definition items :: "(bytes \<Rightarrow> string) \<Rightarrow> bytes list \<Rightarrow> entry \<Rightarrow> item list" where
  "items dtext h e = (case ekind e of
     frameKept \<Rightarrow> [Kept (h ! edata e)]
   | frameDelta \<Rightarrow> [Delta (ekey e) (dtext (h ! edata e))]
   | frameActivity \<Rightarrow> [])"

definition showOn :: "(bytes \<Rightarrow> string) \<Rightarrow> bytes list \<Rightarrow> item list \<Rightarrow> entry list \<Rightarrow> item list" where
  "showOn dtext h acc es = foldl push acc (concat (map (items dtext h) es))"

definition shown :: "(bytes \<Rightarrow> string) \<Rightarrow> bytes list \<Rightarrow> entry list \<Rightarrow> item list" where
  "shown dtext h es = showOn dtext h [] es"

lemma showOn_simps [simp]:
  "showOn dtext h acc [] = acc"
  "showOn dtext h acc (e # es) = showOn dtext h (foldl push acc (items dtext h e)) es"
  "showOn dtext h acc (es @ fs) = showOn dtext h (showOn dtext h acc es) fs"
  by (simp_all add: showOn_def)

lemma push_Delta_twice: "push (push xs (Delta k t)) (Delta k u) = push xs (Delta k (t @ u))"
  by (auto simp: push_def split: item.splits)

lemma push_Deltas:
  "ts \<noteq> [] \<Longrightarrow> foldl push xs (map (Delta k) ts) = push xs (Delta k (concat ts))"
proof (induction ts rule: rev_nonempty_induct)
  case (snoc t ts)
  then show ?case by (simp add: push_Delta_twice)
qed simp

definition mergeLaw :: "(bytes list \<Rightarrow> bytes) \<Rightarrow> (bytes \<Rightarrow> string) \<Rightarrow> bool" where
  "mergeLaw merge dtext \<longleftrightarrow> (\<forall>ds. ds \<noteq> [] \<longrightarrow> dtext (merge ds) = concat (map dtext ds))"

text \<open>The run a fold is gathering holds deltas to one target.\<close>

definition runOk :: "foldSt \<Rightarrow> bool" where
  "runOk s \<longleftrightarrow> (\<forall>e\<in>set (run s). ekind e = frameDelta \<and> ekey e = ekey (hd (run s)))"

lemma runOk_flush [simp]: "runOk (flush merge s)"
  by (simp add: runOk_def)

lemma showOn_extend:
  "prefix h h' \<Longrightarrow> (\<forall>e\<in>set es. edata e < length h) \<Longrightarrow> showOn dtext h' acc es = showOn dtext h acc es"
  by (induction es arbitrary: acc) (auto simp: items_def nth_append elim!: prefixE split: frameKind.splits)

lemma showOn_run:
  assumes "\<forall>e\<in>set r. ekind e = frameDelta \<and> ekey e = k"
  shows "showOn dtext h acc r = foldl push acc (map (Delta k) (map (\<lambda>e. dtext (h ! edata e)) r))"
  using assms by (induction r arbitrary: acc) (auto simp: items_def)

lemma showOn_merged:
  assumes "\<forall>e\<in>set r. ekind e = frameDelta \<and> ekey e = k" "length r > 2" "mergeLaw merge dtext"
    and "h' = h @ [merge (map (\<lambda>e. h ! edata e) (butlast r))]" "\<forall>e\<in>set r. edata e < length h"
  shows "showOn dtext h' acc [\<lparr>edata = length h, ekind = frameDelta, ekey = k\<rparr>, last r] =
     showOn dtext h acc r"
proof -
  obtain b x where r: "r = b @ [x]" and b: "b \<noteq> []"
    using assms(2) by (cases r rule: rev_cases) fastforce+
  have x: "items dtext h' x = items dtext h x"
    using assms(4,5) r by (simp add: items_def nth_append split: frameKind.splits)
  have "showOn dtext h acc b = push acc (Delta k (concat (map (\<lambda>e. dtext (h ! edata e)) b)))"
    using assms(1) b r push_Deltas [of "map (\<lambda>e. dtext (h ! edata e)) b" acc k]
    by (simp add: showOn_run [where k = k])
  also have "\<dots> = foldl push acc (items dtext h' \<lparr>edata = length h, ekind = frameDelta, ekey = k\<rparr>)"
    using assms(3,4) b r by (simp add: items_def mergeLaw_def comp_def)
  finally show ?thesis using x r by simp
qed

definition foldOk :: "foldSt \<Rightarrow> bool" where
  "foldOk s \<longleftrightarrow> runOk s \<and> (\<forall>e\<in>set (ck s @ run s). edata e < length (fheap s))"

lemma flush_shown:
  assumes "mergeLaw merge dtext" "foldOk s"
  shows "shown dtext (fheap (flush merge s)) (ck (flush merge s)) =
     shown dtext (fheap s) (ck s @ run s)"
proof (cases "length (run s) > 2")
  case True
  let ?h = "fheap s @ [merge (map (\<lambda>e. fheap s ! edata e) (butlast (run s)))]"
  have "showOn dtext ?h [] (ck s) = showOn dtext (fheap s) [] (ck s)"
    using assms(2) by (intro showOn_extend) (auto simp: foldOk_def)
  moreover have "showOn dtext ?h acc [\<lparr>edata = length (fheap s), ekind = frameDelta,
      ekey = ekey (hd (run s))\<rparr>, last (run s)] = showOn dtext (fheap s) acc (run s)" for acc
    using assms True by (intro showOn_merged) (auto simp: foldOk_def runOk_def)
  ultimately show ?thesis using True
    by (simp add: flush_def shown_def Let_def comp_def del: showOn_simps(2))
next
  case False
  then show ?thesis by (simp add: flush_def)
qed

lemma flush_foldOk: "foldOk s \<Longrightarrow> foldOk (flush merge s)"
proof -
  assume ok: "foldOk s"
  have "edata (last (run s)) < length (fheap s)" if "length (run s) > 2"
    using ok that by (cases "run s" rule: rev_cases) (auto simp: foldOk_def)
  with ok show ?thesis
    by (auto simp: foldOk_def flush_def runOk_def Let_def less_Suc_eq)
qed

lemma place_shown:
  assumes "foldOk s" "run s = []" "ekind e = frameActivity"
  shows "shown dtext (fheap (placeActivity activity e s)) (ck (placeActivity activity e s)) =
     shown dtext (fheap s) (ck s)"
  using assms showOn_extend [OF prefixI [OF refl], of "ck s" "fheap s" dtext]
  by (auto simp: placeActivity_def shown_def foldOk_def items_def Let_def split: option.splits)

lemma place_foldOk:
  "foldOk s \<Longrightarrow> run s = [] \<Longrightarrow> foldOk (placeActivity activity e s) \<and> run (placeActivity activity e s) = []"
  by (auto simp: foldOk_def runOk_def placeActivity_def Let_def less_Suc_eq split: option.splits)

lemma foldStep_shown:
  assumes "mergeLaw merge dtext" "foldOk s" "edata e < length (fheap s)"
  shows "foldOk (foldStep merge activity s e) \<and>
    shown dtext (fheap (foldStep merge activity s e))
      (ck (foldStep merge activity s e) @ run (foldStep merge activity s e)) =
    showOn dtext (fheap s) (shown dtext (fheap s) (ck s @ run s)) [e]"
proof (cases "ekind e = frameDelta \<and> run s \<noteq> [] \<and> ekey (hd (run s)) = ekey e \<and>
      fsize s + length (fheap s ! edata e) \<le> mergedFrameBytes")
  case True
  then show ?thesis using assms by (auto simp: foldStep_def foldOk_def runOk_def shown_def)
next
  case False
  let ?t = "flush merge s"
  have step: "foldStep merge activity s e = (case ekind e of
       frameDelta \<Rightarrow> ?t\<lparr>run := [e], fsize := length (fheap s ! edata e)\<rparr>
     | frameKept \<Rightarrow> ?t\<lparr>ck := ck ?t @ [e]\<rparr>
     | frameActivity \<Rightarrow> placeActivity activity e ?t)"
    using False by (auto simp: foldStep_def Let_def)
  have ok: "foldOk ?t" and sh: "shown dtext (fheap ?t) (ck ?t) = shown dtext (fheap s) (ck s @ run s)"
    using assms flush_foldOk flush_shown by auto
  have e: "edata e < length (fheap ?t)" "items dtext (fheap ?t) e = items dtext (fheap s) e"
    using assms(3) flush_heap [of s merge]
    by (auto simp: items_def nth_append elim!: prefixE split: frameKind.splits)
  show ?thesis
  proof (cases "ekind e")
    case frameKept
    with ok sh e step show ?thesis by (auto simp: foldOk_def runOk_def shown_def)
  next
    case frameDelta
    with ok sh e step show ?thesis by (auto simp: foldOk_def runOk_def shown_def)
  next
    case frameActivity
    then have "items dtext (fheap s) e = []" by (simp add: items_def)
    with frameActivity step sh place_foldOk [OF ok] place_shown [OF ok _ frameActivity]
    show ?thesis by (simp add: shown_def)
  qed
qed

lemma foldl_shown:
  assumes "mergeLaw merge dtext" "foldOk s" "\<forall>e\<in>set es. edata e < length (fheap s)"
  shows "foldOk (foldl (foldStep merge activity) s es) \<and>
    shown dtext (fheap (foldl (foldStep merge activity) s es))
      (ck (foldl (foldStep merge activity) s es) @ run (foldl (foldStep merge activity) s es)) =
    showOn dtext (fheap s) (shown dtext (fheap s) (ck s @ run s)) es"
  using assms(2,3)
proof (induction es rule: rev_induct)
  case (snoc e es)
  let ?t = "foldl (foldStep merge activity) s es"
  have pre: "prefix (fheap s) (fheap ?t)" using foldl_addrs by blast
  then have "edata e < length (fheap ?t)" using snoc.prems prefix_length_le [OF pre] by auto
  from foldStep_shown [OF assms(1) _ this, of activity] snoc
  show ?case
    by (simp add: showOn_extend [OF pre, of "[e]", simplified])
qed (simp add: shown_def)

lemma folded_shown:
  assumes "mergeLaw merge dtext" "\<forall>e\<in>set (checkpoint l @ frames l). edata e < length (heap l)"
  shows "shown dtext (fheap (folded merge activity l)) (ck (folded merge activity l)) =
    shown dtext (heap l) (checkpoint l @ frames l)"
proof -
  have "foldOk (foldInit l)" by (simp add: foldOk_def runOk_def foldInit_def)
  from foldl_shown [OF assms(1) this, of "checkpoint l @ frames l" activity] assms(2)
  have "foldOk (foldl (foldStep merge activity) (foldInit l) (checkpoint l @ frames l))"
    "shown dtext (fheap (foldl (foldStep merge activity) (foldInit l) (checkpoint l @ frames l)))
      (ck (foldl (foldStep merge activity) (foldInit l) (checkpoint l @ frames l)) @
       run (foldl (foldStep merge activity) (foldInit l) (checkpoint l @ frames l))) =
     shown dtext (heap l) (checkpoint l @ frames l)"
    by (simp_all add: foldInit_def shown_def)
  then show ?thesis using flush_shown [OF assms(1)] by (simp add: folded_def)
qed

section \<open>Buffers\<close>

definition zeroed :: "bytes \<Rightarrow> bool" where
  "zeroed b = list_all (\<lambda>c. c = CHR 0x00) b"

lemma zeroed_clearBuf [simp]: "zeroed (clearBuf b)" "zeroed b \<Longrightarrow> clearBuf b = b"
  by (auto simp: zeroed_def clearBuf_def list_all_length intro: nth_equalityI)

lemma length_clearAt [simp]: "length (clearAt h as) = length h"
  unfolding clearAt_def by (induction as arbitrary: h) auto

lemma nth_clearAt:
  "a < length h \<Longrightarrow> clearAt h as ! a = (if a \<in> set as then clearBuf (h ! a) else h ! a)"
proof (induction as arbitrary: h)
  case (Cons x as)
  let ?h = "if x < length h then h[x := clearBuf (h ! x)] else h"
  have "clearAt h (x # as) = clearAt ?h as" by (simp add: clearAt_def)
  with Cons.IH [of ?h] Cons.prems show ?case
    by (cases "a = x") (auto simp: nth_list_update)
qed (simp add: clearAt_def)

definition live :: "FrameLog \<Rightarrow> nat list" where
  "live l = map edata (checkpoint l @ frames l)"

definition retdOf :: "(nat \<times> nat list) list \<Rightarrow> nat list" where
  "retdOf rs = concat (map snd rs)"

abbreviation retd :: "FrameLog \<Rightarrow> nat list" where
  "retd l \<equiv> retdOf (retired l)"

text \<open>A loan is what a stream holds between a read and its \<^verbatim>\<open>done\<close>: the folds made
  before it, and the buffers with the contents they had when read.\<close>

type_synonym loan = "nat \<times> (nat \<times> bytes) list"

definition loanOk :: "FrameLog \<Rightarrow> loan \<Rightarrow> bool" where
  "loanOk l ln \<longleftrightarrow> fst ln \<le> folds l \<and> (\<forall>(a, b)\<in>set (snd ln).
     a < length (heap l) \<and> heap l ! a = b \<and>
     (a \<in> set (live l) \<or> (\<exists>r\<in>set (retired l). fst ln < fst r \<and> a \<in> set (snd r))))"

definition bufsOk :: "FrameLog \<Rightarrow> bool" where
  "bufsOk l \<longleftrightarrow> distinct (live l) \<and> distinct (retd l) \<and> set (live l) \<inter> set (retd l) = {} \<and>
     set (live l) \<union> set (retd l) \<subseteq> {..<length (heap l)} \<and>
     (\<forall>a<length (heap l). a \<in> set (live l) \<or> a \<in> set (retd l) \<or> zeroed (heap l ! a)) \<and>
     (\<forall>r\<in>set (retired l). fst r \<le> folds l)"

definition lentTo :: "loan list \<Rightarrow> nat \<Rightarrow> int" where
  "lentTo loans f = int (length (filter (\<lambda>x. fst x = f) loans))"

definition lentOk :: "FrameLog \<Rightarrow> loan list \<Rightarrow> bool" where
  "lentOk l loans \<longleftrightarrow> distinct (map fst (lent l)) \<and>
     (\<forall>f. map_of (lent l) f = (if lentTo loans f = 0 then None else Some (lentTo loans f)))"

lemma foldl_min_le_start: "foldl min (n::nat) xs \<le> n"
proof (induction xs arbitrary: n)
  case (Cons x xs)
  from Cons [of "min n x"] show ?case by simp
qed simp

lemma foldl_min_le: "x \<in> set xs \<Longrightarrow> foldl min (n::nat) xs \<le> x"
proof (induction xs arbitrary: n)
  case (Cons y xs)
  then show ?case using foldl_min_le_start [of "min n y" xs] by auto
qed simp

lemma loan_oldest:
  assumes "lentOk l loans" "ln \<in> set loans"
  shows "foldl min (folds l) (map fst (lent l)) \<le> fst ln"
proof -
  have "lentTo loans (fst ln) \<noteq> 0" using assms(2) by (auto simp: lentTo_def filter_empty_conv)
  then have "map_of (lent l) (fst ln) \<noteq> None" using assms(1) by (simp add: lentOk_def)
  then have "fst ln \<in> set (map fst (lent l))" by (simp add: map_of_eq_None_iff)
  then show ?thesis by (rule foldl_min_le)
qed

lemma set_retdOf: "a \<in> set (retdOf rs) \<longleftrightarrow> (\<exists>r\<in>set rs. a \<in> set (snd r))"
  by (simp add: retdOf_def)

lemma retdOf_app [simp]: "retdOf [] = []" "retdOf (r # rs) = snd r @ retdOf rs"
  "retdOf (rs @ qs) = retdOf rs @ retdOf qs"
  by (simp_all add: retdOf_def)

lemma retdOf_filter_disjoint:
  assumes "distinct (retdOf rs)" "r \<in> set rs" "P r" "a \<in> set (snd r)"
  shows "a \<notin> set (retdOf (filter (\<lambda>x. \<not> P x) rs))"
  using assms
proof (induction rs)
  case (Cons x rs)
  have "a \<in> set (retdOf rs)" if "r \<in> set rs" using that Cons.prems(4) unfolding set_retdOf by blast
  moreover have "a \<in> set (retdOf rs)" if "a \<in> set (retdOf (filter (\<lambda>x. \<not> P x) rs))"
    using that unfolding set_retdOf set_filter by blast
  ultimately show ?case using Cons by (cases "x = r") auto
qed simp

lemma retdOf_filter_subset: "set (retdOf (filter P rs)) \<subseteq> set (retdOf rs)"
  unfolding subset_iff set_retdOf set_filter by blast

lemma retdOf_filter_split:
  "a \<in> set (retdOf rs) \<longleftrightarrow> a \<in> set (retdOf (filter P rs)) \<or> a \<in> set (retdOf (filter (\<lambda>x. \<not> P x) rs))"
  unfolding set_retdOf set_filter by blast

lemma distinct_retdOf_filter: "distinct (retdOf rs) \<Longrightarrow> distinct (retdOf (filter P rs))"
  using retdOf_filter_subset [of P] by (induction rs) auto

lemma reclaim_fields [simp]:
  "checkpoint (reclaim l) = checkpoint l" "frames (reclaim l) = frames l"
  "base (reclaim l) = base l" "folds (reclaim l) = folds l" "lent (reclaim l) = lent l"
  "draining (reclaim l) = draining l" "ended (reclaim l) = ended l" "held (reclaim l) = held l"
  "closed (reclaim l) = closed l" "length (heap (reclaim l)) = length (heap l)"
  "fbytes (reclaim l) = fbytes l" "budget (reclaim l) = budget l" "live (reclaim l) = live l"
  by (simp_all add: reclaim_def Let_def live_def)

text \<open>The retired frames a reclaim keeps.\<close>

definition keeps :: "FrameLog \<Rightarrow> nat \<times> nat list \<Rightarrow> bool" where
  "keeps l r \<longleftrightarrow> fst r > foldl min (folds l) (map fst (lent l))"

lemma reclaim_keeps:
  "retired (reclaim l) = filter (keeps l) (retired l)"
  "heap (reclaim l) = clearAt (heap l) (retdOf (filter (\<lambda>x. \<not> keeps l x) (retired l)))"
  by (simp_all add: reclaim_def keeps_def [abs_def] retdOf_def Let_def)

lemma reclaim_bufs:
  assumes "bufsOk l"
  shows "bufsOk (reclaim l)"
proof -
  let ?ret = "retdOf (filter (keeps l) (retired l))"
  have "a \<in> set (live l) \<or> a \<in> set ?ret \<or> zeroed (heap (reclaim l) ! a)"
    if "a < length (heap l)" for a
    using assms that retdOf_filter_split [of a "retired l" "keeps l"]
    by (auto simp: bufsOk_def reclaim_keeps nth_clearAt)
  then show ?thesis
    using assms retdOf_filter_subset [of "keeps l" "retired l"]
      distinct_retdOf_filter [of "retired l" "keeps l"]
    unfolding bufsOk_def by (auto simp: reclaim_keeps(1))
qed

lemma live_not_retired: "bufsOk l \<Longrightarrow> a \<in> set (live l) \<Longrightarrow> a \<notin> set (retdOf (filter P (retired l)))"
  using retdOf_filter_subset by (fastforce simp: bufsOk_def)

lemma reclaim_heap_live:
  "bufsOk l \<Longrightarrow> a \<in> set (live l) \<Longrightarrow> heap (reclaim l) ! a = heap l ! a"
  using live_not_retired [of l a] by (auto simp: reclaim_keeps nth_clearAt bufsOk_def)

lemma reclaim_loan:
  assumes "bufsOk l" "loanOk l ln" "foldl min (folds l) (map fst (lent l)) \<le> fst ln"
  shows "loanOk (reclaim l) ln"
proof -
  have "heap (reclaim l) ! a = b \<and>
      (a \<in> set (live l) \<or> (\<exists>r\<in>set (retired (reclaim l)). fst ln < fst r \<and> a \<in> set (snd r)))"
    if ab: "(a, b) \<in> set (snd ln)" for a b
  proof -
    have a: "a < length (heap l)" "heap l ! a = b" and
      or: "a \<in> set (live l) \<or> (\<exists>r\<in>set (retired l). fst ln < fst r \<and> a \<in> set (snd r))"
      using assms(2) ab by (auto simp: loanOk_def)
    show ?thesis
    proof (cases "a \<in> set (live l)")
      case True
      then show ?thesis using a assms(1) by (simp add: reclaim_heap_live)
    next
      case False
      with or obtain r where r: "r \<in> set (retired l)" "fst ln < fst r" "a \<in> set (snd r)" by blast
      then have "keeps l r" using assms(3) by (simp add: keeps_def)
      moreover have "a \<notin> set (retdOf (filter (\<lambda>x. \<not> keeps l x) (retired l)))"
        using assms(1) \<open>keeps l r\<close> r retdOf_filter_disjoint [of "retired l" r "keeps l" a]
        by (simp add: bufsOk_def)
      ultimately show ?thesis using r a by (auto simp: reclaim_keeps nth_clearAt)
    qed
  qed
  then show ?thesis using assms(2) unfolding loanOk_def by auto
qed

section \<open>The operations keep the buffers\<close>

lemma wipe_fires:
  "ended l \<and> draining l \<le> 0 \<and> \<not> held l \<Longrightarrow>
   wipe l = l\<lparr>heap := clearAt (clearAt (heap l) (live l)) (retd l),
             checkpoint := [], frames := [], retired := []\<rparr>"
  by (simp add: wipe_def live_def retdOf_def)

lemma wipe_idle: "\<not> (ended l \<and> draining l \<le> 0 \<and> \<not> held l) \<Longrightarrow> wipe l = l"
  by (auto simp: wipe_def)

lemma wipe_zeroes:
  assumes "bufsOk l" "ended l \<and> draining l \<le> 0 \<and> \<not> held l" "a < length (heap l)"
  shows "zeroed (heap (wipe l) ! a)"
  using assms by (auto simp: wipe_fires nth_clearAt bufsOk_def)

lemma wipe_bufs: "bufsOk l \<Longrightarrow> bufsOk (wipe l)"
  using wipe_zeroes [of l]
  by (cases "ended l \<and> draining l \<le> 0 \<and> \<not> held l")
     (auto simp: wipe_idle bufsOk_def live_def wipe_fires)

lemma wipe_fields [simp]:
  "draining (wipe l) = draining l" "ended (wipe l) = ended l" "held (wipe l) = held l"
  "closed (wipe l) = closed l" "lent (wipe l) = lent l" "folds (wipe l) = folds l"
  "base (wipe l) = base l" "fbytes (wipe l) = fbytes l" "length (heap (wipe l)) = length (heap l)"
  by (simp_all add: wipe_def)

lemma grow_fst:
  "fst (grow b k key l) = (if closed l = None then
     l\<lparr>frames := frames l @ [\<lparr>edata = length (heap l), ekind = k, ekey = key\<rparr>],
       fbytes := fbytes l + length b, heap := heap l @ [b], wakes := wakes l + 1\<rparr> else l)"
  by (simp add: grow_def signal_def Let_def)

lemma grow_bufs: "bufsOk l \<Longrightarrow> bufsOk (fst (grow b k key l))"
  by (force simp: grow_fst bufsOk_def live_def nth_append less_Suc_eq)

lemma grow_loan: "loanOk l ln \<Longrightarrow> loanOk (fst (grow b k key l)) ln"
  by (fastforce simp: grow_fst loanOk_def live_def nth_append)

lemma foldLog_open:
  "closed l = None \<Longrightarrow> foldLog merge activity l = reclaim
     (l\<lparr>checkpoint := ck (folded merge activity l), base := base l + length (frames l), frames := [],
        fbytes := 0, folds := folds l + 1,
        retired := retired l @ [(folds l + 1, dropped (folded merge activity l))],
        heap := fheap (folded merge activity l)\<rparr>)"
  by (simp add: foldLog_def folded_def Let_def)

lemma folded_split:
  assumes "bufsOk l"
  shows "distinct (map edata (ck (folded merge activity l)) @ dropped (folded merge activity l))"
    and "set (map edata (ck (folded merge activity l))) \<union> set (dropped (folded merge activity l)) =
      set (live l) \<union> {length (heap l)..<length (fheap (folded merge activity l))}"
proof -
  let ?s = "folded merge activity l"
  have m: "mset (map edata (ck ?s) @ dropped ?s) = mset (live l @ [length (heap l)..<length (fheap ?s)])"
    using folded_addrs(1) [of merge activity l] by (simp add: live_def)
  have "distinct (live l @ [length (heap l)..<length (fheap ?s)])"
    using assms by (auto simp: bufsOk_def)
  with m show "distinct (map edata (ck ?s) @ dropped ?s)" by (metis mset_eq_imp_distinct_iff)
  from mset_eq_setD [OF m]
  show "set (map edata (ck ?s)) \<union> set (dropped ?s) =
      set (live l) \<union> {length (heap l)..<length (fheap ?s)}" by simp
qed

text \<open>The log between the fold and its reclaim.\<close>

definition foldedLog :: "(bytes list \<Rightarrow> bytes) \<Rightarrow> (string \<Rightarrow> bytes option) \<Rightarrow> FrameLog \<Rightarrow> FrameLog" where
  "foldedLog merge activity l =
     l\<lparr>checkpoint := ck (folded merge activity l), base := base l + length (frames l), frames := [],
       fbytes := 0, folds := folds l + 1,
       retired := retired l @ [(folds l + 1, dropped (folded merge activity l))],
       heap := fheap (folded merge activity l)\<rparr>"

lemma folded_heap_nth:
  "a < length (heap l) \<Longrightarrow> fheap (folded merge activity l) ! a = heap l ! a"
  "length (heap l) \<le> length (fheap (folded merge activity l))"
  using folded_addrs(2) [of l merge activity] by (auto simp: nth_append elim!: prefixE)

lemma foldedLog_bufs:
  assumes "bufsOk l"
  shows "bufsOk (foldedLog merge activity l)"
proof -
  let ?s = "folded merge activity l" and ?l = "foldedLog merge activity l"
  note sp = folded_split [OF assms, of merge activity]
  have lv: "live ?l = map edata (ck ?s)" and rt: "retd ?l = retd l @ dropped ?s"
    and hp: "heap ?l = fheap ?s"
    by (simp_all add: foldedLog_def live_def)
  have low: "set (retd l) \<subseteq> {..<length (heap l)}" "set (retd l) \<inter> set (live l) = {}"
    using assms by (auto simp: bufsOk_def)
  have "set (retd l) \<inter> (set (map edata (ck ?s)) \<union> set (dropped ?s)) = {}"
    unfolding sp(2) using low by auto
  moreover have "set (live l) \<union> {length (heap l)..<length (fheap ?s)} \<subseteq> {..<length (fheap ?s)}"
    "set (retd l) \<subseteq> {..<length (fheap ?s)}"
    using assms folded_heap_nth(2) [of l merge activity] low by (auto simp: bufsOk_def)
  moreover have "a \<in> set (map edata (ck ?s)) \<union> set (dropped ?s) \<or> a \<in> set (retd l) \<or> zeroed (fheap ?s ! a)"
    if "a < length (fheap ?s)" for a
    unfolding sp(2) using that assms folded_heap_nth(1) [of a l merge activity]
    by (cases "a < length (heap l)") (auto simp: bufsOk_def)
  moreover have "\<forall>r\<in>set (retired ?l). fst r \<le> folds ?l"
    using assms by (auto simp: bufsOk_def foldedLog_def intro: le_SucI)
  ultimately show ?thesis using assms sp unfolding bufsOk_def lv rt hp by auto
qed

lemma foldedLog_loan:
  assumes "bufsOk l" "loanOk l ln"
  shows "loanOk (foldedLog merge activity l) ln"
proof -
  let ?s = "folded merge activity l"
  note sp = folded_split(2) [OF assms(1), of merge activity]
  have "fheap ?s ! a = b \<and> a < length (fheap ?s) \<and> (a \<in> set (map edata (ck ?s)) \<or>
      (\<exists>r\<in>set (retired l @ [(folds l + 1, dropped ?s)]). fst ln < fst r \<and> a \<in> set (snd r)))"
    if "(a, b) \<in> set (snd ln)" for a b
  proof -
    have a: "a < length (heap l)" "heap l ! a = b" and
      or: "a \<in> set (live l) \<or> (\<exists>r\<in>set (retired l). fst ln < fst r \<and> a \<in> set (snd r))"
      and le: "fst ln \<le> folds l"
      using assms(2) that by (auto simp: loanOk_def)
    have "a \<in> set (live l) \<Longrightarrow> a \<in> set (map edata (ck ?s)) \<or> a \<in> set (dropped ?s)" using sp by blast
    with or le have "a \<in> set (map edata (ck ?s)) \<or>
      (\<exists>r\<in>set (retired l @ [(folds l + 1, dropped ?s)]). fst ln < fst r \<and> a \<in> set (snd r))"
      by fastforce
    with a folded_heap_nth(1) [of a l merge activity] folded_heap_nth(2) [of l merge activity]
    show ?thesis by simp
  qed
  then show ?thesis using assms(2) by (fastforce simp: loanOk_def foldedLog_def live_def)
qed

lemma foldLog_eq:
  "foldLog merge activity l = (if closed l = None then reclaim (foldedLog merge activity l) else l)"
  by (simp add: foldLog_open foldedLog_def) (simp add: foldLog_def)

section \<open>A log and the streams that drain it\<close>

text \<open>\<open>idle\<close> counts the attached streams that hold no frames and \<open>loans\<close> lists what
  the others hold.  \<open>hist\<close> is every frame the run appended, and \<open>gone\<close> records that
  the log was wiped.\<close>

type_synonym frameVal = "bytes \<times> frameKind \<times> string"

record logSys =
  flog :: FrameLog
  idle :: nat
  loans :: "loan list"
  hist :: "frameVal list"
  gone :: bool

definition wiped :: "FrameLog \<Rightarrow> bool" where
  "wiped l \<longleftrightarrow> ended l \<and> draining l \<le> 0 \<and> \<not> held l"

definition deref :: "bytes list \<Rightarrow> entry \<Rightarrow> frameVal" where
  "deref h e = (h ! edata e, ekind e, ekey e)"

definition lend :: "FrameLog \<Rightarrow> readResult \<Rightarrow> loan" where
  "lend l r = (rFolds r, map (\<lambda>a. (a, heap l ! a)) (rCheckpoint r @ rFrames r))"

text \<open>The steps of the run (append, fold, close), of the registry (hold, release)
  and of the streams (attach, read, done, detach), in any order.  \<open>law\<close> restricts the
  merge function.\<close>

inductive logStep :: "((bytes list \<Rightarrow> bytes) \<Rightarrow> bool) \<Rightarrow> logSys \<Rightarrow> logSys \<Rightarrow> bool" for law where
  s_grow: "logStep law s (s\<lparr>flog := fst (grow b k key (flog s)),
      hist := (if closed (flog s) = None then hist s @ [(b, k, key)] else hist s)\<rparr>)"
| s_fold: "law merge \<Longrightarrow> logStep law s (s\<lparr>flog := foldLog merge activity (flog s)\<rparr>)"
| s_close: "l = closeLog err (flog s) \<Longrightarrow> logStep law s (s\<lparr>flog := l, gone := gone s \<or> wiped l\<rparr>)"
| s_hold: "logStep law s (s\<lparr>flog := hold (flog s)\<rparr>)"
| s_release: "l = release (flog s) \<Longrightarrow> logStep law s (s\<lparr>flog := l, gone := gone s \<or> wiped l\<rparr>)"
| s_attach: "logStep law s (s\<lparr>flog := Attach (flog s), idle := idle s + 1\<rparr>)"
| s_read: "idle s > 0 \<Longrightarrow> ReadLog from (flog s) = (l, r) \<Longrightarrow>
    logStep law s (s\<lparr>flog := l, idle := idle s - 1, loans := lend (flog s) r # loans s\<rparr>)"
| s_done: "loans s = xs @ ln # ys \<Longrightarrow>
    logStep law s (s\<lparr>flog := doneRead (fst ln) (flog s), idle := idle s + 1, loans := xs @ ys\<rparr>)"
| s_detach: "idle s > 0 \<Longrightarrow> l = Detach (flog s) \<Longrightarrow>
    logStep law s (s\<lparr>flog := l, idle := idle s - 1, gone := gone s \<or> wiped l\<rparr>)"

inductive_cases logStep_cases: "logStep law s s'"

definition initSys :: logSys where
  "initSys = \<lparr>flog = newRunlog, idle = 0, loans = [], hist = [], gone = False\<rparr>"

inductive logReach :: "((bytes list \<Rightarrow> bytes) \<Rightarrow> bool) \<Rightarrow> logSys \<Rightarrow> bool" for law where
  r_init: "logReach law initSys"
| r_step: "logReach law s \<Longrightarrow> logStep law s s' \<Longrightarrow> logReach law s'"

definition memOk :: "logSys \<Rightarrow> bool" where
  "memOk s \<longleftrightarrow> bufsOk (flog s) \<and> list_all (loanOk (flog s)) (loans s) \<and> lentOk (flog s) (loans s) \<and>
     draining (flog s) = int (idle s + length (loans s)) \<and>
     (ended (flog s) \<longrightarrow> closed (flog s) \<noteq> None) \<and>
     (wiped (flog s) \<longrightarrow> (\<forall>b\<in>set (heap (flog s)). zeroed b))"

text \<open>Changes of flags alone leave the buffers, the loans and the counts as they were.\<close>

lemma bufsOk_cong:
  "live l' = live l \<Longrightarrow> retired l' = retired l \<Longrightarrow> heap l' = heap l \<Longrightarrow> folds l' = folds l \<Longrightarrow>
   bufsOk l' = bufsOk l"
  by (simp add: bufsOk_def)

lemma loanOk_cong:
  "live l' = live l \<Longrightarrow> retired l' = retired l \<Longrightarrow> heap l' = heap l \<Longrightarrow> folds l' = folds l \<Longrightarrow>
   loanOk l' = loanOk l"
  by (rule ext) (simp add: loanOk_def)

lemma lentOk_cong: "lent l' = lent l \<Longrightarrow> lentOk l' = lentOk l"
  by (rule ext) (simp add: lentOk_def)

lemmas log_congs = bufsOk_cong loanOk_cong lentOk_cong

lemma wipe_no_loans:
  "list_all (loanOk l) xs \<Longrightarrow> wiped l \<longrightarrow> xs = [] \<Longrightarrow> list_all (loanOk (wipe l)) xs"
  by (cases "wiped l") (auto simp: wiped_def wipe_idle)

lemma wiped_wipe [simp]: "wiped (wipe l) = wiped l"
  by (simp add: wiped_def)

lemma wipe_mem:
  assumes "bufsOk l" "list_all (loanOk l) xs" "lentOk l xs" "draining l = int (n + length xs)"
  shows "bufsOk (wipe l) \<and> list_all (loanOk (wipe l)) xs \<and> lentOk (wipe l) xs \<and>
    draining (wipe l) = int (n + length xs) \<and>
    (wiped (wipe l) \<longrightarrow> (\<forall>b\<in>set (heap (wipe l)). zeroed b))"
proof -
  have "xs = []" if "wiped l" using that assms(4) by (cases xs) (auto simp: wiped_def)
  then have "list_all (loanOk (wipe l)) xs" using assms(2) wipe_no_loans by blast
  moreover have "zeroed b" if "wiped l" "b \<in> set (heap (wipe l))" for b
    using that wipe_zeroes [OF assms(1)] by (auto simp: wiped_def in_set_conv_nth)
  ultimately show ?thesis using assms wipe_bufs lentOk_cong [of "wipe l" l] by simp
qed

lemma lentOk_read:
  "lentOk l xs \<Longrightarrow> fst ln = f \<Longrightarrow>
   lentOk (l\<lparr>lent := AList.update f (lentCount f (lent l) + 1) (lent l)\<rparr>) (ln # xs)"
  by (auto simp: lentOk_def lentTo_def lentCount_def update_conv' distinct_update split: option.splits)

lemma lentOk_done:
  assumes "lentOk l (xs @ ln # ys)"
  shows "lentOk (l\<lparr>lent := (let n = lentCount (fst ln) (lent l) - 1; m = AList.update (fst ln) n (lent l)
     in if n = 0 then AList.delete (fst ln) m else m)\<rparr>) (xs @ ys)"
proof -
  have "lentTo (xs @ ln # ys) (fst ln) = lentTo (xs @ ys) (fst ln) + 1"
    "f \<noteq> fst ln \<Longrightarrow> lentTo (xs @ ln # ys) f = lentTo (xs @ ys) f" for f
    by (auto simp: lentTo_def)
  moreover have "lentTo (xs @ ys) (fst ln) \<ge> 0" by (simp add: lentTo_def)
  ultimately show ?thesis using assms
    by (auto simp: lentOk_def lentCount_def update_conv' delete_conv' distinct_update distinct_delete
          restrict_map_def Let_def split: option.splits)
qed

lemma mem_grow: "memOk s \<Longrightarrow> memOk (s\<lparr>flog := fst (grow b k key (flog s)), hist := h\<rparr>)"
proof -
  assume ok: "memOk s"
  then have "list_all (loanOk (fst (grow b k key (flog s)))) (loans s)"
    by (auto simp: memOk_def list_all_iff grow_loan)
  then show ?thesis using ok grow_bufs [of "flog s" b k key]
    by (auto simp: memOk_def grow_fst lentOk_def wiped_def)
qed

lemma mem_reclaim:
  "bufsOk l \<Longrightarrow> list_all (loanOk l) xs \<Longrightarrow> lentOk l xs \<Longrightarrow>
   bufsOk (reclaim l) \<and> list_all (loanOk (reclaim l)) xs \<and> lentOk (reclaim l) xs"
  using reclaim_bufs reclaim_loan loan_oldest [of l xs] lentOk_cong [of "reclaim l" l]
  by (auto simp: list_all_iff)

lemma mem_fold: "memOk s \<Longrightarrow> memOk (s\<lparr>flog := foldLog merge activity (flog s)\<rparr>)"
proof (cases "closed (flog s) = None")
  case True
  assume ok: "memOk s"
  let ?l = "foldedLog merge activity (flog s)"
  have "bufsOk ?l" "list_all (loanOk ?l) (loans s)" "lentOk ?l (loans s)"
    using ok foldedLog_bufs foldedLog_loan
    by (auto simp: memOk_def list_all_iff foldedLog_def lentOk_def)
  from mem_reclaim [OF this] ok True show ?thesis
    by (auto simp: memOk_def foldLog_eq wiped_def foldedLog_def)
qed (simp add: foldLog_def)

lemma mem_close:
  assumes "memOk s" "l = closeLog err (flog s)"
  shows "memOk (s\<lparr>flog := l, gone := g\<rparr>)"
proof -
  let ?l = "(if closed (flog s) = None then signal ((flog s)\<lparr>closed := Some err\<rparr>) else flog s)\<lparr>ended := True\<rparr>"
  have "live ?l = live (flog s)" "retired ?l = retired (flog s)" "heap ?l = heap (flog s)"
    "folds ?l = folds (flog s)" "lent ?l = lent (flog s)" "draining ?l = draining (flog s)"
    "closed ?l \<noteq> None"
    by (auto simp: signal_def live_def)
  with wipe_mem [of ?l "loans s" "idle s"] assms log_congs [of ?l "flog s"] show ?thesis
    by (simp add: memOk_def closeLog_def Let_def)
qed

lemma mem_flags:
  assumes "memOk s" "l = (flog s)\<lparr>held := h, draining := d\<rparr>" "d = int (i + length (loans s))"
  shows "memOk (s\<lparr>flog := wipe l, idle := i, gone := g\<rparr>)"
proof -
  have "live l = live (flog s)" "retired l = retired (flog s)" "heap l = heap (flog s)"
    "folds l = folds (flog s)" "lent l = lent (flog s)"
    using assms(2) by (simp_all add: live_def)
  with wipe_mem [of l "loans s" i] assms log_congs [of l "flog s"] show ?thesis
    by (simp add: memOk_def)
qed

lemma mem_release: "memOk s \<Longrightarrow> memOk (s\<lparr>flog := release (flog s), gone := g\<rparr>)"
  using mem_flags [of s "(flog s)\<lparr>held := False\<rparr>" "draining (flog s)" False "idle s" g]
  by (simp add: release_def memOk_def)

lemma mem_detach:
  "memOk s \<Longrightarrow> idle s > 0 \<Longrightarrow> memOk (s\<lparr>flog := Detach (flog s), idle := idle s - 1, gone := g\<rparr>)"
  using mem_flags [of s "(flog s)\<lparr>draining := draining (flog s) - 1\<rparr>"
      "draining (flog s) - 1" "held (flog s)" "idle s - 1" g]
  by (simp add: Detach_def memOk_def of_nat_diff)

lemma mem_hold: "memOk s \<Longrightarrow> memOk (s\<lparr>flog := hold (flog s)\<rparr>)"
  using log_congs [of "hold (flog s)" "flog s"]
  by (simp add: memOk_def hold_def live_def wiped_def)

lemma mem_attach: "memOk s \<Longrightarrow> memOk (s\<lparr>flog := Attach (flog s), idle := idle s + 1\<rparr>)"
  using log_congs [of "Attach (flog s)" "flog s"]
  by (auto simp: memOk_def Attach_def live_def wiped_def)

lemma read_addrs:
  "ReadLog from l = (l', r) \<Longrightarrow> set (rCheckpoint r @ rFrames r) \<subseteq> set (live l) \<and> rFolds r = folds l"
  using set_drop_subset [of _ "frames l"]
  by (fastforce simp: ReadLog_def live_def Let_def split: if_splits)

lemma read_loan:
  assumes "bufsOk l" "ReadLog from l = (l', r)"
  shows "loanOk l (lend l r)" "rFolds r = folds l"
  using assms(1) read_addrs [OF assms(2)]
  by (auto simp: lend_def loanOk_def bufsOk_def subset_iff)

lemma mem_read:
  assumes "memOk s" "idle s > 0" "ReadLog from (flog s) = (l, r)"
  shows "memOk (s\<lparr>flog := l, idle := idle s - 1, loans := lend (flog s) r # loans s\<rparr>)"
proof -
  have l: "l = (flog s)\<lparr>lent := AList.update (folds (flog s))
      (lentCount (folds (flog s)) (lent (flog s)) + 1) (lent (flog s))\<rparr>"
    using assms(3) by (simp add: ReadLog_def Let_def)
  have r: "loanOk (flog s) (lend (flog s) r)" "fst (lend (flog s) r) = folds (flog s)"
    using assms read_loan [of "flog s" "from" l r] by (simp_all add: memOk_def lend_def)
  have "lentOk l (lend (flog s) r # loans s)"
    unfolding l using assms(1) r(2) by (intro lentOk_read) (simp_all add: memOk_def)
  with assms r log_congs(1,2) [of l "flog s"] l show ?thesis
    by (auto simp: memOk_def live_def wiped_def)
qed

lemma mem_done:
  assumes "memOk s" "loans s = xs @ ln # ys"
  shows "memOk (s\<lparr>flog := doneRead (fst ln) (flog s), idle := idle s + 1, loans := xs @ ys\<rparr>)"
proof -
  let ?l = "(flog s)\<lparr>lent := (let n = lentCount (fst ln) (lent (flog s)) - 1;
      m = AList.update (fst ln) n (lent (flog s)) in if n = 0 then AList.delete (fst ln) m else m)\<rparr>"
  have eq: "doneRead (fst ln) (flog s) = reclaim ?l" by (simp add: doneRead_def Let_def)
  have lk: "lentOk ?l (xs @ ys)" using assms by (intro lentOk_done) (simp add: memOk_def)
  have "live ?l = live (flog s)" "retired ?l = retired (flog s)" "heap ?l = heap (flog s)"
    "folds ?l = folds (flog s)" by (simp_all add: live_def)
  note cong = log_congs(1,2) [OF this]
  have "bufsOk ?l" "list_all (loanOk ?l) (xs @ ys)"
    using assms unfolding cong by (simp_all add: memOk_def)
  from mem_reclaim [OF this lk] assms show ?thesis
    unfolding eq by (auto simp: memOk_def wiped_def)
qed

lemmas mem_ops = mem_grow mem_fold mem_close mem_hold mem_release mem_attach mem_read mem_done mem_detach

lemma logStep_mem: "logStep law s s' \<Longrightarrow> memOk s \<Longrightarrow> memOk s'"
  by (induction rule: logStep.induct) (blast intro: mem_ops | metis mem_ops)+

lemma mem_init: "memOk initSys"
  by (simp add: memOk_def initSys_def newRunlog_def bufsOk_def live_def lentOk_def lentTo_def wiped_def)

lemma reach_mem: "logReach law s \<Longrightarrow> memOk s"
  by (induction rule: logReach.induct) (auto intro: mem_init logStep_mem)

section \<open>The log still tells the whole run\<close>

definition itemsV :: "(bytes \<Rightarrow> string) \<Rightarrow> frameVal \<Rightarrow> item list" where
  "itemsV dtext v = (case v of (b, k, key) \<Rightarrow>
     (case k of frameKept \<Rightarrow> [Kept b] | frameDelta \<Rightarrow> [Delta key (dtext b)] | frameActivity \<Rightarrow> []))"

definition showVals :: "(bytes \<Rightarrow> string) \<Rightarrow> frameVal list \<Rightarrow> item list" where
  "showVals dtext vs = foldl push [] (concat (map (itemsV dtext) vs))"

lemma items_deref: "items dtext h e = itemsV dtext (deref h e)"
  by (simp add: items_def itemsV_def deref_def)

lemma shown_deref: "shown dtext h es = showVals dtext (map (deref h) es)"
  by (simp add: shown_def showOn_def showVals_def items_deref [abs_def] comp_def)

definition histOk :: "(bytes \<Rightarrow> string) \<Rightarrow> logSys \<Rightarrow> bool" where
  "histOk dtext s \<longleftrightarrow> gone s \<or>
     (base (flog s) \<le> length (hist s) \<and>
      map (deref (heap (flog s))) (frames (flog s)) = drop (base (flog s)) (hist s) \<and>
      shown dtext (heap (flog s)) (checkpoint (flog s)) = showVals dtext (take (base (flog s)) (hist s)) \<and>
      fbytes (flog s) = sum_list (map (\<lambda>v. length (fst v)) (drop (base (flog s)) (hist s))))"

definition sameLive :: "FrameLog \<Rightarrow> FrameLog \<Rightarrow> bool" where
  "sameLive l' l \<longleftrightarrow> base l' = base l \<and> frames l' = frames l \<and> checkpoint l' = checkpoint l \<and>
     fbytes l' = fbytes l \<and> (\<forall>a\<in>set (live l). heap l' ! a = heap l ! a)"

lemma histOk_same:
  assumes "histOk dtext s" "sameLive (flog s') (flog s)" "hist s' = hist s" "gone s \<longrightarrow> gone s'"
  shows "histOk dtext s'"
proof -
  have *: "deref (heap (flog s')) e = deref (heap (flog s)) e" if "e \<in> set (checkpoint (flog s) @ frames (flog s))" for e
    using assms(2) that by (auto simp: sameLive_def live_def deref_def)
  then have "map (deref (heap (flog s'))) (frames (flog s)) = map (deref (heap (flog s))) (frames (flog s))"
    "map (deref (heap (flog s'))) (checkpoint (flog s)) = map (deref (heap (flog s))) (checkpoint (flog s))"
    by simp_all
  with assms show ?thesis by (auto simp: histOk_def sameLive_def shown_deref simp del: map_eq_conv)
qed

lemma same_reclaim: "bufsOk l \<Longrightarrow> sameLive (reclaim l) l"
  by (simp add: sameLive_def reclaim_heap_live)

lemma hist_grow:
  assumes "histOk dtext s" "memOk s"
  shows "histOk dtext (s\<lparr>flog := fst (grow b k key (flog s)),
      hist := (if closed (flog s) = None then hist s @ [(b, k, key)] else hist s)\<rparr>)"
proof (cases "closed (flog s) = None \<and> \<not> gone s")
  case True
  let ?l = "flog s"
  have "deref (heap ?l @ [b]) e = deref (heap ?l) e" if "e \<in> set (checkpoint ?l @ frames ?l)" for e
    using assms(2) that by (auto simp: memOk_def bufsOk_def live_def deref_def nth_append)
  then have "map (deref (heap ?l @ [b])) (frames ?l) = map (deref (heap ?l)) (frames ?l)"
    "map (deref (heap ?l @ [b])) (checkpoint ?l) = map (deref (heap ?l)) (checkpoint ?l)" by simp_all
  with assms True show ?thesis
    by (simp add: histOk_def grow_fst shown_deref del: map_eq_conv) (simp add: deref_def)
next
  case False
  then show ?thesis using assms by (auto simp: histOk_def grow_fst)
qed

lemma hist_fold:
  assumes "histOk dtext s" "memOk s" "mergeLaw merge dtext"
  shows "histOk dtext (s\<lparr>flog := foldLog merge activity (flog s)\<rparr>)"
proof (cases "closed (flog s) = None \<and> \<not> gone s")
  case True
  let ?l = "flog s" and ?f = "foldedLog merge activity (flog s)"
  have ok: "bufsOk ?l" using assms(2) by (simp add: memOk_def)
  have hs: "base ?l \<le> length (hist s)" "map (deref (heap ?l)) (frames ?l) = drop (base ?l) (hist s)"
    "shown dtext (heap ?l) (checkpoint ?l) = showVals dtext (take (base ?l) (hist s))"
    using assms(1) True by (auto simp: histOk_def)
  have "showVals dtext (us @ vs) = foldl push (showVals dtext us) (concat (map (itemsV dtext) vs))" for us vs
    by (simp add: showVals_def)
  then have "shown dtext (heap ?l) (checkpoint ?l @ frames ?l) = showVals dtext (hist s)"
    using hs(2,3) append_take_drop_id [of "base ?l" "hist s"] by (metis map_append shown_deref)
  moreover have "\<forall>e\<in>set (checkpoint ?l @ frames ?l). edata e < length (heap ?l)"
    using ok by (auto simp: bufsOk_def live_def)
  ultimately have "shown dtext (heap ?f) (checkpoint ?f) = showVals dtext (hist s)"
    using folded_shown [OF assms(3)] by (simp add: foldedLog_def)
  moreover have "base ?f = length (hist s)"
    using hs(1) arg_cong [OF hs(2), where f = length]
    by (simp only: length_map length_drop) (simp add: foldedLog_def)
  ultimately have "histOk dtext (s\<lparr>flog := ?f\<rparr>)"
    by (simp add: histOk_def foldedLog_def)
  with True show ?thesis
    using histOk_same [of dtext "s\<lparr>flog := ?f\<rparr>" "s\<lparr>flog := reclaim ?f\<rparr>"]
      same_reclaim [OF foldedLog_bufs [OF ok]] by (simp add: foldLog_eq)
next
  case False
  then show ?thesis using assms by (auto simp: histOk_def foldLog_def)
qed

lemma same_wipe: "\<not> wiped l \<Longrightarrow> sameLive (wipe l) l"
  by (auto simp: wiped_def wipe_idle sameLive_def)

lemma hist_wipe:
  assumes "histOk dtext s" "sameLive l (flog s)" "hist s' = hist s" "flog s' = wipe l"
    and "gone s' \<longleftrightarrow> gone s \<or> wiped (wipe l)"
  shows "histOk dtext s'"
proof (cases "wiped l")
  case True
  then show ?thesis using assms by (simp add: histOk_def)
next
  case False
  then have "wipe l = l" by (simp add: wiped_def wipe_idle)
  with assms show ?thesis by (intro histOk_same [OF assms(1)]) auto
qed

lemma same_flags: "sameLive (l\<lparr>held := h, draining := d\<rparr>) l" "sameLive (l\<lparr>lent := m\<rparr>) l"
  "sameLive ((if closed l = None then signal (l\<lparr>closed := c\<rparr>) else l)\<lparr>ended := True\<rparr>) l"
  by (simp_all add: sameLive_def signal_def)

lemma logStep_hist:
  assumes "logStep (\<lambda>m. mergeLaw m dtext) s s'" "memOk s" "histOk dtext s"
  shows "histOk dtext s'"
  using assms
proof (induction rule: logStep.induct)
  case (s_grow s b k key)
  then show ?case by (simp only: hist_grow)
next
  case (s_fold merge s activity)
  then show ?case by (simp only: hist_fold)
next
  case (s_close l err s)
  show ?case by (rule hist_wipe [OF s_close.prems(2) same_flags(3) [where c = "Some err"]])
    (simp_all add: s_close closeLog_def Let_def)
next
  case (s_hold s)
  then show ?case by (elim histOk_same) (simp_all add: hold_def sameLive_def)
next
  case (s_release l s)
  show ?case by (rule hist_wipe [OF s_release.prems(2) same_flags(1) [where h = False and d = "draining (flog s)"]])
    (simp_all add: s_release release_def)
next
  case (s_attach s)
  then show ?case by (elim histOk_same) (simp_all add: Attach_def sameLive_def)
next
  case (s_read s "from" l r)
  then show ?case by (elim histOk_same) (auto simp: ReadLog_def sameLive_def Let_def)
next
  case (s_done s xs ln ys)
  have "bufsOk ((flog s)\<lparr>lent := m\<rparr>)" for m
    using s_done.prems bufsOk_cong [of "(flog s)\<lparr>lent := m\<rparr>" "flog s"] by (simp add: memOk_def live_def)
  from same_reclaim [OF this] s_done show ?case
    by (elim histOk_same) (auto simp: doneRead_def sameLive_def live_def Let_def)
next
  case (s_detach s l)
  show ?case by (rule hist_wipe [OF s_detach.prems(2) same_flags(1) [where h = "held (flog s)" and d = "draining (flog s) - 1"]])
    (simp_all add: s_detach Detach_def)
qed

lemma reach_hist: "logReach (\<lambda>m. mergeLaw m dtext) s \<Longrightarrow> histOk dtext s"
proof (induction rule: logReach.induct)
  case r_init
  show ?case by (simp add: histOk_def initSys_def newRunlog_def shown_deref)
next
  case (r_step s s')
  then show ?case using logStep_hist reach_mem by blast
qed

section \<open>Properties\<close>

text \<open>C6: a buffer that a read lent a stream keeps the bytes it had when it was read
  until the stream is done with it, whatever the run appends, folds, closes or wipes
  and whatever other streams do meanwhile.\<close>

theorem lent_frames_intact:
  assumes "logReach law s" "ln \<in> set (loans s)" "(a, b) \<in> set (snd ln)"
  shows "heap (flog s) ! a = b"
  using reach_mem [OF assms(1)] assms(2,3) by (auto simp: memOk_def list_all_iff loanOk_def)

definition demoA :: logSys where
  "demoA = initSys\<lparr>flog := fst (grow ''hi'' frameKept [] (Attach newRunlog)), idle := 1,
     hist := [(''hi'', frameKept, [])]\<rparr>"

definition demoB :: logSys where
  "demoB = demoA\<lparr>flog := fst (ReadLog 0 (flog demoA)), idle := 0,
     loans := [lend (flog demoA) (snd (ReadLog 0 (flog demoA)))]\<rparr>"

definition demoC :: logSys where
  "demoC = demoB\<lparr>flog := foldLog concat (\<lambda>k. None) (flog demoB)\<rparr>"

lemma demoA_reach: "logReach law demoA"
proof -
  have "logReach law (initSys\<lparr>flog := Attach (flog initSys), idle := idle initSys + 1\<rparr>)"
    (is "logReach law ?s") by (rule r_step [OF r_init s_attach])
  from r_step [OF this s_grow [of law ?s "''hi''" frameKept "[]"]] show ?thesis
    by (simp add: demoA_def initSys_def newRunlog_def Attach_def)
qed

lemma demoB_reach: "logReach law demoB"
proof -
  have "idle demoA > 0" by (simp add: demoA_def)
  moreover obtain l r where lr: "ReadLog 0 (flog demoA) = (l, r)" by fastforce
  ultimately have "logReach law (demoA\<lparr>flog := l, idle := idle demoA - 1,
      loans := lend (flog demoA) r # loans demoA\<rparr>)"
    by (intro r_step [OF demoA_reach s_read])
  then show ?thesis using lr by (simp add: demoB_def demoA_def initSys_def)
qed

lemma demoC_reach: "law concat \<Longrightarrow> logReach law demoC"
  unfolding demoC_def by (rule r_step [OF demoB_reach s_fold])

lemmas demo_defs = demoA_def demoB_def demoC_def initSys_def newRunlog_def Attach_def grow_def
  signal_def ReadLog_def lend_def lentCount_def

theorem lent_frames_intact_witness:
  "(0, ''hi'') \<in> set (snd (hd (loans demoC))) \<and> heap (flog demoC) ! 0 = ''hi''"
proof -
  have l: "(0, ''hi'') \<in> set (snd (hd (loans demoC)))" "hd (loans demoC) \<in> set (loans demoC)"
    by (simp_all add: demo_defs)
  then show ?thesis using lent_frames_intact [OF demoC_reach [of "\<lambda>m. True"]] by simp
qed

text \<open>C33: once a run has ended, no stream drains its log and nothing holds it, every
  buffer the log ever took is zeroed: those of the checkpoint, of the frames, and
  those that folds dropped.\<close>

theorem ended_log_zeroed:
  assumes "logReach law s" "ended (flog s)" "idle s = 0" "loans s = []" "\<not> held (flog s)"
  shows "list_all zeroed (heap (flog s))"
  using reach_mem [OF assms(1)] assms(2-5) by (auto simp: memOk_def wiped_def list_all_iff)

definition demoE :: logSys where
  "demoE = initSys\<lparr>flog := closeLog ''done'' (fst (grow ''hi'' frameKept [] newRunlog)),
     hist := [(''hi'', frameKept, [])], gone := True\<rparr>"

lemma demoE_reach: "logReach law demoE"
proof -
  let ?s = "initSys\<lparr>flog := fst (grow ''hi'' frameKept [] (flog initSys)),
    hist := (if closed (flog initSys) = None then hist initSys @ [(''hi'', frameKept, [])] else hist initSys)\<rparr>"
  have "logReach law ?s" by (rule r_step [OF r_init s_grow])
  from r_step [OF this s_close [OF refl, of law ?s "''done''"]] show ?thesis
    by (simp add: demoE_def initSys_def newRunlog_def wiped_def closeLog_def grow_def signal_def wipe_def)
qed

theorem ended_log_zeroed_witness:
  "ended (flog demoE) \<and> heap (flog demoE) \<noteq> [] \<and> list_all zeroed (heap (flog demoE))"
proof -
  have "ended (flog demoE)" "idle demoE = 0" "loans demoE = []" "\<not> held (flog demoE)" "heap (flog demoE) \<noteq> []"
    by (simp_all add: demoE_def initSys_def newRunlog_def closeLog_def grow_def signal_def wipe_def
          clearAt_def Let_def)
  then show ?thesis using ended_log_zeroed [OF demoE_reach [of "\<lambda>m. True"]] by blast
qed


definition textAll :: "bytes \<Rightarrow> string" where "textAll b = b"


text \<open>A client that reconnects naming the last event id one pass of a stream sent
  it resumes at the cursor that pass stopped at: nothing is skipped and no frame is
  sent twice.\<close>

theorem resume_after_pass:
  assumes "ReadLog from l = (l', r)" "from \<le> sent l" "sent l < 2 ^ 63"
    and "followEvents r h \<noteq> []" "fst (last (followEvents r h)) = Some i"
  shows "ResumeFrom l' (fmtInt i) = Inr (followNext r)"
proof -
  have l': "sent l' = sent l" and nx: "followNext r = sent l"
    using assms(1,2) by (auto simp: ReadLog_def sent_def followNext_def Let_def)
  have i: "i = int (sent l) - 1 \<and> sent l > 0"
  proof (cases "rFrames r = []")
    case False
    then have "last (followEvents r h) = (Some (int (rFirst r + length (rFrames r) - 1)),
        h ! (rFrames r ! (length (rFrames r) - 1)))"
      by (simp add: followEvents_def last_append enumerate_eq_zip last_map last_zip last_conv_nth
            of_nat_diff Suc_leI)
    with False assms(5) nx show ?thesis by (cases "rFrames r") (auto simp: followNext_def)
  next
    case True
    with assms(4) have c: "rCheckpoint r \<noteq> []" by (auto simp: followEvents_def)
    with True have "fst (last (followEvents r h)) = Some (int (rFirst r) - 1)"
      by (simp add: followEvents_def enumerate_eq_zip last_map last_zip last_conv_nth)
    moreover have "rFirst r > 0" using c assms(1) by (auto simp: ReadLog_def Let_def split: if_splits)
    ultimately show ?thesis using True assms(5) nx by (simp add: followNext_def)
  qed
  then have "fmtInt i = fmtNat (nat i)" "atoi (fmtNat (nat i)) = Some i"
    using assms(3) atoi_fmtNat [of "nat i"] by (auto simp: fmtInt_def)
  with i l' nx show ?thesis by (simp add: ResumeFrom_def nat_diff_distrib)
qed

theorem resume_after_pass_witness:
  "\<exists>l' r. ReadLog 0 (flog demoA) = (l', r) \<and> ResumeFrom l' ''0'' = Inr 1"
proof -
  let ?l' = "fst (ReadLog 0 (flog demoA))" and ?r = "snd (ReadLog 0 (flog demoA))"
  have "followEvents ?r (heap (flog demoA)) = [(Some 0, ''hi'')]" "followNext ?r = 1"
    "0 \<le> sent (flog demoA)" "sent (flog demoA) < 2 ^ 63"
    by (simp_all add: demo_defs followEvents_def followNext_def sent_def)
  with resume_after_pass [of 0 "flog demoA" ?l' ?r "heap (flog demoA)" 0]
  have "ResumeFrom ?l' (fmtInt 0) = Inr 1" by simp
  moreover have "fmtInt 0 = ''0''" by (simp add: fmtInt_def fmtNat.simps decDigit_def)
  ultimately show ?thesis by (metis prod.collapse)
qed

end
