(* ===== verification/Jobs.thy ===== *)
theory Jobs
  imports Prelude
begin

text \<open>Background jobs, \<^verbatim>\<open>internal/jobs/jobs.go\<close>: a runner that keeps one job per
  owner, its report, and the job for a while after it ends.  Job objects live in a
  store and are compared by address, as the Go code compares pointers.  The steps
  interleave callers, the goroutines that run the work and the retention timers.\<close>

section \<open>Jobs and the runner\<close>

datatype jobState = Running | Complete | Failed

record 'r Status =
  State :: jobState
  Report :: 'r
  Err :: "string option"
  StartedAt :: nat
  UpdatedAt :: nat

record 'r Job =
  jid :: string
  status :: "'r Status"
  jdone :: bool
  cancelled :: bool

text \<open>\<open>jobs\<close> is the runner's map from owners to job addresses; \<open>working\<close> are the
  goroutines inside \<^verbatim>\<open>run\<close>, and \<open>timers\<close> the pending retention timers.\<close>

record 'r Runner =
  retention :: int
  jobs :: "string \<rightharpoonup> nat"
  store :: "'r Job list"
  working :: "(string \<times> nat) list"
  timers :: "(string \<times> nat) list"

definition newRunner :: "int \<Rightarrow> 'r Runner" where
  "newRunner ret = \<lparr>retention = ret, jobs = Map.empty, store = [], working = [], timers = []\<rparr>"

definition updJob :: "nat \<Rightarrow> ('r Job \<Rightarrow> 'r Job) \<Rightarrow> 'r Runner \<Rightarrow> 'r Runner" where
  "updJob j f r = r\<lparr>store := (store r)[j := f (store r ! j)]\<rparr>"

definition startNew :: "nat \<Rightarrow> string \<Rightarrow> 'r \<Rightarrow> string \<Rightarrow> 'r Runner \<Rightarrow> 'r Runner \<times> nat \<times> bool" where
  "startNew now newID zero owner r =
    (let j = length (store r);
         job = \<lparr>jid = newID, status = \<lparr>State = Running, Report = zero, Err = None,
                  StartedAt = now, UpdatedAt = now\<rparr>, jdone = False, cancelled = False\<rparr>
     in (r\<lparr>jobs := (jobs r)(owner \<mapsto> j), store := store r @ [job], working := (owner, j) # working r\<rparr>,
         j, True))"

text \<open>\<open>start\<close> returns the job's address and whether it was started; \<open>zero\<close> is the zero
  value of the report type.\<close>

definition start :: "nat \<Rightarrow> string \<Rightarrow> 'r \<Rightarrow> bool \<Rightarrow> string \<Rightarrow> 'r Runner \<Rightarrow> 'r Runner \<times> nat \<times> bool" where
  "start now newID zero replaceEnded owner r =
    (case jobs r owner of
       Some j \<Rightarrow>
         if \<not> replaceEnded \<or> State (status (store r ! j)) = Running then (r, j, False)
         else startNew now newID zero owner (r\<lparr>jobs := (jobs r)(owner := None)\<rparr>)
     | None \<Rightarrow> startNew now newID zero owner r)"

definition StartJob :: "nat \<Rightarrow> string \<Rightarrow> 'r \<Rightarrow> string \<Rightarrow> 'r Runner \<Rightarrow> 'r Runner \<times> nat \<times> bool" where
  "StartJob now newID zero owner r = start now newID zero False owner r"

definition Restart :: "nat \<Rightarrow> string \<Rightarrow> 'r \<Rightarrow> string \<Rightarrow> 'r Runner \<Rightarrow> 'r Runner \<times> nat \<times> bool" where
  "Restart now newID zero owner r = start now newID zero True owner r"

definition GetJob :: "string \<Rightarrow> 'r Runner \<Rightarrow> nat option" where
  "GetJob owner r = jobs r owner"

definition CancelJob :: "string \<Rightarrow> 'r Runner \<Rightarrow> 'r Runner \<times> nat option" where
  "CancelJob owner r =
    (let r' = r\<lparr>jobs := (jobs r)(owner := None)\<rparr> in
     case jobs r owner of None \<Rightarrow> (r', None)
     | Some j \<Rightarrow> (updJob j (\<lambda>job. job\<lparr>cancelled := True\<rparr>) r', Some j))"

definition report :: "nat \<Rightarrow> 'r \<Rightarrow> nat \<Rightarrow> 'r Runner \<Rightarrow> 'r Runner" where
  "report now progress j r =
     updJob j (\<lambda>job. job\<lparr>status := (status job)\<lparr>Report := progress, UpdatedAt := now\<rparr>\<rparr>) r"

text \<open>\<open>finish\<close> closes the job's channel; closing it twice panics, which is \<^const>\<open>None\<close>.\<close>

definition finish :: "nat \<Rightarrow> 'r option \<Rightarrow> string option \<Rightarrow> 'r Job \<Rightarrow> 'r Job option" where
  "finish now final err job =
    (let st = (status job)\<lparr>UpdatedAt := now\<rparr>;
         st = (case err of Some e \<Rightarrow> st\<lparr>State := Failed, Err := Some e\<rparr> | None \<Rightarrow> st\<lparr>State := Complete\<rparr>);
         st = (case final of None \<Rightarrow> st | Some f \<Rightarrow> st\<lparr>Report := f\<rparr>)
     in if jdone job then None else Some (job\<lparr>status := st, jdone := True\<rparr>))"

text \<open>The outcome of the work: \<open>guarded\<close> turns a panic into an error with no final
  report.\<close>

datatype 'r outcome = Returned 'r "string option" | Panicked

definition errPanicked :: string where "errPanicked = ''jobs: the job panicked''"

definition guarded :: "'r outcome \<Rightarrow> 'r option \<times> string option" where
  "guarded oc = (case oc of Returned f e \<Rightarrow> (Some f, e) | Panicked \<Rightarrow> (None, Some errPanicked))"

definition unregister :: "string \<Rightarrow> nat \<Rightarrow> 'r Runner \<Rightarrow> 'r Runner" where
  "unregister owner j r =
    (if jobs r owner = Some j then r\<lparr>jobs := (jobs r)(owner := None)\<rparr> else r)"

text \<open>The end of \<^verbatim>\<open>run\<close>: the job finishes and leaves the runner, or its timer is set.\<close>

definition endRun :: "nat \<Rightarrow> 'r outcome \<Rightarrow> string \<Rightarrow> nat \<Rightarrow> 'r Runner \<Rightarrow> 'r Runner option" where
  "endRun now oc owner j r =
    (case guarded oc of (final, err) \<Rightarrow>
     case finish now final err (store r ! j) of None \<Rightarrow> None
     | Some job \<Rightarrow>
        let r1 = r\<lparr>store := (store r)[j := job\<lparr>cancelled := True\<rparr>], working := remove1 (owner, j) (working r)\<rparr>
        in Some (if retention r \<le> 0 then unregister owner j r1
                 else r1\<lparr>timers := (owner, j) # timers r1\<rparr>))"

definition expire :: "string \<Rightarrow> nat \<Rightarrow> 'r Runner \<Rightarrow> 'r Runner" where
  "expire owner j r = unregister owner j (r\<lparr>timers := remove1 (owner, j) (timers r)\<rparr>)"

section \<open>Interleavings\<close>

inductive jobStep :: "'r Runner \<Rightarrow> 'r Runner \<Rightarrow> bool" where
  j_start: "jobStep r (fst (start now newID zero repl owner r))"
| j_cancel: "jobStep r (fst (CancelJob owner r))"
| j_report: "(owner, j) \<in> set (working r) \<Longrightarrow> jobStep r (report now progress j r)"
| j_end: "(owner, j) \<in> set (working r) \<Longrightarrow> endRun now oc owner j r = Some r' \<Longrightarrow> jobStep r r'"
| j_expire: "(owner, j) \<in> set (timers r) \<Longrightarrow> jobStep r (expire owner j r)"

inductive jobReach :: "int \<Rightarrow> 'r Runner \<Rightarrow> bool" for ret where
  jr_init: "jobReach ret (newRunner ret)"
| jr_step: "jobReach ret r \<Longrightarrow> jobStep r r' \<Longrightarrow> jobReach ret r'"

text \<open>What is true of a working goroutine, of a registered job and of every job.\<close>

definition workOk :: "'r Runner \<Rightarrow> string \<Rightarrow> nat \<Rightarrow> bool" where
  "workOk r ow j \<longleftrightarrow> j < length (store r) \<and> \<not> jdone (store r ! j) \<and>
     (\<not> cancelled (store r ! j) \<longrightarrow> jobs r ow = Some j) \<and> j \<notin> snd ` set (timers r)"

definition regOk :: "'r Runner \<Rightarrow> string \<Rightarrow> nat \<Rightarrow> bool" where
  "regOk r ow j \<longleftrightarrow> j < length (store r) \<and>
     (ow, j) \<in> (if jdone (store r ! j) then set (timers r) else set (working r))"

definition endedOk :: "'r Job \<Rightarrow> bool" where
  "endedOk job \<longleftrightarrow> (jdone job \<longleftrightarrow> State (status job) \<noteq> Running)"

definition jobInv :: "'r Runner \<Rightarrow> bool" where
  "jobInv r \<longleftrightarrow> distinct (map snd (working r)) \<and>
     (\<forall>ow j. (ow, j) \<in> set (working r) \<longrightarrow> workOk r ow j) \<and>
     (\<forall>ow j. jobs r ow = Some j \<longrightarrow> regOk r ow j) \<and>
     (\<forall>job\<in>set (store r). endedOk job) \<and>
     (\<forall>j\<in>snd ` set (timers r). j < length (store r))"

section \<open>Every step keeps the invariant\<close>

lemma jobInvI:
  assumes "distinct (map snd (working r))"
    and "\<And>ow j. (ow, j) \<in> set (working r) \<Longrightarrow> workOk r ow j"
    and "\<And>ow j. jobs r ow = Some j \<Longrightarrow> regOk r ow j"
    and "\<And>job. job \<in> set (store r) \<Longrightarrow> endedOk job"
    and "\<And>j. j \<in> snd ` set (timers r) \<Longrightarrow> j < length (store r)"
  shows "jobInv r"
  unfolding jobInv_def using assms by blast

lemma jobInvD:
  assumes "jobInv r"
  shows "distinct (map snd (working r))"
    and "(ow, j) \<in> set (working r) \<Longrightarrow> workOk r ow j"
    and "jobs r ow = Some j \<Longrightarrow> regOk r ow j"
    and "job \<in> set (store r) \<Longrightarrow> endedOk job"
    and "j \<in> snd ` set (timers r) \<Longrightarrow> j < length (store r)"
  using assms unfolding jobInv_def by blast+

lemma working_owner:
  assumes "jobInv r" "(a, j) \<in> set (working r)" "(b, j) \<in> set (working r)"
  shows "a = b"
  using jobInvD(1) [OF assms(1)] assms(2,3) by (metis distinct_map inj_onD prod.inject snd_conv)

lemma inv_init: "jobInv (newRunner ret)"
  by (simp add: jobInv_def newRunner_def)

lemma inv_startNew:
  assumes "jobInv r" "jobs r owner = None"
  shows "jobInv (fst (startNew now newID zero owner r))"
proof -
  define job where "job = \<lparr>jid = newID, status = \<lparr>State = Running, Report = zero, Err = None,
      StartedAt = now, UpdatedAt = now\<rparr>, jdone = False, cancelled = False\<rparr>"
  define n where "n = length (store r)"
  have eq: "fst (startNew now newID zero owner r) = r\<lparr>jobs := (jobs r)(owner \<mapsto> n),
      store := store r @ [job], working := (owner, n) # working r\<rparr>" (is "_ = ?r")
    by (simp add: startNew_def job_def n_def Let_def)
  have lt: "j < n" if "(ow, j) \<in> set (working r)" for ow j
    using jobInvD(2) [OF assms(1) that] by (simp add: workOk_def n_def)
  have tm: "n \<notin> snd ` set (timers r)" using jobInvD(5) [OF assms(1)] by (auto simp: n_def)
  show ?thesis unfolding eq
  proof (rule jobInvI)
    show "distinct (map snd (working ?r))" using jobInvD(1) [OF assms(1)] lt by force
    show "workOk ?r ow j" if "(ow, j) \<in> set (working ?r)" for ow j
    proof (cases "(ow, j) = (owner, n)")
      case True
      then show ?thesis using tm by (simp add: workOk_def n_def job_def nth_append)
    next
      case False
      then have "(ow, j) \<in> set (working r)" using that by auto
      from jobInvD(2) [OF assms(1) this] assms(2) show ?thesis by (auto simp: workOk_def nth_append)
    qed
    show "regOk ?r ow j" if "jobs ?r ow = Some j" for ow j
    proof (cases "ow = owner")
      case True
      then show ?thesis using that by (simp add: regOk_def n_def job_def nth_append)
    next
      case False
      then have "jobs r ow = Some j" using that by simp
      from jobInvD(3) [OF assms(1) this] show ?thesis by (auto simp: regOk_def nth_append)
    qed
    show "endedOk j" if "j \<in> set (store ?r)" for j
      using that jobInvD(4) [OF assms(1), of j] by (auto simp: job_def endedOk_def)
    show "j < length (store ?r)" if "j \<in> snd ` set (timers ?r)" for j
      using jobInvD(5) [OF assms(1), of j] that by simp
  qed
qed

text \<open>Forgetting a job that is done, or whose context is cancelled, keeps the rest.\<close>

lemma inv_forget:
  assumes "jobInv r" "jobs r owner = Some j" "jdone (store r ! j)"
  shows "jobInv (r\<lparr>jobs := (jobs r)(owner := None)\<rparr>)" (is "jobInv ?r")
proof (rule jobInvI)
  show "workOk ?r ow i" if "(ow, i) \<in> set (working ?r)" for ow i
    using jobInvD(2) [OF assms(1), of ow i] that assms(2,3) by (auto simp: workOk_def)
  show "regOk ?r ow i" if "jobs ?r ow = Some i" for ow i
    using jobInvD(3) [OF assms(1), of ow i] that by (simp add: regOk_def split: if_splits)
qed (use jobInvD(1,4,5) [OF assms(1)] in simp_all)

lemma inv_start:
  assumes "jobInv r"
  shows "jobInv (fst (start now newID zero repl owner r))"
proof (cases "jobs r owner")
  case None
  then show ?thesis using inv_startNew [OF assms None] by (simp add: start_def)
next
  case (Some j)
  have "store r ! j \<in> set (store r)" using jobInvD(3) [OF assms Some] by (simp add: regOk_def)
  then have "endedOk (store r ! j)" using jobInvD(4) [OF assms] by blast
  then have "jobInv (r\<lparr>jobs := (jobs r)(owner := None)\<rparr>)" if "State (status (store r ! j)) \<noteq> Running"
    using that inv_forget [OF assms Some] by (simp add: endedOk_def)
  then show ?thesis using assms Some
    by (auto simp: start_def intro: inv_startNew)
qed

lemma inv_upd:
  assumes "jobInv r" "j < length (store r)" "jdone (f (store r ! j)) = jdone (store r ! j)"
    "State (status (f (store r ! j))) = State (status (store r ! j))"
    "cancelled (f (store r ! j)) = cancelled (store r ! j)"
  shows "jobInv (updJob j f r)" (is "jobInv ?r")
proof (rule jobInvI)
  show "workOk ?r ow i" if "(ow, i) \<in> set (working ?r)" for ow i
    using jobInvD(2) [OF assms(1), of ow i] that assms(3,5)
    by (cases "i = j") (simp_all add: workOk_def updJob_def)
  show "regOk ?r ow i" if "jobs ?r ow = Some i" for ow i
    using jobInvD(3) [OF assms(1), of ow i] that assms(3)
    by (cases "i = j") (simp_all add: regOk_def updJob_def split: if_splits)
  show "endedOk x" if "x \<in> set (store ?r)" for x
    using that jobInvD(4) [OF assms(1)] assms(2-4) set_update_cases [of x "store r"]
    by (fastforce simp: updJob_def endedOk_def)
qed (use jobInvD(1,5) [OF assms(1)] in \<open>simp_all add: updJob_def\<close>)

lemma inv_cancel:
  assumes "jobInv r"
  shows "jobInv (fst (CancelJob owner r))"
proof (cases "jobs r owner")
  case None
  then have "fst (CancelJob owner r) = r" by (cases r) (auto simp: CancelJob_def)
  then show ?thesis using assms by simp
next
  case (Some j)
  then have eq: "fst (CancelJob owner r) = updJob j (\<lambda>job. job\<lparr>cancelled := True\<rparr>)
      (r\<lparr>jobs := (jobs r)(owner := None)\<rparr>)" (is "_ = ?r") by (simp add: CancelJob_def)
  have j: "j < length (store r)" using jobInvD(3) [OF assms Some] by (simp add: regOk_def)
  show ?thesis unfolding eq
  proof (rule jobInvI)
    show "workOk ?r ow i" if "(ow, i) \<in> set (working ?r)" for ow i
      using jobInvD(2) [OF assms, of ow i] that Some j
      by (cases "i = j") (auto simp: workOk_def updJob_def)
    show "regOk ?r ow i" if "jobs ?r ow = Some i" for ow i
      using jobInvD(3) [OF assms, of ow i] that
      by (cases "i = j") (simp_all add: regOk_def updJob_def split: if_splits)
    show "endedOk x" if "x \<in> set (store ?r)" for x
      using that jobInvD(4) [OF assms] j set_update_cases [of x "store r"]
      by (fastforce simp: updJob_def endedOk_def)
  qed (use jobInvD(1,5) [OF assms] in \<open>simp_all add: updJob_def\<close>)
qed

lemma inv_report:
  assumes "jobInv r" "(owner, j) \<in> set (working r)"
  shows "jobInv (report now progress j r)"
  unfolding report_def using jobInvD(2) [OF assms]
  by (intro inv_upd [OF assms(1)]) (simp_all add: workOk_def)

lemma inv_unregister:
  assumes "jobInv r" "jobs r owner = Some j \<Longrightarrow> jdone (store r ! j)"
  shows "jobInv (unregister owner j r)"
  using assms inv_forget [OF assms(1)] by (simp add: unregister_def)

text \<open>A goroutine that ends never finds its job done already.\<close>

lemma endRun_some:
  assumes "jobInv r" "(owner, j) \<in> set (working r)"
  shows "endRun now oc owner j r \<noteq> None"
  using jobInvD(2) [OF assms]
  by (auto simp: endRun_def finish_def workOk_def Let_def split: prod.splits option.splits)

definition ended :: "nat \<Rightarrow> 'r Job \<Rightarrow> string \<Rightarrow> 'r Runner \<Rightarrow> 'r Runner" where
  "ended j job owner r = r\<lparr>store := (store r)[j := job], working := remove1 (owner, j) (working r),
     timers := (owner, j) # timers r\<rparr>"

lemma inv_ended:
  assumes "jobInv r" "(owner, j) \<in> set (working r)" "jdone job" "endedOk job"
  shows "jobInv (ended j job owner r)" (is "jobInv ?r")
proof -
  have j: "j < length (store r)" using jobInvD(2) [OF assms(1,2)] by (simp add: workOk_def)
  have w: "set (remove1 (owner, j) (working r)) = set (working r) - {(owner, j)}"
    using jobInvD(1) [OF assms(1)] by (intro set_remove1_eq) (simp add: distinct_map)
  have ne: "i \<noteq> j" if "(ow, i) \<in> set (working r) - {(owner, j)}" for ow i
    using that working_owner [OF assms(1,2), of ow] by auto
  show ?thesis
  proof (rule jobInvI)
    show "distinct (map snd (working ?r))"
      using jobInvD(1) [OF assms(1)] by (simp add: ended_def distinct_map inj_on_def w)
    show "workOk ?r ow i" if "(ow, i) \<in> set (working ?r)" for ow i
    proof -
      have i: "(ow, i) \<in> set (working r) - {(owner, j)}" using that w by (simp add: ended_def)
      then have "i \<noteq> j" "workOk r ow i" using ne jobInvD(2) [OF assms(1), of ow i] by blast+
      then show ?thesis by (auto simp: workOk_def ended_def)
    qed
    show "regOk ?r ow i" if "jobs ?r ow = Some i" for ow i
    proof (cases "i = j")
      case True
      have "regOk r ow j" using jobInvD(3) [OF assms(1), of ow i] that True by (simp add: ended_def)
      moreover have "\<not> jdone (store r ! j)" using jobInvD(2) [OF assms(1,2)] by (simp add: workOk_def)
      ultimately have "ow = owner" using working_owner [OF assms(1,2), of ow] by (simp add: regOk_def)
      then show ?thesis using True j assms(3) by (simp add: regOk_def ended_def)
    next
      case False
      then show ?thesis using jobInvD(3) [OF assms(1), of ow i] that
        by (auto simp: regOk_def ended_def w split: if_splits)
    qed
    show "endedOk x" if "x \<in> set (store ?r)" for x
      using that jobInvD(4) [OF assms(1)] assms(4) set_update_cases [of x "store r"]
      by (fastforce simp: ended_def)
    show "i < length (store ?r)" if "i \<in> snd ` set (timers ?r)" for i
      using that jobInvD(5) [OF assms(1)] j by (auto simp: ended_def)
  qed
qed

lemma inv_expire:
  assumes "jobInv r" "(owner, j) \<in> set (timers r)"
  shows "jobInv (expire owner j r)"
proof -
  have nw: "(ow, j) \<notin> set (working r)" for ow
    using jobInvD(2) [OF assms(1), of ow j] assms(2) by (force simp: workOk_def)
  have reg: "regOk r ow i" if "jobs r ow = Some i" for ow i using jobInvD(3) [OF assms(1) that] .
  let ?u = "r\<lparr>timers := remove1 (owner, j) (timers r)\<rparr>"
  let ?r = "expire owner j r"
  have f: "working ?r = working r" "store ?r = store r" "timers ?r = remove1 (owner, j) (timers r)"
    "jobs ?r = (if jobs r owner = Some j then (jobs r)(owner := None) else jobs r)"
    by (simp_all add: expire_def unregister_def)
  have sub: "set (remove1 (owner, j) (timers r)) \<subseteq> set (timers r)" by (rule set_remove1_subset)
  show ?thesis
  proof (rule jobInvI)
    show "workOk ?r ow i" if "(ow, i) \<in> set (working ?r)" for ow i
      using jobInvD(2) [OF assms(1), of ow i] that nw sub by (auto simp: workOk_def f)
    show "regOk ?r ow i" if "jobs ?r ow = Some i" for ow i
    proof -
      have 1: "jobs r ow = Some i" "(ow, i) \<noteq> (owner, j)" using that by (auto simp: f split: if_splits)
      then show ?thesis using reg [OF 1(1)] by (auto simp: regOk_def f in_set_remove1 split: if_splits)
    qed
    show "i < length (store ?r)" if "i \<in> snd ` set (timers ?r)" for i
      using that jobInvD(5) [OF assms(1), of i] sub by (auto simp: f)
  qed (use jobInvD(1,4) [OF assms(1)] in \<open>simp_all add: f\<close>)
qed

lemma inv_end:
  assumes "jobInv r" "(owner, j) \<in> set (working r)" "endRun now oc owner j r = Some r'"
  shows "jobInv r'"
proof -
  obtain final err where g: "guarded oc = (final, err)" by fastforce
  obtain job0 where f: "finish now final err (store r ! j) = Some job0"
    using assms(3) g by (auto simp: endRun_def split: option.splits)
  define job where "job = job0\<lparr>cancelled := True\<rparr>"
  have job: "jdone job" "endedOk job"
    using f by (auto simp: finish_def endedOk_def job_def Let_def split: if_splits option.splits)
  have r': "r' = (let r1 = r\<lparr>store := (store r)[j := job], working := remove1 (owner, j) (working r)\<rparr>
      in if retention r \<le> 0 then unregister owner j r1 else r1\<lparr>timers := (owner, j) # timers r1\<rparr>)"
    using assms(3) g f by (simp add: endRun_def job_def Let_def)
  note e = inv_ended [OF assms(1,2) job]
  show ?thesis
  proof (cases "retention r \<le> 0")
    case True
    then have "r' = expire owner j (ended j job owner r)"
      using r' by (simp add: expire_def ended_def Let_def)
    then show ?thesis using inv_expire [OF e] by (simp add: ended_def)
  next
    case False
    then have "r' = ended j job owner r" using r' by (simp add: ended_def)
    then show ?thesis using e by simp
  qed
qed

lemma jobStep_inv: "jobStep r r' \<Longrightarrow> jobInv r \<Longrightarrow> jobInv r'"
  by (induction rule: jobStep.induct) (blast intro: inv_start inv_cancel inv_report inv_end inv_expire)+

lemma reach_jobInv: "jobReach ret r \<Longrightarrow> jobInv r"
  by (induction rule: jobReach.induct) (auto intro: inv_init jobStep_inv)

section \<open>Properties\<close>


text \<open>A goroutine that ends never panics on a channel closed before, whatever it
  returned: the end of a run always completes.\<close>

theorem job_end_never_panics:
  assumes "jobReach ret r" "(owner, j) \<in> set (working r)"
  shows "\<exists>r'. endRun now oc owner j r = Some r' \<and> jdone (store r' ! j) \<and>
    (retention r \<le> 0 \<longrightarrow> GetJob owner r' \<noteq> Some j)"
proof -
  have j: "j < length (store r)" using jobInvD(2) [OF reach_jobInv [OF assms(1)] assms(2)] by (simp add: workOk_def)
  obtain r' where r': "endRun now oc owner j r = Some r'"
    using endRun_some [OF reach_jobInv [OF assms(1)] assms(2)] by blast
  then have "jdone (store r' ! j) \<and> (retention r \<le> 0 \<longrightarrow> jobs r' owner \<noteq> Some j)"
    using j by (auto simp: endRun_def finish_def unregister_def Let_def split: prod.splits option.splits if_splits)
  then show ?thesis using r' by (auto simp: GetJob_def)
qed

text \<open>A repeated start finds the job it started rather than starting another: it
  returns the owner's job, running or ended and retained, and changes nothing.\<close>

theorem start_finds_existing:
  assumes "jobs r owner = Some j"
  shows "StartJob now newID zero owner r = (r, j, False) \<and>
    (State (status (store r ! j)) = Running \<longrightarrow> Restart now newID zero owner r = (r, j, False))"
  using assms by (simp add: StartJob_def Restart_def start_def)

definition demoR :: "nat Runner" where
  "demoR = fst (start 1 ''id'' 0 False ''u'' (newRunner 60))"

lemma demoR_reach: "jobReach 60 demoR"
  unfolding demoR_def by (rule jr_step [OF jr_init j_start])

lemma demoR_simps: "working demoR = [(''u'', 0)]" "jobs demoR ''u'' = Some 0" "length (store demoR) = 1"
  "\<not> cancelled (store demoR ! 0)"
  by (simp_all add: demoR_def start_def startNew_def newRunner_def)


theorem job_end_never_panics_witness:
  "\<exists>r'. endRun 2 (Returned 7 None) ''u'' 0 demoR = Some r' \<and> jdone (store r' ! 0)"
  using job_end_never_panics [OF demoR_reach, of "''u''" 0 2 "Returned 7 None"] demoR_simps by auto

theorem start_finds_existing_witness: "StartJob 5 ''other'' 0 ''u'' demoR = (demoR, 0, False)"
  using start_finds_existing [of demoR "''u''" 0 5 "''other''" 0] demoR_simps by simp

end
