(* ===== verification/Search_Cache.thy ===== *)
theory Search_Cache
  imports Prelude
begin

text \<open>The cache of decoded search indexes, \<^verbatim>\<open>internal/search/cache.go\<close>: a linked list
  from most to least recently used, a map from owners to its elements, and the total
  of the sizes.  List elements are identified by address.  The interface of the cache
  is a locale, interpreted here on the list and the map.\<close>

section \<open>The cache\<close>

definition cacheBudgetBytes :: nat where "cacheBudgetBytes = 4 * 2 ^ 30"

record 'i cacheEntry =
  owner :: string
  ix :: 'i
  ekeyOf :: bytes
  esize :: nat
  completeGen :: int

record 'i indexCache =
  cbudget :: nat
  total :: int
  lru :: "(nat \<times> 'i cacheEntry) list"
  byOwner :: "string \<rightharpoonup> nat"
  nextEl :: nat

definition newIndexCache :: "nat \<Rightarrow> 'i indexCache" where
  "newIndexCache b = \<lparr>cbudget = b, total = 0, lru = [], byOwner = Map.empty, nextEl = 0\<rparr>"

text \<open>\<open>sha\<close> is SHA-256.\<close>

definition cacheKey :: "(bytes \<Rightarrow> bytes) \<Rightarrow> bytes \<Rightarrow> string \<Rightarrow> bytes" where
  "cacheKey sha indexKey objectKey = sha (indexKey @ [CHR 0x00] @ objectKey)"

definition elem :: "nat \<Rightarrow> 'i indexCache \<Rightarrow> 'i cacheEntry" where
  "elem e c = the (map_of (lru c) e)"

definition unlink :: "nat \<Rightarrow> (nat \<times> 'i cacheEntry) list \<Rightarrow> (nat \<times> 'i cacheEntry) list" where
  "unlink e xs = filter (\<lambda>p. fst p \<noteq> e) xs"

definition removeLocked :: "nat \<Rightarrow> 'i indexCache \<Rightarrow> 'i indexCache" where
  "removeLocked e c =
    (let entry = elem e c in
     c\<lparr>lru := unlink e (lru c), byOwner := (byOwner c)(owner entry := None),
       total := total c - int (esize entry)\<rparr>)"

definition moveToFront :: "nat \<Rightarrow> 'i indexCache \<Rightarrow> 'i indexCache" where
  "moveToFront e c = c\<lparr>lru := (e, elem e c) # unlink e (lru c)\<rparr>"

definition cget :: "string \<Rightarrow> bytes \<Rightarrow> 'i indexCache \<Rightarrow> 'i indexCache \<times> 'i option" where
  "cget ow key c = (case byOwner c ow of None \<Rightarrow> (c, None)
     | Some e \<Rightarrow>
        if ekeyOf (elem e c) \<noteq> key then (removeLocked e c, None)
        else (moveToFront e c, Some (ix (elem e c))))"

text \<open>The eviction loop; removing the back of an empty list panics, which is \<^const>\<open>None\<close>.\<close>

function evict :: "'i indexCache \<Rightarrow> 'i indexCache option" where
  "evict c = (if total c > int (cbudget c) then
       (if lru c = [] then None else evict (removeLocked (fst (last (lru c))) c))
     else Some c)"
  by pat_completeness auto
termination
proof (relation "measure (\<lambda>c. length (lru c))", simp)
  fix c :: "'i indexCache" assume "lru c \<noteq> []"
  then have "length (unlink (fst (last (lru c))) (lru c)) < length (lru c)"
    unfolding unlink_def by (intro length_filter_less [of "last (lru c)"]) auto
  then show "(removeLocked (fst (last (lru c))) c, c) \<in> measure (\<lambda>c. length (lru c))"
    by (simp add: removeLocked_def Let_def)
qed

declare evict.simps [simp del]

definition dropOwner :: "string \<Rightarrow> 'i indexCache \<Rightarrow> 'i indexCache" where
  "dropOwner ow c = (case byOwner c ow of None \<Rightarrow> c | Some e \<Rightarrow> removeLocked e c)"

definition pushFront :: "'i cacheEntry \<Rightarrow> 'i indexCache \<Rightarrow> 'i indexCache" where
  "pushFront en c = c\<lparr>lru := (nextEl c, en) # lru c, byOwner := (byOwner c)(owner en \<mapsto> nextEl c),
     total := total c + int (esize en), nextEl := nextEl c + 1\<rparr>"

definition cput :: "string \<Rightarrow> bytes \<Rightarrow> 'i \<Rightarrow> nat \<Rightarrow> 'i indexCache \<Rightarrow> 'i indexCache option" where
  "cput ow key i sz c =
    (let c1 = dropOwner ow c in
     if sz > cbudget c then Some c1
     else evict (pushFront \<lparr>owner = ow, ix = i, ekeyOf = key, esize = sz, completeGen = 0\<rparr> c1))"

definition publishedComplete :: "string \<Rightarrow> bytes \<Rightarrow> int \<Rightarrow> 'i indexCache \<Rightarrow> 'i indexCache" where
  "publishedComplete ow key gen c = (case byOwner c ow of None \<Rightarrow> c
     | Some e \<Rightarrow> if ekeyOf (elem e c) = key
         then c\<lparr>lru := map (\<lambda>p. if fst p = e then (e, (snd p)\<lparr>completeGen := gen\<rparr>) else p) (lru c)\<rparr>
         else c)"

definition completeAt :: "string \<Rightarrow> bytes \<Rightarrow> int \<Rightarrow> 'i indexCache \<Rightarrow> bool" where
  "completeAt ow key gen c = (case byOwner c ow of None \<Rightarrow> False
     | Some e \<Rightarrow> gen > 0 \<and> ekeyOf (elem e c) = key \<and> completeGen (elem e c) = gen)"

section \<open>The invariant\<close>

definition sizes :: "(nat \<times> 'i cacheEntry) list \<Rightarrow> nat" where
  "sizes xs = sum_list (map (\<lambda>p. esize (snd p)) xs)"

definition linked :: "'i indexCache \<Rightarrow> bool" where
  "linked c \<longleftrightarrow> distinct (map fst (lru c)) \<and> distinct (map (\<lambda>p. owner (snd p)) (lru c)) \<and>
     (\<forall>p\<in>set (lru c). fst p < nextEl c) \<and>
     byOwner c = map_of (map (\<lambda>p. (owner (snd p), fst p)) (lru c)) \<and>
     total c = int (sizes (lru c))"

definition cacheInv :: "'i indexCache \<Rightarrow> bool" where
  "cacheInv c \<longleftrightarrow> linked c \<and> total c \<le> int (cbudget c)"

lemma byOwner_elem:
  assumes "linked c" "byOwner c ow = Some e"
  shows "(e, elem e c) \<in> set (lru c)" "owner (elem e c) = ow"
proof -
  obtain p where p: "p \<in> set (lru c)" "owner (snd p) = ow" "fst p = e"
    using assms map_of_SomeD [of "map (\<lambda>p. (owner (snd p), fst p)) (lru c)" ow e]
    by (auto simp: linked_def)
  then have "map_of (lru c) e = Some (snd p)"
    using assms(1) by (intro map_of_is_SomeI) (auto simp: linked_def)
  with p show "(e, elem e c) \<in> set (lru c)" "owner (elem e c) = ow" by (auto simp: elem_def)
qed

lemma in_lru_elem: "linked c \<Longrightarrow> (e, en) \<in> set (lru c) \<Longrightarrow> elem e c = en \<and> byOwner c (owner en) = Some e"
  by (force simp: linked_def elem_def image_image comp_def intro!: map_of_is_SomeI)

lemma unlink_split:
  "distinct (map fst (a @ (e, en) # b)) \<Longrightarrow> unlink e (a @ (e, en) # b) = a @ b"
  unfolding unlink_def by (simp, subst (1 2) filter_True) auto

lemma removeLocked_split:
  assumes "linked c" "lru c = a @ (e, en) # b"
  shows "lru (removeLocked e c) = a @ b \<and> linked (removeLocked e c) \<and>
    byOwner (removeLocked e c) (owner en) = None"
proof -
  have d: "distinct (map fst (a @ (e, en) # b))" "distinct (map (\<lambda>p. owner (snd p)) (a @ (e, en) # b))"
    using assms by (simp_all add: linked_def)
  have en: "elem e c = en" using in_lru_elem [OF assms(1)] assms(2) by simp
  let ?l = "\<lambda>xs. map (\<lambda>p. (owner (snd p), fst p)) xs"
  have "map_of (?l (a @ b)) = (map_of (?l (a @ (e, en) # b)))(owner en := None)"
  proof (rule ext)
    fix x
    have "map_of (?l ys) (owner en) = None" if "owner en \<notin> (\<lambda>p. owner (snd p)) ` set ys" for ys
      using that by (auto simp: map_of_eq_None_iff image_image)
    then show "map_of (?l (a @ b)) x = ((map_of (?l (a @ (e, en) # b)))(owner en := None)) x"
      using d(2) by (auto simp: map_add_def split: option.splits)
  qed
  then show ?thesis
    using assms unlink_split [OF d(1)] d en
    by (auto simp: removeLocked_def linked_def sizes_def Let_def)
qed

lemma removeLocked_ok:
  assumes "linked c" "byOwner c ow = Some e"
  shows "\<exists>a b. lru c = a @ (e, elem e c) # b \<and> lru (removeLocked e c) = a @ b \<and>
    linked (removeLocked e c) \<and> byOwner (removeLocked e c) ow = None"
proof -
  obtain a b where "lru c = a @ (e, elem e c) # b"
    using byOwner_elem(1) [OF assms] by (meson split_list)
  with removeLocked_split [OF assms(1) this] byOwner_elem(2) [OF assms] show ?thesis by auto
qed

lemma removeLocked_fields [simp]:
  "cbudget (removeLocked e c) = cbudget c" "nextEl (removeLocked e c) = nextEl c"
  by (simp_all add: removeLocked_def Let_def)

lemma sizes_app [simp]: "sizes [] = 0" "sizes (p # xs) = esize (snd p) + sizes xs"
  "sizes (xs @ ys) = sizes xs + sizes ys"
  by (simp_all add: sizes_def)

lemma drop_linked: "linked c \<Longrightarrow> linked (dropOwner ow c) \<and> byOwner (dropOwner ow c) ow = None \<and>
    lru (dropOwner ow c) = filter (\<lambda>p. owner (snd p) \<noteq> ow) (lru c) \<and> cbudget (dropOwner ow c) = cbudget c"
proof (cases "byOwner c ow")
  case None
  assume l: "linked c"
  have "\<forall>p\<in>set (lru c). owner (snd p) \<noteq> ow" using in_lru_elem [OF l] None by fastforce
  then show ?thesis using l None by (simp add: dropOwner_def filter_id_conv)
next
  case (Some e)
  assume l: "linked c"
  then obtain a b where ab: "lru c = a @ (e, elem e c) # b" "lru (removeLocked e c) = a @ b"
    "linked (removeLocked e c)" "byOwner (removeLocked e c) ow = None"
    using removeLocked_ok [OF l Some] by blast
  have ow: "owner (elem e c) = ow" using byOwner_elem(2) [OF l Some] .
  have "distinct (map (\<lambda>p. owner (snd p)) (a @ (e, elem e c) # b))"
    using l ab(1) by (simp add: linked_def)
  then have "owner (elem e c) \<notin> (\<lambda>p. owner (snd p)) ` set (a @ b)" by auto
  then have "\<forall>p\<in>set (a @ b). owner (snd p) \<noteq> ow" using ow by (metis image_eqI)
  then show ?thesis using ab ow Some by (simp add: dropOwner_def filter_id_conv)
qed

lemma push_linked:
  assumes "linked c" "byOwner c (owner en) = None"
  shows "linked (pushFront en c)"
proof -
  have "owner (snd p) \<noteq> owner en" if "p \<in> set (lru c)" for p
    using in_lru_elem [OF assms(1), of "fst p" "snd p"] that assms(2) by fastforce
  then show ?thesis using assms(1) by (fastforce simp: pushFront_def linked_def)
qed

text \<open>Eviction drops entries from the back, and stops with a suffix removed.\<close>

definition keptFront :: "nat \<Rightarrow> 'x list \<Rightarrow> ('x list \<Rightarrow> nat) \<Rightarrow> 'x list \<Rightarrow> bool" where
  "keptFront b xs sz ys \<longleftrightarrow>
     (\<exists>n\<le>length xs. ys = take n xs \<and> (n < length xs \<longrightarrow> sz (take (Suc n) xs) > b))"

lemma evict_ok:
  "linked c \<Longrightarrow> \<exists>c'. evict c = Some c' \<and> cacheInv c' \<and> cbudget c' = cbudget c \<and>
     keptFront (cbudget c) (lru c) sizes (lru c')"
proof (induction c rule: evict.induct)
  case (1 c)
  show ?case
  proof (cases "total c > int (cbudget c)")
    case False
    then show ?thesis using 1 by (auto simp: evict.simps [of c] cacheInv_def keptFront_def)
  next
    case True
    with 1(2) have ne: "lru c \<noteq> []" by (auto simp: linked_def)
    then obtain xs e en where x: "lru c = xs @ [(e, en)]" by (metis rev_exhaust surj_pair)
    let ?c = "removeLocked e c"
    have r: "lru ?c = xs" "linked ?c" using removeLocked_split [OF 1(2) x] by simp_all
    have ev: "evict c = evict ?c" using True ne x by (subst evict.simps) simp
    have big: "sizes (xs @ [(e, en)]) > cbudget c" using True 1(2) x by (simp add: linked_def)
    obtain c' n where c': "evict ?c = Some c'" "cacheInv c'" "cbudget c' = cbudget c"
      "n \<le> length xs" "lru c' = take n xs" "n < length xs \<longrightarrow> sizes (take (Suc n) xs) > cbudget c"
      using 1(1) [OF True ne] r x by (auto simp: keptFront_def)
    then have "keptFront (cbudget c) (lru c) sizes (lru c')"
      unfolding keptFront_def x using big by (intro exI [of _ n]) (auto simp: take_Cons' not_less)
    with c' ev show ?thesis by auto
  qed
qed

definition lookupC :: "'i indexCache \<Rightarrow> string \<Rightarrow> (bytes \<times> 'i) option" where
  "lookupC c ow = map_option (\<lambda>e. (ekeyOf (elem e c), ix (elem e c))) (byOwner c ow)"

lemma lookupC_in:
  assumes "linked c"
  shows "lookupC c ow = Some (k, i) \<longleftrightarrow>
    (\<exists>p\<in>set (lru c). owner (snd p) = ow \<and> ekeyOf (snd p) = k \<and> ix (snd p) = i)"
proof
  assume "lookupC c ow = Some (k, i)"
  then obtain e where "byOwner c ow = Some e" "ekeyOf (elem e c) = k" "ix (elem e c) = i"
    by (auto simp: lookupC_def)
  with byOwner_elem [OF assms this(1)] show "\<exists>p\<in>set (lru c). owner (snd p) = ow \<and> ekeyOf (snd p) = k \<and> ix (snd p) = i"
    by force
next
  assume "\<exists>p\<in>set (lru c). owner (snd p) = ow \<and> ekeyOf (snd p) = k \<and> ix (snd p) = i"
  then show "lookupC c ow = Some (k, i)"
    using in_lru_elem [OF assms] by (fastforce simp: lookupC_def)
qed

lemma moveToFront_split:
  assumes "linked c" "byOwner c ow = Some e"
  shows "\<exists>a b. lru c = a @ (e, elem e c) # b \<and> lru (moveToFront e c) = (e, elem e c) # a @ b"
  using removeLocked_ok [OF assms] by (auto simp: moveToFront_def removeLocked_def Let_def)

lemma moveToFront_fields [simp]:
  "byOwner (moveToFront e c) = byOwner c" "total (moveToFront e c) = total c"
  "cbudget (moveToFront e c) = cbudget c" "nextEl (moveToFront e c) = nextEl c"
  by (simp_all add: moveToFront_def)

lemma get_linked:
  assumes "linked c"
  shows "linked (fst (cget ow k c)) \<and> cbudget (fst (cget ow k c)) = cbudget c \<and>
    total (fst (cget ow k c)) \<le> total c"
proof (cases "byOwner c ow")
  case None
  then show ?thesis using assms by (simp add: cget_def)
next
  case (Some e)
  obtain a b where ab: "lru c = a @ (e, elem e c) # b" "lru (moveToFront e c) = (e, elem e c) # a @ b"
    using moveToFront_split [OF assms Some] by blast
  have rm: "linked (removeLocked e c)" using removeLocked_ok [OF assms Some] by blast
  let ?l = "\<lambda>xs. map (\<lambda>p. (owner (snd p), fst p)) xs"
  have d: "distinct (map (\<lambda>p. owner (snd p)) (a @ (e, elem e c) # b))"
    using assms ab(1) by (simp add: linked_def)
  have "map_of (?l ((e, elem e c) # a @ b)) = map_of (?l (a @ (e, elem e c) # b))"
  proof (rule map_of_eqI)
    show "set (map fst (?l ((e, elem e c) # a @ b))) = set (map fst (?l (a @ (e, elem e c) # b)))" by auto
    show "\<forall>k\<in>set (map fst (?l ((e, elem e c) # a @ b))).
        map_of (?l ((e, elem e c) # a @ b)) k = map_of (?l (a @ (e, elem e c) # b)) k"
    proof
      fix k
      have "owner (elem e c) \<notin> (\<lambda>p. owner (snd p)) ` set a" using d by auto
      then have "map_of (?l a) (owner (elem e c)) = None" by (auto simp: map_of_eq_None_iff image_image)
      then show "map_of (?l ((e, elem e c) # a @ b)) k = map_of (?l (a @ (e, elem e c) # b)) k"
        by (auto simp: map_add_def split: option.splits)
    qed
  qed
  moreover have "linked (moveToFront e c)"
    unfolding linked_def ab(2) moveToFront_fields calculation using assms ab(1) d
    by (auto simp: linked_def)
  ultimately show ?thesis using Some rm assms
    by (auto simp: cget_def) (simp add: removeLocked_def Let_def)
qed

lemma get_lookup:
  assumes "linked c"
  shows "snd (cget ow k c) = (case lookupC c ow of None \<Rightarrow> None | Some (k', i) \<Rightarrow> if k' = k then Some i else None)"
  by (auto simp: cget_def lookupC_def split: option.splits)

lemma lookupC_filter:
  assumes "linked c" "linked c'" "lru c' = filter (\<lambda>p. owner (snd p) \<noteq> ow) (lru c)"
  shows "lookupC c' = (lookupC c)(ow := None)"
proof (rule ext)
  fix o'
  have "lookupC c' o' = Some (k, i) \<longleftrightarrow> ((lookupC c)(ow := None)) o' = Some (k, i)" for k i
  proof -
    have "lookupC c' o' = Some (k, i) \<longleftrightarrow>
        (\<exists>p\<in>set (lru c). owner (snd p) \<noteq> ow \<and> owner (snd p) = o' \<and> ekeyOf (snd p) = k \<and> ix (snd p) = i)"
      unfolding lookupC_in [OF assms(2)] assms(3) set_filter by blast
    moreover have "lookupC c o' = Some (k, i) \<longleftrightarrow>
        (\<exists>p\<in>set (lru c). owner (snd p) = o' \<and> ekeyOf (snd p) = k \<and> ix (snd p) = i)"
      by (rule lookupC_in [OF assms(1)])
    ultimately show ?thesis by (simp add: fun_upd_apply) blast
  qed
  then show "lookupC c' o' = ((lookupC c)(ow := None)) o'"
    by (metis option.exhaust surj_pair)
qed

lemma get_after:
  assumes "linked c"
  shows "lookupC (fst (cget ow k c)) =
    (case lookupC c ow of Some (k', i) \<Rightarrow> if k' = k then lookupC c else (lookupC c)(ow := None) | None \<Rightarrow> lookupC c)"
proof (cases "byOwner c ow")
  case None
  then show ?thesis by (simp add: cget_def lookupC_def)
next
  case (Some e)
  have lk: "lookupC c ow = Some (ekeyOf (elem e c), ix (elem e c))" using Some by (simp add: lookupC_def)
  show ?thesis
  proof (cases "ekeyOf (elem e c) = k")
    case True
    have l: "linked (moveToFront e c)" using get_linked [OF assms, of ow k] Some True by (simp add: cget_def)
    have "set (lru (moveToFront e c)) = set (lru c)"
      using moveToFront_split [OF assms Some] by fastforce
    then have "lookupC (moveToFront e c) o' = lookupC c o'" for o'
      using lookupC_in [OF l, of o'] lookupC_in [OF assms, of o'] by (metis option.exhaust surj_pair)
    then show ?thesis using Some True lk by (auto simp: cget_def)
  next
    case False
    have "removeLocked e c = dropOwner ow c" using Some by (simp add: dropOwner_def)
    then show ?thesis
      using Some False lk drop_linked [OF assms, of ow] lookupC_filter [OF assms, of "dropOwner ow c" ow]
      by (simp add: cget_def)
  qed
qed

lemma keptFront_mono: "keptFront b xs sz ys \<Longrightarrow> set ys \<subseteq> set xs"
  by (auto simp: keptFront_def dest: in_set_takeD)

lemma put_ok:
  assumes "cacheInv c"
  shows "\<exists>c'. cput ow k i sz c = Some c' \<and> cacheInv c' \<and> cbudget c' = cbudget c \<and>
    (if sz \<le> cbudget c then
       keptFront (cbudget c) ((nextEl (dropOwner ow c), \<lparr>owner = ow, ix = i, ekeyOf = k, esize = sz, completeGen = 0\<rparr>)
         # filter (\<lambda>p. owner (snd p) \<noteq> ow) (lru c)) sizes (lru c')
     else lru c' = filter (\<lambda>p. owner (snd p) \<noteq> ow) (lru c))"
proof -
  let ?en = "\<lparr>owner = ow, ix = i, ekeyOf = k, esize = sz, completeGen = 0\<rparr>"
  have l: "linked c" using assms by (simp add: cacheInv_def)
  note d = drop_linked [OF l, of ow]
  have inv: "cacheInv (dropOwner ow c)"
    using d assms sum_list_filter_le [of "\<lambda>p. esize (snd p)" "\<lambda>p. owner (snd p) \<noteq> ow" "lru c"]
    by (auto simp: cacheInv_def linked_def sizes_def)
  show ?thesis
  proof (cases "sz \<le> cbudget c")
    case True
    have p: "linked (pushFront ?en (dropOwner ow c))" using d by (intro push_linked) auto
    from evict_ok [OF p] True d show ?thesis
      by (auto simp: cput_def pushFront_def)
  next
    case False
    then show ?thesis using inv d by (simp add: cput_def)
  qed
qed

section \<open>The contract of the cache\<close>

text \<open>What the search component relies on: an entry is served only under the key it was
  stored with, a store of something that fits is served next, and nothing else appears.\<close>

locale bounded_cache =
  fixes inv :: "'c \<Rightarrow> bool" and room :: "'c \<Rightarrow> nat"
    and lookup :: "'c \<Rightarrow> string \<Rightarrow> (bytes \<times> 'i) option"
    and get :: "string \<Rightarrow> bytes \<Rightarrow> 'c \<Rightarrow> 'c \<times> 'i option"
    and put :: "string \<Rightarrow> bytes \<Rightarrow> 'i \<Rightarrow> nat \<Rightarrow> 'c \<Rightarrow> 'c option"
    and drop :: "string \<Rightarrow> 'c \<Rightarrow> 'c"
  assumes get_inv: "inv c \<Longrightarrow> inv (fst (get ow k c))"
    and get_result: "inv c \<Longrightarrow> snd (get ow k c) =
      (case lookup c ow of None \<Rightarrow> None | Some (k', i) \<Rightarrow> if k' = k then Some i else None)"
    and get_state: "inv c \<Longrightarrow> lookup (fst (get ow k c)) =
      (case lookup c ow of Some (k', i) \<Rightarrow> if k' = k then lookup c else (lookup c)(ow := None)
       | None \<Rightarrow> lookup c)"
    and put_total: "inv c \<Longrightarrow> \<exists>c'. put ow k i n c = Some c' \<and> inv c' \<and> room c' = room c"
    and put_own: "inv c \<Longrightarrow> put ow k i n c = Some c' \<Longrightarrow>
      lookup c' ow = (if n \<le> room c then Some (k, i) else None)"
    and put_other: "inv c \<Longrightarrow> put ow k i n c = Some c' \<Longrightarrow> o' \<noteq> ow \<Longrightarrow>
      lookup c' o' = None \<or> lookup c' o' = lookup c o'"
    and drop_inv: "inv c \<Longrightarrow> inv (drop ow c)"
    and drop_state: "inv c \<Longrightarrow> lookup (drop ow c) = (lookup c)(ow := None)"
begin

lemma get_bound: "inv c \<Longrightarrow> snd (get ow k c) = Some i \<Longrightarrow> lookup c ow = Some (k, i)"
  by (auto simp: get_result split: option.splits if_splits)

lemma get_after_put:
  assumes "inv c" "n \<le> room c" "put ow k i n c = Some c'"
  shows "snd (get ow k' c') = (if k' = k then Some i else None)"
proof -
  have "inv c'" using put_total [OF assms(1), of ow k i n] assms(3) by simp
  then show ?thesis using put_own [OF assms(1,3)] assms(2) by (simp add: get_result)
qed

text \<open>A miss under another key is a miss under every key after it.\<close>

lemma get_stale_drops:
  assumes "inv c" "lookup c ow = Some (k', i)" "k' \<noteq> k"
  shows "snd (get ow k'' (fst (get ow k c))) = None"
  using assms get_state [OF assms(1), of ow k] get_result [OF get_inv [OF assms(1)], of ow k'' ow k] by simp

lemma get_stable:
  assumes "inv c" "snd (get ow k c) = Some i"
  shows "snd (get ow k (fst (get ow k c))) = Some i"
  using get_bound [OF assms] get_state [OF assms(1), of ow k] get_result [OF get_inv [OF assms(1)], of ow k ow k]
  by simp

end

lemma put_lookup:
  assumes "cacheInv c" "cput ow k i n c = Some c'"
  shows "lookupC c' ow = (if n \<le> cbudget c then Some (k, i) else None)"
    and "o' \<noteq> ow \<Longrightarrow> lookupC c' o' = None \<or> lookupC c' o' = lookupC c o'"
proof -
  let ?en = "\<lparr>owner = ow, ix = i, ekeyOf = k, esize = n, completeGen = 0\<rparr>"
  let ?rest = "filter (\<lambda>p. owner (snd p) \<noteq> ow) (lru c)"
  have l: "linked c" and c': "linked c'"
    and kf: "if n \<le> cbudget c then keptFront (cbudget c) ((nextEl (dropOwner ow c), ?en) # ?rest) sizes (lru c')
       else lru c' = ?rest"
    using put_ok [OF assms(1), of ow k i n] assms by (auto simp: cacheInv_def)
  have sub: "set (lru c') \<subseteq> insert (nextEl (dropOwner ow c), ?en) (set ?rest)"
    using kf keptFront_mono by (fastforce split: if_splits)
  have none: "lookupC c' ow = None" if "lru c' = ?rest"
    using lookupC_filter [OF l c' that] by simp
  show "lookupC c' ow = (if n \<le> cbudget c then Some (k, i) else None)"
  proof (cases "n \<le> cbudget c")
    case True
    then obtain m where m: "lru c' = take m ((nextEl (dropOwner ow c), ?en) # ?rest)"
      "m \<le> Suc (length ?rest)" "m < Suc (length ?rest) \<Longrightarrow>
         sizes (take (Suc m) ((nextEl (dropOwner ow c), ?en) # ?rest)) > cbudget c"
      using kf by (auto simp: keptFront_def)
    have "m \<noteq> 0" using m(3) True by (cases m) auto
    then have "(nextEl (dropOwner ow c), ?en) \<in> set (lru c')" using m(1) by (cases m) auto
    then show ?thesis using True lookupC_in [OF c', of ow k i] by force
  next
    case False
    then show ?thesis using kf none by simp
  qed
  show "lookupC c' o' = None \<or> lookupC c' o' = lookupC c o'" if "o' \<noteq> ow"
  proof (cases "lookupC c' o'")
    case (Some ki)
    obtain k' i' where ki: "ki = (k', i')" by fastforce
    with Some lookupC_in [OF c', of o' k' i'] obtain p where p: "p \<in> set (lru c')"
      "owner (snd p) = o'" "ekeyOf (snd p) = k'" "ix (snd p) = i'" by auto
    then have "p \<in> set (lru c)" using sub that by auto
    then have "lookupC c o' = Some (k', i')" using lookupC_in [OF l, of o' k' i'] p by blast
    then show ?thesis using Some ki by simp
  qed simp
qed

interpretation idx: bounded_cache cacheInv cbudget lookupC cget cput dropOwner
proof
  fix c :: "'a indexCache" and ow k
  assume inv: "cacheInv c"
  then have l: "linked c" by (simp add: cacheInv_def)
  show "cacheInv (fst (cget ow k c))" using get_linked [OF l, of ow k] inv by (auto simp: cacheInv_def)
  show "snd (cget ow k c) =
      (case lookupC c ow of None \<Rightarrow> None | Some (k', i) \<Rightarrow> if k' = k then Some i else None)"
    by (rule get_lookup [OF l])
  show "lookupC (fst (cget ow k c)) =
      (case lookupC c ow of None \<Rightarrow> lookupC c
       | Some (k', i) \<Rightarrow> if k' = k then lookupC c else (lookupC c)(ow := None))"
    using get_after [OF l, of ow k] by (auto split: option.splits)
  show "cacheInv (dropOwner ow c)"
    using drop_linked [OF l, of ow] inv sum_list_filter_le [of "\<lambda>p. esize (snd p)" "\<lambda>p. owner (snd p) \<noteq> ow" "lru c"]
    by (auto simp: cacheInv_def linked_def sizes_def)
  show "lookupC (dropOwner ow c) = (lookupC c)(ow := None)"
    using drop_linked [OF l, of ow] by (intro lookupC_filter [OF l]) auto
next
  fix c c' :: "'a indexCache" and ow o' k i n
  show "cacheInv c \<Longrightarrow> \<exists>c'. cput ow k i n c = Some c' \<and> cacheInv c' \<and> cbudget c' = cbudget c"
    using put_ok [of c ow k i n] by auto
  show "cacheInv c \<Longrightarrow> cput ow k i n c = Some c' \<Longrightarrow>
      lookupC c' ow = (if n \<le> cbudget c then Some (k, i) else None)" by (rule put_lookup(1))
  show "cacheInv c \<Longrightarrow> cput ow k i n c = Some c' \<Longrightarrow> o' \<noteq> ow \<Longrightarrow>
      lookupC c' o' = None \<or> lookupC c' o' = lookupC c o'" by (rule put_lookup(2))
qed

section \<open>Properties\<close>

text \<open>Storing an index always succeeds, keeps the total of the sizes within the
  budget and the map in step with the list, and evicts only from the least recently
  used end: what is kept is the new entry and the most recent of the others, as many
  as fit.\<close>

theorem cache_put_evicts_lru:
  assumes "cacheInv c" "n \<le> cbudget c"
  shows "\<exists>c' m. cput ow k i n c = Some c' \<and> cacheInv c' \<and> total c' \<le> int (cbudget c) \<and>
    map snd (lru c') = take m (\<lparr>owner = ow, ix = i, ekeyOf = k, esize = n, completeGen = 0\<rparr>
      # filter (\<lambda>e. owner e \<noteq> ow) (map snd (lru c))) \<and>
    snd (cget ow k c') = Some i"
proof -
  let ?en = "\<lparr>owner = ow, ix = i, ekeyOf = k, esize = n, completeGen = 0\<rparr>"
  obtain c' where c': "cput ow k i n c = Some c'" "cacheInv c'" "cbudget c' = cbudget c"
    "keptFront (cbudget c) ((nextEl (dropOwner ow c), ?en) # filter (\<lambda>p. owner (snd p) \<noteq> ow) (lru c)) sizes (lru c')"
    using put_ok [OF assms(1), of ow k i n] assms(2) by auto
  then obtain m where "lru c' = take m ((nextEl (dropOwner ow c), ?en) # filter (\<lambda>p. owner (snd p) \<noteq> ow) (lru c))"
    by (auto simp: keptFront_def)
  then have "map snd (lru c') = take m (?en # filter (\<lambda>e. owner e \<noteq> ow) (map snd (lru c)))"
    by (simp add: take_map [symmetric] filter_map comp_def)
  moreover have "snd (cget ow k c') = Some i" using idx.get_after_put [OF assms c'(1)] by simp
  moreover have "total c' \<le> int (cbudget c)" using c'(2,3) by (simp add: cacheInv_def)
  ultimately show ?thesis using c' by blast
qed

lemma cacheInv_new: "cacheInv (newIndexCache b)"
  by (simp add: cacheInv_def linked_def newIndexCache_def)

theorem cache_put_evicts_lru_witness:
  "\<exists>c'. cput ''u'' ''k'' (7::nat) 3 (newIndexCache 5) = Some c' \<and> total c' \<le> 5 \<and> snd (cget ''u'' ''k'' c') = Some 7"
  using cache_put_evicts_lru [OF cacheInv_new, of 3 5 "''u''" "''k''" "7::nat"]
  by (auto simp: newIndexCache_def)

text \<open>C36: an index bound to another object or sealing key is never served, and asking for
  one under another key drops it, so that no later request is served it either.\<close>

theorem cache_serves_only_its_key:
  assumes "cacheInv c"
  shows "(snd (cget ow k c) = Some i \<longrightarrow> lookupC c ow = Some (k, i)) \<and>
    (lookupC c ow = Some (k', i) \<and> k' \<noteq> k \<longrightarrow> snd (cget ow k c) = None \<and>
       snd (cget ow k'' (fst (cget ow k c))) = None)"
  using idx.get_bound [OF assms] idx.get_stale_drops [OF assms] idx.get_result [OF assms] by auto

definition cacheX :: "nat indexCache" where
  "cacheX = the (cput ''u'' ''k'' 7 3 (newIndexCache 5))"

lemma cacheX_ok: "cacheInv cacheX" "lookupC cacheX ''u'' = Some (''k'', 7)"
proof -
  obtain c' where c': "cput ''u'' ''k'' (7::nat) 3 (newIndexCache 5) = Some c'" "cacheInv c'"
    using idx.put_total [OF cacheInv_new, of "''u''" "''k''" "7::nat" 3 5] by auto
  moreover have "lookupC c' ''u'' = Some (''k'', 7)"
    using idx.put_own [OF cacheInv_new c'(1)] by (simp add: newIndexCache_def)
  ultimately show "cacheInv cacheX" "lookupC cacheX ''u'' = Some (''k'', 7)" by (simp_all add: cacheX_def)
qed

theorem cache_serves_only_its_key_witness:
  "snd (cget ''u'' ''other'' cacheX) = None \<and> snd (cget ''u'' ''k'' (fst (cget ''u'' ''other'' cacheX))) = None"
  using cache_serves_only_its_key [OF cacheX_ok(1), of "''u''" "''other''" 7 "''k''" "''k''"] cacheX_ok(2) by simp

text \<open>A publication is remembered as complete only at a positive generation, for the
  object and key it was made with, until the entry is replaced.\<close>

lemma published_complete_elem:
  assumes "linked c" "byOwner c ow = Some e" "ekeyOf (elem e c) = k"
  shows "elem e (publishedComplete ow k g c) = (elem e c)\<lparr>completeGen := g\<rparr>"
proof -
  have "map_of (map (\<lambda>p. if fst p = e then (e, (snd p)\<lparr>completeGen := g\<rparr>) else p) xs) e =
      map_option (\<lambda>en. en\<lparr>completeGen := g\<rparr>) (map_of xs e)" for xs :: "(nat \<times> 'a cacheEntry) list"
    by (induction xs) auto
  moreover have "map_of (lru c) e \<noteq> None"
    using byOwner_elem(1) [OF assms(1,2)] weak_map_of_SomeI by fastforce
  ultimately show ?thesis using assms by (auto simp: publishedComplete_def elem_def)
qed

lemma completeAt_published:
  assumes "linked c" "lookupC c ow = Some (k, i)"
  shows "completeAt ow k g (publishedComplete ow k g c) \<longleftrightarrow> g > 0"
proof -
  obtain e where e: "byOwner c ow = Some e" "ekeyOf (elem e c) = k" using assms(2) by (auto simp: lookupC_def)
  have "byOwner (publishedComplete ow k g c) = byOwner c"
    by (simp add: publishedComplete_def split: option.splits)
  then show ?thesis using e published_complete_elem [OF assms(1) e] by (simp add: completeAt_def)
qed

end
