(* ===== verification/Chunks.thy ===== *)
theory Chunks
  imports Prelude "HOL-Library.Sublist"
begin

text \<open>Cutting a chat into chunks to embed, \<^verbatim>\<open>internal/search/chunks.go\<close>.  The inner loop
  takes nothing off a part when its first 2000 bytes are all UTF-8 continuation bytes,
  and would then never end; it is a partial function, and the lemmas show that it ends
  on every part in which no four bytes in a row are continuation bytes, as in all UTF-8
  text, with chunks within both bounds that hold the parts in order.\<close>

section \<open>Trimming\<close>

text \<open>\<^verbatim>\<open>strings.TrimSpace\<close>: the white space of Unicode, as UTF-8.\<close>

definition spaceRunes :: "string list" where
  "spaceRunes =
    [[CHR 0x09], [CHR 0x0A], [CHR 0x0B], [CHR 0x0C],
     [CHR 0x0D], [CHR 0x20], [CHR 0xC2, CHR 0x85], [CHR 0xC2, CHR 0xA0],
     [CHR 0xE1, CHR 0x9A, CHR 0x80], [CHR 0xE2, CHR 0x80, CHR 0x80], [CHR 0xE2, CHR 0x80, CHR 0x81], [CHR 0xE2, CHR 0x80, CHR 0x82],
     [CHR 0xE2, CHR 0x80, CHR 0x83], [CHR 0xE2, CHR 0x80, CHR 0x84], [CHR 0xE2, CHR 0x80, CHR 0x85], [CHR 0xE2, CHR 0x80, CHR 0x86],
     [CHR 0xE2, CHR 0x80, CHR 0x87], [CHR 0xE2, CHR 0x80, CHR 0x88], [CHR 0xE2, CHR 0x80, CHR 0x89], [CHR 0xE2, CHR 0x80, CHR 0x8A],
     [CHR 0xE2, CHR 0x80, CHR 0xA8], [CHR 0xE2, CHR 0x80, CHR 0xA9], [CHR 0xE2, CHR 0x80, CHR 0xAF], [CHR 0xE2, CHR 0x81, CHR 0x9F],
     [CHR 0xE3, CHR 0x80, CHR 0x80]]"

fun stripFuel :: "nat \<Rightarrow> string list \<Rightarrow> string \<Rightarrow> string" where
  "stripFuel 0 rs s = s"
| "stripFuel (Suc n) rs s = (case find (\<lambda>r. take (length r) s = r) rs of
     None \<Rightarrow> s | Some r \<Rightarrow> stripFuel n rs (drop (length r) s))"

definition TrimSpace :: "string \<Rightarrow> string" where
  "TrimSpace s =
    (let l = stripFuel (length s) spaceRunes s
     in rev (stripFuel (length l) (map rev spaceRunes) (rev l)))"

section \<open>The chunker\<close>

definition chunkChars :: nat where "chunkChars = 2000"
definition MaxChunksPerChat :: nat where "MaxChunksPerChat = 8"
definition CompactionRole :: string where "CompactionRole = ''compaction''"
definition docPrefix :: string where "docPrefix = ''search_document: ''"
definition queryPrefix :: string where "queryPrefix = ''search_query: ''"

record chatText =
  Title :: string
  Messages :: "(string \<times> string) list"

definition isCont :: "char \<Rightarrow> bool" where
  "isCont c \<longleftrightarrow> byte_val c div 64 = 2"

fun cutDown :: "string \<Rightarrow> nat \<Rightarrow> nat" where
  "cutDown s 0 = 0"
| "cutDown s (Suc k) = (if isCont (s ! Suc k) then cutDown s k else Suc k)"

definition truncateUTF8 :: "string \<Rightarrow> int \<Rightarrow> string" where
  "truncateUTF8 s n =
    (if n \<le> 0 then [] else if int (length s) \<le> n then s else take (cutDown s (nat n)) s)"

definition chatParts :: "chatText \<Rightarrow> string list" where
  "chatParts chat =
     (let title = TrimSpace (Title chat) in if title \<noteq> [] then [title] else []) @
     concat (map (\<lambda>(role, content). let content = TrimSpace content in
       if content \<noteq> [] \<and> role \<noteq> CompactionRole then [content] else []) (Messages chat))"

text \<open>\<open>flushChunk\<close> closes the chunk being built and tells whether there is room for
  another.\<close>

definition flushChunk :: "string list \<Rightarrow> string \<Rightarrow> string list \<times> bool" where
  "flushChunk chunks cur =
    (if cur = [] then (chunks, True)
     else (chunks @ [cur], length (chunks @ [cur]) < MaxChunksPerChat))"

definition joinPiece :: "string \<Rightarrow> string \<Rightarrow> string" where
  "joinPiece cur piece = (if cur \<noteq> [] then cur @ [CHR 0x0A] @ piece else piece)"

text \<open>The loop over what is left of one part: the chunks, the chunk being built, and
  whether the room ran out.\<close>

partial_function (option) chunkPart ::
  "string \<Rightarrow> string list \<Rightarrow> string \<Rightarrow> (string list \<times> string \<times> bool) option" where
  "chunkPart part chunks cur =
    (if part = [] then Some (chunks, cur, False)
     else if cur \<noteq> [] \<and> int (length part) + 1 \<le> int chunkChars - int (length cur)
     then Some (chunks, cur @ [CHR 0x0A] @ part, False)
     else if cur \<noteq> [] \<and> length part \<le> chunkChars
     then (case flushChunk chunks cur of (ch, room) \<Rightarrow>
             if room then chunkPart part ch [] else Some (ch, [], True))
     else let available = int chunkChars - int (length cur) - (if cur \<noteq> [] then 1 else 0);
              piece = truncateUTF8 part available
       in if piece = []
          then (case flushChunk chunks cur of (ch, room) \<Rightarrow>
                  if room then chunkPart part ch [] else Some (ch, [], True))
          else let cur' = joinPiece cur piece; part' = drop (length piece) part
            in if part' \<noteq> []
               then (case flushChunk chunks cur' of (ch, room) \<Rightarrow>
                       if room then chunkPart part' ch [] else Some (ch, [], True))
               else chunkPart part' chunks cur')"

fun chunkParts :: "string list \<Rightarrow> string list \<Rightarrow> string \<Rightarrow> string list option" where
  "chunkParts [] chunks cur = Some (fst (flushChunk chunks cur))"
| "chunkParts (p # ps) chunks cur = (case chunkPart p chunks cur of None \<Rightarrow> None
     | Some (ch, cur', stop) \<Rightarrow> if stop then Some ch else chunkParts ps ch cur')"

text \<open>\<open>parsed\<close> is what \<^verbatim>\<open>json.Unmarshal\<close> makes of the row.\<close>

definition chatChunks :: "chatText option \<Rightarrow> string list option" where
  "chatChunks parsed = (case parsed of None \<Rightarrow> Some []
     | Some chat \<Rightarrow> chunkParts (chatParts chat) [] [])"

section \<open>Cutting at a rune\<close>

definition runeText :: "string \<Rightarrow> bool" where
  "runeText s \<longleftrightarrow> (s \<noteq> [] \<longrightarrow> \<not> isCont (hd s)) \<and>
     (\<forall>i. i + 3 < length s \<longrightarrow> \<not> (isCont (s ! i) \<and> isCont (s ! (i+1)) \<and> isCont (s ! (i+2)) \<and> isCont (s ! (i+3))))"

lemma cutDown_le: "cutDown s n \<le> n"
  by (induction n) (auto intro: le_SucI)

lemma cutDown_stop: "cutDown s n = 0 \<or> \<not> isCont (s ! cutDown s n)"
  by (induction n) auto

lemma cutDown_skips: "cutDown s n < i \<Longrightarrow> i \<le> n \<Longrightarrow> isCont (s ! i)"
  by (induction n) (auto simp: le_Suc_eq split: if_splits)

lemma cutDown_pos:
  assumes "runeText s" "n < length s" "4 \<le> n"
  shows "0 < cutDown s n"
proof (rule ccontr)
  assume "\<not> 0 < cutDown s n"
  then have "isCont (s ! i)" if "0 < i" "i \<le> 4" for i using cutDown_skips [of s n i] that assms(3) by simp
  then have "isCont (s ! 1) \<and> isCont (s ! (1+1)) \<and> isCont (s ! (1+2)) \<and> isCont (s ! (1+3))" by simp
  moreover have "1 + 3 < length s" using assms(2,3) by linarith
  ultimately show False using assms(1) unfolding runeText_def by blast
qed

lemma runeText_drop:
  assumes "runeText s" "k < length s" "\<not> isCont (s ! k)"
  shows "runeText (drop k s)"
  unfolding runeText_def
proof (intro conjI impI allI)
  show "\<not> isCont (hd (drop k s))" using assms by (simp add: hd_drop_conv_nth)
next
  fix i assume "i + 3 < length (drop k s)"
  then have "(k + i) + 3 < length s" by simp
  with assms(1) have "\<not> (isCont (s ! (k+i)) \<and> isCont (s ! (k+i+1)) \<and> isCont (s ! (k+i+2)) \<and> isCont (s ! (k+i+3)))"
    unfolding runeText_def by blast
  then show "\<not> (isCont (drop k s ! i) \<and> isCont (drop k s ! (i+1)) \<and> isCont (drop k s ! (i+2)) \<and> isCont (drop k s ! (i+3)))"
    using \<open>(k + i) + 3 < length s\<close> by (simp add: add.assoc)
qed

lemma truncate_length: "int (length (truncateUTF8 s n)) \<le> max 0 n"
  using cutDown_le [of s "nat n"] by (auto simp: truncateUTF8_def)

lemma runeText_Nil [simp]: "runeText []"
  by (simp add: runeText_def)

lemma truncate_split:
  assumes "runeText s"
  shows "s = truncateUTF8 s n @ drop (length (truncateUTF8 s n)) s \<and>
    runeText (drop (length (truncateUTF8 s n)) s)"
proof -
  define k where "k = (if n \<le> 0 then 0 else if int (length s) \<le> n then length s else cutDown s (nat n))"
  have eq: "truncateUTF8 s n = take k s" by (simp add: truncateUTF8_def k_def)
  have le: "k \<le> length s" using cutDown_le [of s "nat n"] by (auto simp: k_def)
  have "runeText (drop k s)"
  proof (cases "k = 0 \<or> k = length s")
    case True
    then show ?thesis using assms by auto
  next
    case False
    then have "k = cutDown s (nat n)" by (auto simp: k_def split: if_splits)
    then have "\<not> isCont (s ! k)" using cutDown_stop [of s "nat n"] False by metis
    then show ?thesis using runeText_drop [OF assms] False le by simp
  qed
  moreover have "length (take k s) = k" using le by simp
  ultimately show ?thesis unfolding eq by simp
qed

lemma truncate_fresh:
  assumes "runeText s" "s \<noteq> []"
  shows "truncateUTF8 s (int chunkChars) \<noteq> []"
  using assms cutDown_pos [of s chunkChars] by (auto simp: truncateUTF8_def chunkChars_def)

section \<open>What the loop yields\<close>

text \<open>A chunk is pieces of parts joined by line breaks.  \<open>made\<close> relates the chunks and the
  chunk being built to the pieces they hold, in order.\<close>

fun joinNL :: "string list \<Rightarrow> string" where
  "joinNL [] = []"
| "joinNL (p # ps) = (if ps = [] then p else p @ [CHR 0x0A] @ joinNL ps)"

lemma joinNL_snoc: "ps \<noteq> [] \<Longrightarrow> joinNL (ps @ [q]) = joinNL ps @ [CHR 0x0A] @ q"
  by (induction ps) auto

lemma joinNL_nonempty: "ps \<noteq> [] \<Longrightarrow> [] \<notin> set ps \<Longrightarrow> joinNL ps \<noteq> []"
  by (cases ps) auto

definition made :: "string list \<Rightarrow> string \<Rightarrow> string list list \<Rightarrow> string list \<Rightarrow> bool" where
  "made chunks cur pss ps \<longleftrightarrow> chunks = map joinNL pss \<and> cur = joinNL ps \<and>
     (\<forall>qs\<in>set pss. qs \<noteq> [] \<and> [] \<notin> set qs) \<and> [] \<notin> set ps \<and>
     length chunks < MaxChunksPerChat \<and> length cur \<le> chunkChars \<and> (\<forall>c\<in>set chunks. length c \<le> chunkChars)"

lemma made_cur: "made chunks cur pss ps \<Longrightarrow> cur = [] \<longleftrightarrow> ps = []"
  using joinNL_nonempty by (auto simp: made_def)

text \<open>How a part ends: in the chunks, or with the room used up after some of it.\<close>

definition endsWell :: "string \<Rightarrow> string list list \<Rightarrow> string list \<Rightarrow> string list \<times> string \<times> bool \<Rightarrow> bool" where
  "endsWell part pss ps r = (case r of (ch, cur, stop) \<Rightarrow>
     \<exists>pss' ps'. if stop
       then ch = map joinNL pss' \<and> length ch = MaxChunksPerChat \<and> (\<forall>c\<in>set ch. length c \<le> chunkChars) \<and>
         prefix (concat (concat pss')) (concat (concat pss @ ps) @ part)
       else made ch cur pss' ps' \<and> concat (concat pss' @ ps') = concat (concat pss @ ps) @ part)"

lemma flush_made:
  assumes "made chunks cur pss ps" "cur \<noteq> []" "flushChunk chunks cur = (ch, room)"
  shows "ch = map joinNL (pss @ [ps]) \<and> (\<forall>c\<in>set ch. length c \<le> chunkChars) \<and>
    (if room then made ch [] (pss @ [ps]) [] else length ch = MaxChunksPerChat)"
  using assms made_cur [OF assms(1)] by (auto simp: made_def flushChunk_def)

lemma flush_room:
  "made chunks cur pss ps \<Longrightarrow> cur \<noteq> [] \<Longrightarrow> flushChunk chunks cur = (ch, True) \<Longrightarrow> made ch [] (pss @ [ps]) []"
  using flush_made by fastforce

lemma stop_endsWell:
  assumes "made chunks cur pss ps" "cur \<noteq> []" "flushChunk chunks cur = (ch, False)"
    and "concat (concat pss @ ps) = concat (concat qss @ qs) @ p" "prefix p part"
  shows "endsWell part qss qs (ch, [], True)"
proof -
  note f = flush_made [OF assms(1-3)]
  have "prefix (concat (concat (pss @ [ps]))) (concat (concat qss @ qs) @ part)"
    using assms(4,5) by (auto simp: prefix_def)
  then show ?thesis unfolding endsWell_def using f by (intro prod.case [THEN iffD2] exI [of _ "pss @ [ps]"]) auto
qed

lemma endsWell_shift:
  assumes "endsWell part pss ps r" "concat (concat pss @ ps) = concat (concat qss @ qs) @ p"
  shows "endsWell (p @ part) qss qs r"
proof -
  have "concat (concat qss @ qs) @ p @ part = concat (concat pss @ ps) @ part" using assms(2) by simp
  then show ?thesis using assms(1) unfolding endsWell_def by (simp only:)
qed

lemma joinPiece_made:
  assumes "made chunks cur pss ps" "piece \<noteq> []"
    "int (length piece) \<le> int chunkChars - int (length cur) - (if cur \<noteq> [] then 1 else 0)"
  shows "made chunks (joinPiece cur piece) pss (ps @ [piece])"
proof (cases "cur = []")
  case True
  with assms made_cur [OF assms(1)] show ?thesis by (auto simp: made_def joinPiece_def)
next
  case False
  with made_cur [OF assms(1)] have "ps \<noteq> []" by simp
  then show ?thesis using assms False joinNL_snoc by (auto simp: made_def joinPiece_def)
qed

lemma made_fits:
  assumes "made chunks cur pss ps" "part \<noteq> []" "cur \<noteq> []" "int (length part) + 1 \<le> int chunkChars - int (length cur)"
  shows "endsWell part pss ps (chunks, cur @ [CHR 0x0A] @ part, False)"
  using joinPiece_made [OF assms(1,2)] assms(3,4)
  by (auto simp: endsWell_def joinPiece_def intro!: exI [of _ pss] exI [of _ "ps @ [part]"])

lemma chunkPart_ends:
  "runeText part \<Longrightarrow> made chunks cur pss ps \<Longrightarrow>
   \<exists>r. chunkPart part chunks cur = Some r \<and> endsWell part pss ps r"
proof (induction "2 * length part + (if cur = [] then 0 else 1)" arbitrary: part chunks cur pss ps rule: less_induct)
  case less
  note rt = less.prems(1) and md = less.prems(2)
  define avail where "avail = int chunkChars - int (length cur) - (if cur \<noteq> [] then 1 else 0)"
  define piece where "piece = truncateUTF8 part avail"
  define rest where "rest = drop (length piece) part"
  have sp: "part = piece @ rest" "runeText rest" using truncate_split [OF rt, of avail] by (simp_all add: piece_def rest_def)
  have again: "\<exists>r. (case flushChunk chunks cur of (ch, room) \<Rightarrow> if room then chunkPart part ch [] else Some (ch, [], True)) = Some r
      \<and> endsWell part pss ps r" if ne: "cur \<noteq> []"
  proof -
    obtain ch room where f: "flushChunk chunks cur = (ch, room)" by fastforce
    show ?thesis
    proof (cases room)
      case True
      then have m: "made ch [] (pss @ [ps]) []" using flush_room [OF md ne] f by simp
      have "2 * length part + (if ([]::string) = [] then 0 else 1) < 2 * length part + (if cur = [] then 0 else 1)"
        using ne by simp
      from less.hyps [OF this rt m] obtain r where "chunkPart part ch [] = Some r" "endsWell part (pss @ [ps]) [] r"
        by blast
      then show ?thesis using f True endsWell_shift [of part "pss @ [ps]" "[]" r pss ps "[]"] by simp
    next
      case False
      then show ?thesis using f stop_endsWell [OF md ne, of ch pss ps "[]" part] by simp
    qed
  qed
  show ?case
  proof (cases "part = []")
    case True
    then show ?thesis using md by (subst chunkPart.simps) (auto simp: endsWell_def)
  next
    case ne: False
    consider (fit) "cur \<noteq> []" "int (length part) + 1 \<le> int chunkChars - int (length cur)"
      | (close) "cur \<noteq> []" "\<not> int (length part) + 1 \<le> int chunkChars - int (length cur)"
          "length part \<le> chunkChars \<or> piece = []"
      | (piece) "\<not> (cur \<noteq> [] \<and> int (length part) + 1 \<le> int chunkChars - int (length cur))"
          "\<not> (cur \<noteq> [] \<and> length part \<le> chunkChars)" "piece \<noteq> []"
    proof -
      have "piece \<noteq> []" if "cur = []" using truncate_fresh [OF rt ne] that by (simp add: piece_def avail_def)
      then show ?thesis using that by blast
    qed
    then show ?thesis
    proof cases
      case fit
      then show ?thesis using made_fits [OF md ne] ne by (subst chunkPart.simps) simp
    next
      case close
      then have "chunkPart part chunks cur = (case flushChunk chunks cur of (ch, room) \<Rightarrow>
          if room then chunkPart part ch [] else Some (ch, [], True))"
        using ne by (subst chunkPart.simps) (auto simp: Let_def piece_def avail_def)
      then show ?thesis using again close(1) by simp
    next
      case piece
      define cur' where "cur' = joinPiece cur piece"
      have eq: "chunkPart part chunks cur = (if rest \<noteq> [] then (case flushChunk chunks cur' of (ch, room) \<Rightarrow>
          if room then chunkPart rest ch [] else Some (ch, [], True)) else chunkPart rest chunks cur')"
        using ne piece
        unfolding cur'_def rest_def piece_def avail_def
        by (subst chunkPart.simps) (simp only: Let_def if_False if_True simp_thms)
      have "length cur \<le> chunkChars" using md unfolding made_def by blast
      then have "int (length piece) \<le> avail"
        using truncate_length [of part avail] piece(3) by (auto simp: piece_def truncateUTF8_def split: if_splits)
      then have md': "made chunks cur' pss (ps @ [piece])"
        unfolding cur'_def by (intro joinPiece_made [OF md piece(3)]) (simp add: avail_def)
      have ne': "cur' \<noteq> []" using piece(3) by (simp add: cur'_def joinPiece_def)
      have shift: "endsWell rest pss' ps' r \<Longrightarrow> concat (concat pss' @ ps') = concat (concat pss @ ps) @ piece \<Longrightarrow>
          endsWell part pss ps r" for pss' ps' r
        using endsWell_shift [of rest pss' ps' r pss ps piece] sp(1) by simp
      have lt: "2 * length rest + 1 < 2 * length part + (if cur = [] then 0 else 1)"
        using sp(1) piece(3) by (cases piece) auto
      show ?thesis
      proof (cases "rest = []")
        case True
        then have "chunkPart part chunks cur = Some (chunks, cur', False)"
          unfolding eq by (simp add: chunkPart.simps)
        moreover have "endsWell [] pss (ps @ [piece]) (chunks, cur', False)"
          unfolding endsWell_def using md' by (intro prod.case [THEN iffD2] exI [of _ pss] exI [of _ "ps @ [piece]"]) simp
        ultimately show ?thesis using shift [of pss "ps @ [piece]"] True by auto
      next
        case False
        obtain ch room where f: "flushChunk chunks cur' = (ch, room)" by fastforce
        show ?thesis
        proof (cases room)
          case True
          then have m: "made ch [] (pss @ [ps @ [piece]]) []" using flush_room [OF md' ne'] f by simp
          have "2 * length rest + (if ([]::string) = [] then 0 else 1) < 2 * length part + (if cur = [] then 0 else 1)"
            using lt by simp
          from less.hyps [OF this sp(2) m] obtain r where
            "chunkPart rest ch [] = Some r" "endsWell rest (pss @ [ps @ [piece]]) [] r" by blast
          then show ?thesis unfolding eq using f True False shift by auto
        next
          case stop: False
          then show ?thesis unfolding eq using f False sp(1) stop_endsWell [OF md' ne', of ch pss ps piece part]
            by auto
        qed
      qed
    qed
  qed
qed

lemma chunkParts_ends:
  "\<forall>p\<in>set parts. runeText p \<Longrightarrow> made chunks cur pss ps \<Longrightarrow>
   \<exists>ch pss'. chunkParts parts chunks cur = Some ch \<and> ch = map joinNL pss' \<and>
     length ch \<le> MaxChunksPerChat \<and> (\<forall>c\<in>set ch. length c \<le> chunkChars) \<and>
     (if length ch < MaxChunksPerChat then concat (concat pss') = concat (concat pss @ ps) @ concat parts
      else prefix (concat (concat pss')) (concat (concat pss @ ps) @ concat parts))"
proof (induction parts arbitrary: chunks cur pss ps)
  case Nil
  show ?case
  proof (cases "cur = []")
    case True
    then show ?thesis using Nil made_cur [OF Nil(2)]
      by (auto simp: flushChunk_def made_def intro!: exI [of _ pss])
  next
    case False
    obtain ch room where f: "flushChunk chunks cur = (ch, room)" by fastforce
    have "length ch \<le> MaxChunksPerChat" using f False Nil(2) by (auto simp: flushChunk_def made_def)
    then show ?thesis using f flush_made [OF Nil(2) False f] by (auto intro!: exI [of _ "pss @ [ps]"])
  qed
next
  case (Cons p parts)
  from chunkPart_ends [OF _ Cons.prems(2), of p] Cons.prems(1)
  obtain r where "chunkPart p chunks cur = Some r" "endsWell p pss ps r" by auto
  moreover obtain ch cur' stop where "r = (ch, cur', stop)" by (cases r) auto
  ultimately have r: "chunkPart p chunks cur = Some (ch, cur', stop)" "endsWell p pss ps (ch, cur', stop)" by auto
  show ?case
  proof (cases stop)
    case True
    with r(2) obtain pss' where "ch = map joinNL pss'" "length ch = MaxChunksPerChat"
      "\<forall>c\<in>set ch. length c \<le> chunkChars" "prefix (concat (concat pss')) (concat (concat pss @ ps) @ p)"
      by (auto simp: endsWell_def)
    then show ?thesis using r(1) True prefix_prefix [of "concat (concat pss')" "concat (concat pss @ ps) @ p" "concat parts"]
      by (intro exI [of _ ch] exI [of _ pss']) simp
  next
    case False
    with r(2) obtain pss' ps' where m: "made ch cur' pss' ps'"
      and eq: "concat (concat pss' @ ps') = concat (concat pss @ ps) @ p" by (auto simp: endsWell_def)
    have assoc: "concat (concat pss @ ps) @ concat (p # parts) = (concat (concat pss @ ps) @ p) @ concat parts"
      by simp
    have "chunkParts (p # parts) chunks cur = chunkParts parts ch cur'" using r(1) False by simp
    then show ?thesis using Cons.IH [OF _ m] Cons.prems(1) unfolding eq assoc by simp
  qed
qed

section \<open>Properties\<close>

text \<open>A chat whose parts are UTF-8 text is always cut, into at most eight chunks of at
  most 2000 bytes.  Each chunk is pieces of the title and the messages joined by line
  breaks; the pieces in order are the whole text, or, when all eight chunks are used, a
  beginning of it.\<close>

theorem chat_chunks_bounded:
  assumes "\<forall>p\<in>set (chatParts chat). runeText p"
  shows "\<exists>chunks pieces. chatChunks (Some chat) = Some chunks \<and> chunks = map joinNL pieces \<and>
    length chunks \<le> MaxChunksPerChat \<and> (\<forall>c\<in>set chunks. length c \<le> chunkChars) \<and>
    (if length chunks < MaxChunksPerChat then concat (concat pieces) = concat (chatParts chat)
     else prefix (concat (concat pieces)) (concat (chatParts chat)))"
proof -
  have "made [] [] [] []" by (simp add: made_def MaxChunksPerChat_def)
  from chunkParts_ends [OF assms this, unfolded concat.simps append.simps] show ?thesis
    unfolding chatChunks_def option.case by blast
qed

lemma runeText_ascii: "list_all (\<lambda>c. byte_val c < 128) s \<Longrightarrow> runeText s"
proof -
  assume "list_all (\<lambda>c. byte_val c < 128) s"
  then have "\<not> isCont (s ! i)" if "i < length s" for i using that by (auto simp: list_all_length isCont_def)
  moreover from this [of 0] have "s \<noteq> [] \<longrightarrow> \<not> isCont (hd s)" by (simp add: hd_conv_nth)
  ultimately show ?thesis by (simp add: runeText_def)
qed

definition chatX :: chatText where
  "chatX = \<lparr>Title = '' T'', Messages = [(''compaction'', ''s'')]\<rparr>"

lemma chatX_parts: "chatParts chatX = [''T'']"
  by (simp add: chatParts_def chatX_def TrimSpace_def spaceRunes_def CompactionRole_def)

theorem chat_chunks_bounded_witness:
  "\<exists>chunks. chatChunks (Some chatX) = Some chunks \<and> length chunks \<le> 8"
proof -
  have "\<forall>p\<in>set (chatParts chatX). runeText p"
    unfolding chatX_parts by (simp add: runeText_ascii byte_val_def)
  from chat_chunks_bounded [OF this] show ?thesis by (auto simp: MaxChunksPerChat_def)
qed

end
