(* ===== verification/Inference_Gate.thy ===== *)
theory Inference_Gate
  imports Prelude
begin

text \<open>Rationing the inference service, \<^verbatim>\<open>internal/search/gate.go\<close>.  A caller's limit is
  an object that calls in progress keep a pointer to while the map of callers forgets
  idle ones, so limits live in a store.  A call passes its stages one at a time and
  calls interleave.  The rate limiter of \<^verbatim>\<open>golang.org/x/time/rate\<close> is an argument of
  \<open>reserveRate\<close>.\<close>

section \<open>The gate\<close>

definition globalConcurrentCalls :: nat where "globalConcurrentCalls = 16"
definition callerConcurrentCalls :: nat where "callerConcurrentCalls = 2"
definition globalInputsPerSecond :: nat where "globalInputsPerSecond = 100"
definition globalInputBurst :: nat where "globalInputBurst = 256"
definition callerInputsPerSecond :: nat where "callerInputsPerSecond = 10"
definition callerInputBurst :: nat where "callerInputBurst = 32"
definition limiterIdle :: int where "limiterIdle = 10 * 60 * 1000000000"
definition limiterMaxCallers :: nat where "limiterMaxCallers = 10000"

record callerLimit =
  slots :: nat
  lastUsed :: int
  active :: int

record inferenceGate =
  globalConcurrent :: nat
  callerConcurrent :: nat
  globalSlots :: nat
  callers :: "(string \<times> nat) list"
  lims :: "callerLimit list"

definition newInferenceGate :: "nat \<Rightarrow> nat \<Rightarrow> inferenceGate" where
  "newInferenceGate gc cc =
     \<lparr>globalConcurrent = gc, callerConcurrent = cc, globalSlots = 0, callers = [], lims = []\<rparr>"

definition updLim :: "nat \<Rightarrow> (callerLimit \<Rightarrow> callerLimit) \<Rightarrow> inferenceGate \<Rightarrow> inferenceGate" where
  "updLim l f g = g\<lparr>lims := (lims g)[l := f (lims g ! l)]\<rparr>"

text \<open>One pass over the map of callers, in the order it is iterated: the callers kept,
  and the longest idle of them.\<close>

fun prune :: "int \<Rightarrow> callerLimit list \<Rightarrow> (string \<times> nat) list \<Rightarrow> string \<times> int \<Rightarrow>
    (string \<times> nat) list \<times> string \<times> int" where
  "prune now ls [] best = ([], best)"
| "prune now ls ((i, l) # cs) (oldestID, oldest) =
    (if active (ls ! l) \<noteq> 0 then
       (case prune now ls cs (oldestID, oldest) of (kept, b) \<Rightarrow> ((i, l) # kept, b))
     else if now - lastUsed (ls ! l) \<ge> limiterIdle then prune now ls cs (oldestID, oldest)
     else (case prune now ls cs
             (if oldestID = [] \<or> lastUsed (ls ! l) < oldest then (i, lastUsed (ls ! l)) else (oldestID, oldest))
           of (kept, b) \<Rightarrow> ((i, l) # kept, b)))"

definition makeRoom :: "int \<Rightarrow> inferenceGate \<Rightarrow> inferenceGate \<times> bool" where
  "makeRoom now g =
    (if length (callers g) \<ge> limiterMaxCallers then
       (case prune now (lims g) (callers g) ([], 0) of (kept, oldestID, oldest) \<Rightarrow>
        let kept' = (if length kept \<ge> limiterMaxCallers \<and> oldestID \<noteq> []
                     then filter (\<lambda>p. fst p \<noteq> oldestID) kept else kept)
        in (g\<lparr>callers := kept'\<rparr>, length kept' < limiterMaxCallers))
     else (g, True))"

text \<open>\<open>begin_call\<close> returns the address of the caller's limit, or \<^const>\<open>None\<close> when no more
  callers can be tracked.\<close>

definition begin_call :: "string \<Rightarrow> int \<Rightarrow> inferenceGate \<Rightarrow> inferenceGate \<times> nat option" where
  "begin_call ow now g =
    (case map_of (callers g) ow of
       Some l \<Rightarrow> (updLim l (\<lambda>x. x\<lparr>lastUsed := now, active := active x + 1\<rparr>) g, Some l)
     | None \<Rightarrow>
        (case makeRoom now g of (g', room) \<Rightarrow>
           if \<not> room then (g', None)
           else let l = length (lims g') in
             (g'\<lparr>callers := (ow, l) # callers g', lims := lims g' @ [\<lparr>slots = 0, lastUsed = now, active = 1\<rparr>]\<rparr>,
              Some l)))"

definition finish_call :: "nat \<Rightarrow> int \<Rightarrow> inferenceGate \<Rightarrow> inferenceGate" where
  "finish_call l now g = updLim l (\<lambda>x. x\<lparr>active := active x - 1, lastUsed := now\<rparr>) g"

definition tryCallerSlot :: "nat \<Rightarrow> inferenceGate \<Rightarrow> inferenceGate option" where
  "tryCallerSlot l g = (if slots (lims g ! l) < callerConcurrent g
     then Some (updLim l (\<lambda>x. x\<lparr>slots := slots x + 1\<rparr>) g) else None)"

definition tryGlobalSlot :: "inferenceGate \<Rightarrow> inferenceGate option" where
  "tryGlobalSlot g = (if globalSlots g < globalConcurrent g
     then Some (g\<lparr>globalSlots := globalSlots g + 1\<rparr>) else None)"

definition freeCallerSlot :: "nat \<Rightarrow> inferenceGate \<Rightarrow> inferenceGate" where
  "freeCallerSlot l g = updLim l (\<lambda>x. x\<lparr>slots := slots x - 1\<rparr>) g"

definition freeGlobalSlot :: "inferenceGate \<Rightarrow> inferenceGate" where
  "freeGlobalSlot g = g\<lparr>globalSlots := globalSlots g - 1\<rparr>"

section \<open>Rates\<close>

text \<open>\<open>reserve now n lim\<close> is the limiter after a reservation, whether it holds, and its
  delay; \<open>cancel\<close> gives a reservation back.  The caller's and the global limiter are the
  pair that is returned.\<close>

definition reserveRate ::
  "(int \<Rightarrow> nat \<Rightarrow> 'l \<Rightarrow> 'l \<times> bool \<times> int) \<Rightarrow> (int \<Rightarrow> nat \<Rightarrow> 'l \<Rightarrow> 'l) \<Rightarrow> int \<Rightarrow> nat \<Rightarrow> 'l \<times> 'l \<Rightarrow> ('l \<times> 'l) \<times> bool" where
  "reserveRate reserve cancel now inputs st = (case st of (caller, global) \<Rightarrow>
     (case reserve now inputs caller of (caller', ok, delay) \<Rightarrow>
       if \<not> ok \<or> delay > 0 then ((if ok then cancel now inputs caller' else caller', global), False)
       else (case reserve now inputs global of (global', gok, gdelay) \<Rightarrow>
         if \<not> gok \<or> gdelay > 0
         then ((cancel now inputs caller', if gok then cancel now inputs global' else global'), False)
         else ((caller', global'), True))))"

text \<open>Background work asks again at every tick until its rate is granted or its context
  ends; \<open>ticks\<close> lists, for each attempt, the time and whether the context ended after it.\<close>

fun waitForRate ::
  "(int \<Rightarrow> nat \<Rightarrow> 'l \<Rightarrow> 'l \<times> bool \<times> int) \<Rightarrow> (int \<Rightarrow> nat \<Rightarrow> 'l \<Rightarrow> 'l) \<Rightarrow> nat \<Rightarrow> nat \<Rightarrow> nat \<Rightarrow>
   (int \<times> bool) list \<Rightarrow> 'l \<times> 'l \<Rightarrow> ('l \<times> 'l) \<times> bool" where
  "waitForRate reserve cancel callerBurst globalBurst inputs [] st = (st, False)"
| "waitForRate reserve cancel callerBurst globalBurst inputs ((now, ended) # ticks) st =
    (if inputs > callerBurst \<or> inputs > globalBurst then (st, False)
     else case reserveRate reserve cancel now inputs st of (st', got) \<Rightarrow>
       if got then (st', True) else if ended then (st', False)
       else waitForRate reserve cancel callerBurst globalBurst inputs ticks st')"

section \<open>Calls in progress\<close>

text \<open>The stages of \<^verbatim>\<open>acquire\<close>: begun, holding a slot of the caller, holding a global slot
  too, and admitted.\<close>

datatype stage = Begun | Slotted | Globaled | Admitted

record gcall =
  cowner :: string
  clim :: nat
  cstage :: stage

record gateSys =
  gate :: inferenceGate
  calls :: "gcall list"

definition holdsSlot :: "stage \<Rightarrow> bool" where "holdsSlot st \<longleftrightarrow> st \<noteq> Begun"
definition holdsGlobal :: "stage \<Rightarrow> bool" where "holdsGlobal st \<longleftrightarrow> st = Globaled \<or> st = Admitted"

text \<open>A call that fails, or is released, gives back what its stage holds.\<close>

definition giveBack :: "gcall \<Rightarrow> int \<Rightarrow> inferenceGate \<Rightarrow> inferenceGate" where
  "giveBack c now g =
    (let g = (if holdsGlobal (cstage c) then freeGlobalSlot g else g);
         g = (if holdsSlot (cstage c) then freeCallerSlot (clim c) g else g)
     in finish_call (clim c) now g)"

inductive gateStep :: "gateSys \<Rightarrow> gateSys \<Rightarrow> bool" where
  g_begin: "begin_call ow now (gate s) = (g, Some l) \<Longrightarrow>
    gateStep s (s\<lparr>gate := g, calls := \<lparr>cowner = ow, clim = l, cstage = Begun\<rparr> # calls s\<rparr>)"
| g_refuse: "begin_call ow now (gate s) = (g, None) \<Longrightarrow> gateStep s (s\<lparr>gate := g\<rparr>)"
| g_slot: "calls s = xs @ c # ys \<Longrightarrow> cstage c = Begun \<Longrightarrow> tryCallerSlot (clim c) (gate s) = Some g \<Longrightarrow>
    gateStep s (s\<lparr>gate := g, calls := xs @ c\<lparr>cstage := Slotted\<rparr> # ys\<rparr>)"
| g_global: "calls s = xs @ c # ys \<Longrightarrow> cstage c = Slotted \<Longrightarrow> tryGlobalSlot (gate s) = Some g \<Longrightarrow>
    gateStep s (s\<lparr>gate := g, calls := xs @ c\<lparr>cstage := Globaled\<rparr> # ys\<rparr>)"
| g_admit: "calls s = xs @ c # ys \<Longrightarrow> cstage c = Globaled \<Longrightarrow>
    gateStep s (s\<lparr>calls := xs @ c\<lparr>cstage := Admitted\<rparr> # ys\<rparr>)"
| g_end: "calls s = xs @ c # ys \<Longrightarrow>
    gateStep s (s\<lparr>gate := giveBack c now (gate s), calls := xs @ ys\<rparr>)"

inductive gateReach :: "nat \<Rightarrow> nat \<Rightarrow> gateSys \<Rightarrow> bool" for gc cc where
  gr_init: "gateReach gc cc \<lparr>gate = newInferenceGate gc cc, calls = []\<rparr>"
| gr_step: "gateReach gc cc s \<Longrightarrow> gateStep s s' \<Longrightarrow> gateReach gc cc s'"

section \<open>The invariant\<close>

definition cnt :: "(stage \<Rightarrow> bool) \<Rightarrow> nat \<Rightarrow> gcall list \<Rightarrow> nat" where
  "cnt P l cs = length (filter (\<lambda>c. clim c = l \<and> P (cstage c)) cs)"

definition gcnt :: "gcall list \<Rightarrow> nat" where
  "gcnt cs = length (filter (\<lambda>c. holdsGlobal (cstage c)) cs)"

definition mapOk :: "inferenceGate \<Rightarrow> bool" where
  "mapOk g \<longleftrightarrow> distinct (map fst (callers g)) \<and> distinct (map snd (callers g)) \<and>
     length (callers g) \<le> limiterMaxCallers \<and> (\<forall>p\<in>set (callers g). snd p < length (lims g))"

definition limOk :: "nat \<Rightarrow> gcall list \<Rightarrow> nat \<Rightarrow> callerLimit \<Rightarrow> bool" where
  "limOk cap cs l x \<longleftrightarrow> active x = int (cnt (\<lambda>st. True) l cs) \<and> slots x = cnt holdsSlot l cs \<and> slots x \<le> cap"

definition gateInv :: "gateSys \<Rightarrow> bool" where
  "gateInv s \<longleftrightarrow> mapOk (gate s) \<and>
     (\<forall>c\<in>set (calls s). (cowner c, clim c) \<in> set (callers (gate s))) \<and>
     (\<forall>l<length (lims (gate s)). limOk (callerConcurrent (gate s)) (calls s) l (lims (gate s) ! l)) \<and>
     globalSlots (gate s) = gcnt (calls s) \<and> globalSlots (gate s) \<le> globalConcurrent (gate s)"

lemma cnt_simps [simp]:
  "cnt P l [] = 0" "cnt P l (c # cs) = (if clim c = l \<and> P (cstage c) then 1 else 0) + cnt P l cs"
  "cnt P l (xs @ ys) = cnt P l xs + cnt P l ys"
  "gcnt [] = 0" "gcnt (c # cs) = (if holdsGlobal (cstage c) then 1 else 0) + gcnt cs"
  "gcnt (xs @ ys) = gcnt xs + gcnt ys"
  by (simp_all add: cnt_def gcnt_def)

lemma prune_props:
  assumes "prune now ls cs best = (kept, b)"
  shows "set kept \<subseteq> set cs \<and> length kept \<le> length cs \<and>
    (distinct (map fst cs) \<longrightarrow> distinct (map fst kept)) \<and> (distinct (map snd cs) \<longrightarrow> distinct (map snd kept)) \<and>
    (\<forall>p\<in>set cs. active (ls ! snd p) \<noteq> 0 \<longrightarrow> p \<in> set kept) \<and>
    (b = best \<or> (\<exists>l. (fst b, l) \<in> set cs \<and> active (ls ! l) = 0))"
  using assms
proof (induction now ls cs best arbitrary: kept b rule: prune.induct)
  case (2 now ls i l cs oldestID oldest)
  show ?case
  proof (cases "active (ls ! l) \<noteq> 0")
    case True
    obtain kept' b' where r: "prune now ls cs (oldestID, oldest) = (kept', b')" by (rule prod.exhaust)
    then have "kept = (i, l) # kept'" "b = b'" using 2(4) True by simp_all
    moreover note ih = 2(1) [OF True r]
    moreover have "fst ` set kept' \<subseteq> fst ` set cs" "snd ` set kept' \<subseteq> snd ` set cs" using ih by blast+
    ultimately show ?thesis using True by auto
  next
    case a: False
    show ?thesis
    proof (cases "now - lastUsed (ls ! l) \<ge> limiterIdle")
      case True
      then have r: "prune now ls cs (oldestID, oldest) = (kept, b)" using 2(4) a by simp
      from 2(2) [OF _ True r] a show ?thesis by auto
    next
      case False
      define best' where "best' = (if oldestID = [] \<or> lastUsed (ls ! l) < oldest then (i, lastUsed (ls ! l)) else (oldestID, oldest))"
      obtain kept' b' where r: "prune now ls cs best' = (kept', b')" by (rule prod.exhaust)
      then have k: "kept = (i, l) # kept'" "b = b'" using 2(4) a False by (simp_all add: best'_def)
      have ih: "set kept' \<subseteq> set cs \<and> length kept' \<le> length cs \<and>
        (distinct (map fst cs) \<longrightarrow> distinct (map fst kept')) \<and> (distinct (map snd cs) \<longrightarrow> distinct (map snd kept')) \<and>
        (\<forall>p\<in>set cs. active (ls ! snd p) \<noteq> 0 \<longrightarrow> p \<in> set kept') \<and>
        (b' = best' \<or> (\<exists>l. (fst b', l) \<in> set cs \<and> active (ls ! l) = 0))"
        using 2(3) [OF _ False, of kept' b'] a r unfolding best'_def by simp
      have "b' = (oldestID, oldest) \<or> (\<exists>l'. (fst b', l') \<in> set ((i, l) # cs) \<and> active (ls ! l') = 0)"
        using ih a by (auto simp: best'_def split: if_splits)
      moreover have "fst ` set kept' \<subseteq> fst ` set cs" "snd ` set kept' \<subseteq> snd ` set cs" using ih by blast+
      ultimately show ?thesis using ih k by auto
    qed
  qed
qed simp

lemma makeRoom_props:
  assumes "mapOk g" "makeRoom now g = (g', room)"
  shows "mapOk g' \<and> lims g' = lims g \<and> set (callers g') \<subseteq> set (callers g) \<and>
    (\<forall>p\<in>set (callers g). active (lims g ! snd p) \<noteq> 0 \<longrightarrow> p \<in> set (callers g')) \<and>
    (room \<longrightarrow> length (callers g') < limiterMaxCallers) \<and> globalSlots g' = globalSlots g \<and>
    callerConcurrent g' = callerConcurrent g \<and> globalConcurrent g' = globalConcurrent g"
proof (cases "length (callers g) \<ge> limiterMaxCallers")
  case False
  then show ?thesis using assms by (auto simp: makeRoom_def)
next
  case True
  obtain kept oldestID oldest where p: "prune now (lims g) (callers g) ([], 0) = (kept, oldestID, oldest)"
    by (metis surj_pair)
  note pp = prune_props [OF p]
  define kept' where "kept' = (if length kept \<ge> limiterMaxCallers \<and> oldestID \<noteq> []
      then filter (\<lambda>p. fst p \<noteq> oldestID) kept else kept)"
  have g': "g' = g\<lparr>callers := kept'\<rparr>" "room \<longleftrightarrow> length kept' < limiterMaxCallers"
    using assms(2) True p by (auto simp: makeRoom_def kept'_def Let_def)
  have sub: "set kept' \<subseteq> set kept" "length kept' \<le> length kept" by (auto simp: kept'_def)
  have d: "distinct (map fst (callers g))" "distinct (map snd (callers g))" using assms(1) by (simp_all add: mapOk_def)
  have "distinct (map fst kept')" "distinct (map snd kept')"
    using pp d by (auto simp: kept'_def intro: distinct_map_filter)
  moreover have "p \<in> set kept'" if "p \<in> set (callers g)" "active (lims g ! snd p) \<noteq> 0" for p
  proof -
    have "p \<in> set kept" using pp that by blast
    moreover have "fst p \<noteq> oldestID" if "oldestID \<noteq> []"
    proof
      assume e: "fst p = oldestID"
      from pp that obtain l where l: "(oldestID, l) \<in> set (callers g)" "active (lims g ! l) = 0" by auto
      then have "p = (oldestID, l)" using d(1) e \<open>p \<in> set (callers g)\<close>
        by (metis eq_key_imp_eq_value prod.collapse)
      then show False using l(2) \<open>active (lims g ! snd p) \<noteq> 0\<close> by simp
    qed
    ultimately show ?thesis by (simp add: kept'_def)
  qed
  ultimately show ?thesis using assms(1) pp sub g' by (auto simp: mapOk_def)
qed

lemma updLim_fields [simp]:
  "callers (updLim l f g) = callers g" "globalSlots (updLim l f g) = globalSlots g"
  "callerConcurrent (updLim l f g) = callerConcurrent g" "globalConcurrent (updLim l f g) = globalConcurrent g"
  "length (lims (updLim l f g)) = length (lims g)"
  "i < length (lims g) \<Longrightarrow> lims (updLim l f g) ! i = (if i = l then f (lims g ! l) else lims g ! i)"
  by (simp_all add: updLim_def nth_list_update)

lemma gateInvD:
  assumes "gateInv s"
  shows "mapOk (gate s)" "c \<in> set (calls s) \<Longrightarrow> (cowner c, clim c) \<in> set (callers (gate s))"
    "c \<in> set (calls s) \<Longrightarrow> clim c < length (lims (gate s))"
    "l < length (lims (gate s)) \<Longrightarrow> limOk (callerConcurrent (gate s)) (calls s) l (lims (gate s) ! l)"
    "globalSlots (gate s) = gcnt (calls s)" "globalSlots (gate s) \<le> globalConcurrent (gate s)"
  using assms by (fastforce simp: gateInv_def mapOk_def)+

lemma gateInvI:
  assumes "mapOk (gate s)" "\<And>c. c \<in> set (calls s) \<Longrightarrow> (cowner c, clim c) \<in> set (callers (gate s))"
    "\<And>l. l < length (lims (gate s)) \<Longrightarrow> limOk (callerConcurrent (gate s)) (calls s) l (lims (gate s) ! l)"
    "globalSlots (gate s) = gcnt (calls s)" "globalSlots (gate s) \<le> globalConcurrent (gate s)"
  shows "gateInv s"
  using assms by (simp add: gateInv_def)

lemma mapOk_cong: "callers g' = callers g \<Longrightarrow> length (lims g') = length (lims g) \<Longrightarrow> mapOk g' = mapOk g"
  by (simp add: mapOk_def)

lemma cnt_zero_fresh: "gateInv s \<Longrightarrow> length (lims (gate s)) \<le> l \<Longrightarrow> cnt P l (calls s) = 0"
  using gateInvD(3) by (fastforce simp: cnt_def filter_empty_conv)

lemma inv_begin:
  assumes "gateInv s" "begin_call ow now (gate s) = (g, Some l)"
  shows "gateInv (s\<lparr>gate := g, calls := \<lparr>cowner = ow, clim = l, cstage = Begun\<rparr> # calls s\<rparr>)"
proof (cases "map_of (callers (gate s)) ow")
  case (Some k)
  then have k: "(ow, k) \<in> set (callers (gate s))" by (rule map_of_SomeD)
  then have "k < length (lims (gate s))" using gateInvD(1) [OF assms(1)] by (auto simp: mapOk_def)
  have g: "updLim k (\<lambda>x. x\<lparr>lastUsed := now, active := active x + 1\<rparr>) (gate s) = g" "k = l"
    using assms(2) Some by (auto simp: begin_call_def)
  have f: "callers g = callers (gate s)" "length (lims g) = length (lims (gate s))"
    "globalSlots g = globalSlots (gate s)" "callerConcurrent g = callerConcurrent (gate s)"
    "globalConcurrent g = globalConcurrent (gate s)" unfolding g(1) [symmetric] by simp_all
  have nth: "lims g ! i = (if i = l then (lims (gate s) ! l)\<lparr>lastUsed := now, active := active (lims (gate s) ! l) + 1\<rparr>
      else lims (gate s) ! i)" if "i < length (lims (gate s))" for i
    unfolding g(1) [symmetric] g(2) using that by simp
  show ?thesis
  proof (rule gateInvI)
    show "limOk (callerConcurrent (gate (s\<lparr>gate := g, calls := \<lparr>cowner = ow, clim = l, cstage = Begun\<rparr> # calls s\<rparr>)))
       (calls (s\<lparr>gate := g, calls := \<lparr>cowner = ow, clim = l, cstage = Begun\<rparr> # calls s\<rparr>)) i
       (lims (gate (s\<lparr>gate := g, calls := \<lparr>cowner = ow, clim = l, cstage = Begun\<rparr> # calls s\<rparr>)) ! i)"
      if "i < length (lims (gate (s\<lparr>gate := g, calls := \<lparr>cowner = ow, clim = l, cstage = Begun\<rparr> # calls s\<rparr>)))" for i
      using gateInvD(4) [OF assms(1), of i] that nth [of i] by (cases "i = l") (simp_all add: limOk_def f holdsSlot_def)
  qed (use gateInvD(1,2,5,6) [OF assms(1)] mapOk_cong [OF f(1,2)] k g(2) f in \<open>auto simp: holdsGlobal_def\<close>)
next
  case None
  obtain g' room where mr: "makeRoom now (gate s) = (g', room)" by (rule prod.exhaust)
  then have room: room and g: "g = g'\<lparr>callers := (ow, length (lims g')) # callers g',
      lims := lims g' @ [\<lparr>slots = 0, lastUsed = now, active = 1\<rparr>]\<rparr>" and l: "l = length (lims g')"
    using assms(2) None by (auto simp: begin_call_def Let_def split: if_splits)
  note mp = makeRoom_props [OF gateInvD(1) [OF assms(1)] mr]
  have no: "ow \<notin> fst ` set (callers g')" using None mp by (auto simp: map_of_eq_None_iff)
  have act: "active (lims (gate s) ! clim c) \<noteq> 0" if "c \<in> set (calls s)" for c
  proof -
    have "cnt (\<lambda>st. True) (clim c) (calls s) \<noteq> 0" using that by (auto simp: cnt_def filter_empty_conv)
    then show ?thesis using gateInvD(3,4) [OF assms(1)] that by (auto simp: limOk_def)
  qed
  have kept: "(cowner c, clim c) \<in> set (callers g')" if "c \<in> set (calls s)" for c
    using mp gateInvD(2) [OF assms(1) that] act [OF that] by auto
  have "limOk (callerConcurrent g') (\<lparr>cowner = ow, clim = l, cstage = Begun\<rparr> # calls s) i (lims g ! i)"
    if "i < length (lims g)" for i
    using that mp gateInvD(4) [OF assms(1), of i] cnt_zero_fresh [OF assms(1), of l]
    by (cases "i = l") (auto simp: g l limOk_def nth_append holdsSlot_def)
  moreover have "mapOk g" using mp no room by (fastforce simp: mapOk_def g)
  ultimately show ?thesis
    using mp kept gateInvD(5,6) [OF assms(1)] unfolding gateInv_def
    by (auto simp: g l holdsGlobal_def)
qed

lemma inv_refuse:
  assumes "gateInv s" "begin_call ow now (gate s) = (g, None)"
  shows "gateInv (s\<lparr>gate := g\<rparr>)"
proof -
  obtain room where mr: "makeRoom now (gate s) = (g, room)"
    using assms(2) by (auto simp: begin_call_def Let_def split: option.splits prod.splits if_splits)
  note mp = makeRoom_props [OF gateInvD(1) [OF assms(1)] mr]
  have act: "active (lims (gate s) ! clim c) \<noteq> 0" if "c \<in> set (calls s)" for c
  proof -
    have "cnt (\<lambda>st. True) (clim c) (calls s) \<noteq> 0" using that by (auto simp: cnt_def filter_empty_conv)
    then show ?thesis using gateInvD(3,4) [OF assms(1)] that by (auto simp: limOk_def)
  qed
  have "(cowner c, clim c) \<in> set (callers g)" if "c \<in> set (calls s)" for c
    using mp gateInvD(2) [OF assms(1) that] act [OF that] by auto
  then show ?thesis using mp assms(1) by (simp add: gateInv_def)
qed

lemma inv_slot:
  assumes "gateInv s" "calls s = xs @ c # ys" "cstage c = Begun" "tryCallerSlot (clim c) (gate s) = Some g"
  shows "gateInv (s\<lparr>gate := g, calls := xs @ c\<lparr>cstage := Slotted\<rparr> # ys\<rparr>)"
proof -
  have lt: "slots (lims (gate s) ! clim c) < callerConcurrent (gate s)"
    and g: "g = updLim (clim c) (\<lambda>x. x\<lparr>slots := slots x + 1\<rparr>) (gate s)"
    using assms(4) by (auto simp: tryCallerSlot_def split: if_splits)
  have "limOk (callerConcurrent g) (xs @ c\<lparr>cstage := Slotted\<rparr> # ys) l (lims g ! l)" if "l < length (lims g)" for l
    using gateInvD(4) [OF assms(1), of l] that assms(2,3) lt
    by (auto simp: g limOk_def holdsSlot_def)
  moreover have "mapOk g" using gateInvD(1) [OF assms(1)] mapOk_cong [of g "gate s"] by (simp add: g)
  ultimately show ?thesis
    using gateInvD(2,5,6) [OF assms(1)] assms(2,3) by (intro gateInvI) (auto simp: g holdsGlobal_def)
qed

lemma inv_global:
  assumes "gateInv s" "calls s = xs @ c # ys" "cstage c = Slotted" "tryGlobalSlot (gate s) = Some g"
  shows "gateInv (s\<lparr>gate := g, calls := xs @ c\<lparr>cstage := Globaled\<rparr> # ys\<rparr>)"
proof -
  have lt: "globalSlots (gate s) < globalConcurrent (gate s)" and g: "g = (gate s)\<lparr>globalSlots := globalSlots (gate s) + 1\<rparr>"
    using assms(4) by (auto simp: tryGlobalSlot_def split: if_splits)
  have "limOk (callerConcurrent g) (xs @ c\<lparr>cstage := Globaled\<rparr> # ys) l (lims g ! l)" if "l < length (lims g)" for l
    using gateInvD(4) [OF assms(1), of l] that assms(2,3) by (simp add: g limOk_def holdsSlot_def)
  moreover have "mapOk g" using gateInvD(1) [OF assms(1)] mapOk_cong [of g "gate s"] by (simp add: g)
  ultimately show ?thesis
    using gateInvD(2,5) [OF assms(1)] assms(2,3) lt by (intro gateInvI) (auto simp: g holdsGlobal_def)
qed

lemma inv_admit:
  assumes "gateInv s" "calls s = xs @ c # ys" "cstage c = Globaled"
  shows "gateInv (s\<lparr>calls := xs @ c\<lparr>cstage := Admitted\<rparr> # ys\<rparr>)"
proof -
  have "limOk (callerConcurrent (gate s)) (xs @ c\<lparr>cstage := Admitted\<rparr> # ys) l (lims (gate s) ! l)"
    if "l < length (lims (gate s))" for l
    using gateInvD(4) [OF assms(1), of l] that assms(2,3) by (simp add: limOk_def holdsSlot_def)
  then show ?thesis
    using gateInvD(1,2,5,6) [OF assms(1)] assms(2,3) by (intro gateInvI) (auto simp: holdsGlobal_def)
qed

lemma inv_giveBack:
  assumes "gateInv s" "calls s = xs @ c # ys"
  shows "gateInv (s\<lparr>gate := giveBack c now (gate s), calls := xs @ ys\<rparr>)"
proof -
  let ?g = "giveBack c now (gate s)"
  have cl: "clim c < length (lims (gate s))" using gateInvD(3) [OF assms(1)] assms(2) by simp
  have f: "callers ?g = callers (gate s)" "length (lims ?g) = length (lims (gate s))"
    "callerConcurrent ?g = callerConcurrent (gate s)" "globalConcurrent ?g = globalConcurrent (gate s)"
    "globalSlots ?g = globalSlots (gate s) - (if holdsGlobal (cstage c) then 1 else 0)"
    by (simp_all add: giveBack_def finish_call_def freeCallerSlot_def freeGlobalSlot_def Let_def)
  have nth: "lims ?g ! l = (if l = clim c then (lims (gate s) ! l)\<lparr>active := active (lims (gate s) ! l) - 1, lastUsed := now,
      slots := slots (lims (gate s) ! l) - (if holdsSlot (cstage c) then 1 else 0)\<rparr> else lims (gate s) ! l)"
    if "l < length (lims (gate s))" for l
    using that by (auto simp: giveBack_def finish_call_def freeCallerSlot_def freeGlobalSlot_def updLim_def Let_def)
  have "limOk (callerConcurrent ?g) (xs @ ys) l (lims ?g ! l)" if "l < length (lims (gate s))" for l
    using gateInvD(4) [OF assms(1) that] nth [OF that] assms(2) by (auto simp: limOk_def f)
  moreover have "mapOk ?g" using gateInvD(1) [OF assms(1)] mapOk_cong [OF f(1,2)] by simp
  ultimately show ?thesis
    using gateInvD(2,5,6) [OF assms(1)] assms(2) by (intro gateInvI) (auto simp: f)
qed

lemma gateStep_inv: "gateStep s s' \<Longrightarrow> gateInv s \<Longrightarrow> gateInv s'"
  by (induction rule: gateStep.induct) (blast intro: inv_begin inv_refuse inv_slot inv_global inv_admit inv_giveBack)+

lemma gate_init: "gateInv \<lparr>gate = newInferenceGate gc cc, calls = []\<rparr>"
  by (simp add: gateInv_def mapOk_def newInferenceGate_def)

lemma caps_step: "gateStep s s' \<Longrightarrow> gateInv s \<Longrightarrow>
    callerConcurrent (gate s') = callerConcurrent (gate s) \<and> globalConcurrent (gate s') = globalConcurrent (gate s)"
proof (induction rule: gateStep.induct)
  case (g_begin ow now s g l)
  then show ?case using makeRoom_props [OF gateInvD(1)]
    by (fastforce simp: begin_call_def Let_def split: option.splits prod.splits if_splits)
next
  case (g_refuse ow now s g)
  then show ?case using makeRoom_props [OF gateInvD(1)]
    by (fastforce simp: begin_call_def Let_def split: option.splits prod.splits if_splits)
qed (auto simp: tryCallerSlot_def tryGlobalSlot_def giveBack_def finish_call_def freeCallerSlot_def
      freeGlobalSlot_def Let_def split: if_splits)

lemma gateReach_inv: "gateReach gc cc s \<Longrightarrow> gateInv s \<and> callerConcurrent (gate s) = cc \<and> globalConcurrent (gate s) = gc"
proof (induction rule: gateReach.induct)
  case gr_init
  show ?case using gate_init by (simp add: newInferenceGate_def)
next
  case (gr_step s s')
  then show ?case using gateStep_inv caps_step by metis
qed

section \<open>Properties\<close>

text \<open>C37: whatever calls begin, fail, are admitted and are released, in any interleaving,
  at most the limit of calls of one caller and of all callers hold a slot, no more than
  10000 callers are tracked, and a caller with a call in progress is never forgotten,
  so its limit is never doubled by a second record.\<close>

theorem gate_limits_hold:
  assumes "gateReach gc cc s"
  shows "length (filter (\<lambda>c. cowner c = ow \<and> holdsSlot (cstage c)) (calls s)) \<le> cc \<and>
    length (filter (\<lambda>c. holdsGlobal (cstage c)) (calls s)) \<le> gc \<and>
    length (callers (gate s)) \<le> limiterMaxCallers \<and>
    list_all (\<lambda>c. map_of (callers (gate s)) (cowner c) = Some (clim c)) (calls s)"
proof -
  have inv: "gateInv s" and caps: "callerConcurrent (gate s) = cc" "globalConcurrent (gate s) = gc"
    using gateReach_inv [OF assms] by auto
  have d: "distinct (map fst (callers (gate s)))" using gateInvD(1) [OF inv] by (simp add: mapOk_def)
  have own: "map_of (callers (gate s)) (cowner c) = Some (clim c)" if "c \<in> set (calls s)" for c
    using gateInvD(2) [OF inv that] d by simp
  have "length (filter (\<lambda>c. cowner c = ow \<and> holdsSlot (cstage c)) (calls s)) \<le> cc"
  proof (cases "map_of (callers (gate s)) ow")
    case None
    then have "filter (\<lambda>c. cowner c = ow \<and> holdsSlot (cstage c)) (calls s) = []"
      using own by (fastforce simp: filter_empty_conv)
    then show ?thesis by simp
  next
    case (Some l)
    have "filter (\<lambda>c. cowner c = ow \<and> holdsSlot (cstage c)) (calls s) =
        filter (\<lambda>c. cowner c = ow \<and> clim c = l \<and> holdsSlot (cstage c)) (calls s)"
      using own Some by (intro filter_cong) auto
    moreover have "length (filter (\<lambda>c. cowner c = ow \<and> clim c = l \<and> holdsSlot (cstage c)) (calls s)) \<le> cnt holdsSlot l (calls s)"
      unfolding cnt_def by (induction rule: list.induct [of _ "calls s"]) auto
    moreover have "l < length (lims (gate s))"
      using map_of_SomeD [OF Some] gateInvD(1) [OF inv] by (auto simp: mapOk_def)
    then have "cnt holdsSlot l (calls s) \<le> cc" using gateInvD(4) [OF inv, of l] caps by (simp add: limOk_def)
    ultimately show ?thesis by simp
  qed
  then show ?thesis
    using gateInvD(5,6) [OF inv] caps gateInvD(1) [OF inv] own by (auto simp: gcnt_def mapOk_def list_all_iff)
qed

definition gateX :: gateSys where
  "gateX = \<lparr>gate = fst (begin_call ''u'' 5 (newInferenceGate 16 2)),
     calls = [\<lparr>cowner = ''u'', clim = 0, cstage = Begun\<rparr>]\<rparr>"

lemma gateX_reach: "gateReach 16 2 gateX"
proof -
  let ?s = "\<lparr>gate = newInferenceGate 16 2, calls = []\<rparr>"
  have "begin_call ''u'' 5 (gate ?s) = (fst (begin_call ''u'' 5 (newInferenceGate 16 2)), Some 0)"
    by (simp add: begin_call_def makeRoom_def newInferenceGate_def limiterMaxCallers_def)
  from gr_step [OF gr_init g_begin [OF this]] show ?thesis by (simp add: gateX_def)
qed

theorem gate_limits_hold_witness:
  "calls gateX \<noteq> [] \<and> list_all (\<lambda>c. map_of (callers (gate gateX)) (cowner c) = Some (clim c)) (calls gateX)"
  using gate_limits_hold [OF gateX_reach, of "''u''"] by (simp add: gateX_def)

text \<open>Taking inputs from the caller's and the global rate is all or nothing: when it
  fails, both limiters are as they were, and waiting for it leaves them so until it
  succeeds.  What is relied on is that a limiter that refuses a reservation keeps its
  state and that giving a reservation back undoes it.\<close>

theorem reserve_all_or_nothing:
  assumes "\<And>now n l l' d. reserve now n l = (l', False, d) \<Longrightarrow> l' = l"
    and "\<And>now n l l' d. reserve now n l = (l', True, d) \<Longrightarrow> cancel now n l' = l"
    and "waitForRate reserve cancel cb gb n ticks st = (st', False) \<or>
      reserveRate reserve cancel now n st = (st', False)"
  shows "st' = st"
proof -
  have one: "st2 = st1" if "reserveRate reserve cancel t n st1 = (st2, False)" for t st1 st2
  proof -
    obtain c g where st: "st1 = (c, g)" by (rule prod.exhaust)
    obtain c' ok d where r: "reserve t n c = (c', ok, d)" by (metis surj_pair)
    obtain g' gok gd where rg: "reserve t n g = (g', gok, gd)" by (metis surj_pair)
    show ?thesis
      using that st r rg assms(1,2)
      by (cases ok; cases gok) (auto simp: reserveRate_def split: if_splits)
  qed
  have many: "st2 = st1" if "waitForRate reserve cancel cb gb n ticks st1 = (st2, False)" for st1 st2
    using that
  proof (induction ticks arbitrary: st1)
    case (Cons tk ticks)
    obtain t e where tk: "tk = (t, e)" by (rule prod.exhaust)
    obtain st3 got where r: "reserveRate reserve cancel t n st1 = (st3, got)" by (rule prod.exhaust)
    then have "\<not> got \<Longrightarrow> st3 = st1" using one by simp
    with Cons r tk show ?case by (auto split: if_splits)
  qed simp
  show ?thesis using assms(3) one many by blast
qed

text \<open>A bucket of tokens, for which what is relied on holds.\<close>

definition bucketReserve :: "int \<Rightarrow> nat \<Rightarrow> nat \<Rightarrow> nat \<times> bool \<times> int" where
  "bucketReserve now n l = (if n \<le> l then (l - n, True, 0) else (l, False, 0))"

definition bucketCancel :: "int \<Rightarrow> nat \<Rightarrow> nat \<Rightarrow> nat" where
  "bucketCancel now n l = l + n"

theorem reserve_all_or_nothing_witness:
  "reserveRate bucketReserve bucketCancel 0 3 (5, 2) = ((5, 2), False)"
proof -
  have "reserveRate bucketReserve bucketCancel 0 3 (5, 2) =
      (fst (reserveRate bucketReserve bucketCancel 0 3 (5, 2)), False)"
    by (simp add: reserveRate_def bucketReserve_def)
  moreover from this have "fst (reserveRate bucketReserve bucketCancel 0 3 (5, 2)) = (5, 2)"
    by (intro reserve_all_or_nothing [of bucketReserve bucketCancel 0 0 3 "[]" "(5, 2)" _ 0])
       (auto simp: bucketReserve_def bucketCancel_def split: if_splits)
  ultimately show ?thesis by simp
qed

end
