(* ===== verification/Live_Runs.thy ===== *)
theory Live_Runs
  imports Prelude
begin

text \<open>The registry of live runs, \<^verbatim>\<open>internal/engine/live.go\<close>, \<^verbatim>\<open>queue.go\<close>, \<^verbatim>\<open>shutdown.go\<close>,
  and the critical sections of \<^verbatim>\<open>accept.go\<close>, \<^verbatim>\<open>start.go\<close>, \<^verbatim>\<open>finish.go\<close> and \<^verbatim>\<open>transfer.go\<close>.
  Sessions and runs are objects that the maps, the queues and the goroutines share, so
  they live in two stores and are referred to by address.  Each operation below is what
  the code does between taking and releasing the registry's lock; the steps interleave
  them.  A run's \<open>phase\<close> is where its goroutine is.  The frames an operation emits are
  not part of this model; whether a log is closed or held is.\<close>

section \<open>Sessions, runs and the registry\<close>

record threadSession =
  sID :: string
  sowner :: string
  keyHash :: string
  deleted :: bool
  local :: bool
  keyless :: bool
  Active :: "nat option"
  Queue :: "nat list"

text \<open>A run is reserved by its request, refused or given its chat, where it waits or is
  launched at once; a launched run starts, ends and is retired from its chat, and its
  goroutine then closes its log and its channel.\<close>

datatype phase = Reserved | Refused | Waiting | Launching | Started | Ending | Retired | Done

record Run =
  Thread :: nat
  logID :: string
  rowner :: string
  nonce :: string
  digest :: string
  phase :: phase
  Queued :: bool
  cancelled :: bool
  yielded :: bool
  ending :: bool
  running :: bool
  stopped :: bool
  accepted :: bool
  finished :: bool
  holdsKey :: bool
  logClosed :: bool
  logHeld :: bool

record heldRun =
  hrun :: nat
  howner :: string
  hthreadID :: string

text \<open>\<open>panicked\<close> records a nil dereference or a channel closed twice.\<close>

record liveRuns =
  closing :: bool
  threads :: "string \<rightharpoonup> nat"
  runs :: "string \<rightharpoonup> nat"
  requests :: "string \<rightharpoonup> nat"
  held :: "string \<rightharpoonup> heldRun"
  S :: "nat \<Rightarrow> threadSession"
  nS :: nat
  R :: "nat \<Rightarrow> Run"
  nR :: nat
  panicked :: bool

definition MaxQueuedTurns :: nat where "MaxQueuedTurns = 32"

definition liveKey :: "string \<Rightarrow> string \<Rightarrow> string" where
  "liveKey scope i = scope @ ''/'' @ i"

text \<open>\<^verbatim>\<open>api.RequireID\<close> refuses an id with a slash.\<close>

definition noSlash :: "string \<Rightarrow> bool" where
  "noSlash i \<longleftrightarrow> CHR ''/'' \<notin> set i"

definition skey :: "threadSession \<Rightarrow> string" where
  "skey s = liveKey (sowner s) (sID s)"

definition rkey :: "liveRuns \<Rightarrow> nat \<Rightarrow> string" where
  "rkey l r = liveKey (sowner (S l (Thread (R l r)))) (logID (R l r))"

definition qkey :: "liveRuns \<Rightarrow> nat \<Rightarrow> string" where
  "qkey l r = liveKey (sowner (S l (Thread (R l r)))) (nonce (R l r))"

definition updS :: "nat \<Rightarrow> (threadSession \<Rightarrow> threadSession) \<Rightarrow> liveRuns \<Rightarrow> liveRuns" where
  "updS s f l = l\<lparr>S := (S l)(s := f (S l s))\<rparr>"

definition updR :: "nat \<Rightarrow> (Run \<Rightarrow> Run) \<Rightarrow> liveRuns \<Rightarrow> liveRuns" where
  "updR r f l = l\<lparr>R := (R l)(r := f (R l r))\<rparr>"

section \<open>Operations under the lock\<close>

definition forget :: "nat \<Rightarrow> liveRuns \<Rightarrow> liveRuns" where
  "forget r l =
    (let l1 = (if runs l (rkey l r) = Some r then l\<lparr>runs := (runs l)(rkey l r := None)\<rparr> else l)
     in if requests l1 (qkey l1 r) = Some r then l1\<lparr>requests := (requests l1)(qkey l1 r := None)\<rparr> else l1)"

definition dropIdle :: "nat \<Rightarrow> liveRuns \<Rightarrow> liveRuns" where
  "dropIdle s l =
    (if Active (S l s) \<noteq> None \<or> Queue (S l s) \<noteq> [] then l
     else if threads l (skey (S l s)) = Some s then l\<lparr>threads := (threads l)(skey (S l s) := None)\<rparr>
     else l)"

text \<open>What a run's end leaves: its log closed, its content key cleared, its channel
  closed.\<close>

definition closeOut :: "nat \<Rightarrow> liveRuns \<Rightarrow> liveRuns" where
  "closeOut r l =
    (if finished (R l r) then l\<lparr>panicked := True\<rparr>
     else updR r (\<lambda>x. x\<lparr>logClosed := True, holdsKey := False, finished := True, phase := Done\<rparr>) l)"

definition endQueued :: "nat \<Rightarrow> liveRuns \<Rightarrow> liveRuns" where
  "endQueued r l = closeOut r (forget r l)"

definition endAll :: "nat list \<Rightarrow> liveRuns \<Rightarrow> liveRuns" where
  "endAll rs l = foldl (\<lambda>l r. endQueued r l) l rs"

definition makeActive :: "nat \<Rightarrow> nat \<Rightarrow> liveRuns \<Rightarrow> liveRuns" where
  "makeActive s r l = updR r (\<lambda>x. x\<lparr>phase := Launching\<rparr>) (updS s (\<lambda>x. x\<lparr>Active := Some r\<rparr>) l)"

definition advance :: "nat \<Rightarrow> bool \<Rightarrow> liveRuns \<Rightarrow> liveRuns \<times> nat option" where
  "advance r goOn l =
    (let s = Thread (R l r);
         l = updR r (\<lambda>x. x\<lparr>phase := Retired\<rparr>) (forget r l);
         l = (if Active (S l s) = Some r then updS s (\<lambda>x. x\<lparr>Active := None\<rparr>) l else l)
     in if goOn \<and> \<not> deleted (S l s) \<and> \<not> closing l \<and> Queue (S l s) \<noteq> []
        then let next = hd (Queue (S l s));
                 l = makeActive s next (updS s (\<lambda>x. x\<lparr>Queue := tl (Queue x)\<rparr>) l)
             in (dropIdle s l, Some next)
        else (dropIdle s (updS s (\<lambda>x. x\<lparr>Queue := []\<rparr>) (endAll (Queue (S l s)) l)), None))"

definition cancelRun :: "nat \<Rightarrow> liveRuns \<Rightarrow> liveRuns" where
  "cancelRun r l = updR r (\<lambda>x. x\<lparr>cancelled := True, stopped := True\<rparr>) l"

definition cancelActive :: "nat \<Rightarrow> liveRuns \<Rightarrow> liveRuns" where
  "cancelActive s l = (case Active (S l s) of None \<Rightarrow> l | Some r \<Rightarrow> cancelRun r l)"

definition removeQueued :: "nat \<Rightarrow> liveRuns \<Rightarrow> liveRuns \<times> bool" where
  "removeQueued r l =
    (let s = Thread (R l r) in
     if r \<notin> set (Queue (S l s)) then (l, False)
     else let l = updS s (\<lambda>x. x\<lparr>Queue := remove1 r (Queue x)\<rparr>) l;
              l = endQueued r (updR r (\<lambda>x. x\<lparr>cancelled := True\<rparr>) l)
          in (dropIdle s l, True))"

definition stop :: "nat \<Rightarrow> liveRuns \<Rightarrow> liveRuns" where
  "stop s l =
    (let l = cancelActive s (updS s (\<lambda>x. x\<lparr>deleted := True\<rparr>) l);
         l = updS s (\<lambda>x. x\<lparr>Queue := []\<rparr>) (endAll (Queue (S l s)) l)
     in dropIdle s l)"

definition isDevice :: "threadSession \<Rightarrow> bool" where
  "isDevice s \<longleftrightarrow> local s \<and> keyless s"

text \<open>The logs of device chats' ended runs.\<close>

definition holdRun :: "nat \<Rightarrow> liveRuns \<Rightarrow> liveRuns" where
  "holdRun r l = (let s = S l (Thread (R l r)) in
     (updR r (\<lambda>x. x\<lparr>logHeld := True\<rparr>) l)
       \<lparr>held := (held l)(rkey l r \<mapsto> \<lparr>hrun = r, howner = sowner s, hthreadID = sID s\<rparr>)\<rparr>)"

definition dropHeldAt :: "string \<Rightarrow> liveRuns \<Rightarrow> liveRuns" where
  "dropHeldAt k l = (case held l k of None \<Rightarrow> l
     | Some h \<Rightarrow> updR (hrun h) (\<lambda>x. x\<lparr>logHeld := False\<rparr>) (l\<lparr>held := (held l)(k := None)\<rparr>))"

definition releaseHeld :: "string \<Rightarrow> nat \<Rightarrow> liveRuns \<Rightarrow> liveRuns" where
  "releaseHeld k r l = (case held l k of None \<Rightarrow> l
     | Some h \<Rightarrow> if hrun h = r then dropHeldAt k l else l)"

definition dropHeld :: "(heldRun \<Rightarrow> bool) \<Rightarrow> liveRuns \<Rightarrow> liveRuns" where
  "dropHeld match l = foldl (\<lambda>l r. case held l (rkey l r) of
       Some h \<Rightarrow> if hrun h = r \<and> match h then dropHeldAt (rkey l r) l else l | None \<Rightarrow> l) l [0..<nR l]"

section \<open>The handlers\<close>

datatype live_error = ErrShutdown | ErrBusy | ErrNonceUsed | ErrRunNotFound | ErrKeyMismatch
  | ErrRunInFlight | ErrThreadNotFound | ErrQueueFull | ErrTranscriptRequired | ErrThreadDeleted

text \<open>\<^verbatim>\<open>AcceptTurn\<close> reserves its request: a new run, the run a retried request started, or
  a refusal.\<close>

definition newRun :: "string \<Rightarrow> string \<Rightarrow> string \<Rightarrow> Run" where
  "newRun scope nn dg = \<lparr>Thread = 0, logID = [], rowner = scope, nonce = nn, digest = dg, phase = Reserved,
     Queued = False, cancelled = False, yielded = False, ending = False, running = False, stopped = False,
     accepted = False, finished = False, holdsKey = False, logClosed = False, logHeld = False\<rparr>"

definition reserve :: "bool \<Rightarrow> string \<Rightarrow> string \<Rightarrow> string \<Rightarrow> liveRuns \<Rightarrow> liveRuns \<times> (live_error + nat \<times> bool)" where
  "reserve low scope nn dg l =
    (if closing l then (l, Inl ErrShutdown)
     else case requests l (liveKey scope nn) of
       Some previous \<Rightarrow> (l, if digest (R l previous) \<noteq> dg then Inl ErrNonceUsed else Inr (previous, True))
     | None \<Rightarrow>
        if low then (l, Inl ErrBusy)
        else (l\<lparr>requests := (requests l)(liveKey scope nn \<mapsto> nR l), R := (R l)(nR l := newRun scope nn dg),
                nR := nR l + 1\<rparr>, Inr (nR l, False)))"

text \<open>\<^verbatim>\<open>admit\<close>, once the caller, the chat's copy and the run's fields are read.  \<open>tok\<close> is the
  fresh token that names the log; \<open>held'\<close> is whether the run holds its row, and \<open>seeded\<close>
  whether a local chat's transcript is at hand.\<close>

definition admit :: "string \<Rightarrow> string \<Rightarrow> string \<Rightarrow> string \<Rightarrow> bool \<Rightarrow> bool \<Rightarrow> bool \<Rightarrow> bool \<Rightarrow> nat \<Rightarrow> liveRuns \<Rightarrow>
    liveRuns \<times> (live_error + bool)" where
  "admit scope i fp tok held' keyless' compact seeded r l =
    (if closing l then (l, Inl ErrShutdown)
     else let so = threads l (liveKey scope i) in
     if (case so of None \<Rightarrow> False
         | Some s \<Rightarrow> deleted (S l s) \<or> local (S l s) \<noteq> held' \<or> (\<not> keyless (S l s) \<and> keyHash (S l s) \<noteq> fp))
     then (l, Inl ErrThreadNotFound)
     else if (case so of None \<Rightarrow> False | Some s \<Rightarrow> Active (S l s) \<noteq> None \<and> compact)
     then (l, Inl ErrRunInFlight)
     else if (case so of None \<Rightarrow> False | Some s \<Rightarrow> Active (S l s) \<noteq> None \<and> length (Queue (S l s)) \<ge> MaxQueuedTurns)
     then (l, Inl ErrQueueFull)
     else if (case so of None \<Rightarrow> True | Some s \<Rightarrow> Active (S l s) = None) \<and> \<not> seeded
     then (l, Inl ErrTranscriptRequired)
     else let (s, l) = (case so of
            Some s \<Rightarrow> (s, l)
          | None \<Rightarrow> (nS l, l\<lparr>S := (S l)(nS l := \<lparr>sID = i, sowner = scope, keyHash = fp, deleted = False,
                local = held', keyless = keyless', Active = None, Queue = []\<rparr>), nS := nS l + 1,
                threads := (threads l)(liveKey scope i \<mapsto> nS l)\<rparr>));
          l = updR r (\<lambda>x. x\<lparr>Thread := s, logID := tok, holdsKey := \<not> keyless'\<rparr>) l;
          l = l\<lparr>runs := (runs l)(liveKey scope tok \<mapsto> r)\<rparr>
       in if Active (S l s) \<noteq> None
          then (updR r (\<lambda>x. x\<lparr>Queued := True, accepted := True, phase := Waiting\<rparr>)
                  (updS s (\<lambda>x. x\<lparr>Queue := Queue x @ [r]\<rparr>) l), Inr True)
          else (makeActive s r l, Inr False))"

text \<open>A refused admission gives the request back.\<close>

definition refuse :: "nat \<Rightarrow> liveRuns \<Rightarrow> liveRuns" where
  "refuse r l =
    (let k = liveKey (rowner (R l r)) (nonce (R l r));
         l = updR r (\<lambda>x. x\<lparr>holdsKey := False, accepted := True, phase := Refused\<rparr>) l
     in if requests l k = Some r then l\<lparr>requests := (requests l)(k := None)\<rparr> else l)"

text \<open>The last critical section of \<^verbatim>\<open>launch\<close>.\<close>

definition launched :: "nat \<Rightarrow> liveRuns \<Rightarrow> liveRuns \<times> live_error option" where
  "launched r l =
    (if deleted (S l (Thread (R l r))) then (l, Some ErrThreadDeleted)
     else if closing l then (l, Some ErrShutdown)
     else (updR r (\<lambda>x. x\<lparr>running := True, phase := Started\<rparr>) l, None))"

definition endUnstarted :: "nat \<Rightarrow> liveRuns \<Rightarrow> liveRuns \<times> nat option" where
  "endUnstarted r l = advance r True l"

definition finishBegin :: "nat \<Rightarrow> liveRuns \<Rightarrow> liveRuns" where
  "finishBegin r l = updR r (\<lambda>x. x\<lparr>ending := True, phase := Ending\<rparr>) l"

definition finishEnd :: "nat \<Rightarrow> bool \<Rightarrow> bool \<Rightarrow> liveRuns \<Rightarrow> liveRuns \<times> nat option" where
  "finishEnd r cancelled' keeps l =
    (case advance r (\<not> cancelled' \<or> yielded (R l r)) (updR r (\<lambda>x. x\<lparr>holdsKey := False\<rparr>) l) of (l', next) \<Rightarrow>
       (if keeps \<and> \<not> deleted (S l' (Thread (R l' r))) then holdRun r l' else l', next))"

definition authorizedRun :: "string \<Rightarrow> string \<Rightarrow> string \<Rightarrow> string \<Rightarrow> liveRuns \<Rightarrow> live_error + nat" where
  "authorizedRun scope fp i runID l = (case runs l (liveKey scope runID) of None \<Rightarrow> Inl ErrRunNotFound
     | Some r \<Rightarrow>
        let s = S l (Thread (R l r)) in
        if sID s \<noteq> i then Inl ErrRunNotFound
        else if \<not> keyless s \<and> keyHash s \<noteq> fp then Inl ErrKeyMismatch
        else Inr r)"

definition CancelThread :: "nat \<Rightarrow> liveRuns \<Rightarrow> liveRuns \<times> live_error option" where
  "CancelThread r l = (case removeQueued r l of (l', removed) \<Rightarrow>
     if removed then (l', None)
     else if Active (S l (Thread (R l r))) \<noteq> Some r \<or> ending (R l r) then (l, Some ErrRunInFlight)
     else (cancelRun r l, None))"

definition SendQueued :: "nat \<Rightarrow> liveRuns \<Rightarrow> liveRuns \<times> live_error option" where
  "SendQueued r l =
    (let s = Thread (R l r) in
     if r \<notin> set (Queue (S l s)) then (l, Some ErrRunInFlight)
     else let l = updS s (\<lambda>x. x\<lparr>Queue := r # remove1 r (Queue x)\<rparr>) l in
     case Active (S l s) of None \<Rightarrow> (l\<lparr>panicked := True\<rparr>, None)
     | Some a \<Rightarrow>
        let l = updR a (\<lambda>x. x\<lparr>yielded := True\<rparr>) l
        in (if \<not> ending (R l a) then cancelRun a l else l, None))"

definition RemoveQueued :: "nat \<Rightarrow> liveRuns \<Rightarrow> liveRuns \<times> live_error option" where
  "RemoveQueued r l = (case removeQueued r l of (l', removed) \<Rightarrow>
     (l', if removed then None else Some ErrRunInFlight))"

definition StopThread :: "string \<Rightarrow> string \<Rightarrow> liveRuns \<Rightarrow> liveRuns" where
  "StopThread scope i l = (case threads l (liveKey scope i) of None \<Rightarrow> l | Some s \<Rightarrow> stop s l)"

definition StopDeviceThread :: "string \<Rightarrow> string \<Rightarrow> liveRuns \<Rightarrow> liveRuns" where
  "StopDeviceThread scope i l =
    (let l = (case threads l (liveKey scope i) of None \<Rightarrow> l
              | Some s \<Rightarrow> if isDevice (S l s) then stop s l else l)
     in dropHeld (\<lambda>h. howner h = scope \<and> hthreadID h = i) l)"

text \<open>The sessions the map holds, in the order they were made; Go iterates them in any.\<close>

definition registered :: "liveRuns \<Rightarrow> nat list" where
  "registered l = filter (\<lambda>s. threads l (skey (S l s)) = Some s) [0..<nS l]"

definition deviceChats :: "string \<Rightarrow> liveRuns \<Rightarrow> string list" where
  "deviceChats scope l =
     map (sID \<circ> S l) (filter (\<lambda>s. sowner (S l s) = scope \<and> isDevice (S l s)) (registered l)) @
     concat (map (\<lambda>r. case held l (rkey l r) of None \<Rightarrow> []
        | Some h \<Rightarrow> if hrun h = r \<and> howner h = scope then [hthreadID h] else []) [0..<nR l])"

text \<open>It returns how many chats it held anything of.\<close>

definition StopDeviceThreads :: "string \<Rightarrow> liveRuns \<Rightarrow> liveRuns \<times> nat" where
  "StopDeviceThreads scope l =
     (dropHeld (\<lambda>h. howner h = scope)
       (foldl (\<lambda>l s. if sowner (S l s) = scope \<and> isDevice (S l s) then stop s l else l) l (registered l)),
      length (remdups (deviceChats scope l)))"

definition stopSession :: "nat \<Rightarrow> liveRuns \<Rightarrow> liveRuns" where
  "stopSession s l = (let l = cancelActive s l in
     updS s (\<lambda>x. x\<lparr>Queue := []\<rparr>) (endAll (Queue (S l s)) l))"

definition Stop :: "liveRuns \<Rightarrow> liveRuns" where
  "Stop l = foldl (\<lambda>l s. stopSession s l) (l\<lparr>closing := True\<rparr>) (registered l)"

definition beginTransfer :: "string \<Rightarrow> string \<Rightarrow> liveRuns \<Rightarrow> liveRuns \<times> (live_error + nat)" where
  "beginTransfer scope i l =
    (if (case threads l (liveKey scope i) of None \<Rightarrow> False
         | Some s \<Rightarrow> deleted (S l s) \<or> Active (S l s) \<noteq> None \<or> Queue (S l s) \<noteq> [])
     then (l, Inl ErrRunInFlight)
     else (l\<lparr>S := (S l)(nS l := \<lparr>sID = i, sowner = scope, keyHash = [], deleted = True, local = False,
               keyless = False, Active = None, Queue = []\<rparr>), nS := nS l + 1,
             threads := (threads l)(liveKey scope i \<mapsto> nS l)\<rparr>, Inr (nS l)))"

definition Counts :: "liveRuns \<Rightarrow> nat \<times> nat \<times> nat" where
  "Counts l = (length (registered l),
     length (filter (\<lambda>r. runs l (rkey l r) = Some r) [0..<nR l]),
     length (filter (\<lambda>r. requests l (liveKey (rowner (R l r)) (nonce (R l r))) = Some r) [0..<nR l]))"


section \<open>The invariant\<close>

definition occupying :: "phase \<Rightarrow> bool" where
  "occupying p \<longleftrightarrow> p = Launching \<or> p = Started \<or> p = Ending"

definition live :: "phase \<Rightarrow> bool" where
  "live p \<longleftrightarrow> p = Waiting \<or> occupying p"

text \<open>A chat's running reply and queue are its own live runs, a queue forms only behind a
  running reply, and a chat with a running reply is registered.\<close>

definition sesOk :: "liveRuns \<Rightarrow> nat \<Rightarrow> bool" where
  "sesOk l s \<longleftrightarrow>
     (\<forall>r. Active (S l s) = Some r \<longrightarrow> r < nR l \<and> Thread (R l r) = s \<and> occupying (phase (R l r))) \<and>
     distinct (Queue (S l s)) \<and>
     (\<forall>q \<in> set (Queue (S l s)). q < nR l \<and> Thread (R l q) = s \<and> phase (R l q) = Waiting) \<and>
     (Queue (S l s) \<noteq> [] \<longrightarrow> Active (S l s) \<noteq> None) \<and>
     length (Queue (S l s)) \<le> MaxQueuedTurns \<and>
     (Active (S l s) \<noteq> None \<longrightarrow> threads l (skey (S l s)) = Some s) \<and> noSlash (sID (S l s))"

text \<open>A live run is in its chat and found by its id and its request; one that ended has
  its channel closed, once.\<close>

definition runOk :: "liveRuns \<Rightarrow> nat \<Rightarrow> bool" where
  "runOk l r \<longleftrightarrow>
     (live (phase (R l r)) \<longrightarrow> Thread (R l r) < nS l \<and> runs l (rkey l r) = Some r \<and>
        sowner (S l (Thread (R l r))) = rowner (R l r)) \<and>
     (occupying (phase (R l r)) \<longrightarrow> Active (S l (Thread (R l r))) = Some r) \<and>
     (phase (R l r) = Waiting \<longrightarrow> r \<in> set (Queue (S l (Thread (R l r))))) \<and>
     (phase (R l r) = Reserved \<or> live (phase (R l r)) \<longrightarrow>
        requests l (liveKey (rowner (R l r)) (nonce (R l r))) = Some r) \<and>
     (phase (R l r) = Retired \<or> phase (R l r) = Done \<longrightarrow> Thread (R l r) < nS l) \<and>
     (finished (R l r) \<longleftrightarrow> phase (R l r) = Done)"

definition threadsOk :: "nat set \<Rightarrow> liveRuns \<Rightarrow> bool" where
  "threadsOk X l \<longleftrightarrow> (\<forall>k s. threads l k = Some s \<longrightarrow>
     s < nS l \<and> k = skey (S l s) \<and> (s \<in> X \<or> Active (S l s) \<noteq> None \<or> deleted (S l s)))"

definition runsOk :: "liveRuns \<Rightarrow> bool" where
  "runsOk l \<longleftrightarrow> (\<forall>k r. runs l k = Some r \<longrightarrow> r < nR l \<and> k = rkey l r \<and> live (phase (R l r)))"

definition requestsOk :: "liveRuns \<Rightarrow> bool" where
  "requestsOk l \<longleftrightarrow> (\<forall>k r. requests l k = Some r \<longrightarrow> r < nR l \<and>
     k = liveKey (rowner (R l r)) (nonce (R l r)) \<and> (phase (R l r) = Reserved \<or> live (phase (R l r))))"

text \<open>\<open>X\<close> are the chats that may be registered although idle, in the middle of an
  operation.\<close>

definition InvX :: "nat set \<Rightarrow> liveRuns \<Rightarrow> bool" where
  "InvX X l \<longleftrightarrow> (\<forall>s < nS l. sesOk l s) \<and> (\<forall>r < nR l. runOk l r) \<and> threadsOk X l \<and> runsOk l \<and>
     requestsOk l \<and> \<not> panicked l"

abbreviation Inv :: "liveRuns \<Rightarrow> bool" where "Inv \<equiv> InvX {}"

lemma InvX_D:
  assumes "InvX X l"
  shows "s < nS l \<Longrightarrow> sesOk l s" "r < nR l \<Longrightarrow> runOk l r" "threadsOk X l" "runsOk l" "requestsOk l" "\<not> panicked l"
  using assms by (simp_all add: InvX_def)

lemma InvX_I:
  assumes "\<And>s. s < nS l \<Longrightarrow> sesOk l s" "\<And>r. r < nR l \<Longrightarrow> runOk l r" "threadsOk X l" "runsOk l" "requestsOk l"
    "\<not> panicked l"
  shows "InvX X l"
  using assms by (simp add: InvX_def)

lemma InvX_mono: "InvX X l \<Longrightarrow> X \<subseteq> Y \<Longrightarrow> InvX Y l"
  unfolding InvX_def threadsOk_def by blast

lemma live_simps [simp]:
  "live Waiting" "live Launching" "live Started" "live Ending" "\<not> live Retired" "\<not> live Done" "\<not> live Reserved"
  "\<not> live Refused" "\<not> occupying Waiting" "occupying Launching" "occupying Started" "occupying Ending"
  "\<not> occupying Retired" "\<not> occupying Done" "\<not> occupying Reserved" "\<not> occupying Refused"
  by (simp_all add: live_def occupying_def)

lemma live_cases: "live p \<Longrightarrow> p = Waiting \<or> occupying p"
  by (simp add: live_def)

lemma occupying_live [simp]: "occupying p \<Longrightarrow> live p"
  by (simp add: live_def)

text \<open>The chat of a live run has a running reply, and is registered.\<close>

lemma live_run_chat:
  assumes inv: "InvX X l" and r: "r < nR l" "live (phase (R l r))" and s: "s = Thread (R l r)"
  shows "s < nS l" "Active (S l s) \<noteq> None" "threads l (skey (S l s)) = Some s"
proof -
  have ok: "runOk l r" using inv r(1) by (rule InvX_D)
  show s': "s < nS l" using ok r(2) s by (simp add: runOk_def)
  have ses: "sesOk l s" using inv s' by (rule InvX_D)
  show "Active (S l s) \<noteq> None"
  proof (cases "phase (R l r) = Waiting")
    case True
    then have "r \<in> set (Queue (S l s))" using ok s by (simp add: runOk_def)
    then have "Queue (S l s) \<noteq> []" by auto
    then show ?thesis using ses by (simp add: sesOk_def)
  next
    case False
    then have "occupying (phase (R l r))" using live_cases[OF r(2)] by simp
    then show ?thesis using ok s by (simp add: runOk_def)
  qed
  then show "threads l (skey (S l s)) = Some s" using ses by (simp add: sesOk_def)
qed

text \<open>The runs an operation ends leave the maps.\<close>

definition dropped :: "nat set \<Rightarrow> (string \<rightharpoonup> nat) \<Rightarrow> (string \<rightharpoonup> nat)" where
  "dropped E m = (\<lambda>k. case m k of None \<Rightarrow> None | Some r \<Rightarrow> if r \<in> E then None else Some r)"

lemma dropped_Some [simp]: "dropped E m k = Some r \<longleftrightarrow> m k = Some r \<and> r \<notin> E"
  by (auto simp: dropped_def split: option.splits)

lemma dropped_empty [simp]: "dropped {} m = m"
  by (rule ext) (simp add: dropped_def split: option.splits)

lemma dropped_twice: "dropped E (dropped F m) = dropped (F \<union> E) m"
  by (rule ext) (simp add: dropped_def split: option.splits)

lemma dropped_one:
  assumes "\<And>j. m j = Some r \<Longrightarrow> j = k"
  shows "(if m k = Some r then m(k := None) else m) = dropped {r} m"
proof (rule ext)
  fix j show "(if m k = Some r then m(k := None) else m) j = dropped {r} m j"
    using assms[of j] by (cases "m j") (auto simp: dropped_def)
qed

text \<open>What may change in one chat: it keeps its name, its ended runs leave the maps, and
  the others are where the chat says.\<close>

definition sameRun :: "Run \<Rightarrow> Run \<Rightarrow> bool" where
  "sameRun a b \<longleftrightarrow> Thread a = Thread b \<and> logID a = logID b \<and> rowner a = rowner b \<and> nonce a = nonce b"

definition frameOk :: "nat \<Rightarrow> liveRuns \<Rightarrow> liveRuns \<Rightarrow> bool" where
  "frameOk s l l' \<longleftrightarrow> nS l' = nS l \<and> nR l' = nR l \<and> panicked l' = panicked l \<and> threads l' = threads l \<and>
     (\<forall>t. t \<noteq> s \<longrightarrow> S l' t = S l t) \<and> sowner (S l' s) = sowner (S l s) \<and> sID (S l' s) = sID (S l s) \<and>
     (deleted (S l s) \<longrightarrow> deleted (S l' s))"

definition runsMoved :: "nat \<Rightarrow> nat set \<Rightarrow> liveRuns \<Rightarrow> liveRuns \<Rightarrow> bool" where
  "runsMoved s E l l' \<longleftrightarrow> runs l' = dropped E (runs l) \<and> requests l' = dropped E (requests l) \<and>
     (\<forall>r. sameRun (R l' r) (R l r)) \<and>
     (\<forall>r. \<not> (Thread (R l r) = s \<and> live (phase (R l r))) \<longrightarrow>
        phase (R l' r) = phase (R l r) \<and> finished (R l' r) = finished (R l r)) \<and>
     (\<forall>r \<in> E. Thread (R l r) = s \<and> live (phase (R l r)) \<and>
        (phase (R l' r) = Retired \<and> \<not> finished (R l' r) \<or> phase (R l' r) = Done \<and> finished (R l' r)))"

definition runStays :: "nat \<Rightarrow> nat set \<Rightarrow> liveRuns \<Rightarrow> liveRuns \<Rightarrow> nat \<Rightarrow> bool" where
  "runStays s E l l' r \<longleftrightarrow> (Thread (R l r) = s \<and> live (phase (R l r)) \<and> r \<notin> E \<longrightarrow>
     live (phase (R l' r)) \<and> \<not> finished (R l' r) \<and> (occupying (phase (R l' r)) \<longrightarrow> Active (S l' s) = Some r) \<and>
     (phase (R l' r) = Waiting \<longrightarrow> r \<in> set (Queue (S l' s))))"

definition chatLeft :: "nat \<Rightarrow> nat set \<Rightarrow> liveRuns \<Rightarrow> liveRuns \<Rightarrow> bool" where
  "chatLeft s E l l' \<longleftrightarrow>
     (\<forall>r. Active (S l' s) = Some r \<longrightarrow> r < nR l \<and> r \<notin> E \<and> Thread (R l r) = s \<and> live (phase (R l r)) \<and>
        occupying (phase (R l' r))) \<and>
     (\<forall>q \<in> set (Queue (S l' s)). q \<in> set (Queue (S l s)) \<and> phase (R l' q) = Waiting) \<and>
     distinct (Queue (S l' s)) \<and> length (Queue (S l' s)) \<le> MaxQueuedTurns \<and>
     (Queue (S l' s) \<noteq> [] \<longrightarrow> Active (S l' s) \<noteq> None)"

lemma rkey_same:
  assumes "frameOk s l l'" "sameRun (R l' r) (R l r)"
  shows "rkey l' r = rkey l r"
proof -
  have "sowner (S l' (Thread (R l r))) = sowner (S l (Thread (R l r)))"
    using assms(1) by (cases "Thread (R l r) = s") (auto simp: frameOk_def)
  then show ?thesis using assms(2) by (simp add: rkey_def sameRun_def)
qed

lemma local_sesOk:
  assumes inv: "InvX X l" and fr: "frameOk s l l'" and mv: "runsMoved s E l l'" and ch: "chatLeft s E l l'" and t: "t < nS l"
  shows "sesOk l' t"
proof (cases "t = s")
  case True
  have key: "skey (S l' s) = skey (S l s)" and thr: "threads l' = threads l" and n: "nR l' = nR l"
    and sid: "sID (S l' s) = sID (S l s)"
    using fr by (simp_all add: frameOk_def skey_def)
  have same: "\<And>r. Thread (R l' r) = Thread (R l r)" using mv by (simp add: runsMoved_def sameRun_def)
  have old: "sesOk l s" using InvX_D(1)[OF inv t] True by simp
  have reg: "threads l (skey (S l s)) = Some s" if "Active (S l' s) \<noteq> None"
  proof -
    from that obtain r where "Active (S l' s) = Some r" by blast
    then have "r < nR l" "Thread (R l r) = s" "live (phase (R l r))" using ch by (simp_all add: chatLeft_def)
    then show ?thesis using live_run_chat(3)[OF inv, of r s] by simp
  qed
  show ?thesis unfolding sesOk_def True key thr n same sid
    using ch old reg by (simp add: chatLeft_def sesOk_def)
next
  case False
  then have eq: "S l' t = S l t" and thr: "threads l' = threads l" and n: "nR l' = nR l"
    using fr by (simp_all add: frameOk_def)
  have same: "\<And>r. Thread (R l' r) = Thread (R l r)" using mv by (simp add: runsMoved_def sameRun_def)
  have ph: "\<And>r. Thread (R l r) = t \<Longrightarrow> phase (R l' r) = phase (R l r)" using mv False by (simp add: runsMoved_def)
  show ?thesis using InvX_D(1)[OF inv t] unfolding sesOk_def eq thr n same by (simp add: ph)
qed

lemma local_runOk:
  assumes inv: "InvX X l" and fr: "frameOk s l l'" and mv: "runsMoved s E l l'" and r: "r < nR l"
    and st: "runStays s E l l' r"
  shows "runOk l' r"
proof -
  have ok: "runOk l r" using inv r by (rule InvX_D)
  have same: "sameRun (R l' r) (R l r)" using mv by (simp add: runsMoved_def)
  have key: "rkey l' r = rkey l r" by (rule rkey_same[OF fr same])
  have own: "sowner (S l' (Thread (R l r))) = sowner (S l (Thread (R l r)))"
    using fr by (cases "Thread (R l r) = s") (auto simp: frameOk_def)
  have n: "nS l' = nS l" using fr by (simp add: frameOk_def)
  have maps: "runs l' = dropped E (runs l)" "requests l' = dropped E (requests l)" using mv by (simp_all add: runsMoved_def)
  consider (ended) "r \<in> E" | (here) "r \<notin> E" "Thread (R l r) = s" "live (phase (R l r))"
    | (away) "r \<notin> E" "\<not> (Thread (R l r) = s \<and> live (phase (R l r)))" by blast
  then show ?thesis
  proof cases
    case ended
    then have "live (phase (R l r))" using mv by (simp add: runsMoved_def)
    then have "Thread (R l' r) < nS l'" using ok same n by (simp add: runOk_def sameRun_def)
    then show ?thesis using ended mv by (auto simp: runsMoved_def runOk_def)
  next
    case here
    have ne: "phase (R l' r) \<noteq> Done" "phase (R l' r) \<noteq> Reserved" "phase (R l' r) \<noteq> Retired"
      using st here by (auto simp: runStays_def)
    have old: "Thread (R l r) < nS l" "runs l (rkey l r) = Some r" "sowner (S l s) = rowner (R l r)"
      "requests l (liveKey (rowner (R l r)) (nonce (R l r))) = Some r"
      using ok here(2,3) unfolding runOk_def by blast+
    have req: "requests l (liveKey (rowner (R l' r)) (nonce (R l' r))) = Some r"
      using old(4) same by (simp add: sameRun_def)
    show ?thesis using st here old(1-3) req same ne own unfolding runOk_def key maps n
      by (simp add: runStays_def sameRun_def)
  next
    case away
    have ph: "phase (R l' r) = phase (R l r)" "finished (R l' r) = finished (R l r)" using mv away by (auto simp: runsMoved_def)
    have eq: "live (phase (R l r)) \<Longrightarrow> S l' (Thread (R l r)) = S l (Thread (R l r))" using fr away by (auto simp: frameOk_def)
    show ?thesis
    proof (cases "live (phase (R l r))")
      case True
      have sm: "Thread (R l' r) = Thread (R l r)" "rowner (R l' r) = rowner (R l r)" "nonce (R l' r) = nonce (R l r)"
        using same by (simp_all add: sameRun_def)
      show ?thesis using ok True away(1) unfolding runOk_def key maps n ph sm eq[OF True] dropped_Some by blast
    next
      case False
      have "\<not> occupying (phase (R l r))" "phase (R l r) \<noteq> Waiting" using False by auto
      then show ?thesis using ok same away(1) False unfolding runOk_def key maps n ph by (simp add: sameRun_def)
    qed
  qed
qed

text \<open>So a change to one chat keeps the invariant, but for an idle chat still
  registered.\<close>

lemma local_inv:
  assumes inv: "InvX X l" and fr: "frameOk s l l'" and mv: "runsMoved s E l l'" and ch: "chatLeft s E l l'"
    and st: "\<And>r. r < nR l \<Longrightarrow> runStays s E l l' r"
  shows "InvX (insert s X) l'"
proof (rule InvX_I)
  have n: "nS l' = nS l" "nR l' = nR l" using fr by (simp_all add: frameOk_def)
  fix t assume "t < nS l'" then show "sesOk l' t" using local_sesOk[OF inv fr mv ch] n by simp
next
  fix r assume "r < nR l'"
  then have "r < nR l" using fr by (simp add: frameOk_def)
  then show "runOk l' r" using local_runOk[OF inv fr mv _ st] by simp
next
  have "t < nS l' \<and> k = skey (S l' t) \<and> (t \<in> insert s X \<or> Active (S l' t) \<noteq> None \<or> deleted (S l' t))"
    if a: "threads l' k = Some t" for k t
  proof -
    have "threads l k = Some t" using a fr by (simp add: frameOk_def)
    then have "t < nS l \<and> k = skey (S l t) \<and> (t \<in> X \<or> Active (S l t) \<noteq> None \<or> deleted (S l t))"
      using InvX_D(3)[OF inv] by (simp add: threadsOk_def)
    then show ?thesis using fr by (cases "t = s") (auto simp: frameOk_def skey_def)
  qed
  then show "threadsOk (insert s X) l'" by (simp add: threadsOk_def)
next
  have "r < nR l' \<and> k = rkey l' r \<and> live (phase (R l' r))" if a: "runs l' k = Some r" for k r
  proof -
    have b: "runs l k = Some r" "r \<notin> E" using a mv by (simp_all add: runsMoved_def)
    then have c: "r < nR l" "k = rkey l r" "live (phase (R l r))" using InvX_D(4)[OF inv] by (simp_all add: runsOk_def)
    have "live (phase (R l' r))" using st[OF c(1)] b(2) c(3) mv by (cases "Thread (R l r) = s") (auto simp: runStays_def runsMoved_def)
    then show ?thesis using c mv fr rkey_same[OF fr, of r] by (simp add: runsMoved_def frameOk_def)
  qed
  then show "runsOk l'" by (simp add: runsOk_def)
next
  have "r < nR l' \<and> k = liveKey (rowner (R l' r)) (nonce (R l' r)) \<and> (phase (R l' r) = Reserved \<or> live (phase (R l' r)))"
    if a: "requests l' k = Some r" for k r
  proof -
    have b: "requests l k = Some r" "r \<notin> E" using a mv by (simp_all add: runsMoved_def)
    then have c: "r < nR l" "k = liveKey (rowner (R l r)) (nonce (R l r))" "phase (R l r) = Reserved \<or> live (phase (R l r))"
      using InvX_D(5)[OF inv] by (simp_all add: requestsOk_def)
    have "phase (R l' r) = Reserved \<or> live (phase (R l' r))"
      using st[OF c(1)] b(2) c(3) mv by (cases "Thread (R l r) = s \<and> live (phase (R l r))") (auto simp: runStays_def runsMoved_def)
    then show ?thesis using c mv fr by (simp add: runsMoved_def frameOk_def sameRun_def)
  qed
  then show "requestsOk l'" by (simp add: requestsOk_def)
next
  show "\<not> panicked l'" using InvX_D(6)[OF inv] fr by (simp add: frameOk_def)
qed


section \<open>The operations keep it\<close>

lemma updS_simps [simp]:
  "threads (updS s f l) = threads l" "runs (updS s f l) = runs l" "requests (updS s f l) = requests l"
  "held (updS s f l) = held l" "R (updS s f l) = R l" "nR (updS s f l) = nR l" "nS (updS s f l) = nS l"
  "closing (updS s f l) = closing l" "panicked (updS s f l) = panicked l" "S (updS s f l) t = (if t = s then f (S l s) else S l t)"
  by (simp_all add: updS_def)

lemma updR_simps [simp]:
  "threads (updR r f l) = threads l" "runs (updR r f l) = runs l" "requests (updR r f l) = requests l"
  "held (updR r f l) = held l" "S (updR r f l) = S l" "nR (updR r f l) = nR l" "nS (updR r f l) = nS l"
  "closing (updR r f l) = closing l" "panicked (updR r f l) = panicked l" "R (updR r f l) q = (if q = r then f (R l r) else R l q)"
  by (simp_all add: updR_def)

text \<open>What a registered run that ends loses.\<close>

definition keyed :: "liveRuns \<Rightarrow> nat \<Rightarrow> bool" where
  "keyed l r \<longleftrightarrow> (\<forall>k. runs l k = Some r \<longrightarrow> k = rkey l r) \<and> (\<forall>k. requests l k = Some r \<longrightarrow> k = qkey l r)"

lemma live_keyed:
  assumes inv: "InvX X l" and r: "r < nR l" "live (phase (R l r))"
  shows "keyed l r"
proof -
  have "sowner (S l (Thread (R l r))) = rowner (R l r)" using InvX_D(2)[OF inv r(1)] r(2) by (simp add: runOk_def)
  then show ?thesis using InvX_D(4,5)[OF inv] unfolding keyed_def runsOk_def requestsOk_def qkey_def by simp
qed

lemma forget_keyed:
  assumes "keyed l r"
  shows "forget r l = l\<lparr>runs := dropped {r} (runs l), requests := dropped {r} (requests l)\<rparr>"
proof -
  have a: "(if runs l (rkey l r) = Some r then (runs l)(rkey l r := None) else runs l) = dropped {r} (runs l)"
    by (rule dropped_one) (use assms in \<open>simp add: keyed_def\<close>)
  have b: "(if requests l (qkey l r) = Some r then (requests l)(qkey l r := None) else requests l) = dropped {r} (requests l)"
    by (rule dropped_one) (use assms in \<open>simp add: keyed_def\<close>)
  have q: "\<And>m. qkey (l\<lparr>runs := m\<rparr>) r = qkey l r" by (simp add: qkey_def)
  show ?thesis unfolding forget_def Let_def a[symmetric] b[symmetric] by (simp add: q)
qed

definition closed :: "Run \<Rightarrow> Run" where
  "closed x = x\<lparr>logClosed := True, holdsKey := False, finished := True, phase := Done\<rparr>"

lemma closed_simps [simp]:
  "Thread (closed x) = Thread x" "logID (closed x) = logID x" "rowner (closed x) = rowner x" "nonce (closed x) = nonce x"
  "phase (closed x) = Done" "finished (closed x)" "sameRun (closed x) x" "logHeld (closed x) = logHeld x"
  by (simp_all add: closed_def sameRun_def)

lemma sameRun_refl [simp]: "sameRun x x"
  by (simp add: sameRun_def)

text \<open>\<^verbatim>\<open>endQueued\<close> over a queue, in one step.\<close>

definition ended :: "nat set \<Rightarrow> liveRuns \<Rightarrow> liveRuns" where
  "ended E l = l\<lparr>runs := dropped E (runs l), requests := dropped E (requests l),
     R := (\<lambda>r. if r \<in> E then closed (R l r) else R l r)\<rparr>"

lemma ended_simps [simp]:
  "threads (ended E l) = threads l" "runs (ended E l) = dropped E (runs l)" "requests (ended E l) = dropped E (requests l)"
  "held (ended E l) = held l" "S (ended E l) = S l" "nR (ended E l) = nR l" "nS (ended E l) = nS l"
  "closing (ended E l) = closing l" "panicked (ended E l) = panicked l"
  "R (ended E l) r = (if r \<in> E then closed (R l r) else R l r)"
  "rkey (ended E l) r = rkey l r" "qkey (ended E l) r = qkey l r"
  by (simp_all add: ended_def rkey_def qkey_def)

lemma endQueued_ended:
  assumes "keyed l r" "\<not> finished (R l r)"
  shows "endQueued r l = ended {r} l"
  unfolding endQueued_def forget_keyed[OF assms(1)] closeOut_def ended_def updR_def
  using assms(2) by (auto simp: closed_def fun_eq_iff intro!: arg_cong[where f = "\<lambda>x. l\<lparr>runs := _, requests := _, R := x\<rparr>"])

lemma keyed_ended: "keyed l q \<Longrightarrow> keyed (ended E l) q"
  by (simp add: keyed_def)

lemma ended_twice: "E \<inter> F = {} \<Longrightarrow> ended F (ended E l) = ended (E \<union> F) l"
proof -
  assume "E \<inter> F = {}"
  then have "(\<lambda>r. if r \<in> F then closed (if r \<in> E then closed (R l r) else R l r) else if r \<in> E then closed (R l r) else R l r) =
      (\<lambda>r. if r \<in> E \<union> F then closed (R l r) else R l r)" by (intro ext) auto
  then show ?thesis by (simp add: ended_def dropped_twice cong: if_cong)
qed

lemma endAll_ended:
  assumes "distinct rs" "\<And>r. r \<in> set rs \<Longrightarrow> keyed l r \<and> \<not> finished (R l r)"
  shows "endAll rs l = ended (set rs) l"
  using assms
proof (induction rs arbitrary: l)
  case Nil
  have "ended {} l = l" by (simp add: ended_def)
  then show ?case by (simp add: endAll_def)
next
  case (Cons r rs)
  have "endQueued r l = ended {r} l" using Cons.prems(2)[of r] by (simp add: endQueued_ended)
  then have "endAll (r # rs) l = endAll rs (ended {r} l)" by (simp add: endAll_def)
  also have "\<dots> = ended (set rs) (ended {r} l)"
    by (rule Cons.IH) (use Cons.prems in \<open>auto simp: keyed_ended\<close>)
  also have "\<dots> = ended (set (r # rs)) l" using Cons.prems(1) by (subst ended_twice) auto
  finally show ?case .
qed

text \<open>The queue of a chat is of waiting runs, so it ends whole.\<close>

lemma queued_run:
  assumes inv: "InvX X l" and s: "s < nS l" and q: "q \<in> set (Queue (S l s))"
  shows "q < nR l" "Thread (R l q) = s" "phase (R l q) = Waiting" "keyed l q" "\<not> finished (R l q)"
proof -
  have "sesOk l s" using inv s by (rule InvX_D)
  then show a: "q < nR l" "Thread (R l q) = s" "phase (R l q) = Waiting" using q by (auto simp: sesOk_def)
  show "keyed l q" by (rule live_keyed[OF inv a(1)]) (simp add: a)
  show "\<not> finished (R l q)" using InvX_D(2)[OF inv a(1)] a(3) by (simp add: runOk_def)
qed

lemma queue_distinct: "InvX X l \<Longrightarrow> s < nS l \<Longrightarrow> distinct (Queue (S l s)) \<and> length (Queue (S l s)) \<le> MaxQueuedTurns"
  using InvX_D(1)[of X l s] by (simp add: sesOk_def)

lemma active_run:
  assumes inv: "InvX X l" and s: "s < nS l" and a: "Active (S l s) = Some r"
  shows "r < nR l" "Thread (R l r) = s" "occupying (phase (R l r))" "keyed l r" "\<not> finished (R l r)"
proof -
  have "sesOk l s" using inv s by (rule InvX_D)
  then show b: "r < nR l" "Thread (R l r) = s" "occupying (phase (R l r))" using a by (simp_all add: sesOk_def)
  show "keyed l r" by (rule live_keyed[OF inv b(1)]) (simp add: b)
  show "\<not> finished (R l r)" using InvX_D(2)[OF inv b(1)] b(3) by (auto simp: runOk_def)
qed

text \<open>Dropping an idle chat restores the invariant.\<close>

lemma sesOk_reg: "sesOk l s \<Longrightarrow> Active (S l s) \<noteq> None \<Longrightarrow> threads l (skey (S l s)) = Some s"
  by (simp add: sesOk_def)

lemma sesOk_cong:
  assumes "sesOk l s" "S l' s = S l s" "nR l' = nR l" "R l' = R l"
    "Active (S l s) \<noteq> None \<Longrightarrow> threads l' (skey (S l s)) = Some s"
  shows "sesOk l' s"
  using assms(1,5) unfolding sesOk_def assms(2-4) by blast

lemma threadsOk_D:
  assumes "threadsOk X l" "threads l k = Some s"
  shows "s < nS l" "k = skey (S l s)" "s \<in> X \<or> Active (S l s) \<noteq> None \<or> deleted (S l s)"
  using assms by (simp_all add: threadsOk_def)

lemma threadsOk_I:
  assumes "\<And>k s. threads l k = Some s \<Longrightarrow> s < nS l \<and> k = skey (S l s) \<and> (s \<in> X \<or> Active (S l s) \<noteq> None \<or> deleted (S l s))"
  shows "threadsOk X l"
  unfolding threadsOk_def using assms by blast

lemma InvX_shrink:
  assumes inv: "InvX X l" and "\<And>s. s \<in> X \<Longrightarrow> s < nS l \<Longrightarrow> threads l (skey (S l s)) = Some s \<Longrightarrow> Active (S l s) \<noteq> None \<or> deleted (S l s)"
  shows "Inv l"
proof -
  have thr: "threadsOk X l" using inv by (rule InvX_D)
  have "threadsOk {} l" unfolding threadsOk_def using threadsOk_D[OF thr] assms(2) by blast
  then show ?thesis using inv unfolding InvX_def by blast
qed

lemma unregister_idle:
  assumes inv: "InvX X l" and X: "X \<subseteq> {s}" and idle: "Active (S l s) = None" and reg: "threads l (skey (S l s)) = Some s"
  shows "Inv (l\<lparr>threads := (threads l)(skey (S l s) := None)\<rparr>)" (is "Inv ?l")
proof (rule InvX_I)
  have k: "rkey ?l = rkey l" by (simp add: rkey_def fun_eq_iff)
  show "runsOk ?l" "requestsOk ?l" "\<not> panicked ?l" using InvX_D(4,5,6)[OF inv] by (simp_all add: runsOk_def requestsOk_def k)
  show "runOk ?l r" if "r < nR ?l" for r using InvX_D(2)[OF inv] that by (simp add: runOk_def k)
  show "sesOk ?l t" if "t < nS ?l" for t
  proof -
    have ok: "sesOk l t" using InvX_D(1)[OF inv] that by simp
    have "threads ?l (skey (S l t)) = Some t" if a: "Active (S l t) \<noteq> None"
    proof -
      have t: "threads l (skey (S l t)) = Some t" by (rule sesOk_reg[OF ok a])
      have "t \<noteq> s" using a idle by blast
      then have "skey (S l t) \<noteq> skey (S l s)" using t reg by force
      then show ?thesis using t by simp
    qed
    then show ?thesis by (intro sesOk_cong[OF ok]) simp_all
  qed
  have thr: "threadsOk X l" using inv by (rule InvX_D)
  show "threadsOk {} ?l"
  proof (rule threadsOk_I)
    fix i t assume a: "threads ?l i = Some t"
    have b: "threads l i = Some t" "i \<noteq> skey (S l s)" using a by (simp_all split: if_splits)
    have "t \<notin> X" using b(2) threadsOk_D(2)[OF thr b(1)] X by blast
    then show "t < nS ?l \<and> i = skey (S ?l t) \<and> (t \<in> {} \<or> Active (S ?l t) \<noteq> None \<or> deleted (S ?l t))"
      using threadsOk_D[OF thr b(1)] by simp
  qed
qed

lemma dropIdle_inv:
  assumes inv: "InvX X l" and X: "X \<subseteq> {s}"
  shows "Inv (dropIdle s l)"
proof (cases "Active (S l s) = None \<and> Queue (S l s) = [] \<and> threads l (skey (S l s)) = Some s")
  case True
  then show ?thesis using unregister_idle[OF inv X] by (simp add: dropIdle_def)
next
  case False
  have "Active (S l t) \<noteq> None" if t: "t \<in> X" "t < nS l" "threads l (skey (S l t)) = Some t" for t
  proof -
    have "t = s" using t(1) X by blast
    then have "Queue (S l t) \<noteq> [] \<or> Active (S l t) \<noteq> None" using False t(3) by auto
    then show ?thesis using InvX_D(1)[OF inv t(2)] unfolding sesOk_def by blast
  qed
  then have "Inv l" using InvX_shrink[OF inv] by blast
  moreover have "dropIdle s l = l" using False by (auto simp: dropIdle_def)
  ultimately show ?thesis by simp
qed


lemma keyed_sub:
  assumes "keyed l q" "runs l' = dropped E (runs l)" "requests l' = dropped F (requests l)" "rkey l' q = rkey l q" "qkey l' q = qkey l q"
  shows "keyed l' q"
  using assms by (simp add: keyed_def)

text \<open>A run leaves its chat's running slot.\<close>

definition retired :: "nat \<Rightarrow> nat \<Rightarrow> liveRuns \<Rightarrow> liveRuns" where
  "retired r s l = updS s (\<lambda>x. x\<lparr>Active := None\<rparr>) (updR r (\<lambda>x. x\<lparr>phase := Retired\<rparr>)
     (l\<lparr>runs := dropped {r} (runs l), requests := dropped {r} (requests l)\<rparr>))"

lemma retired_simps [simp]:
  "threads (retired r s l) = threads l" "runs (retired r s l) = dropped {r} (runs l)"
  "requests (retired r s l) = dropped {r} (requests l)" "nR (retired r s l) = nR l" "nS (retired r s l) = nS l"
  "closing (retired r s l) = closing l" "panicked (retired r s l) = panicked l" "held (retired r s l) = held l"
  "S (retired r s l) t = (if t = s then (S l s)\<lparr>Active := None\<rparr> else S l t)"
  "R (retired r s l) q = (if q = r then (R l r)\<lparr>phase := Retired\<rparr> else R l q)"
  "rkey (retired r s l) q = rkey l q" "qkey (retired r s l) q = qkey l q"
  by (simp_all add: retired_def rkey_def qkey_def)

lemma advance_eq:
  assumes inv: "InvX X l" and r: "r < nR l" "occupying (phase (R l r))" and s: "s = Thread (R l r)"
  shows "advance r goOn l =
    (if goOn \<and> \<not> deleted (S l s) \<and> \<not> closing l \<and> Queue (S l s) \<noteq> []
     then (dropIdle s (makeActive s (hd (Queue (S l s))) (updS s (\<lambda>x. x\<lparr>Queue := tl (Queue x)\<rparr>) (retired r s l))),
           Some (hd (Queue (S l s))))
     else (dropIdle s (updS s (\<lambda>x. x\<lparr>Queue := []\<rparr>) (ended (set (Queue (S l s))) (retired r s l))), None))"
proof -
  have act: "Active (S l s) = Some r" using InvX_D(2)[OF inv r(1)] r(2) s by (simp add: runOk_def)
  have sn: "s < nS l" using live_run_chat(1)[OF inv r(1) _ s] r(2) by simp
  have f: "forget r l = l\<lparr>runs := dropped {r} (runs l), requests := dropped {r} (requests l)\<rparr>"
    by (rule forget_keyed[OF live_keyed[OF inv r(1)]]) (use r(2) in simp)
  have ret: "(if Active (S (updR r (\<lambda>x. x\<lparr>phase := Retired\<rparr>) (forget r l)) s) = Some r
       then updS s (\<lambda>x. x\<lparr>Active := None\<rparr>) (updR r (\<lambda>x. x\<lparr>phase := Retired\<rparr>) (forget r l))
       else updR r (\<lambda>x. x\<lparr>phase := Retired\<rparr>) (forget r l)) = retired r s l"
    using act by (simp add: f retired_def)
  have q: "keyed (retired r s l) q \<and> \<not> finished (R (retired r s l) q)" if "q \<in> set (Queue (S l s))" for q
    using queued_run(4,5)[OF inv sn that] active_run(5)[OF inv sn act] by (simp add: keyed_sub[of l q "retired r s l" "{r}" "{r}"])
  have e: "endAll (Queue (S l s)) (retired r s l) = ended (set (Queue (S l s))) (retired r s l)"
    by (rule endAll_ended) (use queue_distinct[OF inv sn] q in auto)
  show ?thesis unfolding advance_def Let_def s[symmetric] ret by (simp add: e)
qed

lemma ended_retired_moved:
  assumes "r \<notin> Q" "\<not> finished (R l r)" "\<And>q. q \<in> insert r Q \<Longrightarrow> Thread (R l q) = s \<and> live (phase (R l q))"
  shows "runsMoved s (insert r Q) l (updS s f (ended Q (retired r s l)))"
  using assms by (simp add: runsMoved_def sameRun_def dropped_twice)

lemma advance_inv:
  assumes inv: "Inv l" and r: "r < nR l" "occupying (phase (R l r))"
  shows "Inv (fst (advance r goOn l))"
proof -
  let ?s = "Thread (R l r)" and ?q = "hd (Queue (S l (Thread (R l r))))"
  have act: "Active (S l ?s) = Some r" using InvX_D(2)[OF inv r(1)] r(2) by (simp add: runOk_def)
  have sn: "?s < nS l" using live_run_chat(1)[OF inv r(1)] r(2) by simp
  note qd = queue_distinct[OF inv sn] and qr = queued_run[OF inv sn]
  have nf: "\<not> finished (R l r)" using active_run(5)[OF inv sn act] .
  have rq: "r \<notin> set (Queue (S l ?s))" using qr(3)[of r] r(2) by auto
  have at: "q = r \<or> q \<in> set (Queue (S l ?s))" if "q < nR l" "Thread (R l q) = ?s" "live (phase (R l q))" for q
    using InvX_D(2)[OF inv that(1)] that(2) act live_cases[OF that(3)] unfolding runOk_def by auto
  have nfq: "\<not> finished (R l q)" if "q \<in> set (Queue (S l ?s))" for q using qr(5)[OF that] .
  show ?thesis
  proof (cases "goOn \<and> \<not> deleted (S l ?s) \<and> \<not> closing l \<and> Queue (S l ?s) \<noteq> []")
    case True
    let ?l = "makeActive ?s ?q (updS ?s (\<lambda>x. x\<lparr>Queue := tl (Queue x)\<rparr>) (retired r ?s l))"
    have qs: "?q \<in> set (Queue (S l ?s))" "?q \<noteq> r" "set (tl (Queue (S l ?s))) = set (Queue (S l ?s)) - {?q}" "?q \<notin> set (tl (Queue (S l ?s)))"
      using True rq qd by (cases "Queue (S l ?s)"; auto)+
    have "InvX {?s} ?l"
    proof (rule local_inv[OF inv])
      show "frameOk ?s l ?l" by (simp add: frameOk_def makeActive_def)
      show "runsMoved ?s {r} l ?l" using qr(2,3)[OF qs(1)] qs(2) r nf
        by (auto simp: runsMoved_def makeActive_def sameRun_def)
      have w: "\<And>q. q \<in> set (Queue (S l ?s)) \<Longrightarrow> phase (R l q) = Waiting" using qr(3) .
      have "length (tl (Queue (S l ?s))) \<le> MaxQueuedTurns" using qd by auto
      then show "chatLeft ?s {r} l ?l" using qs qr(1,2)[OF qs(1)] w qd rq
        by (auto simp: chatLeft_def makeActive_def distinct_tl)
      show "runStays ?s {r} l ?l q" if "q < nR l" for q using at[OF that] nfq qs qr(3)
        by (auto simp: runStays_def makeActive_def)
    qed
    then show ?thesis using advance_eq[OF inv r refl, of goOn] True dropIdle_inv[of "{?s}" ?l ?s] by simp
  next
    case False
    let ?E = "insert r (set (Queue (S l ?s)))"
    let ?l = "updS ?s (\<lambda>x. x\<lparr>Queue := []\<rparr>) (ended (set (Queue (S l ?s))) (retired r ?s l))"
    have "InvX {?s} ?l"
    proof (rule local_inv[OF inv])
      show "frameOk ?s l ?l" by (simp add: frameOk_def)
      have "Thread (R l q) = ?s \<and> live (phase (R l q))" if "q \<in> ?E" for q
      proof (cases "q = r")
        case False
        then have "q \<in> set (Queue (S l ?s))" using that by simp
        then show ?thesis using qr(2,3)[of q] by simp
      qed (use r in simp)
      then show "runsMoved ?s ?E l ?l" using ended_retired_moved[OF rq nf] by blast
      show "chatLeft ?s ?E l ?l" by (simp add: chatLeft_def MaxQueuedTurns_def)
      show "runStays ?s ?E l ?l q" if "q < nR l" for q using at[OF that] by (auto simp: runStays_def)
    qed
    then show ?thesis using advance_eq[OF inv r refl, of goOn] False dropIdle_inv[of "{?s}" ?l ?s] by auto
  qed
qed


text \<open>Flags of runs, the shutdown flag and the held logs carry nothing of it.\<close>

definition flagsOnly :: "liveRuns \<Rightarrow> liveRuns \<Rightarrow> bool" where
  "flagsOnly l l' \<longleftrightarrow> nS l' = nS l \<and> nR l' = nR l \<and> panicked l' = panicked l \<and> threads l' = threads l \<and>
     runs l' = runs l \<and> requests l' = requests l \<and> S l' = S l \<and>
     (\<forall>r. sameRun (R l' r) (R l r) \<and> phase (R l' r) = phase (R l r) \<and> finished (R l' r) = finished (R l r))"

lemma flagsOnly_inv:
  assumes f: "flagsOnly l l'" and inv: "InvX X l"
  shows "InvX X l'"
proof -
  have eqs: "nS l' = nS l" "nR l' = nR l" "panicked l' = panicked l" "threads l' = threads l" "runs l' = runs l"
    "requests l' = requests l" "S l' = S l"
    "\<And>r. Thread (R l' r) = Thread (R l r)" "\<And>r. logID (R l' r) = logID (R l r)" "\<And>r. rowner (R l' r) = rowner (R l r)"
    "\<And>r. nonce (R l' r) = nonce (R l r)" "\<And>r. phase (R l' r) = phase (R l r)" "\<And>r. finished (R l' r) = finished (R l r)"
    using f by (simp_all add: flagsOnly_def sameRun_def)
  have k: "\<And>r. rkey l' r = rkey l r" by (simp add: rkey_def eqs)
  show ?thesis using inv unfolding InvX_def sesOk_def runOk_def threadsOk_def runsOk_def requestsOk_def eqs k .
qed

lemma flagsOnly_refl [simp]: "flagsOnly l l"
  by (simp add: flagsOnly_def)

lemma flagsOnly_trans: "flagsOnly l m \<Longrightarrow> flagsOnly m n \<Longrightarrow> flagsOnly l n"
  by (simp add: flagsOnly_def sameRun_def)

lemma cancelRun_flags [simp]: "flagsOnly l (cancelRun r l)"
  by (simp add: flagsOnly_def cancelRun_def sameRun_def)

lemma cancelActive_flags [simp]: "flagsOnly l (cancelActive s l)"
  by (simp add: cancelActive_def split: option.splits)

lemma dropHeldAt_flags [simp]: "flagsOnly l (dropHeldAt k l)"
  by (simp add: dropHeldAt_def flagsOnly_def sameRun_def split: option.splits)

lemma releaseHeld_flags [simp]: "flagsOnly l (releaseHeld k r l)"
  by (simp add: releaseHeld_def split: option.splits)

lemma holdRun_flags [simp]: "flagsOnly l (holdRun r l)"
  by (simp add: holdRun_def flagsOnly_def sameRun_def Let_def)

lemma flagsOnly_foldl:
  assumes "\<And>l x. flagsOnly l (f l x)"
  shows "flagsOnly l (foldl f l xs)"
proof (induction xs arbitrary: l)
  case (Cons x xs)
  show ?case using flagsOnly_trans[OF assms[of l x] Cons.IH[of "f l x"]] by simp
qed simp

lemma dropHeld_flags [simp]: "flagsOnly l (dropHeld match l)"
  unfolding dropHeld_def by (rule flagsOnly_foldl) (simp split: option.splits)

text \<open>Stopping a chat ends its queue and leaves its running reply, cancelled.\<close>

lemma clear_queue_inv:
  assumes inv: "InvX X l" and s: "s < nS l"
  shows "InvX X (updS s (\<lambda>x. x\<lparr>Queue := []\<rparr>) (endAll (Queue (S l s)) l))" (is "InvX X ?l")
proof -
  let ?Q = "set (Queue (S l s))"
  note qr = queued_run[OF inv s]
  have e: "endAll (Queue (S l s)) l = ended ?Q l"
    by (rule endAll_ended) (use queue_distinct[OF inv s] qr(4,5) in auto)
  have "InvX (insert s X) ?l"
  proof (rule local_inv[OF inv])
    show "frameOk s l ?l" by (simp add: frameOk_def e)
    show "runsMoved s ?Q l ?l" using qr(2,3) by (simp add: runsMoved_def e)
    have "occupying (phase (R l r)) \<and> r < nR l \<and> Thread (R l r) = s \<and> r \<notin> ?Q" if "Active (S l s) = Some r" for r
      using active_run[OF inv s that] qr(3)[of r] by auto
    then show "chatLeft s ?Q l ?l" by (simp add: chatLeft_def e MaxQueuedTurns_def)
    show "runStays s ?Q l ?l r" if "r < nR l" for r
    proof -
      have "runOk l r" using inv that by (rule InvX_D)
      then show ?thesis by (auto simp: runStays_def e runOk_def)
    qed
  qed
  then show ?thesis
  proof (cases "s \<in> X")
    case False
    have "threadsOk X ?l"
    proof (rule threadsOk_I)
      fix k t assume "threads ?l k = Some t"
      then have a: "threads l k = Some t" by (simp add: e)
      show "t < nS ?l \<and> k = skey (S ?l t) \<and> (t \<in> X \<or> Active (S ?l t) \<noteq> None \<or> deleted (S ?l t))"
        using threadsOk_D[OF InvX_D(3)[OF inv] a] by (cases "t = s") (simp_all add: e skey_def)
    qed
    then show ?thesis using \<open>InvX (insert s X) ?l\<close> unfolding InvX_def by blast
  qed (simp add: insert_absorb)
qed

lemma cancelActive_same [simp]: "S (cancelActive s l) = S l" "nS (cancelActive s l) = nS l"
  using cancelActive_flags[of l s] by (simp_all add: flagsOnly_def)

lemma stopSession_inv:
  assumes "InvX X l" "s < nS l"
  shows "InvX X (stopSession s l)"
  unfolding stopSession_def Let_def
  by (rule clear_queue_inv[OF flagsOnly_inv[OF cancelActive_flags assms(1)]]) (simp add: assms(2))

lemma delete_chat_inv:
  assumes inv: "InvX X l" and s: "s < nS l"
  shows "InvX X (updS s (\<lambda>x. x\<lparr>deleted := True\<rparr>) l)" (is "InvX X ?l")
proof (rule InvX_I)
  have k: "rkey ?l = rkey l" by (simp add: rkey_def fun_eq_iff)
  show "runsOk ?l" "requestsOk ?l" "\<not> panicked ?l" using InvX_D(4,5,6)[OF inv] by (simp_all add: runsOk_def requestsOk_def k)
  show "runOk ?l r" if "r < nR ?l" for r
    using InvX_D(2)[OF inv, of r] that by (cases "Thread (R l r) = s") (auto simp: runOk_def k)
  show "sesOk ?l t" if "t < nS ?l" for t
    using InvX_D(1)[OF inv] that unfolding sesOk_def skey_def by (cases "t = s") simp_all
  show "threadsOk X ?l"
  proof (rule threadsOk_I)
    fix i t assume "threads ?l i = Some t"
    then have a: "threads l i = Some t" by simp
    show "t < nS ?l \<and> i = skey (S ?l t) \<and> (t \<in> X \<or> Active (S ?l t) \<noteq> None \<or> deleted (S ?l t))"
      using threadsOk_D[OF InvX_D(3)[OF inv] a] by (cases "t = s") (simp_all add: skey_def)
  qed
qed

lemma stop_inv:
  assumes inv: "Inv l" and s: "s < nS l"
  shows "Inv (stop s l)"
proof -
  let ?l = "cancelActive s (updS s (\<lambda>x. x\<lparr>deleted := True\<rparr>) l)"
  have "Inv ?l" by (rule flagsOnly_inv[OF cancelActive_flags delete_chat_inv[OF inv s]])
  then have "Inv (updS s (\<lambda>x. x\<lparr>Queue := []\<rparr>) (endAll (Queue (S ?l s)) ?l))" by (rule clear_queue_inv) (simp add: s)
  then show ?thesis unfolding stop_def Let_def by (rule dropIdle_inv) simp
qed


lemma admitted_chat:
  assumes inv: "InvX X l" and r: "r < nR l" "phase (R l r) \<noteq> Reserved" "phase (R l r) \<noteq> Refused"
  shows "Thread (R l r) < nS l"
  using InvX_D(2)[OF inv r(1)] r(2,3) by (cases "phase (R l r)") (simp_all add: runOk_def)

lemma live_runD:
  assumes inv: "InvX X l" and "a < nR l" "Thread (R l a) = s" "live (phase (R l a))"
  shows "\<not> finished (R l a)" "occupying (phase (R l a)) \<Longrightarrow> Active (S l s) = Some a"
    "phase (R l a) = Waiting \<Longrightarrow> a \<in> set (Queue (S l s))"
  using InvX_D(2)[OF assms(1,2)] assms(3,4) unfolding runOk_def by auto

lemma removeQueued_eq:
  assumes inv: "InvX X l" and s: "s < nS l" "s = Thread (R l r)" and q: "r \<in> set (Queue (S l s))"
  shows "removeQueued r l = (dropIdle s (ended {r} (updR r (\<lambda>x. x\<lparr>cancelled := True\<rparr>)
           (updS s (\<lambda>x. x\<lparr>Queue := remove1 r (Queue x)\<rparr>) l))), True)"
proof -
  let ?l = "updR r (\<lambda>x. x\<lparr>cancelled := True\<rparr>) (updS s (\<lambda>x. x\<lparr>Queue := remove1 r (Queue x)\<rparr>) l)"
  have "keyed ?l r" by (rule keyed_sub[OF queued_run(4)[OF inv s(1) q], of _ "{}" "{}"]) (simp_all add: rkey_def qkey_def)
  moreover have "\<not> finished (R ?l r)" using queued_run(5)[OF inv s(1) q] by simp
  ultimately have "endQueued r ?l = ended {r} ?l" by (rule endQueued_ended)
  then show ?thesis using q unfolding removeQueued_def Let_def s(2)[symmetric] by simp
qed

lemma removeQueued_inv:
  assumes inv: "Inv l" and s: "Thread (R l r) < nS l"
  shows "Inv (fst (removeQueued r l))"
proof (cases "r \<in> set (Queue (S l (Thread (R l r))))")
  case False
  then show ?thesis using inv by (simp add: removeQueued_def)
next
  case True
  obtain s where s': "s = Thread (R l r)" by blast
  have sn: "s < nS l" and q: "r \<in> set (Queue (S l s))" using s True s' by simp_all
  let ?l = "ended {r} (updR r (\<lambda>x. x\<lparr>cancelled := True\<rparr>) (updS s (\<lambda>x. x\<lparr>Queue := remove1 r (Queue x)\<rparr>) l))"
  note qr = queued_run[OF inv sn q]
  have "InvX {s} ?l"
  proof (rule local_inv[OF inv])
    show "frameOk s l ?l" by (simp add: frameOk_def)
    show "runsMoved s {r} l ?l" using qr(2,3) by (simp add: runsMoved_def sameRun_def)
    have "occupying (phase (R l a)) \<and> a < nR l \<and> Thread (R l a) = s \<and> a \<noteq> r" if "Active (S l s) = Some a" for a
      using active_run[OF inv sn that] qr(3) by auto
    moreover have "phase (R l a) = Waiting" if "a \<in> set (Queue (S l s))" for a using queued_run(3)[OF inv sn that] .
    moreover have "Active (S l s) \<noteq> None" by (rule live_run_chat(2)[OF inv qr(1)]) (simp_all add: qr(2,3))
    moreover have "length (remove1 r (Queue (S l s))) \<le> MaxQueuedTurns" using queue_distinct[OF inv sn]
      by (metis length_remove1 diff_le_self le_trans)
    ultimately show "chatLeft s {r} l ?l" using queue_distinct[OF inv sn] by (simp add: chatLeft_def)
    show "runStays s {r} l ?l a" if "a < nR l" for a
      unfolding runStays_def
    proof (intro impI, elim conjE)
      assume h: "Thread (R l a) = s" "live (phase (R l a))" "a \<notin> {r}"
      note d = live_runD[OF inv that h(1,2)]
      show "live (phase (R ?l a)) \<and> \<not> finished (R ?l a) \<and> (occupying (phase (R ?l a)) \<longrightarrow> Active (S ?l s) = Some a) \<and>
          (phase (R ?l a) = Waiting \<longrightarrow> a \<in> set (Queue (S ?l s)))"
        using h(2,3) d queue_distinct[OF inv sn] by simp
    qed
  qed
  then have "Inv (dropIdle s ?l)" by (rule dropIdle_inv) simp
  then show ?thesis using removeQueued_eq[OF inv sn s' q] by simp
qed

lemma run_phase_inv:
  assumes inv: "Inv l" and r: "r < nR l" "occupying (phase (R l r))"
    and f: "\<And>x. sameRun (f x) x" "\<And>x. finished (f x) = finished x" "\<And>x. occupying (phase (f x))"
  shows "Inv (updR r f l)"
proof -
  obtain s where s: "Thread (R l r) = s" by blast
  have act: "Active (S l s) = Some r" using InvX_D(2)[OF inv r(1)] r(2) s by (simp add: runOk_def)
  have sn: "s < nS l" using live_run_chat(1)[OF inv r(1), of s] r(2) s by simp
  have "InvX {s} (updR r f l)"
  proof (rule local_inv[OF inv])
    show "frameOk s l (updR r f l)" by (simp add: frameOk_def)
    show "runsMoved s {} l (updR r f l)" using f r s by (simp add: runsMoved_def)
    have "phase (R l a) = Waiting" if "a \<in> set (Queue (S l s))" for a using queued_run(3)[OF inv sn that] .
    moreover have "r \<notin> set (Queue (S l s))" using queued_run(3)[OF inv sn, of r] r(2) by auto
    ultimately show "chatLeft s {} l (updR r f l)" using act s r f queue_distinct[OF inv sn]
      by (auto simp: chatLeft_def)
    show "runStays s {} l (updR r f l) a" if "a < nR l" for a
      unfolding runStays_def
    proof (intro impI, elim conjE)
      assume h: "Thread (R l a) = s" "live (phase (R l a))"
      note d = live_runD[OF inv that h(1,2)]
      have "phase (f (R l r)) \<noteq> Waiting" using f(3)[of "R l r"] by auto
      then show "live (phase (R (updR r f l) a)) \<and> \<not> finished (R (updR r f l) a) \<and>
          (occupying (phase (R (updR r f l) a)) \<longrightarrow> Active (S (updR r f l) s) = Some a) \<and>
          (phase (R (updR r f l) a) = Waiting \<longrightarrow> a \<in> set (Queue (S (updR r f l) s)))"
        using h(2) d act f by (cases "a = r") auto
    qed
  qed
  then show ?thesis by (rule InvX_shrink) (use act in simp)
qed

lemma launched_inv:
  assumes "Inv l" "r < nR l" "occupying (phase (R l r))"
  shows "Inv (fst (launched r l))"
proof -
  have "Inv (updR r (\<lambda>x. x\<lparr>running := True, phase := Started\<rparr>) l)"
    by (rule run_phase_inv[OF assms]) (simp_all add: sameRun_def)
  then show ?thesis using assms(1) by (simp add: launched_def)
qed

lemma finishBegin_inv:
  assumes "Inv l" "r < nR l" "occupying (phase (R l r))"
  shows "Inv (finishBegin r l)"
  unfolding finishBegin_def by (rule run_phase_inv[OF assms]) (simp_all add: sameRun_def)

lemma finishEnd_inv:
  assumes inv: "Inv l" and r: "r < nR l" "occupying (phase (R l r))"
  shows "Inv (fst (finishEnd r c keeps l))"
proof -
  let ?l = "updR r (\<lambda>x. x\<lparr>holdsKey := False\<rparr>) l"
  have "Inv ?l" by (rule flagsOnly_inv[OF _ inv]) (simp add: flagsOnly_def sameRun_def)
  then have "Inv (fst (advance r g ?l))" for g by (rule advance_inv) (use r in simp_all)
  then show ?thesis unfolding finishEnd_def
    by (auto split: prod.splits intro: flagsOnly_inv[OF holdRun_flags] dest: prod.inject[THEN iffD1] simp: prod_eq_iff)
qed


lemma SendQueued_inv:
  assumes inv: "Inv l" and s: "Thread (R l r) < nS l"
  shows "Inv (fst (SendQueued r l))"
proof (cases "r \<in> set (Queue (S l (Thread (R l r))))")
  case False
  then show ?thesis using inv by (simp add: SendQueued_def)
next
  case True
  obtain s where s': "Thread (R l r) = s" by blast
  have sn: "s < nS l" and q: "r \<in> set (Queue (S l s))" using s True s' by simp_all
  note qr = queued_run[OF inv sn q]
  obtain a where a: "Active (S l s) = Some a" using live_run_chat(2)[OF inv qr(1), of s] qr(2,3) by auto
  let ?l = "updS s (\<lambda>x. x\<lparr>Queue := r # remove1 r (Queue x)\<rparr>) l"
  have qd: "distinct (r # remove1 r (Queue (S l s)))" "set (r # remove1 r (Queue (S l s))) = set (Queue (S l s))"
    "length (r # remove1 r (Queue (S l s))) \<le> MaxQueuedTurns"
    using queue_distinct[OF inv sn] q length_pos_if_in_set[OF q] by (auto simp: length_remove1 Suc_diff_le)
  have "InvX {s} ?l"
  proof (rule local_inv[OF inv])
    show "frameOk s l ?l" by (simp add: frameOk_def)
    show "runsMoved s {} l ?l" by (simp add: runsMoved_def)
    have "phase (R l x) = Waiting" if "x \<in> set (Queue (S l s))" for x using queued_run(3)[OF inv sn that] .
    then show "chatLeft s {} l ?l" using qd a active_run[OF inv sn a] q by (auto simp: chatLeft_def)
    show "runStays s {} l ?l x" if "x < nR l" for x
      unfolding runStays_def
    proof (intro impI, elim conjE)
      assume h: "Thread (R l x) = s" "live (phase (R l x))"
      note d = live_runD[OF inv that h(1,2)]
      show "live (phase (R ?l x)) \<and> \<not> finished (R ?l x) \<and> (occupying (phase (R ?l x)) \<longrightarrow> Active (S ?l s) = Some x) \<and>
          (phase (R ?l x) = Waiting \<longrightarrow> x \<in> set (Queue (S ?l s)))"
        using h(2) d qd(2) by simp
    qed
  qed
  then have "Inv ?l" by (rule InvX_shrink) (use a in simp)
  then have "Inv (if \<not> ending (R l a) then cancelRun a (updR a (\<lambda>x. x\<lparr>yielded := True\<rparr>) ?l) else updR a (\<lambda>x. x\<lparr>yielded := True\<rparr>) ?l)"
    by (elim flagsOnly_inv[rotated]) (simp add: flagsOnly_def sameRun_def cancelRun_def)
  then show ?thesis using True a s' by (simp add: SendQueued_def Let_def)
qed

lemma runsOk_D:
  assumes "runsOk l" "runs l k = Some r"
  shows "r < nR l" "k = rkey l r" "live (phase (R l r))"
  using assms by (simp_all add: runsOk_def)

lemma runsOk_I:
  assumes "\<And>k r. runs l k = Some r \<Longrightarrow> r < nR l \<and> k = rkey l r \<and> live (phase (R l r))"
  shows "runsOk l"
  unfolding runsOk_def using assms by blast

lemma requestsOk_I:
  assumes "\<And>k r. requests l k = Some r \<Longrightarrow> r < nR l \<and> k = liveKey (rowner (R l r)) (nonce (R l r)) \<and>
     (phase (R l r) = Reserved \<or> live (phase (R l r)))"
  shows "requestsOk l"
  unfolding requestsOk_def using assms by blast

lemma requestsOk_D:
  assumes "requestsOk l" "requests l k = Some r"
  shows "r < nR l" "k = liveKey (rowner (R l r)) (nonce (R l r))" "phase (R l r) = Reserved \<or> live (phase (R l r))"
  using assms by (simp_all add: requestsOk_def)

lemma closeOut_inv:
  assumes inv: "Inv l" and r: "r < nR l" "phase (R l r) = Retired"
  shows "Inv (closeOut r l)"
proof -
  have ok: "runOk l r" using inv r(1) by (rule InvX_D)
  then have nf: "\<not> finished (R l r)" using r by (simp add: runOk_def)
  let ?l = "updR r (\<lambda>x. x\<lparr>logClosed := True, holdsKey := False, finished := True, phase := Done\<rparr>) l"
  have k: "rkey ?l = rkey l" by (simp add: rkey_def fun_eq_iff)
  have "Inv ?l"
  proof (rule InvX_I)
    have "\<And>k. runs l k \<noteq> Some r" "\<And>k. requests l k \<noteq> Some r" using runsOk_D[OF InvX_D(4)[OF inv], of _ r] requestsOk_D[OF InvX_D(5)[OF inv], of _ r] r(2)
      by auto
    then show "runsOk ?l" "requestsOk ?l" using InvX_D(4,5)[OF inv] unfolding runsOk_def requestsOk_def k by auto
    show "\<not> panicked ?l" using InvX_D(6)[OF inv] by simp
    show "threadsOk {} ?l" using InvX_D(3)[OF inv] unfolding threadsOk_def by simp
    show "runOk ?l q" if "q < nR ?l" for q
    proof (cases "q = r")
      case True
      then show ?thesis using ok r by (simp add: runOk_def k)
    next
      case False
      then show ?thesis using InvX_D(2)[OF inv, of q] that by (simp add: runOk_def k)
    qed
    show "sesOk ?l t" if "t < nS ?l" for t
    proof -
      have t: "t < nS l" using that by simp
      have "\<And>q. q \<in> set (Queue (S l t)) \<Longrightarrow> q \<noteq> r" "Active (S l t) \<noteq> Some r"
        using queued_run(3)[OF inv t, of r] active_run(3)[OF inv t, of r] r(2) by auto
      then show ?thesis using InvX_D(1)[OF inv t] unfolding sesOk_def by auto
    qed
  qed
  then show ?thesis using nf by (simp add: closeOut_def)
qed


text \<open>A reserved run is in no chat, so refusing it only gives its request back.\<close>

lemma reserved_out:
  assumes inv: "InvX X l" and s: "s < nS l" and r: "\<not> live (phase (R l r))"
  shows "r \<notin> set (Queue (S l s))" "Active (S l s) \<noteq> Some r"
  using queued_run(3)[OF inv s, of r] active_run(3)[OF inv s, of r] r by auto

lemma refuse_inv:
  assumes inv: "Inv l" and r: "r < nR l" "phase (R l r) = Reserved"
  shows "Inv (refuse r l)"
proof -
  let ?k = "liveKey (rowner (R l r)) (nonce (R l r))"
  let ?l = "(updR r (\<lambda>x. x\<lparr>holdsKey := False, accepted := True, phase := Refused\<rparr>) l)\<lparr>requests := (requests l)(?k := None)\<rparr>"
  have ok: "runOk l r" using inv r(1) by (rule InvX_D)
  have req: "requests l ?k = Some r" using ok r(2) by (simp add: runOk_def)
  have k: "rkey ?l = rkey l" by (simp add: rkey_def fun_eq_iff)
  have "Inv ?l"
  proof (rule InvX_I)
    have "\<And>j. runs l j \<noteq> Some r" using runsOk_D(3)[OF InvX_D(4)[OF inv], of _ r] r(2) by auto
    then show "runsOk ?l" using InvX_D(4)[OF inv] unfolding runsOk_def k by auto
    show "requestsOk ?l"
    proof (rule requestsOk_I)
      fix j q assume a: "requests ?l j = Some q"
      then have b: "requests l j = Some q" "j \<noteq> ?k" by (simp_all split: if_splits)
      note c = requestsOk_D[OF InvX_D(5)[OF inv] b(1)]
      have "q \<noteq> r" using b(2) c(2) by blast
      then show "q < nR ?l \<and> j = liveKey (rowner (R ?l q)) (nonce (R ?l q)) \<and> (phase (R ?l q) = Reserved \<or> live (phase (R ?l q)))"
        using c by simp
    qed
    show "\<not> panicked ?l" using InvX_D(6)[OF inv] by simp
    show "threadsOk {} ?l" using InvX_D(3)[OF inv] unfolding threadsOk_def by simp
    show "runOk ?l q" if "q < nR ?l" for q
    proof (cases "q = r")
      case True
      then show ?thesis using ok r by (simp add: runOk_def k)
    next
      case False
      have q: "runOk l q" using InvX_D(2)[OF inv] that by simp
      have "liveKey (rowner (R l q)) (nonce (R l q)) \<noteq> ?k" if "phase (R l q) = Reserved \<or> live (phase (R l q))"
        using q that req False by (auto simp: runOk_def)
      then show ?thesis using q False by (auto simp: runOk_def k)
    qed
    show "sesOk ?l t" if "t < nS ?l" for t
    proof -
      have t: "t < nS l" using that by simp
      have "\<And>q. q \<in> set (Queue (S l t)) \<Longrightarrow> q \<noteq> r" "Active (S l t) \<noteq> Some r"
        using reserved_out[OF inv t, of r] r(2) by auto
      then show ?thesis using InvX_D(1)[OF inv t] unfolding sesOk_def by auto
    qed
  qed
  then show ?thesis using req by (simp add: refuse_def)
qed

lemma reserve_inv:
  assumes inv: "Inv l"
  shows "Inv (fst (reserve low scope nn dg l))"
proof (cases "closing l \<or> requests l (liveKey scope nn) \<noteq> None \<or> low")
  case True
  then show ?thesis using inv by (auto simp: reserve_def split: option.splits)
next
  case False
  let ?k = "liveKey scope nn"
  let ?l = "l\<lparr>requests := (requests l)(?k \<mapsto> nR l), R := (R l)(nR l := newRun scope nn dg), nR := Suc (nR l)\<rparr>"
  have k: "rkey ?l q = rkey l q" if "q \<noteq> nR l" for q using that by (simp add: rkey_def)
  have "Inv ?l"
  proof (rule InvX_I)
    show "runsOk ?l"
    proof (rule runsOk_I)
      fix j q assume "runs ?l j = Some q"
      then have "runs l j = Some q" by simp
      note c = runsOk_D[OF InvX_D(4)[OF inv] this]
      then show "q < nR ?l \<and> j = rkey ?l q \<and> live (phase (R ?l q))" using k[of q] by simp
    qed
    show "requestsOk ?l"
    proof (rule requestsOk_I)
      fix j q assume a: "requests ?l j = Some q"
      show "q < nR ?l \<and> j = liveKey (rowner (R ?l q)) (nonce (R ?l q)) \<and> (phase (R ?l q) = Reserved \<or> live (phase (R ?l q)))"
      proof (cases "j = ?k")
        case True
        then show ?thesis using a by (simp add: newRun_def)
      next
        case False
        then have "requests l j = Some q" using a by simp
        note c = requestsOk_D[OF InvX_D(5)[OF inv] this]
        then show ?thesis by simp
      qed
    qed
    show "\<not> panicked ?l" using InvX_D(6)[OF inv] by simp
    show "threadsOk {} ?l" using InvX_D(3)[OF inv] unfolding threadsOk_def by simp
    show "runOk ?l q" if "q < nR ?l" for q
    proof (cases "q = nR l")
      case True
      then show ?thesis by (simp add: runOk_def newRun_def)
    next
      case n: False
      have q: "runOk l q" using InvX_D(2)[OF inv] that n by simp
      have "liveKey (rowner (R l q)) (nonce (R l q)) \<noteq> ?k" if "phase (R l q) = Reserved \<or> live (phase (R l q))"
        using q that False by (auto simp: runOk_def)
      then show ?thesis using q n by (auto simp: runOk_def k)
    qed
    show "sesOk ?l t" if "t < nS ?l" for t
    proof -
      have t: "t < nS l" using that by simp
      have "\<And>q. q \<in> set (Queue (S l t)) \<Longrightarrow> q < nR l" "\<And>q. Active (S l t) = Some q \<Longrightarrow> q < nR l"
        using queued_run(1)[OF inv t] active_run(1)[OF inv t] by auto
      then show ?thesis using InvX_D(1)[OF inv t] unfolding sesOk_def by fastforce
    qed
  qed
  then show ?thesis using False by (simp add: reserve_def)
qed


text \<open>A new chat is registered under a name that is free.\<close>

lemma register_inv:
  assumes inv: "Inv l" and free: "threads l (skey s) = None" and s: "Active s = None" "Queue s = []" "noSlash (sID s)"
  shows "InvX {nS l} (l\<lparr>S := (S l)(nS l := s), nS := Suc (nS l), threads := (threads l)(skey s \<mapsto> nS l)\<rparr>)" (is "InvX _ ?l")
proof (rule InvX_I)
  have k: "rkey ?l q = rkey l q" if "Thread (R l q) \<noteq> nS l" for q using that by (simp add: rkey_def)
  have th: "Thread (R l q) < nS l" if "q < nR l" "live (phase (R l q))" for q
    using InvX_D(2)[OF inv that(1)] that(2) by (simp add: runOk_def)
  show "runsOk ?l"
  proof (rule runsOk_I)
    fix j q assume "runs ?l j = Some q"
    then have "runs l j = Some q" by simp
    note c = runsOk_D[OF InvX_D(4)[OF inv] this]
    then show "q < nR ?l \<and> j = rkey ?l q \<and> live (phase (R ?l q))" using k[of q] th[of q] by simp
  qed
  show "requestsOk ?l" using InvX_D(5)[OF inv] by (simp add: requestsOk_def)
  show "\<not> panicked ?l" using InvX_D(6)[OF inv] by simp
  show "threadsOk {nS l} ?l"
  proof (rule threadsOk_I)
    fix j t assume a: "threads ?l j = Some t"
    show "t < nS ?l \<and> j = skey (S ?l t) \<and> (t \<in> {nS l} \<or> Active (S ?l t) \<noteq> None \<or> deleted (S ?l t))"
    proof (cases "j = skey s")
      case True
      then show ?thesis using a by simp
    next
      case False
      then have "threads l j = Some t" using a by simp
      note c = threadsOk_D[OF InvX_D(3)[OF inv] this]
      then show ?thesis by simp
    qed
  qed
  show "runOk ?l q" if "q < nR ?l" for q
  proof -
    have q: "runOk l q" using InvX_D(2)[OF inv] that by simp
    show ?thesis
    proof (cases "live (phase (R l q))")
      case True
      then show ?thesis using q k[of q] th[of q] that unfolding runOk_def by simp
    next
      case False
      then have "\<not> occupying (phase (R l q))" "phase (R l q) \<noteq> Waiting" by auto
      then show ?thesis using q False unfolding runOk_def by auto
    qed
  qed
  show "sesOk ?l t" if "t < nS ?l" for t
  proof (cases "t = nS l")
    case True
    then show ?thesis using s by (simp add: sesOk_def)
  next
    case False
    then have t: "t < nS l" using that by simp
    have ok: "sesOk l t" using InvX_D(1)[OF inv t] .
    have "threads ?l (skey (S l t)) = Some t" if "Active (S l t) \<noteq> None"
    proof -
      have "threads l (skey (S l t)) = Some t" using sesOk_reg[OF ok that] .
      then show ?thesis using free by auto
    qed
    then show ?thesis by (intro sesOk_cong[OF ok]) (use False in simp_all)
  qed
qed


text \<open>A reserved run joins its chat: it takes the running slot, or waits behind it.\<close>

definition joins :: "nat \<Rightarrow> nat \<Rightarrow> string \<Rightarrow> Run \<Rightarrow> threadSession \<Rightarrow> liveRuns \<Rightarrow> liveRuns" where
  "joins r s k x y l = l\<lparr>runs := (runs l)(k \<mapsto> r), S := (S l)(s := y), R := (R l)(r := x)\<rparr>"

lemma joins_simps [simp]:
  "threads (joins r s k x y l) = threads l" "requests (joins r s k x y l) = requests l" "nR (joins r s k x y l) = nR l"
  "nS (joins r s k x y l) = nS l" "panicked (joins r s k x y l) = panicked l"
  "runs (joins r s k x y l) = (runs l)(k \<mapsto> r)" "S (joins r s k x y l) = (S l)(s := y)" "R (joins r s k x y l) = (R l)(r := x)"
  by (simp_all add: joins_def)

lemma joins_inv:
  assumes inv: "InvX X l" and r: "r < nR l" "phase (R l r) = Reserved" and s: "s < nS l" "threads l (skey (S l s)) = Some s"
    and own: "sowner (S l s) = rowner (R l r)" and k: "k = liveKey (rowner (R l r)) tok" "runs l k = None"
    and x: "Thread x = s" "logID x = tok" "rowner x = rowner (R l r)" "nonce x = nonce (R l r)" "\<not> finished x"
    and y: "sowner y = sowner (S l s)" "sID y = sID (S l s)"
    and split: "Active (S l s) = None \<and> phase x = Launching \<and> Active y = Some r \<and> Queue y = Queue (S l s) \<or>
      Active (S l s) \<noteq> None \<and> phase x = Waiting \<and> Active y = Active (S l s) \<and> Queue y = Queue (S l s) @ [r] \<and>
      length (Queue (S l s)) < MaxQueuedTurns"
  shows "InvX (X - {s}) (joins r s k x y l)" (is "InvX _ ?l")
proof (rule InvX_I)
  have okr: "runOk l r" using inv r(1) by (rule InvX_D)
  have oks: "sesOk l s" using inv s(1) by (rule InvX_D)
  have own': "sowner (((S l)(s := y)) t) = sowner (S l t)" for t using y by simp
  have key: "rkey ?l q = (if q = r then k else rkey l q)" for q using x k own y by (simp add: rkey_def)
  have live: "live (phase x)" using split by auto
  have rout: "\<And>t. t < nS l \<Longrightarrow> r \<notin> set (Queue (S l t)) \<and> Active (S l t) \<noteq> Some r" using reserved_out[OF inv] r(2) by simp
  have act: "Active y \<noteq> None" using split by auto
  have sk: "skey y = skey (S l s)" using y by (simp add: skey_def)
  show "runsOk ?l"
  proof (rule runsOk_I)
    fix j q assume a: "runs ?l j = Some q"
    show "q < nR ?l \<and> j = rkey ?l q \<and> live (phase (R ?l q))"
    proof (cases "j = k")
      case True
      then have "q = r" using a by simp
      then show ?thesis using True r live key[of r] by simp
    next
      case False
      then have "runs l j = Some q" using a by simp
      note c = runsOk_D[OF InvX_D(4)[OF inv] this]
      have "q \<noteq> r" using c(3) r(2) by auto
      then show ?thesis using c by (simp add: key)
    qed
  qed
  show "requestsOk ?l"
  proof (rule requestsOk_I)
    fix j q assume "requests ?l j = Some q"
    then have "requests l j = Some q" by simp
    note c = requestsOk_D[OF InvX_D(5)[OF inv] this]
    then show "q < nR ?l \<and> j = liveKey (rowner (R ?l q)) (nonce (R ?l q)) \<and> (phase (R ?l q) = Reserved \<or> live (phase (R ?l q)))"
      using x live by (cases "q = r") simp_all
  qed
  show "\<not> panicked ?l" using InvX_D(6)[OF inv] by simp
  show "threadsOk (X - {s}) ?l"
  proof (rule threadsOk_I)
    fix j t assume "threads ?l j = Some t"
    then have "threads l j = Some t" by simp
    note c = threadsOk_D[OF InvX_D(3)[OF inv] this]
    then show "t < nS ?l \<and> j = skey (S ?l t) \<and> (t \<in> X - {s} \<or> Active (S ?l t) \<noteq> None \<or> deleted (S ?l t))"
      using act sk by (cases "t = s") simp_all
  qed
  show "runOk ?l q" if "q < nR ?l" for q
  proof (cases "q = r")
    case True
    have "requests l (liveKey (rowner (R l r)) (nonce (R l r))) = Some r" using okr r(2) by (simp add: runOk_def)
    then show ?thesis using True x s own y split key[of r] unfolding runOk_def by auto
  next
    case False
    have q: "runOk l q" using InvX_D(2)[OF inv] that by simp
    have nk: "rkey l q \<noteq> k" if "live (phase (R l q))" using q that k(2) by (auto simp: runOk_def)
    have na: "Active (S l s) = None \<Longrightarrow> occupying (phase (R l q)) \<Longrightarrow> Thread (R l q) \<noteq> s" using q by (auto simp: runOk_def)
    show ?thesis using q False nk na split own' unfolding runOk_def key by (cases "Thread (R l q) = s") (auto simp: y)
  qed
  show "sesOk ?l t" if "t < nS ?l" for t
  proof (cases "t = s")
    case False
    have t: "t < nS l" using that by simp
    have "\<And>q. q \<in> set (Queue (S l t)) \<Longrightarrow> q \<noteq> r" "Active (S l t) \<noteq> Some r" using rout[OF t] by auto
    then show ?thesis using InvX_D(1)[OF inv t] False unfolding sesOk_def by auto
  next
    case True
    have "\<And>q. q \<in> set (Queue (S l s)) \<Longrightarrow> q < nR l \<and> Thread (R l q) = s \<and> phase (R l q) = Waiting \<and> q \<noteq> r"
      using queued_run[OF inv s(1)] rout[OF s(1)] by auto
    moreover have "\<And>q. Active (S l s) = Some q \<Longrightarrow> q < nR l \<and> Thread (R l q) = s \<and> occupying (phase (R l q)) \<and> q \<noteq> r"
      using active_run[OF inv s(1)] rout[OF s(1)] by auto
    ultimately show ?thesis using True split queue_distinct[OF inv s(1)] s r x sk rout[OF s(1)] oks y(2) unfolding sesOk_def by auto
  qed
qed


text \<open>\<open>tok\<close> is a fresh random token: no live run of the caller has it.\<close>

lemma liveKey_scope:
  assumes "noSlash j" "noSlash i" "liveKey o' i = liveKey o'' j"
  shows "o'' = o'"
proof -
  have "rev (o' @ ''/'' @ i) = rev (o'' @ ''/'' @ j)" using assms(3) by (simp add: liveKey_def)
  then have "rev i @ CHR ''/'' # rev o' = rev j @ CHR ''/'' # rev o''" by simp
  moreover have "list_all (\<lambda>c. c \<noteq> CHR ''/'') (rev i)" "list_all (\<lambda>c. c \<noteq> CHR ''/'') (rev j)"
    using assms(1,2) unfolding noSlash_def list_all_iff set_rev by blast+
  ultimately have "rev i = rev j \<and> CHR ''/'' = CHR ''/'' \<and> rev o' = rev o''" by (rule append_stop_inj) simp_all
  then show ?thesis by simp
qed

lemma admit_inv:
  assumes inv: "Inv l" and r: "r < nR l" "phase (R l r) = Reserved" and fresh: "runs l (liveKey (rowner (R l r)) tok) = None"
    and i: "noSlash i"
  shows "Inv (fst (admit (rowner (R l r)) i fp tok held' keyless' compact seeded r l))"
proof -
  let ?o = "rowner (R l r)"
  let ?k = "liveKey ?o tok"
  have nf: "\<not> finished (R l r)" using InvX_D(2)[OF inv r(1)] r(2) by (simp add: runOk_def)
  show ?thesis
  proof (cases "threads l (liveKey ?o i)")
    case None
    let ?s = "\<lparr>sID = i, sowner = ?o, keyHash = fp, deleted = False, local = held', keyless = keyless', Active = None, Queue = []\<rparr>"
    let ?m = "l\<lparr>S := (S l)(nS l := ?s), nS := Suc (nS l), threads := (threads l)(skey ?s \<mapsto> nS l)\<rparr>"
    have sk: "skey ?s = liveKey ?o i" by (simp add: skey_def)
    have m: "InvX {nS l} ?m" by (rule register_inv[OF inv]) (simp_all add: sk None i)
    have "InvX ({nS l} - {nS l}) (joins r (nS l) ?k
        ((R l r)\<lparr>Thread := nS l, logID := tok, holdsKey := \<not> keyless', phase := Launching\<rparr>) (?s\<lparr>Active := Some r\<rparr>) ?m)"
      by (rule joins_inv[OF m]) (use r fresh nf in \<open>simp_all add: sk\<close>)
    then show ?thesis using inv None
      by (simp add: admit_def Let_def makeActive_def updR_def updS_def joins_def sk)
  next
    case (Some s)
    have thr: "s < nS l" "liveKey ?o i = skey (S l s)" "Active (S l s) \<noteq> None \<or> deleted (S l s)"
      using threadsOk_D[OF InvX_D(3)[OF inv] Some] by simp_all
    show ?thesis
    proof (cases "deleted (S l s) \<or> Active (S l s) = None")
      case True
      then show ?thesis using inv Some thr(3) by (auto simp: admit_def)
    next
      case False
      have "sowner (S l s) = ?o" by (rule liveKey_scope[OF _ i]) (use InvX_D(1)[OF inv thr(1)] thr(2) in \<open>simp_all add: sesOk_def skey_def\<close>)
      then have "Inv (joins r s ?k
          ((R l r)\<lparr>Thread := s, logID := tok, holdsKey := \<not> keyless', Queued := True, accepted := True, phase := Waiting\<rparr>)
          ((S l s)\<lparr>Queue := Queue (S l s) @ [r]\<rparr>) l)" if "length (Queue (S l s)) < MaxQueuedTurns"
        using joins_inv[OF inv r thr(1), of ?k tok] Some thr(2) fresh nf False that by simp
      then show ?thesis using inv Some False thr(2)
        by (simp add: admit_def Let_def updR_def updS_def joins_def not_le)
    qed
  qed
qed


lemma beginTransfer_inv:
  assumes inv: "Inv l" and i: "noSlash i"
  shows "Inv (fst (beginTransfer scope i l))"
proof -
  let ?s = "\<lparr>sID = i, sowner = scope, keyHash = [], deleted = True, local = False, keyless = False, Active = None, Queue = []\<rparr>"
  have sk: "skey ?s = liveKey scope i" by (simp add: skey_def)
  show ?thesis
  proof (cases "threads l (liveKey scope i)")
    case None
    have "InvX {nS l} (l\<lparr>S := (S l)(nS l := ?s), nS := Suc (nS l), threads := (threads l)(skey ?s \<mapsto> nS l)\<rparr>)"
      by (rule register_inv[OF inv]) (simp_all add: sk None i)
    then have "Inv (l\<lparr>S := (S l)(nS l := ?s), nS := Suc (nS l), threads := (threads l)(skey ?s \<mapsto> nS l)\<rparr>)"
      by (rule InvX_shrink) simp
    then show ?thesis using None by (simp add: beginTransfer_def sk)
  next
    case (Some s)
    have "Active (S l s) \<noteq> None \<or> deleted (S l s)" using threadsOk_D(3)[OF InvX_D(3)[OF inv] Some] by simp
    then show ?thesis using inv Some by (auto simp: beginTransfer_def)
  qed
qed

lemma forget_same [simp]: "nS (forget r l) = nS l" "nR (forget r l) = nR l"
  by (simp_all add: forget_def Let_def)

lemma endQueued_same [simp]: "nS (endQueued r l) = nS l" "nR (endQueued r l) = nR l"
  by (simp_all add: endQueued_def closeOut_def)

lemma endAll_same [simp]: "nS (endAll rs l) = nS l" "nR (endAll rs l) = nR l"
  by (induction rs arbitrary: l) (simp_all add: endAll_def)

lemma dropIdle_same [simp]: "nS (dropIdle s l) = nS l" "nR (dropIdle s l) = nR l"
  by (simp_all add: dropIdle_def)

lemma cancelActive_nR [simp]: "nR (cancelActive s l) = nR l"
  using cancelActive_flags[of l s] by (simp add: flagsOnly_def)

lemma stop_same [simp]: "nS (stop s l) = nS l" "nR (stop s l) = nR l"
  by (simp_all add: stop_def Let_def)

lemma stopSession_same [simp]: "nS (stopSession s l) = nS l" "nR (stopSession s l) = nR l"
  by (simp_all add: stopSession_def Let_def)

text \<open>A loop over chats keeps what each chat's turn keeps.\<close>

lemma foldl_inv:
  assumes "Inv l" "\<And>s. s \<in> set ss \<Longrightarrow> s < nS l"
    and "\<And>l s. Inv l \<Longrightarrow> s < nS l \<Longrightarrow> Inv (f l s)" "\<And>l s. nS (f l s) = nS l"
  shows "Inv (foldl f l ss)"
  using assms(1,2)
proof (induction ss arbitrary: l)
  case (Cons s ss)
  then show ?case using assms(3,4) by simp
qed simp

lemma registered_lt: "s \<in> set (registered l) \<Longrightarrow> s < nS l"
  by (simp add: registered_def)

lemma Stop_inv:
  assumes "Inv l"
  shows "Inv (Stop l)"
proof -
  have "Inv (l\<lparr>closing := True\<rparr>)" by (rule flagsOnly_inv[OF _ assms]) (simp add: flagsOnly_def)
  then show ?thesis unfolding Stop_def by (rule foldl_inv) (auto dest: registered_lt intro: stopSession_inv)
qed

lemma StopDeviceThreads_inv:
  assumes "Inv l"
  shows "Inv (fst (StopDeviceThreads scope l))"
proof -
  have "Inv (foldl (\<lambda>l s. if sowner (S l s) = scope \<and> isDevice (S l s) then stop s l else l) l (registered l))"
    by (rule foldl_inv[OF assms]) (auto dest: registered_lt intro: stop_inv)
  then show ?thesis unfolding StopDeviceThreads_def fst_conv by (rule flagsOnly_inv[OF dropHeld_flags])
qed

lemma StopThread_inv:
  assumes "Inv l"
  shows "Inv (StopThread scope i l)"
  using assms stop_inv[OF assms] threadsOk_D(1)[OF InvX_D(3)[OF assms]]
  by (simp add: StopThread_def split: option.splits)

lemma StopDeviceThread_inv:
  assumes "Inv l"
  shows "Inv (StopDeviceThread scope i l)"
proof -
  have "Inv (case threads l (liveKey scope i) of None \<Rightarrow> l | Some s \<Rightarrow> if isDevice (S l s) then stop s l else l)"
    using assms stop_inv[OF assms] threadsOk_D(1)[OF InvX_D(3)[OF assms]] by (simp split: option.splits)
  then show ?thesis unfolding StopDeviceThread_def Let_def by (rule flagsOnly_inv[OF dropHeld_flags])
qed

lemma CancelThread_inv:
  assumes inv: "Inv l" and s: "Thread (R l r) < nS l"
  shows "Inv (fst (CancelThread r l))"
  using removeQueued_inv[OF assms] inv flagsOnly_inv[OF cancelRun_flags inv]
  by (cases "removeQueued r l") (simp add: CancelThread_def)

lemma RemoveQueued_inv:
  assumes inv: "Inv l" and s: "Thread (R l r) < nS l"
  shows "Inv (fst (RemoveQueued r l))"
  using removeQueued_inv[OF assms] by (cases "removeQueued r l") (simp add: RemoveQueued_def)

section \<open>Every interleaving\<close>

text \<open>The requests, the runs' goroutines and the timers take the lock in any order.  A
  request about a run names one that was registered (\<^verbatim>\<open>authorizedRun\<close>), which may have
  ended since.  A run's own goroutine takes its steps in order: it is launched or ends
  unstarted, then finishes, then closes its log and channel.\<close>

inductive liveStep :: "liveRuns \<Rightarrow> liveRuns \<Rightarrow> bool" where
  reserve: "liveStep l (fst (reserve low scope nn dg l))"
| admit: "r < nR l \<Longrightarrow> phase (R l r) = Reserved \<Longrightarrow> noSlash i \<Longrightarrow> runs l (liveKey (rowner (R l r)) tok) = None \<Longrightarrow>
    liveStep l (fst (admit (rowner (R l r)) i fp tok held' keyless' compact seeded r l))"
| refuse: "r < nR l \<Longrightarrow> phase (R l r) = Reserved \<Longrightarrow> liveStep l (refuse r l)"
| launched: "r < nR l \<Longrightarrow> phase (R l r) = Launching \<Longrightarrow> liveStep l (fst (launched r l))"
| endUnstarted: "r < nR l \<Longrightarrow> phase (R l r) = Launching \<Longrightarrow> liveStep l (fst (endUnstarted r l))"
| finishBegin: "r < nR l \<Longrightarrow> phase (R l r) = Started \<Longrightarrow> liveStep l (finishBegin r l)"
| finishEnd: "r < nR l \<Longrightarrow> phase (R l r) = Ending \<Longrightarrow> liveStep l (fst (finishEnd r c keeps l))"
| closeOut: "r < nR l \<Longrightarrow> phase (R l r) = Retired \<Longrightarrow> liveStep l (closeOut r l)"
| CancelThread: "r < nR l \<Longrightarrow> phase (R l r) \<noteq> Reserved \<Longrightarrow> phase (R l r) \<noteq> Refused \<Longrightarrow> liveStep l (fst (CancelThread r l))"
| SendQueued: "r < nR l \<Longrightarrow> phase (R l r) \<noteq> Reserved \<Longrightarrow> phase (R l r) \<noteq> Refused \<Longrightarrow> liveStep l (fst (SendQueued r l))"
| RemoveQueued: "r < nR l \<Longrightarrow> phase (R l r) \<noteq> Reserved \<Longrightarrow> phase (R l r) \<noteq> Refused \<Longrightarrow> liveStep l (fst (RemoveQueued r l))"
| StopThread: "liveStep l (StopThread scope i l)"
| StopDeviceThread: "liveStep l (StopDeviceThread scope i l)"
| StopDeviceThreads: "liveStep l (fst (StopDeviceThreads scope l))"
| Stop: "liveStep l (Stop l)"
| releaseHeld: "liveStep l (releaseHeld k r l)"
| beginTransfer: "noSlash i \<Longrightarrow> liveStep l (fst (beginTransfer scope i l))"
| endTransfer: "liveStep l (dropIdle s l)"

definition emptyRuns :: liveRuns where
  "emptyRuns = \<lparr>closing = False, threads = Map.empty, runs = Map.empty, requests = Map.empty, held = Map.empty,
     S = (\<lambda>_. \<lparr>sID = [], sowner = [], keyHash = [], deleted = False, local = False, keyless = False, Active = None, Queue = []\<rparr>),
     nS = 0, R = (\<lambda>_. newRun [] [] []), nR = 0, panicked = False\<rparr>"

inductive reachable :: "liveRuns \<Rightarrow> bool" where
  start: "reachable emptyRuns"
| step: "reachable l \<Longrightarrow> liveStep l l' \<Longrightarrow> reachable l'"

lemmas op_invs = reserve_inv admit_inv refuse_inv closeOut_inv StopThread_inv StopDeviceThread_inv StopDeviceThreads_inv
  Stop_inv beginTransfer_inv

lemma liveStep_inv: "liveStep l l' \<Longrightarrow> Inv l \<Longrightarrow> Inv l'"
proof (induction rule: liveStep.induct)
  case (launched r l) then show ?case using launched_inv[of l r] by simp
next
  case (endUnstarted r l) then show ?case using advance_inv[of l r] by (simp add: endUnstarted_def)
next
  case (finishBegin r l) then show ?case using finishBegin_inv[of l r] by simp
next
  case (finishEnd r l c keeps) then show ?case using finishEnd_inv[of l r] by simp
next
  case (CancelThread r l) then show ?case using CancelThread_inv admitted_chat by blast
next
  case (SendQueued r l) then show ?case using SendQueued_inv admitted_chat by blast
next
  case (RemoveQueued r l) then show ?case using RemoveQueued_inv admitted_chat by blast
next
  case (releaseHeld l k r) then show ?case using flagsOnly_inv[OF releaseHeld_flags] by blast
next
  case (endTransfer l s) then show ?case using dropIdle_inv by blast
qed (simp_all add: op_invs)

lemma emptyRuns_inv: "Inv emptyRuns"
  by (simp add: InvX_def emptyRuns_def threadsOk_def runsOk_def requestsOk_def)

lemma reachable_inv: "reachable l \<Longrightarrow> Inv l"
  by (induction rule: reachable.induct) (simp_all add: emptyRuns_inv liveStep_inv)


text \<open>A chat with a reply running and a turn queued behind it.\<close>

definition run1 :: liveRuns where
  "run1 = fst (admit ''u'' ''c'' ''f'' ''t'' False False False True 0 (fst (reserve False ''u'' ''m'' ''d'' emptyRuns)))"

definition run2 :: liveRuns where
  "run2 = fst (admit ''u'' ''c'' ''f'' ''w'' False False False True 1 (fst (reserve False ''u'' ''n'' ''d'' run1)))"

lemma noSlash_c: "noSlash ''c''"
  by (simp add: noSlash_def)

lemma run1_reachable: "reachable run1"
proof -
  let ?l = "fst (reserve False ''u'' ''m'' ''d'' emptyRuns)"
  have "reachable ?l" by (rule reachable.step[OF reachable.start liveStep.reserve])
  moreover have "0 < nR ?l" "phase (R ?l 0) = Reserved" "rowner (R ?l 0) = ''u''" "runs ?l (liveKey ''u'' ''t'') = None"
    by (simp_all add: reserve_def emptyRuns_def newRun_def)
  ultimately show ?thesis unfolding run1_def
    using liveStep.admit[of 0 ?l "''c''" "''t''", OF _ _ noSlash_c] by (metis reachable.step)
qed

lemma run1_state:
  "nR run1 = 1" "nS run1 = 1" "closing run1 = False" "threads run1 = [''u/c'' \<mapsto> 0]" "runs run1 = [''u/t'' \<mapsto> 0]"
  "requests run1 = [''u/m'' \<mapsto> 0]" "Active (S run1 0) = Some 0" "Queue (S run1 0) = []" "deleted (S run1 0) = False"
  "local (S run1 0) = False" "keyless (S run1 0) = False" "keyHash (S run1 0) = ''f''" "sowner (S run1 0) = ''u''"
  "sID (S run1 0) = ''c''" "phase (R run1 0) = Launching" "Thread (R run1 0) = 0" "logID (R run1 0) = ''t''"
  by (simp_all add: run1_def reserve_def admit_def emptyRuns_def newRun_def liveKey_def makeActive_def updR_def updS_def Let_def)

lemma run2_reachable: "reachable run2"
proof -
  let ?l = "fst (reserve False ''u'' ''n'' ''d'' run1)"
  have "reachable ?l" by (rule reachable.step[OF run1_reachable liveStep.reserve])
  moreover have "1 < nR ?l" "phase (R ?l 1) = Reserved" "rowner (R ?l 1) = ''u''" "runs ?l (liveKey ''u'' ''w'') = None"
    by (simp_all add: reserve_def run1_state newRun_def liveKey_def)
  ultimately show ?thesis unfolding run2_def
    using liveStep.admit[of 1 ?l "''c''" "''w''", OF _ _ noSlash_c] by (metis reachable.step)
qed

lemma run2_state:
  "nR run2 = 2" "nS run2 = 1" "closing run2 = False" "Active (S run2 0) = Some 0" "Queue (S run2 0) = [1]"
  "deleted (S run2 0) = False" "phase (R run2 0) = Launching" "phase (R run2 1) = Waiting" "Thread (R run2 0) = 0"
  "Thread (R run2 1) = 0" "logID (R run2 1) = ''w''" "sowner (S run2 0) = ''u''"
  by (simp_all add: run2_def reserve_def admit_def run1_state newRun_def liveKey_def updR_def updS_def MaxQueuedTurns_def Let_def)

section \<open>What the registry promises\<close>

text \<open>C2: A chat has at most one running reply, however requests, stops, transfers and the
  runs' goroutines interleave: two runs that hold the running slot of chats with the same
  owner and id are the same run, and it is the one the chat's session names.\<close>

theorem one_reply_per_chat:
  assumes "reachable l" "r < nR l" "q < nR l" "occupying (phase (R l r))" "occupying (phase (R l q))"
    and "skey (S l (Thread (R l r))) = skey (S l (Thread (R l q)))"
  shows "r = q \<and> Active (S l (Thread (R l r))) = Some r"
proof -
  have inv: "Inv l" by (rule reachable_inv[OF assms(1)])
  have "threads l (skey (S l (Thread (R l r)))) = Some (Thread (R l r))" "threads l (skey (S l (Thread (R l q)))) = Some (Thread (R l q))"
    using live_run_chat(3)[OF inv assms(2) _ refl] live_run_chat(3)[OF inv assms(3) _ refl] assms(4,5) by simp_all
  then have "Some (Thread (R l r)) = Some (Thread (R l q))" unfolding assms(6) by (rule trans[OF sym])
  then have "Thread (R l r) = Thread (R l q)" by (rule option.inject[THEN iffD1])
  moreover have "Active (S l (Thread (R l r))) = Some r" "Active (S l (Thread (R l q))) = Some q"
    using live_runD(2)[OF inv assms(2) refl] live_runD(2)[OF inv assms(3) refl] assms(4,5) by simp_all
  ultimately show ?thesis by (metis option.inject)
qed

theorem one_reply_per_chat_witness: "(0::nat) = 0 \<and> Active (S run2 0) = Some 0"
  using one_reply_per_chat[of run2 0 0] run2_reachable run2_state by simp





text \<open>Once every run has ended the registry holds nothing: no run, no request, and no
  chat but the placeholders of transfers under way and chats marked deleted.\<close>

theorem registry_empty_at_rest:
  assumes "reachable l" "\<And>r. r < nR l \<Longrightarrow> phase (R l r) \<in> {Refused, Retired, Done}"
  shows "runs l = Map.empty \<and> requests l = Map.empty \<and> (\<forall>k s. threads l k = Some s \<longrightarrow> deleted (S l s))"
proof -
  have inv: "Inv l" by (rule reachable_inv[OF assms(1)])
  have nl: "\<not> live (phase (R l r)) \<and> phase (R l r) \<noteq> Reserved" if "r < nR l" for r using assms(2)[OF that] by auto
  have "runs l k = None" for k using runsOk_D(1,3)[OF InvX_D(4)[OF inv], of k] nl by (cases "runs l k") auto
  moreover have "requests l k = None" for k using requestsOk_D(1,3)[OF InvX_D(5)[OF inv], of k] nl by (cases "requests l k") auto
  moreover have "deleted (S l s)" if "threads l k = Some s" for k s
  proof -
    note c = threadsOk_D[OF InvX_D(3)[OF inv] that]
    have "Active (S l s) = None" using active_run(1,3)[OF inv c(1)] nl occupying_live by (cases "Active (S l s)") blast+
    then show ?thesis using c(3) by simp
  qed
  ultimately show ?thesis by (auto simp: fun_eq_iff)
qed

theorem registry_empty_at_rest_witness: "runs (Stop emptyRuns) = Map.empty \<and> requests (Stop emptyRuns) = Map.empty"
proof -
  have "reachable (Stop emptyRuns)" by (rule reachable.step[OF reachable.start liveStep.Stop])
  moreover have "nR (Stop emptyRuns) = 0" by (simp add: Stop_def registered_def emptyRuns_def)
  ultimately show ?thesis using registry_empty_at_rest[of "Stop emptyRuns"] by simp
qed


text \<open>A reply that ends hands its chat to the first queued turn, when the chat goes on, is
  not deleted and the service is not closing.  Otherwise every queued turn ends, none
  starts and the chat leaves the registry.  Either way the run is no longer found.\<close>

theorem chat_handed_on:
  assumes "reachable l" "r < nR l" "occupying (phase (R l r))" "s = Thread (R l r)" "advance r goOn l = (l', next)"
  shows "(\<forall>k. runs l' k \<noteq> Some r \<and> requests l' k \<noteq> Some r) \<and>
    (if goOn \<and> \<not> deleted (S l s) \<and> \<not> closing l \<and> Queue (S l s) \<noteq> []
     then next = Some (hd (Queue (S l s))) \<and> Active (S l' s) = next \<and> Queue (S l' s) = tl (Queue (S l s)) \<and>
       phase (R l' (hd (Queue (S l s)))) = Launching \<and> threads l' = threads l
     else next = None \<and> Active (S l' s) = None \<and> Queue (S l' s) = [] \<and> threads l' (skey (S l s)) = None \<and>
       (\<forall>q \<in> set (Queue (S l s)). phase (R l' q) = Done \<and> runs l' (rkey l q) = None))"
proof -
  have inv: "Inv l" by (rule reachable_inv[OF assms(1)])
  have sn: "s < nS l" and reg: "threads l (skey (S l s)) = Some s"
    using live_run_chat[OF inv assms(2) _ assms(4)] assms(3) by simp_all
  have rk: "runs l (rkey l q) = Some q" if "q \<in> set (Queue (S l s))" for q
    using InvX_D(2)[OF inv queued_run(1)[OF inv sn that]] queued_run(3)[OF inv sn that] by (simp add: runOk_def)
  note eq = advance_eq[OF inv assms(2,3,4), of goOn, unfolded assms(5)]
  show ?thesis
  proof (cases "goOn \<and> \<not> deleted (S l s) \<and> \<not> closing l \<and> Queue (S l s) \<noteq> []")
    case True
    then show ?thesis using eq by (simp add: dropIdle_def makeActive_def)
  next
    case False
    then have "l' = dropIdle s (updS s (\<lambda>x. x\<lparr>Queue := []\<rparr>) (ended (set (Queue (S l s))) (retired r s l)))" "next = None"
      using eq by auto
    moreover have "dropped E m k = None" if "m k = Some q" "q \<in> E" for E m k q using that by (simp add: dropped_def)
    ultimately show ?thesis using False reg rk by (simp add: dropIdle_def skey_def dropped_twice)
  qed
qed

theorem chat_handed_on_witness:
  "snd (advance 0 True run2) = Some 1 \<and> Active (S (fst (advance 0 True run2)) 0) = Some 1 \<and>
   snd (advance 0 False run2) = None \<and> threads (fst (advance 0 False run2)) (skey (S run2 0)) = None"
proof -
  have a: "advance 0 g run2 = (fst (advance 0 g run2), snd (advance 0 g run2))" for g by simp
  show ?thesis
    using chat_handed_on[OF run2_reachable _ _ _ a[of True]] chat_handed_on[OF run2_reachable _ _ _ a[of False]] run2_state
    by simp
qed

end
