(* ===== verification/Go_Sort.thy ===== *)
theory Go_Sort
  imports Prelude "HOL-Library.Multiset"
begin

text \<open>Sorting as the program does it: \<^verbatim>\<open>sort.Slice\<close> with a comparison, and the byte order of strings.
  Where the comparison leaves elements unordered the library's order is unspecified; this one keeps
  the given order, and the components that rely on more compare by id last.\<close>

fun insertBy :: "('a \<Rightarrow> 'a \<Rightarrow> bool) \<Rightarrow> 'a \<Rightarrow> 'a list \<Rightarrow> 'a list" where
  "insertBy lt x [] = [x]"
| "insertBy lt x (y # ys) = (if lt y x then y # insertBy lt x ys else x # y # ys)"

definition sortSlice :: "('a \<Rightarrow> 'a \<Rightarrow> bool) \<Rightarrow> 'a list \<Rightarrow> 'a list" where
  "sortSlice lt xs = foldr (insertBy lt) xs []"

text \<open>Strings compare byte by byte.\<close>

fun strLess :: "string \<Rightarrow> string \<Rightarrow> bool" where
  "strLess _ [] = False"
| "strLess [] (d # ds) = True"
| "strLess (c # cs) (d # ds) = (byte_val c < byte_val d \<or> c = d \<and> strLess cs ds)"

lemma insertBy_mset: "mset (insertBy lt x ys) = add_mset x (mset ys)"
  by (induction ys) auto

lemma sortSlice_mset: "mset (sortSlice lt xs) = mset xs"
  by (induction xs) (simp_all add: sortSlice_def insertBy_mset)

lemma sortSlice_simps [simp]:
  "set (sortSlice lt xs) = set xs" "length (sortSlice lt xs) = length xs" "distinct (sortSlice lt xs) = distinct xs"
  using sortSlice_mset[of lt xs] by (metis mset_eq_setD, metis mset_eq_length, metis mset_eq_imp_distinct_iff)

text \<open>A strict weak order: what \<^verbatim>\<open>sort.Slice\<close> requires of its comparison.\<close>

definition weakOrder :: "('a \<Rightarrow> 'a \<Rightarrow> bool) \<Rightarrow> bool" where
  "weakOrder lt \<longleftrightarrow> (\<forall>a b. lt a b \<longrightarrow> \<not> lt b a) \<and> (\<forall>a b c. \<not> lt b a \<longrightarrow> \<not> lt c b \<longrightarrow> \<not> lt c a)"

lemma weakOrderD:
  assumes "weakOrder lt"
  shows "lt a b \<Longrightarrow> \<not> lt b a" "\<not> lt b a \<Longrightarrow> \<not> lt c b \<Longrightarrow> \<not> lt c a"
  using assms unfolding weakOrder_def by blast+

lemma insertBy_sorted:
  assumes w: "weakOrder lt" and s: "sorted_wrt (\<lambda>a b. \<not> lt b a) ys"
  shows "sorted_wrt (\<lambda>a b. \<not> lt b a) (insertBy lt x ys)"
  using s
proof (induction ys)
  case (Cons y ys)
  have st: "set (insertBy lt x ys) = insert x (set ys)" using insertBy_mset[of lt x ys] by (metis set_mset_add_mset_insert set_mset_mset)
  show ?case
  proof (cases "lt y x")
    case True
    then have "\<not> lt x y" by (rule weakOrderD(1)[OF w])
    then show ?thesis using Cons True st by simp
  next
    case False
    have "\<not> lt z x" if "z \<in> set ys" for z
    proof -
      have "\<not> lt z y" using Cons.prems that by simp
      then show ?thesis by (rule weakOrderD(2)[OF w False])
    qed
    then show ?thesis using Cons.prems False by simp
  qed
qed simp

lemma sortSlice_sorted: "weakOrder lt \<Longrightarrow> sorted_wrt (\<lambda>a b. \<not> lt b a) (sortSlice lt xs)"
  by (induction xs) (simp_all add: sortSlice_def insertBy_sorted)

lemma strLess_linear:
  "strLess a b \<Longrightarrow> \<not> strLess b a" "\<not> strLess a b \<Longrightarrow> \<not> strLess b a \<Longrightarrow> a = b"
  "strLess a b \<Longrightarrow> strLess b c \<Longrightarrow> strLess a c"
proof -
  show "strLess a b \<Longrightarrow> \<not> strLess b a" by (induction a b rule: strLess.induct) auto
  show "\<not> strLess a b \<Longrightarrow> \<not> strLess b a \<Longrightarrow> a = b"
  proof (induction a b rule: strLess.induct)
    case (1 a) then show ?case by (cases a) auto
  next
    case (3 c cs d ds)
    then have "byte_val c = byte_val d" by auto
    then show ?case using 3 by simp
  qed simp
  show "strLess a b \<Longrightarrow> strLess b c \<Longrightarrow> strLess a c"
  proof (induction a b arbitrary: c rule: strLess.induct)
    case (2 d ds) then show ?case by (cases c) auto
  next
    case (3 x xs y ys) then show ?case by (cases c) auto
  qed simp
qed

end
