(* ===== verification/Search_Index.thy ===== *)
theory Search_Index
  imports Go_Sort Base64 "HOL-Library.AList" "HOL-Library.Word" "HOL-Library.Multiset" Complex_Main
begin

text \<open>The per-user search index, \<^verbatim>\<open>internal/searchindex/index.go\<close>: slots, entries and
  postings, their updates, compaction, the checks of \<^verbatim>\<open>Decode\<close> and the ranking of
  \<^verbatim>\<open>Search\<close>.  Go maps are association lists with distinct keys, in any order.  Reading a
  slice out of range is the error \<open>Panicked\<close>.  JSON, time parsing and floating-point
  arithmetic are arguments.\<close>

section \<open>Data\<close>

type_synonym Vector = "8 word list"

record Entry =
  Slot :: int
  ETag :: string
  SourceRevision :: int
  UpdatedAt :: string
  Vectors :: "Vector list"
  EmbeddingPending :: bool
  EmbeddingKeyID :: string

record ReindexProgress =
  NextCursor :: string
  TargetSourceRevision :: int
  StartedAt :: string

record Index =
  Version :: int
  Model :: string
  Dims :: int
  Incomplete :: bool
  Reindex :: "ReindexProgress option"
  Slots :: "string list"
  Chats :: "(string \<times> Entry) list"
  Postings :: "(string \<times> int list) list"
  dead :: nat

datatype index_error = ErrJSON | ErrFormat | ErrSlotCount | ErrSlotTable | ErrTombstones | ErrChatCount | ErrReindex
  | ErrRevision | ErrKeyID | ErrKeyNeedsPending | ErrChunks | ErrEmptyVector | ErrVectorDims | ErrToken | ErrPostingEmpty
  | ErrPostingLong | ErrPostingSlot | ErrPostingOrder | ErrPostingTotal | ErrID | ErrTooLarge | ErrNoChat | Panicked

definition FormatVersion :: int where "FormatVersion = 1"
definition MaxChats :: nat where "MaxChats = 50000"
definition MaxTokensPerChat :: nat where "MaxTokensPerChat = 512"
definition MaxChunksPerChat :: nat where "MaxChunksPerChat = 8"
definition minTokenLen :: nat where "minTokenLen = 2"
definition maxTokenLen :: nat where "maxTokenLen = 40"
definition maxIdentifierLen :: nat where "maxIdentifierLen = 64"
definition compactionMinDead :: nat where "compactionMinDead = 64"
definition rrfCandidateDepth :: nat where "rrfCandidateDepth = 128"
definition maxReindexCursorLength :: nat where "maxReindexCursorLength = 4096"
definition maxSerializedSlots :: nat where "maxSerializedSlots = MaxChats * 2"

lemmas index_limits = FormatVersion_def MaxChats_def MaxTokensPerChat_def MaxChunksPerChat_def minTokenLen_def
  maxTokenLen_def maxIdentifierLen_def compactionMinDead_def rrfCandidateDepth_def maxReindexCursorLength_def
  maxSerializedSlots_def

text \<open>A vector travels as base64 of its bytes, in quotes.\<close>

definition int8Byte :: "8 word \<Rightarrow> char" where
  "int8Byte q = char_of (unat q)"

definition byteInt8 :: "char \<Rightarrow> 8 word" where
  "byteInt8 b = word_of_nat (byte_val b)"

definition MarshalJSON :: "Vector \<Rightarrow> bytes" where
  "MarshalJSON v = CHR 0x22 # b64Encode (map int8Byte v) @ [CHR 0x22]"

definition UnmarshalJSON :: "bytes \<Rightarrow> Vector option" where
  "UnmarshalJSON data =
    (if length data < 2 \<or> hd data \<noteq> CHR 0x22 \<or> last data \<noteq> CHR 0x22 then None
     else map_option (map byteInt8) (stdDecode (butlast (tl data))))"

section \<open>Updates\<close>

definition NewIndex :: "string \<Rightarrow> Index" where
  "NewIndex model = \<lparr>Version = FormatVersion, Model = model, Dims = 0, Incomplete = False, Reindex = None,
     Slots = [], Chats = [], Postings = [], dead = 0\<rparr>"

definition isLowerHex :: "char \<Rightarrow> bool" where
  "isLowerHex c \<longleftrightarrow> 48 \<le> byte_val c \<and> byte_val c \<le> 57 \<or> 97 \<le> byte_val c \<and> byte_val c \<le> 102"

definition validEmbeddingKeyID :: "string \<Rightarrow> bool" where
  "validEmbeddingKeyID keyID \<longleftrightarrow> keyID = [] \<or> length keyID = 32 \<and> list_all isLowerHex keyID"

definition validPostingToken :: "string \<Rightarrow> bool" where
  "validPostingToken tok \<longleftrightarrow> minTokenLen \<le> length tok \<and> length tok \<le> maxIdentifierLen"

fun vectorDims :: "int \<Rightarrow> Vector list \<Rightarrow> index_error + int" where
  "vectorDims dims [] = Inr dims"
| "vectorDims dims (v # vs) =
    (if v = [] then Inl ErrEmptyVector
     else if dims = 0 then vectorDims (int (length v)) vs
     else if int (length v) \<noteq> dims then Inl ErrVectorDims
     else vectorDims dims vs)"

definition validatedVectorDims :: "int \<Rightarrow> Vector list \<Rightarrow> index_error + int" where
  "validatedVectorDims indexDims vectors =
    (if length vectors > MaxChunksPerChat then Inl ErrChunks else vectorDims indexDims vectors)"

definition postingOf :: "(string \<times> int list) list \<Rightarrow> string \<Rightarrow> int list" where
  "postingOf P tok = (case map_of P tok of None \<Rightarrow> [] | Some ss \<Rightarrow> ss)"

fun postTokens :: "int \<Rightarrow> string list \<Rightarrow> string list \<Rightarrow> (string \<times> int list) list \<Rightarrow> (string \<times> int list) list" where
  "postTokens slot seen [] P = P"
| "postTokens slot seen (tok # toks) P =
    (if \<not> validPostingToken tok \<or> tok \<in> set seen then postTokens slot seen toks P
     else let P' = AList.update tok (postingOf P tok @ [slot]) P
          in if length (tok # seen) \<ge> MaxTokensPerChat then P' else postTokens slot (tok # seen) toks P')"

fun remapLoop :: "int \<Rightarrow> int \<Rightarrow> string list \<Rightarrow> (int \<times> int) list" where
  "remapLoop i n [] = []"
| "remapLoop i n (cid # ids) = (if cid = [] then remapLoop (i + 1) n ids else (i, n) # remapLoop (i + 1) (n + 1) ids)"

definition keptSlots :: "(int \<times> int) list \<Rightarrow> int list \<Rightarrow> int list" where
  "keptSlots remap ss = sort (List.map_filter (map_of remap) ss)"

definition compactPostings :: "(int \<times> int) list \<Rightarrow> (string \<times> int list) list \<Rightarrow> (string \<times> int list) list" where
  "compactPostings remap P = filter (\<lambda>(tok, ss). ss \<noteq> []) (map (\<lambda>(tok, ss). (tok, keptSlots remap ss)) P)"

text \<open>A slot that the new table does not have reads as zero from Go's map.\<close>

definition compactChats :: "(int \<times> int) list \<Rightarrow> (string \<times> Entry) list \<Rightarrow> (string \<times> Entry) list" where
  "compactChats remap cs = map (\<lambda>(cid, e). (cid, e\<lparr>Slot := (case map_of remap (Slot e) of None \<Rightarrow> 0 | Some n \<Rightarrow> n)\<rparr>)) cs"

definition maybeCompact :: "Index \<Rightarrow> Index" where
  "maybeCompact ix =
    (if dead ix < compactionMinDead \<or> dead ix \<le> length (Chats ix) then ix
     else let remap = remapLoop 0 0 (Slots ix)
          in ix\<lparr>Chats := compactChats remap (Chats ix), Postings := compactPostings remap (Postings ix),
                Slots := filter (\<lambda>cid. cid \<noteq> []) (Slots ix), dead := 0\<rparr>)"

definition inTable :: "Index \<Rightarrow> int \<Rightarrow> bool" where
  "inTable ix s \<longleftrightarrow> 0 \<le> s \<and> s < int (length (Slots ix))"

definition buryOld :: "string \<Rightarrow> Index \<Rightarrow> index_error + Index" where
  "buryOld cid ix = (case map_of (Chats ix) cid of None \<Rightarrow> Inr ix
     | Some old \<Rightarrow> if inTable ix (Slot old) then Inr (ix\<lparr>Slots := (Slots ix)[nat (Slot old) := []], dead := dead ix + 1\<rparr>)
         else Inl Panicked)"

definition placeEntry :: "string \<Rightarrow> Entry \<Rightarrow> string list \<Rightarrow> Index \<Rightarrow> Index" where
  "placeEntry cid e tokens ix = (let slot = int (length (Slots ix)) in
     ix\<lparr>Slots := Slots ix @ [cid], Chats := AList.update cid (e\<lparr>Slot := slot\<rparr>) (Chats ix),
        Postings := postTokens slot [] tokens (Postings ix)\<rparr>)"

definition Upsert :: "string \<Rightarrow> Entry \<Rightarrow> string list \<Rightarrow> Index \<Rightarrow> index_error + Index" where
  "Upsert cid e tokens ix =
    (if cid = [] then Inl ErrID
     else if SourceRevision e < 0 then Inl ErrRevision
     else if \<not> validEmbeddingKeyID (EmbeddingKeyID e) then Inl ErrKeyID
     else if \<not> EmbeddingPending e \<and> EmbeddingKeyID e \<noteq> [] then Inl ErrKeyNeedsPending
     else bindR (validatedVectorDims (Dims ix) (Vectors e)) (\<lambda>dims.
       if map_of (Chats ix) cid = None \<and> length (Chats ix) \<ge> MaxChats then Inl ErrTooLarge
       else bindR (buryOld cid (ix\<lparr>Dims := dims\<rparr>)) (\<lambda>ix. Inr (maybeCompact (placeEntry cid e tokens ix)))))"

definition RepairEmbedding :: "string \<Rightarrow> Vector list \<Rightarrow> Index \<Rightarrow> index_error + Index" where
  "RepairEmbedding cid vectors ix = (case map_of (Chats ix) cid of None \<Rightarrow> Inl ErrNoChat
     | Some entry \<Rightarrow> bindR (validatedVectorDims (Dims ix) vectors) (\<lambda>dims.
         Inr (ix\<lparr>Chats := AList.update cid (entry\<lparr>Vectors := vectors, EmbeddingPending := False, EmbeddingKeyID := []\<rparr>) (Chats ix),
                 Dims := dims\<rparr>)))"

definition MarkEmbeddingKey :: "string \<Rightarrow> string \<Rightarrow> Index \<Rightarrow> Index \<times> bool" where
  "MarkEmbeddingKey cid keyID ix = (case map_of (Chats ix) cid of None \<Rightarrow> (ix, False)
     | Some entry \<Rightarrow>
        if \<not> EmbeddingPending entry \<or> keyID = [] \<or> \<not> validEmbeddingKeyID keyID \<or> EmbeddingKeyID entry = keyID then (ix, False)
        else (ix\<lparr>Chats := AList.update cid (entry\<lparr>EmbeddingKeyID := keyID\<rparr>) (Chats ix)\<rparr>, True))"

definition Remove :: "string \<Rightarrow> Index \<Rightarrow> index_error + Index" where
  "Remove cid ix = (case map_of (Chats ix) cid of None \<Rightarrow> Inr ix
     | Some e \<Rightarrow> bindR (buryOld cid ix) (\<lambda>ix. Inr (maybeCompact (ix\<lparr>Chats := AList.delete cid (Chats ix)\<rparr>))))"

definition Compatible :: "string \<Rightarrow> Index \<Rightarrow> bool" where
  "Compatible model ix \<longleftrightarrow> Model ix = model"

definition NeedsEmbeddingRepair :: "Index \<Rightarrow> bool" where
  "NeedsEmbeddingRepair ix \<longleftrightarrow> (\<exists>(cid, e) \<in> set (Chats ix). EmbeddingPending e)"

definition NeedsEmbeddingRepairFor :: "string \<Rightarrow> Index \<Rightarrow> bool" where
  "NeedsEmbeddingRepairFor keyID ix \<longleftrightarrow>
     (\<exists>(cid, e) \<in> set (Chats ix). EmbeddingPending e \<and> (EmbeddingKeyID e = [] \<or> EmbeddingKeyID e = keyID))"

section \<open>Reading a stored index\<close>

text \<open>The slot table against the entries: the live and the dead slots.\<close>

fun slotScan :: "Index \<Rightarrow> string list \<Rightarrow> nat \<Rightarrow> nat \<Rightarrow> index_error + nat \<times> nat" where
  "slotScan ix [] live d = Inr (live, d)"
| "slotScan ix (cid # ids) live d =
    (if cid = [] then slotScan ix ids live (d + 1)
     else case map_of (Chats ix) cid of None \<Rightarrow> Inl ErrSlotTable
       | Some e \<Rightarrow> if \<not> inTable ix (Slot e) \<or> cid \<noteq> Slots ix ! nat (Slot e) then Inl ErrSlotTable
           else slotScan ix ids (live + 1) d)"

definition reindexCheck :: "(string \<Rightarrow> bool) \<Rightarrow> Index \<Rightarrow> index_error + unit" where
  "reindexCheck timeOk ix = (case Reindex ix of None \<Rightarrow> Inr ()
     | Some p \<Rightarrow> guardR (Incomplete ix \<and> NextCursor p \<noteq> [] \<and> length (NextCursor p) \<le> maxReindexCursorLength \<and>
         0 \<le> TargetSourceRevision p \<and> timeOk (StartedAt p)) ErrReindex)"

fun vectorsCheck :: "int \<Rightarrow> Vector list \<Rightarrow> index_error + unit" where
  "vectorsCheck dims [] = Inr ()"
| "vectorsCheck dims (v # vs) = (if v = [] \<or> int (length v) \<noteq> dims then Inl ErrVectorDims else vectorsCheck dims vs)"

fun entriesCheck :: "int \<Rightarrow> (string \<times> Entry) list \<Rightarrow> index_error + unit" where
  "entriesCheck dims [] = Inr ()"
| "entriesCheck dims ((cid, e) # es) =
    (if SourceRevision e < 0 then Inl ErrRevision
     else if \<not> validEmbeddingKeyID (EmbeddingKeyID e) then Inl ErrKeyID
     else if \<not> EmbeddingPending e \<and> EmbeddingKeyID e \<noteq> [] then Inl ErrKeyNeedsPending
     else if length (Vectors e) > MaxChunksPerChat then Inl ErrChunks
     else bindR (vectorsCheck dims (Vectors e)) (\<lambda>_. entriesCheck dims es))"

text \<open>The posted slots and the number of postings so far.\<close>

fun slotsCheck :: "Index \<Rightarrow> int \<Rightarrow> int list \<Rightarrow> int set \<times> nat \<Rightarrow> index_error + int set \<times> nat" where
  "slotsCheck ix prev [] (posted, tot) = Inr (posted, tot)"
| "slotsCheck ix prev (s # ss) (posted, tot) =
    (if \<not> inTable ix s then Inl ErrPostingSlot
     else if s \<le> prev then Inl ErrPostingOrder
     else if tot + 1 > length (Slots ix) * MaxTokensPerChat then Inl ErrPostingTotal
     else slotsCheck ix s ss (insert s posted, tot + 1))"

fun postingsCheck :: "Index \<Rightarrow> (string \<times> int list) list \<Rightarrow> int set \<times> nat \<Rightarrow> index_error + int set \<times> nat" where
  "postingsCheck ix [] acc = Inr acc"
| "postingsCheck ix ((tok, ss) # P) acc =
    (if \<not> validPostingToken tok then Inl ErrToken
     else if ss = [] then Inl ErrPostingEmpty
     else if length ss > length (Slots ix) then Inl ErrPostingLong
     else bindR (slotsCheck ix (-1) ss acc) (postingsCheck ix P))"

text \<open>An entry with postings and no vectors is waiting for its embedding.  The slot is read
  only for an entry without vectors.\<close>

fun markPending :: "Index \<Rightarrow> int set \<Rightarrow> (string \<times> Entry) list \<Rightarrow> index_error + (string \<times> Entry) list" where
  "markPending ix posted [] = Inr []"
| "markPending ix posted ((cid, e) # es) =
    (if Vectors e = [] \<and> \<not> inTable ix (Slot e) then Inl Panicked
     else bindR (markPending ix posted es) (\<lambda>es'.
       Inr ((cid, if Vectors e = [] \<and> Slot e \<in> posted then e\<lparr>EmbeddingPending := True\<rparr> else e) # es')))"

definition decodeChecked :: "(string \<Rightarrow> bool) \<Rightarrow> Index \<Rightarrow> index_error + Index" where
  "decodeChecked timeOk ix =
    (if Version ix \<noteq> FormatVersion then Inl ErrFormat
     else if length (Slots ix) > maxSerializedSlots then Inl ErrSlotCount
     else bindR (slotScan ix (Slots ix) 0 0) (\<lambda>(live, d).
       if live \<noteq> length (Chats ix) then Inl ErrSlotTable
       else if d \<ge> compactionMinDead \<and> d > live then Inl ErrTombstones
       else if length (Chats ix) > MaxChats then Inl ErrChatCount
       else bindR (reindexCheck timeOk ix) (\<lambda>_.
         bindR (entriesCheck (Dims ix) (Chats ix)) (\<lambda>_.
           bindR (postingsCheck ix (Postings ix) ({}, 0)) (\<lambda>(posted, tot).
             bindR (markPending ix posted (Chats ix)) (\<lambda>cs. Inr (ix\<lparr>Chats := cs, dead := d\<rparr>)))))))"

definition Decode :: "(bytes \<Rightarrow> Index option) \<Rightarrow> (string \<Rightarrow> bool) \<Rightarrow> bytes \<Rightarrow> index_error + Index" where
  "Decode unmarshal timeOk data = (case unmarshal data of None \<Rightarrow> Inl ErrJSON | Some ix \<Rightarrow> decodeChecked timeOk ix)"

section \<open>Tokens of a text\<close>

fun addTokens :: "nat \<Rightarrow> string list \<Rightarrow> string list \<Rightarrow> string list \<times> bool" where
  "addTokens maxLen [] out = (out, True)"
| "addTokens maxLen (tok # toks) out =
    (if length tok < minTokenLen \<or> length tok > maxLen \<or> tok \<in> set out then addTokens maxLen toks out
     else if length (out @ [tok]) < MaxTokensPerChat then addTokens maxLen toks (out @ [tok])
     else (out @ [tok], False))"

definition trimPunct :: "string \<Rightarrow> string" where
  "trimPunct s = rev (dropWhile (\<lambda>c. c \<in> set ''.,;:!?'') (rev (dropWhile (\<lambda>c. c \<in> set ''.,;:!?'') s)))"

text \<open>\<open>lower\<close>, \<open>idents\<close> and \<open>splitWords\<close> are the standard library's lower-casing, the matches of
  the identifier pattern and the runs of letters and digits.\<close>

definition Tokenize :: "(string \<Rightarrow> string) \<Rightarrow> (string \<Rightarrow> string list) \<Rightarrow> (string \<Rightarrow> string list) \<Rightarrow> string \<Rightarrow> string list" where
  "Tokenize lower idents splitWords text =
    (case addTokens maxIdentifierLen (map trimPunct (idents (lower text))) [] of (out, room) \<Rightarrow>
       if room then fst (addTokens maxTokenLen (splitWords (lower text)) out) else out)"

section \<open>Search\<close>

text \<open>The floating-point arithmetic of the scores: addition, the inverse document frequency
  of a token in some of a number of chats, the fusion weights by rank, and the cosine of
  a query and a stored vector.\<close>

record floatOps =
  addF :: "real \<Rightarrow> real \<Rightarrow> real"
  idf :: "nat \<Rightarrow> nat \<Rightarrow> real"
  lexW :: "nat \<Rightarrow> real"
  semW :: "nat \<Rightarrow> real"
  cosine :: "real list \<Rightarrow> Vector \<Rightarrow> real"

text \<open>Go's \<^verbatim>\<open>m[k] += v\<close> on a map of floats.\<close>

definition addTo :: "floatOps \<Rightarrow> int \<Rightarrow> real \<Rightarrow> (int \<times> real) list \<Rightarrow> (int \<times> real) list" where
  "addTo F k v m = AList.update k (addF F (case map_of m k of None \<Rightarrow> 0 | Some u \<Rightarrow> u) v) m"

definition livePostings :: "Index \<Rightarrow> string \<Rightarrow> index_error + int list" where
  "livePostings ix tok = (let slots = postingOf (Postings ix) tok in
     if list_all (inTable ix) slots then Inr (filter (\<lambda>s. Slots ix ! nat s \<noteq> []) slots) else Inl Panicked)"

definition scoreOf :: "(int \<times> real) list \<Rightarrow> int \<Rightarrow> real" where
  "scoreOf m s = (case map_of m s of None \<Rightarrow> 0 | Some v \<Rightarrow> v)"

definition nameAt :: "Index \<Rightarrow> int \<Rightarrow> string" where
  "nameAt ix s = Slots ix ! nat s"

definition rankSlots :: "(int \<times> real) list \<Rightarrow> Index \<Rightarrow> index_error + int list" where
  "rankSlots scores ix =
    (if list_all (inTable ix) (map fst scores)
     then Inr (take rrfCandidateDepth (sortSlice (\<lambda>a b. if scoreOf scores a \<noteq> scoreOf scores b then scoreOf scores a > scoreOf scores b
            else strLess (nameAt ix a) (nameAt ix b)) (map fst scores)))
     else Inl Panicked)"

fun lexicalScores :: "floatOps \<Rightarrow> Index \<Rightarrow> string list \<Rightarrow> string list \<Rightarrow> (int \<times> real) list \<Rightarrow> index_error + (int \<times> real) list" where
  "lexicalScores F ix seen [] scores = Inr scores"
| "lexicalScores F ix seen (tok # toks) scores =
    (if tok \<in> set seen then lexicalScores F ix seen toks scores
     else bindR (livePostings ix tok) (\<lambda>live.
       lexicalScores F ix (tok # seen) toks
         (foldl (\<lambda>m s. addTo F s (idf F (length (Chats ix)) (length live)) m) scores live)))"

definition lexicalRanked :: "floatOps \<Rightarrow> Index \<Rightarrow> string list \<Rightarrow> index_error + int list" where
  "lexicalRanked F ix toks = bindR (lexicalScores F ix [] toks []) (\<lambda>scores. rankSlots scores ix)"

text \<open>The best cosine of an entry's vectors, none when no vector fits the query.\<close>

fun bestCosine :: "floatOps \<Rightarrow> real list \<Rightarrow> Vector list \<Rightarrow> real option \<Rightarrow> real option" where
  "bestCosine F q [] best = best"
| "bestCosine F q (v # vs) best =
    (if length v \<noteq> length q then bestCosine F q vs best
     else bestCosine F q vs (case best of None \<Rightarrow> Some (cosine F q v)
       | Some b \<Rightarrow> if cosine F q v > b then Some (cosine F q v) else Some b))"

definition semanticScores :: "floatOps \<Rightarrow> Index \<Rightarrow> real list \<Rightarrow> (int \<times> real) list" where
  "semanticScores F ix q = foldl (\<lambda>m (cid, e). case bestCosine F q (Vectors e) None of None \<Rightarrow> m
     | Some b \<Rightarrow> AList.update (Slot e) b m) [] (Chats ix)"

definition semanticRanked :: "floatOps \<Rightarrow> Index \<Rightarrow> real list \<Rightarrow> index_error + int list" where
  "semanticRanked F ix q = (if q = [] then Inr [] else rankSlots (semanticScores F ix q) ix)"

definition fuse :: "floatOps \<Rightarrow> (nat \<Rightarrow> real) \<Rightarrow> int list \<Rightarrow> (int \<times> real) list \<Rightarrow> (int \<times> real) list" where
  "fuse F w ranked m = foldl (\<lambda>m (rank, slot). addTo F slot (w rank) m) m (enumerate 0 ranked)"

definition slotOfID :: "Index \<Rightarrow> string \<Rightarrow> int" where
  "slotOfID ix cid = (case map_of (Chats ix) cid of None \<Rightarrow> 0 | Some e \<Rightarrow> Slot e)"

definition resultLess :: "Index \<Rightarrow> int list \<Rightarrow> string \<times> real \<Rightarrow> string \<times> real \<Rightarrow> bool" where
  "resultLess ix lexical a b = (let la = slotOfID ix (fst a) \<in> set lexical; lb = slotOfID ix (fst b) \<in> set lexical in
     if la \<noteq> lb then la else if snd a \<noteq> snd b then snd a > snd b else strLess (fst a) (fst b))"

definition Search :: "floatOps \<Rightarrow> Index \<Rightarrow> real list \<Rightarrow> string list \<Rightarrow> int \<Rightarrow> index_error + (string \<times> real) list" where
  "Search F ix queryVec queryTokens limit =
    (if limit \<le> 0 \<or> Chats ix = [] then Inr []
     else bindR (lexicalRanked F ix queryTokens) (\<lambda>lexical.
       bindR (semanticRanked F ix queryVec) (\<lambda>semantic.
         let fused = fuse F (semW F) semantic (fuse F (lexW F) lexical []);
             results = map (\<lambda>(slot, score). (nameAt ix slot, score)) fused
         in Inr (take (nat limit) (sortSlice (resultLess ix lexical) results)))))"


section \<open>The index invariant\<close>

definition entryOk :: "int \<Rightarrow> Entry \<Rightarrow> bool" where
  "entryOk dims e \<longleftrightarrow> 0 \<le> SourceRevision e \<and> validEmbeddingKeyID (EmbeddingKeyID e) \<and>
     (\<not> EmbeddingPending e \<longrightarrow> EmbeddingKeyID e = []) \<and> length (Vectors e) \<le> MaxChunksPerChat \<and>
     (\<forall>v \<in> set (Vectors e). v \<noteq> [] \<and> int (length v) = dims)"

definition chatsOk :: "Index \<Rightarrow> bool" where
  "chatsOk ix \<longleftrightarrow> (\<forall>cid e. map_of (Chats ix) cid = Some e \<longrightarrow>
     cid \<noteq> [] \<and> inTable ix (Slot e) \<and> nameAt ix (Slot e) = cid \<and> entryOk (Dims ix) e)"

definition tableOk :: "Index \<Rightarrow> bool" where
  "tableOk ix \<longleftrightarrow> (\<forall>s. inTable ix s \<and> nameAt ix s \<noteq> [] \<longrightarrow>
     (\<exists>e. map_of (Chats ix) (nameAt ix s) = Some e \<and> Slot e = s))"

definition postingOk :: "int \<Rightarrow> string \<Rightarrow> int list \<Rightarrow> bool" where
  "postingOk n tok ss \<longleftrightarrow> validPostingToken tok \<and> ss \<noteq> [] \<and> sorted_wrt (<) ss \<and> (\<forall>s \<in> set ss. 0 \<le> s \<and> s < n)"

definition postingsOk :: "int \<Rightarrow> (string \<times> int list) list \<Rightarrow> bool" where
  "postingsOk n P \<longleftrightarrow> distinct (map fst P) \<and> (\<forall>tok ss. map_of P tok = Some ss \<longrightarrow> postingOk n tok ss) \<and>
     (\<forall>s. card {tok. s \<in> set (postingOf P tok)} \<le> MaxTokensPerChat)"

definition wfTable :: "Index \<Rightarrow> bool" where
  "wfTable ix \<longleftrightarrow> Version ix = FormatVersion \<and> distinct (map fst (Chats ix)) \<and> length (Chats ix) \<le> MaxChats \<and>
     dead ix = length (filter (\<lambda>cid. cid = []) (Slots ix)) \<and> chatsOk ix \<and> tableOk ix \<and>
     postingsOk (int (length (Slots ix))) (Postings ix)"

text \<open>What every operation leaves: the tables agree, and tombstones are few or no more than
  the live chats.\<close>

definition wfIndex :: "Index \<Rightarrow> bool" where
  "wfIndex ix \<longleftrightarrow> wfTable ix \<and> (dead ix < compactionMinDead \<or> dead ix \<le> length (Chats ix))"

text \<open>The abstract index: which chats have a token, and each chat's record.\<close>

definition hasToken :: "Index \<Rightarrow> string \<Rightarrow> string \<Rightarrow> bool" where
  "hasToken ix tok cid \<longleftrightarrow> cid \<noteq> [] \<and> (\<exists>s \<in> set (postingOf (Postings ix) tok). nameAt ix s = cid)"

definition recordOf :: "Index \<Rightarrow> string \<Rightarrow> Entry option" where
  "recordOf ix cid = map_option (\<lambda>e. e\<lparr>Slot := 0\<rparr>) (map_of (Chats ix) cid)"

subsection \<open>The tokens one chat contributes\<close>

fun takenTokens :: "string list \<Rightarrow> string list \<Rightarrow> string list" where
  "takenTokens seen [] = []"
| "takenTokens seen (tok # toks) =
    (if \<not> validPostingToken tok \<or> tok \<in> set seen then takenTokens seen toks
     else tok # (if length seen + 1 \<ge> MaxTokensPerChat then [] else takenTokens (tok # seen) toks))"

lemma takenTokens_props:
  "length seen < MaxTokensPerChat \<Longrightarrow> length (takenTokens seen toks) + length seen \<le> MaxTokensPerChat"
  "distinct (takenTokens seen toks)" "set (takenTokens seen toks) \<inter> set seen = {}"
  "tok \<in> set (takenTokens seen toks) \<Longrightarrow> validPostingToken tok \<and> tok \<in> set toks"
  by (induction seen toks rule: takenTokens.induct) (auto simp: MaxTokensPerChat_def split: if_splits)

lemma takenTokens_all:
  assumes "distinct toks" "list_all validPostingToken toks" "set toks \<inter> set seen = {}"
    "length seen + length toks \<le> MaxTokensPerChat"
  shows "takenTokens seen toks = toks"
  using assms
proof (induction seen toks rule: takenTokens.induct)
  case (2 seen tok toks)
  have "toks = []" if "length seen + 1 \<ge> MaxTokensPerChat" using 2(6) that by (cases toks) simp_all
  then show ?case using 2 by auto
qed simp

lemma postingOf_update: "postingOf (AList.update tok ss P) t = (if t = tok then ss else postingOf P t)"
  by (simp add: postingOf_def update_conv')

lemma map_of_postTokens:
  "map_of (postTokens slot seen toks P) t =
    (if t \<in> set (takenTokens seen toks) then Some (postingOf P t @ [slot]) else map_of P t)"
proof (induction slot seen toks P rule: postTokens.induct)
  case (2 slot seen tok toks P)
  have "tok \<notin> set (takenTokens (tok # seen) toks)" using takenTokens_props(3)[of "tok # seen" toks] by auto
  then show ?case using 2 by (auto simp: Let_def update_conv' postingOf_update postingOf_def)
qed simp

lemma distinct_postTokens: "distinct (map fst P) \<Longrightarrow> distinct (map fst (postTokens slot seen toks P))"
  by (induction slot seen toks P rule: postTokens.induct) (auto simp: Let_def distinct_update)

lemma postingOf_map: "map_of P t = Some ss \<Longrightarrow> postingOf P t = ss"
  by (simp add: postingOf_def)

lemma postingsOk_bound:
  assumes "postingsOk n P" "s \<in> set (postingOf P t)"
  shows "0 \<le> s" "s < n"
  using assms by (auto simp: postingsOk_def postingOk_def postingOf_def split: option.splits)

lemma postTokens_ok:
  assumes ok: "postingsOk n P" and n: "0 \<le> n"
  shows "postingsOk (n + 1) (postTokens n [] toks P)" (is "postingsOk _ ?P")
  unfolding postingsOk_def
proof (intro conjI allI impI)
  show "distinct (map fst ?P)" using ok by (simp add: postingsOk_def distinct_postTokens)
next
  fix tok ss assume a: "map_of ?P tok = Some ss"
  show "postingOk (n + 1) tok ss"
  proof (cases "tok \<in> set (takenTokens [] toks)")
    case True
    then have ss: "ss = postingOf P tok @ [n]" using a by (simp add: map_of_postTokens)
    have "sorted_wrt (<) (postingOf P tok)" using ok by (auto simp: postingsOk_def postingOk_def postingOf_def split: option.splits)
    then have "sorted_wrt (<) ss" using postingsOk_bound[OF ok] by (simp add: ss sorted_wrt_append)
    moreover have "\<forall>s \<in> set ss. 0 \<le> s \<and> s < n + 1" using postingsOk_bound[OF ok] n by (fastforce simp: ss)
    ultimately show ?thesis using takenTokens_props(4)[OF True] by (simp add: postingOk_def ss)
  next
    case False
    then have "postingOk n tok ss" using a ok by (simp add: map_of_postTokens postingsOk_def)
    then show ?thesis by (auto simp: postingOk_def)
  qed
next
  fix s
  have eq: "postingOf ?P t = postingOf P t @ (if t \<in> set (takenTokens [] toks) then [n] else [])" for t
    by (simp add: postingOf_def map_of_postTokens split: option.splits)
  show "card {tok. s \<in> set (postingOf ?P tok)} \<le> MaxTokensPerChat"
  proof (cases "s = n")
    case True
    then have "{tok. s \<in> set (postingOf ?P tok)} = set (takenTokens [] toks)" using postingsOk_bound(2)[OF ok] by (auto simp: eq)
    then show ?thesis using takenTokens_props(1)[of "[]" toks] card_length[of "takenTokens [] toks"]
      by (simp add: MaxTokensPerChat_def)
  next
    case False
    then have "{tok. s \<in> set (postingOf ?P tok)} = {tok. s \<in> set (postingOf P tok)}" by (auto simp: eq split: if_splits)
    then show ?thesis using ok by (simp add: postingsOk_def)
  qed
qed

subsection \<open>Compaction\<close>

definition rankOf :: "string list \<Rightarrow> nat \<Rightarrow> nat" where
  "rankOf ids k = length (filter (\<lambda>cid. cid \<noteq> []) (take k ids))"

lemma rankOf_Suc: "k < length ids \<Longrightarrow> rankOf ids (Suc k) = rankOf ids k + (if ids ! k = [] then 0 else 1)"
  by (simp add: rankOf_def take_Suc_conv_app_nth)

lemma rankOf_mono: "j \<le> k \<Longrightarrow> rankOf ids j \<le> rankOf ids k"
proof -
  assume "j \<le> k"
  then have "take k ids = take j ids @ take (k - j) (drop j ids)" by (metis le_add_diff_inverse take_add)
  then show ?thesis by (simp add: rankOf_def)
qed

lemma rankOf_strict: "j < k \<Longrightarrow> k \<le> length ids \<Longrightarrow> ids ! j \<noteq> [] \<Longrightarrow> rankOf ids j < rankOf ids k"
  using rankOf_mono[of "Suc j" k ids] rankOf_Suc[of j ids] by simp

lemma nth_rankOf:
  assumes "k < length ids" "ids ! k \<noteq> []"
  shows "rankOf ids k < length (filter (\<lambda>cid. cid \<noteq> []) ids)" "filter (\<lambda>cid. cid \<noteq> []) ids ! rankOf ids k = ids ! k"
proof -
  have "ids = take k ids @ ids ! k # drop (Suc k) ids" using assms(1) by (rule id_take_nth_drop)
  then have eq: "filter (\<lambda>cid. cid \<noteq> []) ids =
      filter (\<lambda>cid. cid \<noteq> []) (take k ids) @ ids ! k # filter (\<lambda>cid. cid \<noteq> []) (drop (Suc k) ids)"
    using assms(2) by (metis (mono_tags, lifting) filter.simps(2) filter_append)
  show "rankOf ids k < length (filter (\<lambda>cid. cid \<noteq> []) ids)" "filter (\<lambda>cid. cid \<noteq> []) ids ! rankOf ids k = ids ! k"
    unfolding eq by (simp_all add: rankOf_def nth_append)
qed

lemma rankOf_surj:
  assumes "j < length (filter (\<lambda>cid. cid \<noteq> []) ids)"
  shows "\<exists>k < length ids. ids ! k \<noteq> [] \<and> rankOf ids k = j"
  using assms
proof (induction ids rule: rev_induct)
  case (snoc c ids)
  show ?case
  proof (cases "j < length (filter (\<lambda>cid. cid \<noteq> []) ids)")
    case True
    from snoc.IH[OF this] obtain k where "k < length ids" "ids ! k \<noteq> []" "rankOf ids k = j" by auto
    then show ?thesis by (intro exI[of _ k]) (simp add: nth_append rankOf_def)
  next
    case False
    then have "c \<noteq> []" "j = length (filter (\<lambda>cid. cid \<noteq> []) ids)" using snoc.prems by (auto split: if_splits)
    then show ?thesis by (intro exI[of _ "length ids"]) (simp add: rankOf_def)
  qed
qed simp

lemma map_of_remapLoop:
  "map_of (remapLoop i n ids) k =
    (if i \<le> k \<and> k < i + int (length ids) \<and> ids ! nat (k - i) \<noteq> [] then Some (n + int (rankOf ids (nat (k - i)))) else None)"
proof (induction i n ids rule: remapLoop.induct)
  case (2 i n c ids)
  have shift: "rankOf (c # ids) (Suc m) = (if c = [] then 0 else 1) + rankOf ids m" for m by (simp add: rankOf_def)
  show ?case
  proof (cases "k \<le> i")
    case True
    then show ?thesis using 2 by (auto simp: rankOf_def)
  next
    case False
    then have k: "nat (k - i) = Suc (nat (k - (i + 1)))" by linarith
    show ?thesis using 2 False by (auto simp: k shift)
  qed
qed simp

lemma remap_slot:
  "map_of (remapLoop 0 0 (Slots ix)) s =
    (if inTable ix s \<and> nameAt ix s \<noteq> [] then Some (int (rankOf (Slots ix) (nat s))) else None)"
  by (simp add: map_of_remapLoop inTable_def nameAt_def)

lemma remap_mono:
  assumes "map_of (remapLoop 0 0 ids) s = Some a" "map_of (remapLoop 0 0 ids) t = Some b" "s < t"
  shows "a < b"
  using assms rankOf_strict[of "nat s" "nat t" ids] by (auto simp: map_of_remapLoop split: if_splits)

lemma map_filter_sorted:
  assumes "sorted_wrt (<) (ss :: int list)" "\<And>s t a b. f s = Some a \<Longrightarrow> f t = Some b \<Longrightarrow> s < t \<Longrightarrow> a < (b :: int)"
  shows "sorted_wrt (<) (List.map_filter f ss)"
  using assms(1)
proof (induction ss)
  case (Cons s ss)
  have "a < b" if "f s = Some a" "b \<in> set (List.map_filter f ss)" for a b
    using that Cons.prems assms(2) by (auto simp: List.map_filter_def)
  then show ?case using Cons by (auto simp: List.map_filter_simps split: option.splits)
qed (simp add: List.map_filter_simps)

lemma keptSlots_eq:
  assumes "sorted_wrt (<) ss"
  shows "keptSlots (remapLoop 0 0 ids) ss = List.map_filter (map_of (remapLoop 0 0 ids)) ss"
    "sorted_wrt (<) (keptSlots (remapLoop 0 0 ids) ss)"
proof -
  have s: "sorted_wrt (<) (List.map_filter (map_of (remapLoop 0 0 ids)) ss)"
    using map_filter_sorted[OF assms] remap_mono by blast
  then have "sorted (List.map_filter (map_of (remapLoop 0 0 ids)) ss)" by (simp add: strict_sorted_imp_sorted)
  then show eq: "keptSlots (remapLoop 0 0 ids) ss = List.map_filter (map_of (remapLoop 0 0 ids)) ss"
    by (simp add: keptSlots_def sorted_sort_id)
  show "sorted_wrt (<) (keptSlots (remapLoop 0 0 ids) ss)" using s by (simp add: eq)
qed

lemma map_of_compactPostings:
  assumes "distinct (map fst P)"
  shows "map_of (compactPostings remap P) tok =
    (case map_of P tok of None \<Rightarrow> None | Some ss \<Rightarrow> if keptSlots remap ss = [] then None else Some (keptSlots remap ss))"
  using assms
proof (induction P)
  case (Cons a P)
  obtain t ss where a: "a = (t, ss)" by (cases a)
  have out: "map_of P t = None" using Cons.prems by (simp add: a map_of_eq_None_iff)
  have step: "compactPostings remap ((t, ss) # P) = (if keptSlots remap ss = [] then [] else [(t, keptSlots remap ss)]) @ compactPostings remap P"
    by (simp add: compactPostings_def)
  show ?case using Cons out by (auto simp: step a)
qed (simp add: compactPostings_def)

lemma distinct_compactPostings: "distinct (map fst P) \<Longrightarrow> distinct (map fst (compactPostings remap P))"
  by (induction P) (force simp: compactPostings_def)+

lemma postingOf_compact:
  assumes "distinct (map fst P)"
  shows "postingOf (compactPostings remap P) tok = keptSlots remap (postingOf P tok)"
  by (simp add: postingOf_def map_of_compactPostings[OF assms] keptSlots_def List.map_filter_simps split: option.splits)

lemma map_of_compactChats:
  "map_of (compactChats remap cs) cid =
    map_option (\<lambda>e. e\<lparr>Slot := (case map_of remap (Slot e) of None \<Rightarrow> 0 | Some n \<Rightarrow> n)\<rparr>) (map_of cs cid)"
  by (induction cs) (auto simp: compactChats_def)

lemma set_keptSlots: "x \<in> set (keptSlots remap ss) \<longleftrightarrow> (\<exists>s \<in> set ss. map_of remap s = Some x)"
  by (force simp: keptSlots_def List.map_filter_def)


definition dropDead :: "string list \<Rightarrow> string list" where
  "dropDead ids = filter (\<lambda>cid. cid \<noteq> []) ids"

text \<open>The live slots and the chats are one to one.\<close>

lemma live_slots:
  assumes "distinct (map fst (Chats ix))" "chatsOk ix" "tableOk ix"
  shows "distinct (dropDead (Slots ix))" "set (dropDead (Slots ix)) = fst ` set (Chats ix)"
    "length (dropDead (Slots ix)) = length (Chats ix)"
proof -
  have inj: "j = k" if "j < length (Slots ix)" "k < length (Slots ix)" "Slots ix ! j = Slots ix ! k" "Slots ix ! j \<noteq> []" for j k
  proof -
    have "inTable ix (int j)" "nameAt ix (int j) \<noteq> []" "inTable ix (int k)" "nameAt ix (int k) \<noteq> []"
      "nameAt ix (int j) = nameAt ix (int k)" using that by (simp_all add: inTable_def nameAt_def)
    then have "\<exists>e. map_of (Chats ix) (nameAt ix (int k)) = Some e \<and> Slot e = int j"
      "\<exists>e. map_of (Chats ix) (nameAt ix (int k)) = Some e \<and> Slot e = int k"
      using assms(3) unfolding tableOk_def by metis+
    then have "int j = int k" by auto
    then show ?thesis by simp
  qed
  show d: "distinct (dropDead (Slots ix))"
    unfolding distinct_conv_nth
  proof (intro allI impI)
    fix a b assume ab: "a < length (dropDead (Slots ix))" "b < length (dropDead (Slots ix))" "a \<noteq> b"
    obtain j where j: "j < length (Slots ix)" "Slots ix ! j \<noteq> []" "rankOf (Slots ix) j = a"
      using rankOf_surj[OF ab(1)[unfolded dropDead_def]] by auto
    obtain k where k: "k < length (Slots ix)" "Slots ix ! k \<noteq> []" "rankOf (Slots ix) k = b"
      using rankOf_surj[OF ab(2)[unfolded dropDead_def]] by auto
    have "dropDead (Slots ix) ! a = Slots ix ! j" "dropDead (Slots ix) ! b = Slots ix ! k"
      using nth_rankOf(2)[OF j(1,2)] nth_rankOf(2)[OF k(1,2)] j(3) k(3) by (simp_all add: dropDead_def)
    then show "dropDead (Slots ix) ! a \<noteq> dropDead (Slots ix) ! b" using inj[OF j(1) k(1)] j k ab(3) by auto
  qed
  show e: "set (dropDead (Slots ix)) = fst ` set (Chats ix)"
  proof (intro set_eqI iffI)
    fix c assume "c \<in> set (dropDead (Slots ix))"
    then obtain j where "j < length (Slots ix)" "Slots ix ! j = c" "c \<noteq> []" by (auto simp: dropDead_def in_set_conv_nth)
    then have "inTable ix (int j)" "nameAt ix (int j) = c" "c \<noteq> []" by (simp_all add: inTable_def nameAt_def)
    then obtain e where "map_of (Chats ix) c = Some e" using assms(3) unfolding tableOk_def by blast
    then show "c \<in> fst ` set (Chats ix)" by (metis map_of_SomeD fst_conv image_eqI)
  next
    fix c assume "c \<in> fst ` set (Chats ix)"
    then obtain e where "map_of (Chats ix) c = Some e" by (metis map_of_eq_None_iff not_None_eq)
    then have "c \<noteq> []" "inTable ix (Slot e)" "nameAt ix (Slot e) = c" using assms(2) by (auto simp: chatsOk_def)
    then show "c \<in> set (dropDead (Slots ix))" by (auto simp: dropDead_def inTable_def nameAt_def)
  qed
  have "length (dropDead (Slots ix)) = card (fst ` set (Chats ix))" using d e distinct_card by metis
  also have "\<dots> = length (Chats ix)" using assms(1) distinct_card[of "map fst (Chats ix)"] by simp
  finally show "length (dropDead (Slots ix)) = length (Chats ix)" .
qed

text \<open>Compaction keeps every chat's record and tokens, and the invariant.\<close>

definition compacted :: "Index \<Rightarrow> Index" where
  "compacted ix = (let remap = remapLoop 0 0 (Slots ix) in
     ix\<lparr>Chats := compactChats remap (Chats ix), Postings := compactPostings remap (Postings ix),
        Slots := filter (\<lambda>cid. cid \<noteq> []) (Slots ix), dead := 0\<rparr>)"

lemma compacted_simps [simp]:
  "Version (compacted ix) = Version ix" "Dims (compacted ix) = Dims ix" "Slots (compacted ix) = dropDead (Slots ix)"
  "Chats (compacted ix) = compactChats (remapLoop 0 0 (Slots ix)) (Chats ix)" "dead (compacted ix) = 0"
  "Postings (compacted ix) = compactPostings (remapLoop 0 0 (Slots ix)) (Postings ix)"
  "Model (compacted ix) = Model ix" "Incomplete (compacted ix) = Incomplete ix" "Reindex (compacted ix) = Reindex ix"
  by (simp_all add: compacted_def Let_def dropDead_def)

lemma compacted_name:
  assumes "inTable ix s" "nameAt ix s \<noteq> []"
  shows "inTable (compacted ix) (int (rankOf (Slots ix) (nat s)))" "nameAt (compacted ix) (int (rankOf (Slots ix) (nat s))) = nameAt ix s"
  using nth_rankOf[of "nat s" "Slots ix"] assms by (simp_all add: inTable_def nameAt_def dropDead_def nat_less_iff)

lemma compacted_slot:
  assumes "inTable (compacted ix) k"
  shows "\<exists>s. inTable ix s \<and> nameAt ix s \<noteq> [] \<and> k = int (rankOf (Slots ix) (nat s))"
proof -
  have "nat k < length (filter (\<lambda>cid. cid \<noteq> []) (Slots ix))" using assms by (simp add: inTable_def dropDead_def nat_less_iff)
  from rankOf_surj[OF this] obtain j where "j < length (Slots ix)" "Slots ix ! j \<noteq> []" "rankOf (Slots ix) j = nat k" by auto
  then show ?thesis using assms by (intro exI[of _ "int j"]) (simp add: inTable_def nameAt_def)
qed

lemma postings_sorted: "postingsOk n P \<Longrightarrow> sorted_wrt (<) (postingOf P tok)"
  by (auto simp: postingsOk_def postingOk_def postingOf_def split: option.splits)

lemma compacted_postingsOk:
  assumes ok: "postingsOk (int (length (Slots ix))) (Postings ix)"
  shows "postingsOk (int (length (dropDead (Slots ix)))) (Postings (compacted ix))"
  unfolding postingsOk_def
proof (intro conjI allI impI)
  let ?r = "remapLoop 0 0 (Slots ix)"
  have d: "distinct (map fst (Postings ix))" using ok by (simp add: postingsOk_def)
  then show "distinct (map fst (Postings (compacted ix)))" by (simp add: distinct_compactPostings)
  fix tok ss assume a: "map_of (Postings (compacted ix)) tok = Some ss"
  then obtain ss' where ss: "map_of (Postings ix) tok = Some ss'" "ss = keptSlots ?r ss'" "ss \<noteq> []"
    using map_of_compactPostings[OF d] by (auto split: option.splits if_splits)
  have p: "postingOk (int (length (Slots ix))) tok ss'" using ok ss(1) by (simp add: postingsOk_def)
  have "0 \<le> x \<and> x < int (length (dropDead (Slots ix)))" if "x \<in> set ss" for x
  proof -
    obtain s where "map_of ?r s = Some x" using \<open>x \<in> set ss\<close> by (auto simp: ss(2) set_keptSlots)
    then have "inTable ix s" "nameAt ix s \<noteq> []" "x = int (rankOf (Slots ix) (nat s))" by (auto simp: remap_slot split: if_splits)
    then show ?thesis using compacted_name(1)[of ix s] by (simp add: inTable_def)
  qed
  then show "postingOk (int (length (dropDead (Slots ix)))) tok ss"
    using p ss(3) keptSlots_eq(2)[of ss' "Slots ix"] by (simp add: postingOk_def ss(2))
next
  let ?r = "remapLoop 0 0 (Slots ix)"
  fix k
  have d: "distinct (map fst (Postings ix))" using ok by (simp add: postingsOk_def)
  show "card {tok. k \<in> set (postingOf (Postings (compacted ix)) tok)} \<le> MaxTokensPerChat"
  proof (cases "\<exists>s. map_of ?r s = Some k")
    case True
    then obtain s where s: "map_of ?r s = Some k" by blast
    have u: "t = s" if "map_of ?r t = Some k" for t
      using that s remap_mono[of "Slots ix" s k t k] remap_mono[of "Slots ix" t k s k] by (cases s t rule: linorder_cases) auto
    have "map_of ?r t = Some k \<longleftrightarrow> t = s" for t using u s by blast
    then have "{tok. k \<in> set (postingOf (Postings (compacted ix)) tok)} = {tok. s \<in> set (postingOf (Postings ix) tok)}"
      by (simp add: postingOf_compact[OF d] set_keptSlots)
    then show ?thesis using ok by (simp add: postingsOk_def)
  next
    case False
    then have "{tok. k \<in> set (postingOf (Postings (compacted ix)) tok)} = {}" by (auto simp: postingOf_compact[OF d] set_keptSlots)
    then show ?thesis by simp
  qed
qed


lemma wfTableD:
  assumes "wfTable ix"
  shows "distinct (map fst (Chats ix))" "chatsOk ix" "tableOk ix" "postingsOk (int (length (Slots ix))) (Postings ix)"
    "length (Chats ix) \<le> MaxChats" "dead ix = length (filter (\<lambda>cid. cid = []) (Slots ix))" "Version ix = FormatVersion"
  using assms by (simp_all add: wfTable_def)

lemma chatsOkD:
  assumes "chatsOk ix" "map_of (Chats ix) cid = Some e"
  shows "cid \<noteq> []" "inTable ix (Slot e)" "nameAt ix (Slot e) = cid" "entryOk (Dims ix) e"
  using assms by (simp_all add: chatsOk_def)

lemma tableOkD:
  assumes "tableOk ix" "inTable ix s" "nameAt ix s \<noteq> []"
  obtains e where "map_of (Chats ix) (nameAt ix s) = Some e" "Slot e = s"
  using assms unfolding tableOk_def by blast

lemma compacted_chat:
  assumes ok: "chatsOk ix" and e: "map_of (Chats ix) cid = Some e"
  shows "map_of (Chats (compacted ix)) cid = Some (e\<lparr>Slot := int (rankOf (Slots ix) (nat (Slot e)))\<rparr>)"
  using chatsOkD[OF ok e] e by (simp add: map_of_compactChats remap_slot)

lemma compacted_wf:
  assumes wf: "wfTable ix"
  shows "wfIndex (compacted ix)"
proof -
  note d = wfTableD[OF wf]
  have chats: "chatsOk (compacted ix)"
    unfolding chatsOk_def
  proof (intro allI impI)
    fix cid e' assume "map_of (Chats (compacted ix)) cid = Some e'"
    then obtain e where e: "map_of (Chats ix) cid = Some e" by (auto simp: map_of_compactChats)
    then have e': "e' = e\<lparr>Slot := int (rankOf (Slots ix) (nat (Slot e)))\<rparr>"
      using \<open>map_of (Chats (compacted ix)) cid = Some e'\<close> compacted_chat[OF d(2) e] by simp
    note c = chatsOkD[OF d(2) e]
    have "nameAt ix (Slot e) \<noteq> []" using c by simp
    then show "cid \<noteq> [] \<and> inTable (compacted ix) (Slot e') \<and> nameAt (compacted ix) (Slot e') = cid \<and> entryOk (Dims (compacted ix)) e'"
      using compacted_name[OF c(2)] c by (simp add: e' entryOk_def)
  qed
  have table: "tableOk (compacted ix)"
    unfolding tableOk_def
  proof (intro allI impI)
    fix k assume k: "inTable (compacted ix) k \<and> nameAt (compacted ix) k \<noteq> []"
    then obtain s where s: "inTable ix s" "nameAt ix s \<noteq> []" "k = int (rankOf (Slots ix) (nat s))" using compacted_slot by blast
    obtain e where e: "map_of (Chats ix) (nameAt ix s) = Some e" "Slot e = s" by (rule tableOkD[OF d(3) s(1,2)])
    show "\<exists>e. map_of (Chats (compacted ix)) (nameAt (compacted ix) k) = Some e \<and> Slot e = k"
      using compacted_chat[OF d(2) e(1)] compacted_name(2)[OF s(1,2)] e(2) s(3) by simp
  qed
  have "length (Chats (compacted ix)) = length (Chats ix)" "map fst (Chats (compacted ix)) = map fst (Chats ix)"
    by (simp_all add: compactChats_def case_prod_beta)
  then have "wfTable (compacted ix)" using d chats table compacted_postingsOk[OF d(4)]
    by (simp add: wfTable_def dropDead_def)
  then show ?thesis by (simp add: wfIndex_def compactionMinDead_def)
qed

lemma compacted_refines:
  assumes wf: "wfTable ix"
  shows "hasToken (compacted ix) tok cid = hasToken ix tok cid" "recordOf (compacted ix) cid = recordOf ix cid"
proof -
  note d = wfTableD[OF wf]
  have dp: "distinct (map fst (Postings ix))" using d(4) by (simp add: postingsOk_def)
  have "(\<exists>x \<in> set (postingOf (Postings (compacted ix)) tok). nameAt (compacted ix) x = cid) \<longleftrightarrow>
      (\<exists>s \<in> set (postingOf (Postings ix) tok). nameAt ix s = cid)" if "cid \<noteq> []"
  proof -
    have "inTable ix s" if "s \<in> set (postingOf (Postings ix) tok)" for s
      using postingsOk_bound[OF d(4) that] by (simp add: inTable_def)
    note it = this
    show ?thesis
    proof (intro iffI; elim bexE)
      fix x assume "x \<in> set (postingOf (Postings (compacted ix)) tok)" "nameAt (compacted ix) x = cid"
      then show "\<exists>s \<in> set (postingOf (Postings ix) tok). nameAt ix s = cid"
        using compacted_name(2)[of ix] by (auto simp: postingOf_compact[OF dp] set_keptSlots remap_slot split: if_splits)
    next
      fix s assume s: "s \<in> set (postingOf (Postings ix) tok)" "nameAt ix s = cid"
      then have "int (rankOf (Slots ix) (nat s)) \<in> set (postingOf (Postings (compacted ix)) tok)"
        using it[OF s(1)] \<open>cid \<noteq> []\<close> by (auto simp: postingOf_compact[OF dp] set_keptSlots remap_slot intro!: bexI[of _ s])
      then show "\<exists>x \<in> set (postingOf (Postings (compacted ix)) tok). nameAt (compacted ix) x = cid"
        using compacted_name(2)[OF it[OF s(1)]] s \<open>cid \<noteq> []\<close> by (intro bexI) simp_all
    qed
  qed
  then show "hasToken (compacted ix) tok cid = hasToken ix tok cid" unfolding hasToken_def by blast
  show "recordOf (compacted ix) cid = recordOf ix cid"
    by (cases "map_of (Chats ix) cid") (simp_all add: recordOf_def map_of_compactChats)
qed

lemma maybeCompact_cases: "maybeCompact ix = (if dead ix < compactionMinDead \<or> dead ix \<le> length (Chats ix) then ix else compacted ix)"
  by (simp add: maybeCompact_def compacted_def Let_def)

lemma maybeCompact_wf: "wfTable ix \<Longrightarrow> wfIndex (maybeCompact ix)"
  using compacted_wf by (simp add: maybeCompact_cases wfIndex_def)

lemma maybeCompact_refines:
  assumes "wfTable ix"
  shows "hasToken (maybeCompact ix) tok cid = hasToken ix tok cid" "recordOf (maybeCompact ix) cid = recordOf ix cid"
  using compacted_refines[OF assms] by (simp_all add: maybeCompact_cases)


subsection \<open>The updates\<close>

lemma vectorDims_pinned:
  assumes "d \<noteq> 0"
  shows "vectorDims d vs = Inr d' \<longleftrightarrow> d' = d \<and> (\<forall>v \<in> set vs. v \<noteq> [] \<and> int (length v) = d)"
  using assms by (induction vs) auto

lemma vectorDims_ok:
  assumes "vectorDims d vs = Inr d'"
  shows "\<forall>v \<in> set vs. v \<noteq> [] \<and> int (length v) = d'" "d' = d \<or> d = 0"
proof -
  have "(\<forall>v \<in> set vs. v \<noteq> [] \<and> int (length v) = d') \<and> (d' = d \<or> d = 0)"
  proof (cases "d = 0")
    case False
    then show ?thesis using assms by (simp add: vectorDims_pinned)
  next
    case True
    show ?thesis
    proof (cases vs)
      case (Cons v us)
      then have "v \<noteq> []" "vectorDims (int (length v)) us = Inr d'" using assms True by (simp_all split: if_splits)
      then show ?thesis using Cons True by (simp add: vectorDims_pinned)
    qed (use assms in simp)
  qed
  then show "\<forall>v \<in> set vs. v \<noteq> [] \<and> int (length v) = d'" "d' = d \<or> d = 0" by blast+
qed

lemma entryOk_dims:
  assumes "entryOk d e" "d' = d \<or> d = 0"
  shows "entryOk d' e"
proof (cases "d' = d")
  case False
  then have "Vectors e = []" using assms by (cases "Vectors e") (auto simp: entryOk_def)
  then show ?thesis using assms(1) by (simp add: entryOk_def)
qed (use assms(1) in simp)

text \<open>The names in the table after a chat's old generation is buried.\<close>

definition buried :: "string \<Rightarrow> Index \<Rightarrow> Index" where
  "buried cid ix = (case map_of (Chats ix) cid of None \<Rightarrow> ix
     | Some old \<Rightarrow> ix\<lparr>Slots := (Slots ix)[nat (Slot old) := []], dead := dead ix + 1\<rparr>)"

lemma buryOld_eq: "chatsOk ix \<Longrightarrow> buryOld cid ix = Inr (buried cid ix)"
  using chatsOkD(2)[of ix cid] by (simp add: buryOld_def buried_def split: option.splits)

lemma buried_simps [simp]:
  "Version (buried cid ix) = Version ix" "Dims (buried cid ix) = Dims ix" "Chats (buried cid ix) = Chats ix"
  "Postings (buried cid ix) = Postings ix" "length (Slots (buried cid ix)) = length (Slots ix)"
  "inTable (buried cid ix) s = inTable ix s"
  by (simp_all add: buried_def inTable_def split: option.splits)

lemma buried_name:
  assumes "wfTable ix" "inTable ix s"
  shows "nameAt (buried cid ix) s = (if nameAt ix s = cid then [] else nameAt ix s)"
proof (cases "map_of (Chats ix) cid")
  case None
  have "nameAt ix s \<noteq> cid \<or> cid = []"
    using tableOkD[OF wfTableD(3)[OF assms(1)] assms(2)] None by (metis option.distinct(1))
  then show ?thesis using None by (auto simp: buried_def nameAt_def)
next
  case (Some e)
  note c = chatsOkD[OF wfTableD(2)[OF assms(1)] Some]
  have "nameAt ix s = cid \<longleftrightarrow> s = Slot e"
  proof
    assume n: "nameAt ix s = cid"
    then have "nameAt ix s \<noteq> []" using c(1) by simp
    then obtain e' where "map_of (Chats ix) (nameAt ix s) = Some e'" "Slot e' = s" by (rule tableOkD[OF wfTableD(3)[OF assms(1)] assms(2)])
    then show "s = Slot e" using n Some by simp
  qed (use c in simp)
  then show ?thesis using Some c(2) assms(2)
    by (auto simp: buried_def nameAt_def inTable_def nth_list_update nat_eq_iff)
qed

lemma count_dead_update:
  assumes "k < length ids" "ids ! k \<noteq> []"
  shows "length (filter (\<lambda>cid. cid = []) (ids[k := []])) = Suc (length (filter (\<lambda>cid. cid = []) ids))"
proof -
  have "ids = take k ids @ ids ! k # drop (Suc k) ids" using assms(1) by (rule id_take_nth_drop)
  then have "length (filter (\<lambda>cid. cid = []) ids) = length (filter (\<lambda>cid. cid = []) (take k ids @ drop (Suc k) ids))"
    using assms(2) by (metis (mono_tags, lifting) filter.simps(2) filter_append)
  then show ?thesis using assms(1) by (simp add: upd_conv_take_nth_drop)
qed

lemma buried_dead: "wfTable ix \<Longrightarrow> dead (buried cid ix) = length (filter (\<lambda>c. c = []) (Slots (buried cid ix)))"
proof (cases "map_of (Chats ix) cid")
  case (Some e)
  assume wf: "wfTable ix"
  note c = chatsOkD[OF wfTableD(2)[OF wf] Some]
  have "nat (Slot e) < length (Slots ix)" "Slots ix ! nat (Slot e) \<noteq> []" using c by (auto simp: inTable_def nameAt_def)
  from count_dead_update[OF this] show ?thesis using Some wfTableD(6)[OF wf] by (simp add: buried_def)
qed (simp add: buried_def wfTableD(6))

text \<open>Removing a chat: the table forgets it, every other chat stays.\<close>

lemma removed_wf:
  assumes wf: "wfTable ix"
  shows "wfTable ((buried cid ix)\<lparr>Chats := AList.delete cid (Chats ix)\<rparr>)" (is "wfTable ?ix")
proof -
  note d = wfTableD[OF wf]
  have mp: "map_of (AList.delete cid (Chats ix)) c = (if c = cid then None else map_of (Chats ix) c)" for c
    by (simp add: delete_conv')
  have nm: "nameAt ?ix s = nameAt (buried cid ix) s" "inTable ?ix s = inTable ix s" for s
    by (simp_all add: nameAt_def inTable_def)
  have "chatsOk ?ix" unfolding chatsOk_def
  proof (intro allI impI)
    fix c e assume "map_of (Chats ?ix) c = Some e"
    then have b: "c \<noteq> cid" "map_of (Chats ix) c = Some e" by (simp_all add: mp split: if_splits)
    note k = chatsOkD[OF d(2) b(2)]
    show "c \<noteq> [] \<and> inTable ?ix (Slot e) \<and> nameAt ?ix (Slot e) = c \<and> entryOk (Dims ?ix) e"
      using k b(1) buried_name[OF wf k(2)] by (simp add: nm)
  qed
  moreover have "tableOk ?ix" unfolding tableOk_def
  proof (intro allI impI)
    fix s assume a: "inTable ?ix s \<and> nameAt ?ix s \<noteq> []"
    then have b: "inTable ix s" "nameAt ix s \<noteq> cid" "nameAt ?ix s = nameAt ix s" "nameAt ix s \<noteq> []"
      using buried_name[OF wf, of s cid] by (auto simp: nm split: if_splits)
    obtain e where "map_of (Chats ix) (nameAt ix s) = Some e" "Slot e = s" by (rule tableOkD[OF d(3) b(1,4)])
    then show "\<exists>e. map_of (Chats ?ix) (nameAt ?ix s) = Some e \<and> Slot e = s" unfolding b(3) using b(2) by (simp add: mp)
  qed
  moreover have "length (AList.delete cid (Chats ix)) \<le> MaxChats" by (rule le_trans[OF length_delete_le d(5)])
  ultimately show ?thesis using d buried_dead[OF wf, of cid] by (simp add: wfTable_def distinct_delete)
qed


lemma placed_name:
  assumes "inTable (placeEntry cid e toks ix) s"
  shows "nameAt (placeEntry cid e toks ix) s = (if s = int (length (Slots ix)) then cid else nameAt ix s)"
    "s = int (length (Slots ix)) \<or> inTable ix s"
  using assms by (auto simp: placeEntry_def Let_def nameAt_def inTable_def nth_append nat_less_iff nat_eq_iff)

lemma placed_simps [simp]:
  "Version (placeEntry cid e toks ix) = Version ix" "Dims (placeEntry cid e toks ix) = Dims ix"
  "length (Slots (placeEntry cid e toks ix)) = length (Slots ix) + 1" "dead (placeEntry cid e toks ix) = dead ix"
  "map_of (Chats (placeEntry cid e toks ix)) = (map_of (Chats ix))(cid \<mapsto> e\<lparr>Slot := int (length (Slots ix))\<rparr>)"
  by (simp_all add: placeEntry_def Let_def update_conv')

lemma length_update: "length (AList.update k v al) = length al + (if k \<in> fst ` set al then 0 else 1)"
  by (induction al) auto

text \<open>Recording a chat: its old generation is buried, and it gets the next slot.\<close>

lemma placed_wf:
  assumes wf: "wfTable ix" and cid: "cid \<noteq> []" and e: "entryOk (Dims ix) e"
    and room: "map_of (Chats ix) cid \<noteq> None \<or> length (Chats ix) < MaxChats"
  shows "wfTable (placeEntry cid e toks (buried cid ix))" (is "wfTable ?ix")
proof -
  note d = wfTableD[OF wf]
  let ?n = "int (length (Slots ix))"
  have it: "inTable ?ix s \<longleftrightarrow> s = ?n \<or> inTable ix s" for s by (auto simp: inTable_def)
  have nm: "nameAt ?ix s = (if s = ?n then cid else nameAt (buried cid ix) s)" if "inTable ?ix s" for s
    using placed_name(1)[OF that] by simp
  have old: "s \<noteq> ?n" if "inTable ix s" for s using that by (simp add: inTable_def)
  have "chatsOk ?ix" unfolding chatsOk_def
  proof (intro allI impI)
    fix c f assume f: "map_of (Chats ?ix) c = Some f"
    show "c \<noteq> [] \<and> inTable ?ix (Slot f) \<and> nameAt ?ix (Slot f) = c \<and> entryOk (Dims ?ix) f"
    proof (cases "c = cid")
      case True
      then have "f = e\<lparr>Slot := ?n\<rparr>" using f by simp
      then show ?thesis using True cid e nm[of ?n] by (simp add: it entryOk_def)
    next
      case False
      then have g: "map_of (Chats ix) c = Some f" using f by simp
      note k = chatsOkD[OF d(2) g]
      have "inTable ?ix (Slot f)" using k(2) by (simp add: it)
      then have "nameAt ?ix (Slot f) = c" using nm[of "Slot f"] old[OF k(2)] buried_name[OF wf k(2), of cid] k(3) False by simp
      then show ?thesis using k \<open>inTable ?ix (Slot f)\<close> by simp
    qed
  qed
  moreover have "tableOk ?ix" unfolding tableOk_def
  proof (intro allI impI, elim conjE)
    fix s assume a: "inTable ?ix s" "nameAt ?ix s \<noteq> []"
    show "\<exists>e. map_of (Chats ?ix) (nameAt ?ix s) = Some e \<and> Slot e = s"
    proof (cases "s = ?n")
      case True
      then have "nameAt ?ix s = cid" using nm[OF a(1)] by simp
      then show ?thesis using True by simp
    next
      case False
      then have t: "inTable ix s" using a(1) it by blast
      then have n: "nameAt ?ix s = nameAt ix s" "nameAt ix s \<noteq> cid" "nameAt ix s \<noteq> []"
        using nm[OF a(1)] buried_name[OF wf t, of cid] a(2) False by (simp_all split: if_splits)
      obtain f where "map_of (Chats ix) (nameAt ix s) = Some f" "Slot f = s" by (rule tableOkD[OF d(3) t n(3)])
      then show ?thesis unfolding n(1) using n(2) by simp
    qed
  qed
  moreover have "postingsOk (int (length (Slots ?ix))) (Postings ?ix)"
    using postTokens_ok[OF d(4)] by (simp add: placeEntry_def Let_def add.commute)
  moreover have "distinct (map fst (Chats ?ix))" using d(1) by (simp add: placeEntry_def Let_def distinct_update)
  moreover have "length (Chats ?ix) \<le> MaxChats"
    using room d(5) by (auto simp: placeEntry_def Let_def length_update map_of_eq_None_iff)
  moreover have "dead ?ix = length (filter (\<lambda>c. c = []) (Slots ?ix))"
    using buried_dead[OF wf, of cid] cid by (simp add: placeEntry_def Let_def)
  ultimately show ?thesis using d(7) by (simp add: wfTable_def)
qed

lemma placed_refines:
  assumes wf: "wfTable ix" and cid: "cid \<noteq> []"
  shows "hasToken (placeEntry cid e toks (buried cid ix)) tok c =
      (if c = cid then tok \<in> set (takenTokens [] toks) else hasToken ix tok c)"
    "recordOf (placeEntry cid e toks (buried cid ix)) c = (if c = cid then Some (e\<lparr>Slot := 0\<rparr>) else recordOf ix c)"
proof -
  let ?ix = "placeEntry cid e toks (buried cid ix)" and ?n = "int (length (Slots ix))"
  note d = wfTableD[OF wf]
  have post: "set (postingOf (Postings ?ix) tok) = set (postingOf (Postings ix) tok) \<union> (if tok \<in> set (takenTokens [] toks) then {?n} else {})"
    by (auto simp: placeEntry_def Let_def postingOf_def map_of_postTokens split: option.splits)
  have nn: "nameAt ?ix ?n = cid" using placed_name(1)[of cid e toks "buried cid ix" ?n] by (simp add: inTable_def)
  have old: "nameAt ?ix s = (if nameAt ix s = cid then [] else nameAt ix s)" if "s \<in> set (postingOf (Postings ix) tok)" for s
  proof -
    have t: "inTable ix s" using postingsOk_bound[OF d(4) that] by (simp add: inTable_def)
    then have "inTable ?ix s" "s \<noteq> ?n" by (auto simp: inTable_def)
    then show ?thesis using placed_name(1)[of cid e toks "buried cid ix" s] buried_name[OF wf t, of cid] by simp
  qed
  have "(\<exists>s \<in> set (postingOf (Postings ix) tok). nameAt ?ix s = c) \<longleftrightarrow> (\<exists>s \<in> set (postingOf (Postings ix) tok). nameAt ix s = c) \<and> c \<noteq> cid"
    if "c \<noteq> []" using old that by (metis (no_types, lifting))
  then show "hasToken ?ix tok c = (if c = cid then tok \<in> set (takenTokens [] toks) else hasToken ix tok c)"
    unfolding hasToken_def post using nn cid by auto
  show "recordOf ?ix c = (if c = cid then Some (e\<lparr>Slot := 0\<rparr>) else recordOf ix c)" by (simp add: recordOf_def)
qed


lemma wfIndex_table: "wfIndex ix \<Longrightarrow> wfTable ix"
  by (simp add: wfIndex_def)

lemma wfTable_dims:
  assumes "wfTable ix" "d' = Dims ix \<or> Dims ix = 0"
  shows "wfTable (ix\<lparr>Dims := d'\<rparr>)"
proof -
  note d = wfTableD[OF assms(1)]
  let ?ix = "ix\<lparr>Dims := d'\<rparr>"
  have nm: "nameAt ?ix = nameAt ix" "inTable ?ix = inTable ix" by (simp_all add: nameAt_def inTable_def fun_eq_iff)
  have "chatsOk ?ix" unfolding chatsOk_def
  proof (intro allI impI)
    fix c f assume "map_of (Chats ?ix) c = Some f"
    then have "map_of (Chats ix) c = Some f" by simp
    note k = chatsOkD[OF d(2) this]
    then show "c \<noteq> [] \<and> inTable ?ix (Slot f) \<and> nameAt ?ix (Slot f) = c \<and> entryOk (Dims ?ix) f"
      using entryOk_dims[OF k(4) assms(2)] by (simp add: nm)
  qed
  moreover have "tableOk ?ix" using d(3) by (simp add: tableOk_def nm)
  ultimately show ?thesis using d by (simp add: wfTable_def)
qed

text \<open>A successful \<^verbatim>\<open>Upsert\<close>, read off its checks.\<close>

lemma Upsert_steps:
  assumes wf: "wfIndex ix" and up: "Upsert cid e toks ix = Inr ix'"
  obtains d where "ix' = maybeCompact (placeEntry cid e toks (buried cid (ix\<lparr>Dims := d\<rparr>)))" "cid \<noteq> []"
    "wfTable (ix\<lparr>Dims := d\<rparr>)" "entryOk d e" "map_of (Chats ix) cid \<noteq> None \<or> length (Chats ix) < MaxChats"
proof -
  obtain d where d: "validatedVectorDims (Dims ix) (Vectors e) = Inr d" and chk: "cid \<noteq> []" "0 \<le> SourceRevision e"
    "validEmbeddingKeyID (EmbeddingKeyID e)" "EmbeddingPending e \<or> EmbeddingKeyID e = []"
    "map_of (Chats ix) cid \<noteq> None \<or> length (Chats ix) < MaxChats"
    and r: "bindR (buryOld cid (ix\<lparr>Dims := d\<rparr>)) (\<lambda>ix. Inr (maybeCompact (placeEntry cid e toks ix))) = Inr ix'"
    using up by (auto simp: Upsert_def result_simps not_le split: if_splits)
  have v: "length (Vectors e) \<le> MaxChunksPerChat" "vectorDims (Dims ix) (Vectors e) = Inr d"
    using d by (simp_all add: validatedVectorDims_def split: if_splits)
  note vd = vectorDims_ok[OF v(2)]
  have t: "wfTable (ix\<lparr>Dims := d\<rparr>)" by (rule wfTable_dims[OF wfIndex_table[OF wf] vd(2)])
  have "ix' = maybeCompact (placeEntry cid e toks (buried cid (ix\<lparr>Dims := d\<rparr>)))"
    using r by (simp add: buryOld_eq[OF wfTableD(2)[OF t]])
  moreover have "entryOk d e" using v chk vd(1) by (auto simp: entryOk_def)
  ultimately show ?thesis using that chk t by blast
qed

lemma Upsert_wf: "wfIndex ix \<Longrightarrow> Upsert cid e toks ix = Inr ix' \<Longrightarrow> wfIndex ix'"
proof (erule Upsert_steps, assumption)
  fix d assume "ix' = maybeCompact (placeEntry cid e toks (buried cid (ix\<lparr>Dims := d\<rparr>)))" "cid \<noteq> []"
    "wfTable (ix\<lparr>Dims := d\<rparr>)" "entryOk d e" "map_of (Chats ix) cid \<noteq> None \<or> length (Chats ix) < MaxChats"
  then show "wfIndex ix'" using placed_wf[of "ix\<lparr>Dims := d\<rparr>" cid e toks] maybeCompact_wf by simp
qed

lemma hasToken_dims [simp]: "hasToken (ix\<lparr>Dims := d\<rparr>) = hasToken ix" "recordOf (ix\<lparr>Dims := d\<rparr>) = recordOf ix"
  by (simp_all add: hasToken_def recordOf_def nameAt_def fun_eq_iff)

lemma Upsert_refines:
  assumes "wfIndex ix" "Upsert cid e toks ix = Inr ix'"
  shows "hasToken ix' tok c = (if c = cid then tok \<in> set (takenTokens [] toks) else hasToken ix tok c)"
    "recordOf ix' c = (if c = cid then Some (e\<lparr>Slot := 0\<rparr>) else recordOf ix c)"
proof -
  obtain d where ix': "ix' = maybeCompact (placeEntry cid e toks (buried cid (ix\<lparr>Dims := d\<rparr>)))" and c: "cid \<noteq> []"
    and t: "wfTable (ix\<lparr>Dims := d\<rparr>)" "entryOk d e" "map_of (Chats ix) cid \<noteq> None \<or> length (Chats ix) < MaxChats"
    using assms by (rule Upsert_steps)
  have w: "wfTable (placeEntry cid e toks (buried cid (ix\<lparr>Dims := d\<rparr>)))" by (rule placed_wf[OF t(1) c]) (use t in simp_all)
  show "hasToken ix' tok c = (if c = cid then tok \<in> set (takenTokens [] toks) else hasToken ix tok c)"
    "recordOf ix' c = (if c = cid then Some (e\<lparr>Slot := 0\<rparr>) else recordOf ix c)"
    using maybeCompact_refines[OF w] placed_refines[OF t(1) c] by (simp_all add: ix')
qed

lemma Remove_eq:
  assumes "wfIndex ix"
  shows "Remove cid ix = Inr (if map_of (Chats ix) cid = None then ix
     else maybeCompact ((buried cid ix)\<lparr>Chats := AList.delete cid (Chats ix)\<rparr>))"
  using buryOld_eq[OF wfTableD(2)[OF wfIndex_table[OF assms]], of cid] by (auto simp: Remove_def split: option.splits)

lemma Remove_wf: "wfIndex ix \<Longrightarrow> Remove cid ix = Inr ix' \<Longrightarrow> wfIndex ix'"
  using maybeCompact_wf[OF removed_wf[OF wfIndex_table]] by (auto simp: Remove_eq split: if_splits)

lemma removed_refines:
  assumes wf: "wfTable ix" and some: "map_of (Chats ix) cid \<noteq> None"
  shows "hasToken ((buried cid ix)\<lparr>Chats := AList.delete cid (Chats ix)\<rparr>) tok c = (c \<noteq> cid \<and> hasToken ix tok c)"
    "recordOf ((buried cid ix)\<lparr>Chats := AList.delete cid (Chats ix)\<rparr>) c = (if c = cid then None else recordOf ix c)"
proof -
  let ?ix = "(buried cid ix)\<lparr>Chats := AList.delete cid (Chats ix)\<rparr>"
  note d = wfTableD[OF wf]
  have nm: "nameAt ?ix s = (if nameAt ix s = cid then [] else nameAt ix s)" if "s \<in> set (postingOf (Postings ix) tok)" for s
  proof -
    have t: "inTable ix s" using postingsOk_bound[OF d(4) that] by (simp add: inTable_def)
    have "nameAt ?ix s = nameAt (buried cid ix) s" by (simp add: nameAt_def)
    then show ?thesis using buried_name[OF wf t, of cid] by simp
  qed
  have "(\<exists>s \<in> set (postingOf (Postings ix) tok). nameAt ?ix s = c) \<longleftrightarrow> (\<exists>s \<in> set (postingOf (Postings ix) tok). nameAt ix s = c) \<and> c \<noteq> cid"
    if "c \<noteq> []" using nm that by (metis (no_types, lifting))
  then show "hasToken ?ix tok c = (c \<noteq> cid \<and> hasToken ix tok c)" unfolding hasToken_def by auto
  show "recordOf ?ix c = (if c = cid then None else recordOf ix c)" by (simp add: recordOf_def delete_conv')
qed

lemma no_record_no_token:
  assumes wf: "wfIndex ix" and n: "map_of (Chats ix) c = None"
  shows "\<not> hasToken ix tok c"
proof
  note d = wfTableD[OF wfIndex_table[OF wf]]
  assume "hasToken ix tok c"
  then obtain s where s: "s \<in> set (postingOf (Postings ix) tok)" "nameAt ix s = c" "c \<noteq> []" by (auto simp: hasToken_def)
  have "inTable ix s" using postingsOk_bound[OF d(4) s(1)] by (simp add: inTable_def)
  moreover have "nameAt ix s \<noteq> []" using s by simp
  ultimately obtain e where "map_of (Chats ix) (nameAt ix s) = Some e" by (rule tableOkD[OF d(3)])
  then show False using s n by simp
qed

lemma Remove_refines:
  assumes wf: "wfIndex ix" and r: "Remove cid ix = Inr ix'"
  shows "hasToken ix' tok c = (c \<noteq> cid \<and> hasToken ix tok c)" "recordOf ix' c = (if c = cid then None else recordOf ix c)"
proof -
  have t: "wfTable ix" by (rule wfIndex_table[OF wf])
  have "hasToken ix' tok c = (c \<noteq> cid \<and> hasToken ix tok c) \<and> recordOf ix' c = (if c = cid then None else recordOf ix c)"
  proof (cases "map_of (Chats ix) cid = None")
    case True
    then have "ix' = ix" using r by (simp add: Remove_eq[OF wf])
    then show ?thesis using True no_record_no_token[OF wf True] by (auto simp: recordOf_def)
  next
    case False
    then have "ix' = maybeCompact ((buried cid ix)\<lparr>Chats := AList.delete cid (Chats ix)\<rparr>)" using r by (auto simp: Remove_eq[OF wf])
    then show ?thesis using maybeCompact_refines[OF removed_wf[OF t]] removed_refines[OF t False] by simp
  qed
  then show "hasToken ix' tok c = (c \<noteq> cid \<and> hasToken ix tok c)" "recordOf ix' c = (if c = cid then None else recordOf ix c)" by blast+
qed

text \<open>The two operations that change an entry in place.\<close>

lemma reentered_wf:
  assumes wf: "wfIndex ix" and e: "map_of (Chats ix) cid = Some e" and f: "Slot f = Slot e" "entryOk d f" and d: "d = Dims ix \<or> Dims ix = 0"
  shows "wfIndex (ix\<lparr>Chats := AList.update cid f (Chats ix), Dims := d\<rparr>)" (is "wfIndex ?ix")
proof -
  have t: "wfTable (ix\<lparr>Dims := d\<rparr>)" by (rule wfTable_dims[OF wfIndex_table[OF wf] d])
  note w = wfTableD[OF t]
  have nm: "nameAt ?ix s = nameAt (ix\<lparr>Dims := d\<rparr>) s" "inTable ?ix s = inTable (ix\<lparr>Dims := d\<rparr>) s" for s by (simp_all add: nameAt_def inTable_def)
  have "chatsOk ?ix" unfolding chatsOk_def
  proof (intro allI impI)
    fix c g assume g: "map_of (Chats ?ix) c = Some g"
    show "c \<noteq> [] \<and> inTable ?ix (Slot g) \<and> nameAt ?ix (Slot g) = c \<and> entryOk (Dims ?ix) g"
    proof (cases "c = cid")
      case True
      then have "g = f" using g by (simp add: update_conv')
      then show ?thesis using chatsOkD[OF w(2), of cid e] e f True by (simp add: nm)
    next
      case False
      then have "map_of (Chats ix) c = Some g" using g by (simp add: update_conv')
      then show ?thesis using chatsOkD[OF w(2), of c g] by (simp add: nm)
    qed
  qed
  moreover have "tableOk ?ix" unfolding tableOk_def
  proof (intro allI impI, elim conjE)
    fix s assume a: "inTable ?ix s" "nameAt ?ix s \<noteq> []"
    then have b: "inTable (ix\<lparr>Dims := d\<rparr>) s" "nameAt (ix\<lparr>Dims := d\<rparr>) s \<noteq> []" by (simp_all add: nm)
    obtain h where "map_of (Chats (ix\<lparr>Dims := d\<rparr>)) (nameAt (ix\<lparr>Dims := d\<rparr>) s) = Some h" "Slot h = s" by (rule tableOkD[OF w(3) b])
    then show "\<exists>e. map_of (Chats ?ix) (nameAt ?ix s) = Some e \<and> Slot e = s"
      using e f by (cases "nameAt (ix\<lparr>Dims := d\<rparr>) s = cid") (simp_all add: nm update_conv')
  qed
  moreover have "cid \<in> fst ` set (Chats ix)" using e by (metis map_of_SomeD fst_conv image_eqI)
  ultimately show ?thesis using w wf by (simp add: wfIndex_def wfTable_def distinct_update length_update)
qed

lemma RepairEmbedding_wf:
  assumes wf: "wfIndex ix" and r: "RepairEmbedding cid vs ix = Inr ix'"
  shows "wfIndex ix'"
proof -
  obtain e d where e: "map_of (Chats ix) cid = Some e" "validatedVectorDims (Dims ix) vs = Inr d"
    and ix': "ix' = ix\<lparr>Chats := AList.update cid (e\<lparr>Vectors := vs, EmbeddingPending := False, EmbeddingKeyID := []\<rparr>) (Chats ix), Dims := d\<rparr>"
    using r by (auto simp: RepairEmbedding_def result_simps split: option.splits)
  have v: "length vs \<le> MaxChunksPerChat" "vectorDims (Dims ix) vs = Inr d" using e(2) by (simp_all add: validatedVectorDims_def split: if_splits)
  have "entryOk (Dims ix) e" using chatsOkD(4)[OF wfTableD(2)[OF wfIndex_table[OF wf]] e(1)] .
  then have "entryOk d (e\<lparr>Vectors := vs, EmbeddingPending := False, EmbeddingKeyID := []\<rparr>)"
    using v vectorDims_ok(1)[OF v(2)] by (simp add: entryOk_def validEmbeddingKeyID_def)
  then show ?thesis unfolding ix' using reentered_wf[OF wf e(1) _ _ vectorDims_ok(2)[OF v(2)]] by simp
qed

lemma MarkEmbeddingKey_wf:
  assumes wf: "wfIndex ix"
  shows "wfIndex (fst (MarkEmbeddingKey cid k ix))"
proof (cases "map_of (Chats ix) cid")
  case (Some e)
  have "entryOk (Dims ix) e" using chatsOkD(4)[OF wfTableD(2)[OF wfIndex_table[OF wf]] Some] .
  then have "entryOk (Dims ix) (e\<lparr>EmbeddingKeyID := k\<rparr>)" if "validEmbeddingKeyID k" "EmbeddingPending e" using that by (simp add: entryOk_def)
  then have "wfIndex (ix\<lparr>Chats := AList.update cid (e\<lparr>EmbeddingKeyID := k\<rparr>) (Chats ix)\<rparr>)" if "validEmbeddingKeyID k" "EmbeddingPending e"
    using reentered_wf[OF wf Some, of "e\<lparr>EmbeddingKeyID := k\<rparr>" "Dims ix"] that by simp
  then show ?thesis using wf Some by (simp add: MarkEmbeddingKey_def)
qed (use wf in \<open>simp add: MarkEmbeddingKey_def\<close>)

lemma NewIndex_wf: "wfIndex (NewIndex model)"
  by (simp add: wfIndex_def wfTable_def NewIndex_def chatsOk_def tableOk_def inTable_def postingsOk_def postingOf_def
      compactionMinDead_def)


section \<open>The index as its writers use it\<close>

datatype indexOp = Put string Entry "string list" | Del string

fun opID :: "indexOp \<Rightarrow> string" where
  "opID (Put cid e toks) = cid"
| "opID (Del cid) = cid"

text \<open>The updates a writer applied, in order; a refused one stops it.\<close>

fun runOps :: "(string \<Rightarrow> Entry \<Rightarrow> string list \<Rightarrow> 'i \<Rightarrow> 'err + 'i) \<Rightarrow> (string \<Rightarrow> 'i \<Rightarrow> 'err + 'i) \<Rightarrow> indexOp list \<Rightarrow> 'i \<Rightarrow> 'err + 'i" where
  "runOps up rem [] ix = Inr ix"
| "runOps up rem (Put cid e toks # ops) ix = bindR (up cid e toks ix) (runOps up rem ops)"
| "runOps up rem (Del cid # ops) ix = bindR (rem cid ix) (runOps up rem ops)"

text \<open>The last update of a chat in the sequence.\<close>

fun lastOp :: "indexOp list \<Rightarrow> string \<Rightarrow> indexOp option" where
  "lastOp [] c = None"
| "lastOp (x # xs) c = (case lastOp xs c of Some y \<Rightarrow> Some y | None \<Rightarrow> if opID x = c then Some x else None)"

locale token_index =
  fixes wf :: "'i \<Rightarrow> bool"
    and up :: "string \<Rightarrow> Entry \<Rightarrow> string list \<Rightarrow> 'i \<Rightarrow> 'err + 'i"
    and rem :: "string \<Rightarrow> 'i \<Rightarrow> 'err + 'i"
    and has :: "'i \<Rightarrow> string \<Rightarrow> string \<Rightarrow> bool"
    and rec :: "'i \<Rightarrow> string \<Rightarrow> Entry option"
    and taken :: "string list \<Rightarrow> string set"
  assumes up_wf: "wf ix \<Longrightarrow> up cid e toks ix = Inr ix' \<Longrightarrow> wf ix'"
    and rem_wf: "wf ix \<Longrightarrow> rem cid ix = Inr ix' \<Longrightarrow> wf ix'"
    and up_has: "wf ix \<Longrightarrow> up cid e toks ix = Inr ix' \<Longrightarrow> has ix' tok c = (if c = cid then tok \<in> taken toks else has ix tok c)"
    and up_rec: "wf ix \<Longrightarrow> up cid e toks ix = Inr ix' \<Longrightarrow> rec ix' c = (if c = cid then Some (e\<lparr>Slot := 0\<rparr>) else rec ix c)"
    and rem_has: "wf ix \<Longrightarrow> rem cid ix = Inr ix' \<Longrightarrow> has ix' tok c = (c \<noteq> cid \<and> has ix tok c)"
    and rem_rec: "wf ix \<Longrightarrow> rem cid ix = Inr ix' \<Longrightarrow> rec ix' c = (if c = cid then None else rec ix c)"
begin

lemma run_wf: "wf ix \<Longrightarrow> runOps up rem ops ix = Inr ix' \<Longrightarrow> wf ix'"
proof (induction ops arbitrary: ix)
  case (Cons x xs)
  then show ?case by (cases x) (auto simp: result_simps dest: up_wf rem_wf)
qed simp

lemma run_tells_last:
  assumes "wf ix" "runOps up rem ops ix = Inr ix'"
  shows "has ix' tok c = (case lastOp ops c of None \<Rightarrow> has ix tok c | Some (Put _ e toks) \<Rightarrow> tok \<in> taken toks | Some (Del _) \<Rightarrow> False)
    \<and> rec ix' c = (case lastOp ops c of None \<Rightarrow> rec ix c | Some (Put _ e toks) \<Rightarrow> Some (e\<lparr>Slot := 0\<rparr>) | Some (Del _) \<Rightarrow> None)"
  using assms
proof (induction ops arbitrary: ix)
  case (Cons x xs)
  show ?case
  proof (cases x)
    case (Put cid e toks)
    then obtain m where m: "up cid e toks ix = Inr m" "runOps up rem xs m = Inr ix'" using Cons.prems(2) by (auto simp: result_simps)
    show ?thesis using Cons.IH[OF up_wf[OF Cons.prems(1) m(1)] m(2)] up_has[OF Cons.prems(1) m(1)] up_rec[OF Cons.prems(1) m(1)]
      by (simp add: Put split: option.splits)
  next
    case (Del cid)
    then obtain m where m: "rem cid ix = Inr m" "runOps up rem xs m = Inr ix'" using Cons.prems(2) by (auto simp: result_simps)
    show ?thesis using Cons.IH[OF rem_wf[OF Cons.prems(1) m(1)] m(2)] rem_has[OF Cons.prems(1) m(1)] rem_rec[OF Cons.prems(1) m(1)]
      by (simp add: Del split: option.splits)
  qed
qed simp

end

interpretation sx: token_index wfIndex Upsert Remove hasToken recordOf "\<lambda>toks. set (takenTokens [] toks)"
  by unfold_locales (fact Upsert_wf Remove_wf Upsert_refines Remove_refines)+

text \<open>C4: The index is what its last updates say, whatever was tombstoned and compacted in
  between: after any sequence of updates that all succeeded, a chat is found under a token
  exactly when its last update recorded it with that token, its record is the last one
  given, and the index keeps its invariant.\<close>

theorem index_tells_last_write:
  assumes "wfIndex ix" "runOps Upsert Remove ops ix = Inr ix'"
  shows "wfIndex ix' \<and>
    hasToken ix' tok c = (case lastOp ops c of None \<Rightarrow> hasToken ix tok c
       | Some (Put _ e toks) \<Rightarrow> tok \<in> set (takenTokens [] toks) | Some (Del _) \<Rightarrow> False) \<and>
    recordOf ix' c = (case lastOp ops c of None \<Rightarrow> recordOf ix c
       | Some (Put _ e toks) \<Rightarrow> Some (e\<lparr>Slot := 0\<rparr>) | Some (Del _) \<Rightarrow> None)"
  using sx.run_wf[OF assms] sx.run_tells_last[OF assms] by blast

definition plainEntry :: Entry where
  "plainEntry = \<lparr>Slot = 0, ETag = [], SourceRevision = 0, UpdatedAt = [], Vectors = [], EmbeddingPending = False, EmbeddingKeyID = []\<rparr>"

definition witnessOps :: "indexOp list" where
  "witnessOps = [Put ''a'' plainEntry [''cat'', ''dog''], Put ''b'' plainEntry [''cat''], Put ''a'' plainEntry [''fish''], Del ''b'']"

lemma witnessOps_run: "\<exists>ix. runOps Upsert Remove witnessOps (NewIndex ''m'') = Inr ix"
  by (simp add: witnessOps_def Upsert_def Remove_def NewIndex_def plainEntry_def validEmbeddingKeyID_def validatedVectorDims_def
      index_limits buryOld_def placeEntry_def maybeCompact_def validPostingToken_def postingOf_def inTable_def Let_def)

theorem index_tells_last_write_witness:
  "\<exists>ix. runOps Upsert Remove witnessOps (NewIndex ''m'') = Inr ix \<and> \<not> hasToken ix ''cat'' ''a'' \<and> hasToken ix ''fish'' ''a'' \<and>
    recordOf ix ''b'' = None"
proof -
  obtain ix where r: "runOps Upsert Remove witnessOps (NewIndex ''m'') = Inr ix" using witnessOps_run by blast
  have "takenTokens [] [''fish''] = [''fish'']" by (simp add: validPostingToken_def index_limits)
  then show ?thesis using r index_tells_last_write[OF NewIndex_wf r, of "''cat''" "''a''"]
      index_tells_last_write[OF NewIndex_wf r, of "''fish''" "''a''"] index_tells_last_write[OF NewIndex_wf r, of "''cat''" "''b''"]
    by (simp add: witnessOps_def)
qed

text \<open>C34: Every operation keeps the index well formed and none panics: \<^verbatim>\<open>Upsert\<close> succeeds or
  refuses, \<^verbatim>\<open>Remove\<close> succeeds, and repairing or marking an embedding leaves the tables
  alone.  So slots and chats stay one to one, postings stay ascending and in the table, no
  slot is posted under more than 512 tokens, and tombstones stay under 64 or the number
  of chats.\<close>

theorem index_ops_keep_invariant:
  assumes "wfIndex ix"
  shows "Upsert cid e toks ix \<noteq> Inl Panicked \<and> (\<forall>ix'. Upsert cid e toks ix = Inr ix' \<longrightarrow> wfIndex ix') \<and>
    (\<exists>ix'. Remove cid ix = Inr ix' \<and> wfIndex ix') \<and>
    (\<forall>ix'. RepairEmbedding cid vs ix = Inr ix' \<longrightarrow> wfIndex ix') \<and> wfIndex (fst (MarkEmbeddingKey cid k ix))"
proof -
  have d: "vectorDims n us \<noteq> Inl Panicked" for n us by (induction n us rule: vectorDims.induct) auto
  have "Upsert cid e toks ix \<noteq> Inl Panicked"
  proof
    assume a: "Upsert cid e toks ix = Inl Panicked"
    then obtain n where n: "vectorDims (Dims ix) (Vectors e) = Inr n" "buryOld cid (ix\<lparr>Dims := n\<rparr>) = Inl Panicked"
      using d by (auto simp: Upsert_def validatedVectorDims_def result_simps split: if_splits)
    have "wfTable (ix\<lparr>Dims := n\<rparr>)" by (rule wfTable_dims[OF wfIndex_table[OF assms] vectorDims_ok(2)[OF n(1)]])
    then show False using n(2) buryOld_eq[OF wfTableD(2)] by simp
  qed
  then show ?thesis using Upsert_wf[OF assms] Remove_wf[OF assms] Remove_eq[OF assms] RepairEmbedding_wf[OF assms]
      MarkEmbeddingKey_wf[OF assms] by blast
qed

theorem index_ops_keep_invariant_witness:
  "Upsert ''a'' plainEntry [''cat''] (NewIndex ''m'') \<noteq> Inl Panicked \<and> (\<exists>ix'. Remove ''a'' (NewIndex ''m'') = Inr ix' \<and> wfIndex ix')"
  using index_ops_keep_invariant[OF NewIndex_wf] by blast


section \<open>Reading back what was written\<close>

lemma slotScan_ok:
  assumes ok: "chatsOk ix" "tableOk ix" and ids: "set ids \<subseteq> set (Slots ix)"
  shows "slotScan ix ids live d = Inr (live + length (dropDead ids), d + length (filter (\<lambda>c. c = []) ids))"
  using ids
proof (induction ids arbitrary: live d)
  case (Cons c ids)
  show ?case
  proof (cases "c = []")
    case False
    obtain k where k: "k < length (Slots ix)" "Slots ix ! k = c" using Cons.prems by (auto simp: in_set_conv_nth)
    then have "inTable ix (int k)" "nameAt ix (int k) = c" by (simp_all add: inTable_def nameAt_def)
    then obtain e where "map_of (Chats ix) c = Some e" "Slot e = int k" using tableOkD[OF ok(2)] False by metis
    then show ?thesis using Cons k False by (simp add: inTable_def dropDead_def)
  qed (use Cons in \<open>simp add: dropDead_def\<close>)
qed (simp add: dropDead_def)

lemma vectorsCheck_ok: "\<forall>v \<in> set vs. v \<noteq> [] \<and> int (length v) = d \<Longrightarrow> vectorsCheck d vs = Inr ()"
  by (induction vs) auto

lemma entriesCheck_ok: "(\<And>cid e. (cid, e) \<in> set es \<Longrightarrow> entryOk d e) \<Longrightarrow> entriesCheck d es = Inr ()"
proof (induction d es rule: entriesCheck.induct)
  case (2 d cid e es)
  have "entryOk d e" using 2(2)[of cid e] by simp
  then show ?case using 2 by (auto simp: entryOk_def vectorsCheck_ok)
qed simp

lemma slotsCheck_ok:
  "sorted_wrt (<) ss \<Longrightarrow> \<forall>s \<in> set ss. inTable ix s \<and> prev < s \<Longrightarrow> tot + length ss \<le> length (Slots ix) * MaxTokensPerChat \<Longrightarrow>
    slotsCheck ix prev ss (posted, tot) = Inr (posted \<union> set ss, tot + length ss)"
  by (induction ss arbitrary: prev posted tot) auto

lemma strict_length:
  assumes "sorted_wrt (<) (ss :: int list)" "\<forall>s \<in> set ss. 0 \<le> s \<and> s < int n"
  shows "length ss \<le> n" "length ss = card (set ss)"
proof -
  show l: "length ss = card (set ss)" using assms(1) by (simp add: distinct_card strict_sorted_iff)
  have "set ss \<subseteq> {0..<int n}" using assms(2) by auto
  then have "card (set ss) \<le> n" using card_mono[of "{0..<int n}" "set ss"] by simp
  then show "length ss \<le> n" using l by simp
qed

definition postingCount :: "(string \<times> int list) list \<Rightarrow> nat" where
  "postingCount P = sum_list (map (\<lambda>(t, ss). length ss) P)"

lemma postingsCheck_ok:
  assumes "\<And>t ss. (t, ss) \<in> set P \<Longrightarrow> postingOk (int (length (Slots ix))) t ss"
    "tot + postingCount P \<le> length (Slots ix) * MaxTokensPerChat"
  shows "postingsCheck ix P (posted, tot) = Inr (posted \<union> \<Union> ((set \<circ> snd) ` set P), tot + postingCount P)"
  using assms
proof (induction P arbitrary: posted tot)
  case (Cons a P)
  obtain t ss where a: "a = (t, ss)" by (cases a)
  have ok: "postingOk (int (length (Slots ix))) t ss" using Cons.prems(1)[of t ss] by (simp add: a)
  have n: "tot + length ss \<le> length (Slots ix) * MaxTokensPerChat" "(tot + length ss) + postingCount P \<le> length (Slots ix) * MaxTokensPerChat"
    using Cons.prems(2) by (simp_all add: postingCount_def a)
  have "slotsCheck ix (- 1) ss (posted, tot) = Inr (posted \<union> set ss, tot + length ss)"
    using ok n(1) by (intro slotsCheck_ok) (auto simp: postingOk_def inTable_def)
  moreover have "length ss \<le> length (Slots ix)" using ok strict_length(1) by (simp add: postingOk_def)
  moreover have "postingsCheck ix P (posted \<union> set ss, tot + length ss) =
      Inr (posted \<union> set ss \<union> \<Union> ((set \<circ> snd) ` set P), tot + length ss + postingCount P)"
    using Cons.IH[of "tot + length ss" "posted \<union> set ss"] Cons.prems(1) n(2) by simp
  ultimately show ?case using ok by (simp add: a postingOk_def postingCount_def Un_assoc)
qed (simp add: postingCount_def)

text \<open>Counted by slot, the postings are at most 512 for each.\<close>

lemma postingCount_bound:
  assumes ok: "postingsOk (int n) P"
  shows "postingCount P \<le> n * MaxTokensPerChat"
proof -
  have d: "distinct (map fst P)" and p: "\<And>t ss. (t, ss) \<in> set P \<Longrightarrow> postingOk (int n) t ss"
    using ok by (auto simp: postingsOk_def)
  have pe: "(t, ss) \<in> set P \<Longrightarrow> postingOf P t = ss" for t ss using d by (simp add: postingOf_def)
  have "postingCount P = (\<Sum>(t, ss) \<in> set P. length ss)"
    unfolding postingCount_def using d by (simp add: sum_list_distinct_conv_sum_set distinct_map)
  also have "\<dots> = (\<Sum>(t, ss) \<in> set P. card (set (postingOf P t)))"
    using p pe strict_length(2)[of _ n] by (intro sum.cong) (auto simp: postingOk_def)
  also have "\<dots> = (\<Sum>t \<in> fst ` set P. card (set (postingOf P t)))"
    using d by (subst sum.reindex) (auto simp: distinct_map case_prod_beta)
  also have "\<dots> = (\<Sum>t \<in> fst ` set P. \<Sum>s \<in> {0..<int n}. if s \<in> set (postingOf P t) then 1 else 0)"
  proof (rule sum.cong[OF refl])
    fix t assume "t \<in> fst ` set P"
    have "set (postingOf P t) \<subseteq> {0..<int n}" using postingsOk_bound[OF ok] by auto
    then show "card (set (postingOf P t)) = (\<Sum>s \<in> {0..<int n}. if s \<in> set (postingOf P t) then 1 else 0)"
      by (simp add: sum.If_cases Int_absorb1)
  qed
  also have "\<dots> = (\<Sum>s \<in> {0..<int n}. \<Sum>t \<in> fst ` set P. if s \<in> set (postingOf P t) then 1 else 0)" by (rule sum.swap)
  also have "\<dots> \<le> (\<Sum>s \<in> {0..<int n}. MaxTokensPerChat)"
  proof (rule sum_mono)
    fix s assume "s \<in> {0..<int n}"
    have "t \<in> fst ` set P" if "s \<in> set (postingOf P t)" for t
      using that map_of_eq_None_iff[of P t] by (cases "map_of P t") (auto simp: postingOf_def)
    then have "fst ` set P \<inter> {t. s \<in> set (postingOf P t)} = {t. s \<in> set (postingOf P t)}" by blast
    then show "(\<Sum>t \<in> fst ` set P. if s \<in> set (postingOf P t) then 1 else 0) \<le> MaxTokensPerChat"
      using ok by (simp add: sum.If_cases postingsOk_def)
  qed
  finally show ?thesis by (simp add: mult.commute)
qed

definition repended :: "int set \<Rightarrow> Entry \<Rightarrow> Entry" where
  "repended posted e = (if Vectors e = [] \<and> Slot e \<in> posted then e\<lparr>EmbeddingPending := True\<rparr> else e)"

lemma markPending_ok:
  "(\<And>cid e. (cid, e) \<in> set es \<Longrightarrow> inTable ix (Slot e)) \<Longrightarrow>
    markPending ix posted es = Inr (map (\<lambda>(cid, e). (cid, repended posted e)) es)"
proof (induction ix posted es rule: markPending.induct)
  case (2 ix posted cid e es)
  have "inTable ix (Slot e)" using 2(2)[of cid e] by simp
  moreover have "markPending ix posted es = Inr (map (\<lambda>(cid, e). (cid, repended posted e)) es)"
    by (rule 2(1)) (use 2(2) in auto)
  ultimately show ?case by (simp add: repended_def)
qed simp

definition postedSlots :: "Index \<Rightarrow> int set" where
  "postedSlots ix = \<Union> ((set \<circ> snd) ` set (Postings ix))"

lemma slots_bounded:
  assumes "wfIndex ix"
  shows "length (Slots ix) \<le> maxSerializedSlots" "length (dropDead (Slots ix)) = length (Chats ix)"
proof -
  note d = wfTableD[OF wfIndex_table[OF assms]]
  show l: "length (dropDead (Slots ix)) = length (Chats ix)" by (rule live_slots(3)[OF d(1-3)])
  have "length (Slots ix) = length (dropDead (Slots ix)) + dead ix"
    using sum_length_filter_compl[of "\<lambda>c. c = []" "Slots ix"] d(6) by (simp add: dropDead_def)
  then show "length (Slots ix) \<le> maxSerializedSlots" using assms d(5) l by (auto simp: wfIndex_def index_limits)
qed

text \<open>\<^verbatim>\<open>Decode\<close> accepts every index the operations build: read back from JSON without its
  tombstone count, a well-formed index passes every check, its tombstones are recounted,
  and only entries that have postings and no vectors come back marked as waiting for an
  embedding.  So no update can leave an index that its own reader refuses.\<close>

theorem decode_accepts_kept:
  assumes "wfIndex ix" "reindexCheck timeOk ix = Inr ()" "unmarshal data = Some (ix\<lparr>dead := 0\<rparr>)"
  shows "Decode unmarshal timeOk data =
    Inr (ix\<lparr>Chats := map (\<lambda>(cid, e). (cid, repended (postedSlots ix) e)) (Chats ix)\<rparr>)"
proof -
  note d = wfTableD[OF wfIndex_table[OF assms(1)]]
  let ?ix = "ix\<lparr>dead := 0\<rparr>"
  have nm: "nameAt ?ix = nameAt ix" "inTable ?ix = inTable ix" by (simp_all add: nameAt_def inTable_def fun_eq_iff)
  have ok: "chatsOk ?ix" "tableOk ?ix" using d(2,3) by (simp_all add: chatsOk_def tableOk_def nm)
  have e: "inTable ix (Slot e)" "entryOk (Dims ix) e" if "(cid, e) \<in> set (Chats ix)" for cid e
    using chatsOkD[OF d(2)] map_of_is_SomeI[OF d(1) that] by blast+
  have "slotScan ?ix (Slots ix) 0 0 = Inr (length (Chats ix), dead ix)"
    using slotScan_ok[OF ok, of "Slots ix" 0 0] slots_bounded(2)[OF assms(1)] d(6) by simp
  moreover have "entriesCheck (Dims ix) (Chats ix) = Inr ()" using e(2) by (rule entriesCheck_ok)
  moreover have "postingsCheck ?ix (Postings ix) ({}, 0) = Inr (postedSlots ix, postingCount (Postings ix))"
    using postingsCheck_ok[of "Postings ix" ?ix 0 "{}"] postingCount_bound[OF d(4)] d(4)
    by (auto simp: postingsOk_def postedSlots_def)
  moreover have "markPending ?ix (postedSlots ix) (Chats ix) = Inr (map (\<lambda>(cid, e). (cid, repended (postedSlots ix) e)) (Chats ix))"
    by (rule markPending_ok) (simp add: nm e)
  moreover have "reindexCheck timeOk ?ix = Inr ()" using assms(2) by (simp add: reindexCheck_def split: option.splits)
  ultimately show ?thesis using assms(1,3) d(5,7) slots_bounded(1)[OF assms(1)]
    by (auto simp: Decode_def decodeChecked_def wfIndex_def)
qed

theorem decode_accepts_kept_witness:
  "\<exists>ix. runOps Upsert Remove witnessOps (NewIndex ''m'') = Inr ix \<and>
    Decode (\<lambda>_. Some (ix\<lparr>dead := 0\<rparr>)) (\<lambda>_. True) [] =
      Inr (ix\<lparr>Chats := map (\<lambda>(cid, e). (cid, repended (postedSlots ix) e)) (Chats ix)\<rparr>)"
proof -
  obtain ix where r: "runOps Upsert Remove witnessOps (NewIndex ''m'') = Inr ix" using witnessOps_run by blast
  have "wfIndex ix" using sx.run_wf[OF NewIndex_wf r] .
  moreover have "reindexCheck (\<lambda>_. True) ix = Inr ()"
    using r by (auto simp: witnessOps_def Upsert_def Remove_def NewIndex_def plainEntry_def validEmbeddingKeyID_def validatedVectorDims_def
      index_limits buryOld_def placeEntry_def maybeCompact_def validPostingToken_def postingOf_def inTable_def Let_def reindexCheck_def)
  ultimately show ?thesis using r decode_accepts_kept[of ix "\<lambda>_. True" "\<lambda>_. Some (ix\<lparr>dead := 0\<rparr>)" "[]"] by blast
qed


text \<open>A vector written as base64 JSON is read back as it was, all 256 values of each
  component included.\<close>

theorem vector_roundtrip: "UnmarshalJSON (MarshalJSON v) = Some v"
proof -
  have b: "byteInt8 (int8Byte q) = q" for q
    using unsigned_less[of q, where ?'a = nat] by (simp add: byteInt8_def int8Byte_def byte_val_char_of)
  show ?thesis by (simp add: UnmarshalJSON_def MarshalJSON_def butlast_append b comp_def)
qed


section \<open>What a search returns\<close>

lemma weak_flag:
  assumes "weakOrder lt"
  shows "weakOrder (\<lambda>a b. if (P a :: bool) \<noteq> P b then P a else lt a b)"
  unfolding weakOrder_def
proof (intro conjI allI impI)
  fix a b assume "if P a \<noteq> P b then P a else lt a b"
  then show "\<not> (if P b \<noteq> P a then P b else lt b a)" using weakOrderD(1)[OF assms, of a b] by (auto split: if_splits)
next
  fix a b c
  assume "\<not> (if P b \<noteq> P a then P b else lt b a)" "\<not> (if P c \<noteq> P b then P c else lt c b)"
  then show "\<not> (if P c \<noteq> P a then P c else lt c a)" using weakOrderD(2)[OF assms, of b a c] by (cases "P a"; cases "P b"; cases "P c"; simp)
qed

lemma weak_score:
  assumes "weakOrder lt"
  shows "weakOrder (\<lambda>a b. if f a \<noteq> f b then f a > (f b :: real) else lt a b)"
  unfolding weakOrder_def
proof (intro conjI allI impI)
  fix a b assume "if f a \<noteq> f b then f a > f b else lt a b"
  then show "\<not> (if f b \<noteq> f a then f b > f a else lt b a)" using weakOrderD(1)[OF assms, of a b] by (auto split: if_splits)
next
  fix a b c
  assume "\<not> (if f b \<noteq> f a then f b > f a else lt b a)" "\<not> (if f c \<noteq> f b then f c > f b else lt c b)"
  then show "\<not> (if f c \<noteq> f a then f c > f a else lt c a)" using weakOrderD(2)[OF assms, of b a c] by (auto split: if_splits)
qed

lemma resultLess_weak: "weakOrder (resultLess ix hits)"
proof -
  have "weakOrder (\<lambda>a b :: string \<times> real. strLess (fst a) (fst b))"
    unfolding weakOrder_def
  proof (intro conjI allI impI)
    fix a b c :: "string \<times> real" assume "\<not> strLess (fst b) (fst a)" "\<not> strLess (fst c) (fst b)"
    then show "\<not> strLess (fst c) (fst a)" using strLess_linear(2)[of "fst b" "fst c"] strLess_linear(3)[of "fst b" "fst c" "fst a"] by metis
  qed (rule strLess_linear(1))
  then have "weakOrder (\<lambda>a b. if (slotOfID ix (fst a) \<in> set hits) \<noteq> (slotOfID ix (fst b) \<in> set hits) then slotOfID ix (fst a) \<in> set hits
      else if snd a \<noteq> snd b then snd a > (snd b :: real) else strLess (fst a) (fst b))"
    by (intro weak_flag weak_score)
  then show ?thesis unfolding resultLess_def[abs_def] Let_def .
qed

lemma AList_update_keys: "fst ` set (AList.update k v m) = insert k (fst ` set m)"
  by (induction m) auto

lemma addTo_keys: "fst ` set (addTo F k v m) = insert k (fst ` set m)" "distinct (map fst m) \<Longrightarrow> distinct (map fst (addTo F k v m))"
  by (simp_all add: addTo_def AList_update_keys distinct_update)

lemma foldl_addTo_keys:
  "fst ` set (foldl (\<lambda>m s. addTo F s v m) m ss) = fst ` set m \<union> set ss"
  "distinct (map fst m) \<Longrightarrow> distinct (map fst (foldl (\<lambda>m s. addTo F s v m) m ss))"
  by (induction ss arbitrary: m) (auto simp: addTo_keys)

lemma fuse_keys:
  "fst ` set (fuse F w ranked m) = fst ` set m \<union> set ranked" "distinct (map fst m) \<Longrightarrow> distinct (map fst (fuse F w ranked m))"
proof -
  have "fst ` set (foldl (\<lambda>m (rank, slot). addTo F slot (w rank) m) m (enumerate n ranked)) = fst ` set m \<union> set ranked" for n m
    by (induction ranked arbitrary: n m) (auto simp: addTo_keys)
  moreover have "distinct (map fst m) \<Longrightarrow> distinct (map fst (foldl (\<lambda>m (rank, slot). addTo F slot (w rank) m) m (enumerate n ranked)))" for n m
    by (induction ranked arbitrary: n m) (auto simp: addTo_keys)
  ultimately show "fst ` set (fuse F w ranked m) = fst ` set m \<union> set ranked" "distinct (map fst m) \<Longrightarrow> distinct (map fst (fuse F w ranked m))"
    by (simp_all add: fuse_def)
qed

definition liveSlot :: "Index \<Rightarrow> int \<Rightarrow> bool" where
  "liveSlot ix s \<longleftrightarrow> inTable ix s \<and> nameAt ix s \<noteq> []"

lemma livePostings_ok:
  assumes "wfIndex ix"
  shows "livePostings ix tok = Inr (filter (liveSlot ix) (postingOf (Postings ix) tok))"
proof -
  have "list_all (inTable ix) (postingOf (Postings ix) tok)"
    using postingsOk_bound[OF wfTableD(4)[OF wfIndex_table[OF assms]]] by (simp add: list_all_iff inTable_def)
  then show ?thesis by (auto simp: livePostings_def Let_def liveSlot_def nameAt_def list_all_iff intro: filter_cong)
qed

definition lexSlots :: "Index \<Rightarrow> string set \<Rightarrow> int set" where
  "lexSlots ix toks = {s. liveSlot ix s \<and> (\<exists>t \<in> toks. s \<in> set (postingOf (Postings ix) t))}"

lemma lexicalScores_ok:
  assumes "wfIndex ix" "distinct (map fst m)"
  shows "\<exists>m'. lexicalScores F ix seen toks m = Inr m' \<and> distinct (map fst m') \<and>
    fst ` set m' = fst ` set m \<union> lexSlots ix (set toks - set seen)"
  using assms(2)
proof (induction toks arbitrary: seen m)
  case Nil
  then show ?case by (simp add: lexSlots_def)
next
  case (Cons t toks)
  show ?case
  proof (cases "t \<in> set seen")
    case True
    then have "set (t # toks) - set seen = set toks - set seen" by auto
    then show ?thesis using Cons True by simp
  next
    case False
    let ?l = "filter (liveSlot ix) (postingOf (Postings ix) t)"
    let ?m = "foldl (\<lambda>m s. addTo F s (idf F (length (Chats ix)) (length ?l)) m) m ?l"
    have d: "distinct (map fst ?m)" by (rule foldl_addTo_keys(2)[OF Cons.prems])
    obtain m' where m': "lexicalScores F ix (t # seen) toks ?m = Inr m'" "distinct (map fst m')"
      "fst ` set m' = fst ` set ?m \<union> lexSlots ix (set toks - set (t # seen))" using Cons.IH[OF d] by blast
    have "set (t # toks) - set seen = insert t (set toks - set (t # seen))" using False by auto
    then have "fst ` set m' = fst ` set m \<union> lexSlots ix (set (t # toks) - set seen)"
      unfolding m'(3) foldl_addTo_keys(1) by (auto simp: lexSlots_def)
    then show ?thesis using m' False livePostings_ok[OF assms(1)] by simp
  qed
qed

lemma rankSlots_ok:
  assumes "list_all (inTable ix) (map fst m)" "distinct (map fst m)"
  obtains r where "rankSlots m ix = Inr r" "distinct r" "set r \<subseteq> fst ` set m" "length m \<le> rrfCandidateDepth \<longrightarrow> set r = fst ` set m"
proof -
  let ?lt = "\<lambda>a b. if scoreOf m a \<noteq> scoreOf m b then scoreOf m a > scoreOf m b else strLess (nameAt ix a) (nameAt ix b)"
  let ?r = "take rrfCandidateDepth (sortSlice ?lt (map fst m))"
  have "rankSlots m ix = Inr ?r" using assms(1) by (simp add: rankSlots_def)
  moreover have "distinct ?r" using assms(2) by simp
  moreover have "set ?r \<subseteq> fst ` set m" using set_take_subset[of rrfCandidateDepth "sortSlice ?lt (map fst m)"] by simp
  moreover have "length m \<le> rrfCandidateDepth \<longrightarrow> set ?r = fst ` set m" by simp
  ultimately show ?thesis by (rule that)
qed


lemma live_name_inj:
  assumes "wfIndex ix" "liveSlot ix s" "liveSlot ix t" "nameAt ix s = nameAt ix t"
  shows "s = t"
proof -
  note d = wfTableD(3)[OF wfIndex_table[OF assms(1)]]
  obtain e where e: "map_of (Chats ix) (nameAt ix s) = Some e" "Slot e = s" using tableOkD[OF d] assms(2) unfolding liveSlot_def by metis
  obtain f where "map_of (Chats ix) (nameAt ix t) = Some f" "Slot f = t" using tableOkD[OF d] assms(3) unfolding liveSlot_def by metis
  then show ?thesis using e assms(4) by simp
qed

lemma live_slotOfID: "wfIndex ix \<Longrightarrow> liveSlot ix s \<Longrightarrow> slotOfID ix (nameAt ix s) = s"
proof -
  assume a: "wfIndex ix" "liveSlot ix s"
  obtain e where "map_of (Chats ix) (nameAt ix s) = Some e" "Slot e = s"
    using tableOkD[OF wfTableD(3)[OF wfIndex_table[OF a(1)]]] a(2) unfolding liveSlot_def by metis
  then show ?thesis by (simp add: slotOfID_def)
qed

lemma semanticScores_ok:
  assumes "wfIndex ix"
  shows "distinct (map fst (semanticScores F ix q))" "s \<in> fst ` set (semanticScores F ix q) \<Longrightarrow> liveSlot ix s"
proof -
  note d = wfTableD[OF wfIndex_table[OF assms]]
  let ?f = "\<lambda>m (cid, e). case bestCosine F q (Vectors e) None of None \<Rightarrow> m | Some b \<Rightarrow> AList.update (Slot e) b m"
  have a: "distinct (map fst m) \<Longrightarrow> distinct (map fst (foldl ?f m cs))" for m cs
    by (induction cs arbitrary: m) (auto simp: distinct_update split: option.splits)
  have b: "fst ` set (foldl ?f m cs) \<subseteq> fst ` set m \<union> (Slot \<circ> snd) ` set cs" for m cs
  proof (induction cs arbitrary: m)
    case (Cons c cs)
    have "fst ` set (?f m c) \<subseteq> fst ` set m \<union> {Slot (snd c)}" by (cases c) (auto simp: AList_update_keys split: option.splits)
    then show ?case using Cons.IH[of "?f m c"] unfolding foldl_Cons list.set image_insert comp_apply by blast
  qed simp
  show "distinct (map fst (semanticScores F ix q))" using a[of "[]" "Chats ix"] by (simp add: semanticScores_def)
  assume "s \<in> fst ` set (semanticScores F ix q)"
  then obtain cid e where "(cid, e) \<in> set (Chats ix)" "s = Slot e" using b[of "[]" "Chats ix"] by (force simp: semanticScores_def)
  then have "map_of (Chats ix) cid = Some e" "s = Slot e" using d(1) by simp_all
  then show "liveSlot ix s" using chatsOkD[OF d(2)] by (auto simp: liveSlot_def)
qed

lemma tier_first:
  assumes "sorted_wrt (\<lambda>a b. P b \<longrightarrow> P a) xs" "length (filter P xs) \<le> n" "x \<in> set xs" "P x"
  shows "x \<in> set (take n xs)"
proof -
  have "xs = filter P xs @ filter (\<lambda>a. \<not> P a) xs" using assms(1)
  proof (induction xs)
    case (Cons a xs)
    have "filter P xs = []" if "\<not> P a" using Cons.prems that by (auto simp: filter_empty_conv)
    then show ?case using Cons by (cases "P a") (auto simp: filter_id_conv filter_empty_conv)
  qed simp
  then have "take n xs = filter P xs @ take (n - length (filter P xs)) (filter (\<lambda>a. \<not> P a) xs)"
    using assms(2) by (metis take_append take_all)
  then show ?thesis using assms(3,4) by simp
qed

lemma tier_complete:
  assumes "sorted_wrt (\<lambda>a b. fst b \<in> H \<longrightarrow> fst a \<in> H) rs" "distinct (map fst rs)" "H \<subseteq> fst ` set rs" "finite H" "card H \<le> n"
  shows "H \<subseteq> fst ` set (take n rs)"
proof
  let ?f = "filter (\<lambda>a. fst a \<in> H) rs"
  have "distinct (map fst ?f)" by (rule distinct_map_filter[OF assms(2)])
  then have "length ?f = card (set (map fst ?f))" by (metis distinct_card length_map)
  also have "\<dots> \<le> card H" by (rule card_mono[OF assms(4)]) auto
  finally have n: "length ?f \<le> n" using assms(5) by simp
  fix c assume c: "c \<in> H"
  then obtain x where "x \<in> set rs" "fst x = c" using assms(3) by auto
  then have "x \<in> set (take n rs)" using tier_first[OF assms(1) n] c by simp
  then show "c \<in> fst ` set (take n rs)" using \<open>fst x = c\<close> by auto
qed

lemma semanticRanked_ok:
  assumes wf: "wfIndex ix"
  obtains m where "semanticRanked F ix q = Inr m" "\<forall>s \<in> set m. liveSlot ix s"
proof (cases "q = []")
  case True
  then show ?thesis using that[of "[]"] by (simp add: semanticRanked_def)
next
  case False
  note sem = semanticScores_ok[OF wf, where F = F and q = q]
  have "list_all (inTable ix) (map fst (semanticScores F ix q))" using sem(2) by (auto simp: list_all_iff liveSlot_def)
  then obtain m where "rankSlots (semanticScores F ix q) ix = Inr m" "set m \<subseteq> fst ` set (semanticScores F ix q)"
    using sem(1) by (rule rankSlots_ok)
  then show ?thesis using that[of m] False sem(2) by (auto simp: semanticRanked_def)
qed

text \<open>The chats that have a token of the query.\<close>

definition queryHits :: "Index \<Rightarrow> string list \<Rightarrow> string set" where
  "queryHits ix toks = {c. \<exists>t \<in> set toks. hasToken ix t c}"

lemma lexSlots_hits: "wfIndex ix \<Longrightarrow> nameAt ix ` lexSlots ix (set toks) = queryHits ix toks"
  using postingsOk_bound[OF wfTableD(4)[OF wfIndex_table]]
  by (fastforce simp: lexSlots_def queryHits_def hasToken_def liveSlot_def inTable_def)

lemma lexicalRanked_ok:
  assumes wf: "wfIndex ix"
  obtains r where "lexicalRanked F ix toks = Inr r" "distinct r" "set r \<subseteq> lexSlots ix (set toks)"
    "card (queryHits ix toks) \<le> 128 \<longrightarrow> set r = lexSlots ix (set toks)"
proof -
  obtain m where m: "lexicalScores F ix [] toks [] = Inr m" "distinct (map fst m)" "fst ` set m = lexSlots ix (set toks)"
    using lexicalScores_ok[OF wf, of "[]" F "[]" toks] by auto
  have "list_all (inTable ix) (map fst m)" using m(3) by (auto simp: list_all_iff lexSlots_def liveSlot_def)
  then obtain r where r: "rankSlots m ix = Inr r" "distinct r" "set r \<subseteq> fst ` set m" "length m \<le> rrfCandidateDepth \<longrightarrow> set r = fst ` set m"
    using m(2) by (rule rankSlots_ok)
  have "inj_on (nameAt ix) (lexSlots ix (set toks))" using live_name_inj[OF wf] by (auto simp: inj_on_def lexSlots_def)
  then have "card (queryHits ix toks) = card (lexSlots ix (set toks))" using lexSlots_hits[OF wf] card_image by metis
  also have "\<dots> = length m" using m(2,3) distinct_card[of "map fst m"] by simp
  finally show ?thesis using that r m by (simp add: lexicalRanked_def rrfCandidateDepth_def)
qed

text \<open>C29: On a well-formed index a search always returns, at most as many results as asked and
  each chat once.  Every result is a chat of the index.  Chats that match a token of the
  query come before those that only resemble it, and by descending score within either
  tier.  When at most 128 chats match, all of them are results if the limit allows.\<close>

theorem search_correct:
  assumes wf: "wfIndex ix"
  shows "\<exists>rs hits. Search F ix q toks limit = Inr rs \<and> int (length rs) \<le> max 0 limit \<and> distinct (map fst rs) \<and>
    (\<forall>c \<in> fst ` set rs. recordOf ix c \<noteq> None) \<and> hits \<subseteq> queryHits ix toks \<and>
    sorted_wrt (\<lambda>a b. (fst b \<in> hits \<longrightarrow> fst a \<in> hits) \<and> ((fst a \<in> hits) = (fst b \<in> hits) \<longrightarrow> snd a \<ge> snd b)) rs \<and>
    (card (queryHits ix toks) \<le> 128 \<and> int (card (queryHits ix toks)) \<le> limit \<longrightarrow> queryHits ix toks \<subseteq> fst ` set rs \<and> hits = queryHits ix toks)"
proof (cases "limit \<le> 0 \<or> Chats ix = []")
  case True
  have none: "queryHits ix toks = {}" if "Chats ix = []" using no_record_no_token[OF wf] that by (auto simp: queryHits_def)
  have fin: "finite (queryHits ix toks)"
  proof -
    have "queryHits ix toks \<subseteq> fst ` set (Chats ix)" using no_record_no_token[OF wf] by (auto simp: queryHits_def map_of_eq_None_iff[symmetric] image_iff) (metis map_of_eq_None_iff image_iff)
    then show ?thesis by (rule finite_subset) simp
  qed
  have "Search F ix q toks limit = Inr []" using True by (simp add: Search_def)
  moreover have "queryHits ix toks = {}" if "int (card (queryHits ix toks)) \<le> limit"
  proof (cases "Chats ix = []")
    case False
    then have "card (queryHits ix toks) = 0" using True that by linarith
    then show ?thesis using fin by simp
  qed (rule none)
  ultimately show ?thesis by (intro exI[of _ "[]"] exI[of _ "{}"]) auto
next
  case False
  obtain r where r: "lexicalRanked F ix toks = Inr r" "distinct r" "set r \<subseteq> lexSlots ix (set toks)"
    "card (queryHits ix toks) \<le> 128 \<longrightarrow> set r = lexSlots ix (set toks)" by (rule lexicalRanked_ok[OF wf])
  obtain m where m: "semanticRanked F ix q = Inr m" "\<forall>s \<in> set m. liveSlot ix s" by (rule semanticRanked_ok[OF wf])
  let ?fused = "fuse F (semW F) m (fuse F (lexW F) r [])"
  let ?res = "map (\<lambda>(slot, score). (nameAt ix slot, score)) ?fused"
  let ?rs = "sortSlice (resultLess ix r) ?res"
  let ?hits = "nameAt ix ` set r"
  have keys: "fst ` set ?fused = set r \<union> set m" "distinct (map fst ?fused)" by (simp_all add: fuse_keys)
  have lv: "liveSlot ix s" if "s \<in> fst ` set ?fused" for s using that m(2) r(3) unfolding keys by (auto simp: lexSlots_def)
  have names: "map fst ?res = map (nameAt ix) (map fst ?fused)" by (simp add: case_prod_beta)
  have "inj_on (nameAt ix) (set (map fst ?fused))" using live_name_inj[OF wf] lv by (simp add: inj_on_def)
  then have "distinct (map fst ?res)" unfolding names distinct_map[of "nameAt ix" "map fst ?fused"] using keys(2) by blast
  then have dr: "distinct (map fst ?rs)" using sortSlice_mset[of "resultLess ix r" ?res] by (metis mset_map mset_eq_imp_distinct_iff)
  have sr: "fst ` set ?rs = nameAt ix ` (set r \<union> set m)" using names keys(1) by (metis list.set_map sortSlice_simps(1))
  have hit: "slotOfID ix c \<in> set r \<longleftrightarrow> c \<in> ?hits" if "c \<in> fst ` set ?rs" for c
    using that lv live_slotOfID[OF wf] live_name_inj[OF wf] unfolding sr keys by auto
  have "sorted_wrt (\<lambda>a b. \<not> resultLess ix r b a) ?rs" by (rule sortSlice_sorted[OF resultLess_weak])
  then have so: "sorted_wrt (\<lambda>a b. (fst b \<in> ?hits \<longrightarrow> fst a \<in> ?hits) \<and> ((fst a \<in> ?hits) = (fst b \<in> ?hits) \<longrightarrow> snd a \<ge> snd b)) ?rs"
  proof (rule sorted_wrt_mono_rel[rotated])
    fix a b assume ab: "a \<in> set ?rs" "b \<in> set ?rs" "\<not> resultLess ix r b a"
    then have "slotOfID ix (fst a) \<in> set r \<longleftrightarrow> fst a \<in> ?hits" "slotOfID ix (fst b) \<in> set r \<longleftrightarrow> fst b \<in> ?hits" using hit by blast+
    then show "(fst b \<in> ?hits \<longrightarrow> fst a \<in> ?hits) \<and> ((fst a \<in> ?hits) = (fst b \<in> ?hits) \<longrightarrow> snd a \<ge> snd b)"
      using ab(3) by (auto simp: resultLess_def Let_def split: if_splits)
  qed
  have search: "Search F ix q toks limit = Inr (take (nat limit) ?rs)" using False r(1) m(1) by (simp add: Search_def Let_def)
  have all: "queryHits ix toks \<subseteq> fst ` set (take (nat limit) ?rs) \<and> ?hits = queryHits ix toks"
    if c: "card (queryHits ix toks) \<le> 128" "int (card (queryHits ix toks)) \<le> limit"
  proof -
    have h: "?hits = queryHits ix toks" using r(4) c(1) lexSlots_hits[OF wf] by simp
    have "sorted_wrt (\<lambda>a b. fst b \<in> ?hits \<longrightarrow> fst a \<in> ?hits) ?rs" by (rule sorted_wrt_mono_rel[OF _ so]) blast
    moreover have "?hits \<subseteq> fst ` set ?rs" unfolding sr by auto
    moreover have "card ?hits \<le> nat limit" using c(2) h by simp
    ultimately have "?hits \<subseteq> fst ` set (take (nat limit) ?rs)" by (intro tier_complete[OF _ dr]) simp_all
    then show ?thesis unfolding h by blast
  qed
  have rec: "recordOf ix c \<noteq> None" if "c \<in> fst ` set (take (nat limit) ?rs)" for c
  proof -
    have "c \<in> nameAt ix ` (set r \<union> set m)" using that sr set_take_subset[of "nat limit" ?rs] by blast
    then obtain s where "liveSlot ix s" "c = nameAt ix s" using lv keys(1) by blast
    then show ?thesis using tableOkD[OF wfTableD(3)[OF wfIndex_table[OF wf]]] unfolding liveSlot_def recordOf_def by (metis option.map_disc_iff option.distinct(1))
  qed
  have "int (length (take (nat limit) ?rs)) \<le> max 0 limit" by simp
  moreover have "distinct (map fst (take (nat limit) ?rs))" using dr by (simp only: take_map[symmetric] distinct_take)
  moreover have "?hits \<subseteq> queryHits ix toks" using r(3) lexSlots_hits[OF wf, of toks] by blast
  moreover note sorted_wrt_take[OF so, of "nat limit"]
  moreover have "\<forall>c \<in> fst ` set (take (nat limit) ?rs). recordOf ix c \<noteq> None" using rec by blast
  ultimately show ?thesis using search all by (intro exI[of _ "take (nat limit) ?rs"] exI[of _ ?hits]) blast
qed


theorem search_correct_witness:
  "\<exists>ix rs. runOps Upsert Remove witnessOps (NewIndex ''m'') = Inr ix \<and>
    Search \<lparr>addF = (+), idf = (\<lambda>_ _. 1), lexW = (\<lambda>_. 1), semW = (\<lambda>_. 1), cosine = (\<lambda>_ _. 0)\<rparr> ix [] [''fish''] 5 = Inr rs \<and>
    distinct (map fst rs) \<and> length rs \<le> 5"
proof -
  obtain ix where r: "runOps Upsert Remove witnessOps (NewIndex ''m'') = Inr ix" using witnessOps_run by blast
  show ?thesis
    using r search_correct[OF sx.run_wf[OF NewIndex_wf r],
        of "\<lparr>addF = (+), idf = (\<lambda>_ _. 1), lexW = (\<lambda>_. 1), semW = (\<lambda>_. 1), cosine = (\<lambda>_ _. 0)\<rparr>" "[]" "[''fish'']" 5]
    by auto
qed

text \<open>The tokens of a text are distinct, at most 512 and of 2 to 64 bytes, so indexing a
  chat under them records every one.\<close>

theorem tokens_all_indexed:
  "distinct (Tokenize lower idents splitWords txt) \<and> length (Tokenize lower idents splitWords txt) \<le> 512 \<and>
   takenTokens [] (Tokenize lower idents splitWords txt) = Tokenize lower idents splitWords txt"
proof -
  have add: "distinct out \<and> list_all validPostingToken out \<and> length out < 512 \<and> n \<le> 64 \<Longrightarrow>
      (case addTokens n toks out of (out', room) \<Rightarrow>
        distinct out' \<and> list_all validPostingToken out' \<and> length out' \<le> 512 \<and> (room \<longrightarrow> length out' < 512))" for n toks out
    by (induction n toks out rule: addTokens.induct) (auto simp: validPostingToken_def index_limits)
  let ?out = "Tokenize lower idents splitWords txt"
  have "distinct ?out \<and> list_all validPostingToken ?out \<and> length ?out \<le> 512"
    using add[of "[]" maxIdentifierLen "map trimPunct (idents (lower txt))"] add[of _ maxTokenLen "splitWords (lower txt)"]
    by (fastforce simp: Tokenize_def index_limits split: prod.splits)
  then show ?thesis using takenTokens_all[of ?out "[]"] by (simp add: MaxTokensPerChat_def)
qed

end
