(* ===== verification/Api_Errors.thy ===== *)
theory Api_Errors
  imports Seal_AAD
begin

text \<open>What a client is told when something fails: \<^verbatim>\<open>internal/api/errors.go\<close>,
  \<^verbatim>\<open>upstream.go\<close> and \<^verbatim>\<open>quota.go\<close>, the errors of \<^verbatim>\<open>internal/controlplane/client.go\<close> and
  their translation in \<^verbatim>\<open>internal/store/errors.go\<close>.  A Go \<^verbatim>\<open>error\<close> is a value of
  \<open>goError\<close>, whose wrapping constructors are the ones \<^verbatim>\<open>errors.As\<close> looks through.  Reading
  a body as a JSON object, \<^verbatim>\<open>json.Unmarshal\<close>, is the argument \<open>un\<close>: \<open>None\<close> is its error.\<close>

section \<open>Quotas\<close>

record tokenBudget =
  bMax :: int
  bUsed :: int
  bRemaining :: int

record RateLimit =
  qKind :: string
  qMaxRequests :: "int option"
  qRemaining :: "int option"
  qInputTokens :: "tokenBudget option"
  qOutputTokens :: "tokenBudget option"
  qResetsAt :: string

record Quota =
  oMaxRequests :: "int option"
  oRemaining :: "int option"
  oMaxInput :: "int option"
  oInputUsed :: "int option"
  oInputRemaining :: "int option"
  oMaxOutput :: "int option"
  oOutputUsed :: "int option"
  oOutputRemaining :: "int option"
  oResetsAt :: string

definition wrap64 :: "int \<Rightarrow> int" where
  "wrap64 x = sint (word_of_int x :: 64 word)"

definition Exhausted :: "RateLimit \<Rightarrow> bool" where
  "Exhausted l = (case qRemaining l of None \<Rightarrow> False | Some r \<Rightarrow> r \<le> 0)"

definition ExhaustedLimit :: "string \<Rightarrow> RateLimit" where
  "ExhaustedLimit kind = \<lparr>qKind = kind, qMaxRequests = Some 0, qRemaining = Some 0,
     qInputTokens = None, qOutputTokens = None, qResetsAt = []\<rparr>"

definition budget :: "int option \<Rightarrow> int option \<Rightarrow> int option \<Rightarrow> tokenBudget option" where
  "budget limit used remaining = (case (limit, used, remaining) of
     (Some l, Some u, Some r) \<Rightarrow> if l \<le> 0 then None else Some \<lparr>bMax = l, bUsed = u, bRemaining = r\<rparr>
   | _ \<Rightarrow> None)"

definition Limit :: "Quota \<Rightarrow> string \<Rightarrow> RateLimit" where
  "Limit q kind =
    (let l = \<lparr>qKind = kind, qMaxRequests = None, qRemaining = None,
              qInputTokens = budget (oMaxInput q) (oInputUsed q) (oInputRemaining q),
              qOutputTokens = budget (oMaxOutput q) (oOutputUsed q) (oOutputRemaining q),
              qResetsAt = oResetsAt q\<rparr>
     in case (oMaxRequests q, oRemaining q) of
          (Some m, Some r) \<Rightarrow> if 0 < m then l\<lparr>qMaxRequests := Some m, qRemaining := Some r\<rparr> else l
        | _ \<Rightarrow> l)"

definition spend :: "tokenBudget option \<Rightarrow> int \<Rightarrow> tokenBudget option" where
  "spend b tokens = map_option (\<lambda>b. \<lparr>bMax = bMax b, bUsed = wrap64 (bUsed b + tokens),
     bRemaining = max 0 (wrap64 (bRemaining b - tokens))\<rparr>) b"

definition Debited :: "RateLimit \<Rightarrow> int \<Rightarrow> int \<Rightarrow> RateLimit" where
  "Debited l prompt completion =
    l\<lparr>qRemaining := map_option (\<lambda>r. max 0 (wrap64 (r - 1))) (qRemaining l),
      qInputTokens := spend (qInputTokens l) prompt,
      qOutputTokens := spend (qOutputTokens l) completion\<rparr>"

definition noneLeft :: "RateLimit \<Rightarrow> RateLimit" where
  "noneLeft l = (let l = (if qMaxRequests l = None then l\<lparr>qMaxRequests := Some 0\<rparr> else l)
     in l\<lparr>qRemaining := Some 0\<rparr>)"

section \<open>Errors\<close>

record Error =
  eHTTP :: int
  eCode :: string
  eMessage :: string
  eAction :: string
  eKind :: string
  eResetsAt :: string
  eRetryAfter :: int
  eStatus :: int
  eKeyID :: string
  eUpstream :: string
  eRateLimit :: "RateLimit option"
  eMissing :: "string list"

definition ActionReauthenticate :: string where "ActionReauthenticate = ''reauthenticate''"
definition ActionReload :: string where "ActionReload = ''reload''"
definition ActionRetry :: string where "ActionRetry = ''retry''"
definition ActionWait :: string where "ActionWait = ''wait''"
definition ActionUnlock :: string where "ActionUnlock = ''unlock''"
definition ActionRevise :: string where "ActionRevise = ''revise''"
definition ActionStop :: string where "ActionStop = ''stop''"

definition Actions :: "(string \<times> string) list" where
  "Actions =
    [(''ALREADY_APPLIED'', ActionReload), (''ARCHIVE_TOO_LARGE'', ActionRevise),
     (''ATTACHMENT_TOO_LARGE'', ActionRevise), (''ATTACHMENT_UNSUPPORTED'', ActionRevise),
     (''ATTACHMENTS_UNAVAILABLE'', ActionRetry), (''BAD_REQUEST'', ActionStop),
     (''CHAT_FLAGGED'', ActionStop), (''COMPACTION_FAILED'', ActionRetry),
     (''CONTEXT_TOO_LARGE'', ActionRevise), (''CREDENTIAL_REQUIRED'', ActionReauthenticate),
     (''IMPORT_INVALID'', ActionRevise), (''IMPORT_TOO_LARGE'', ActionRevise),
     (''KEY_MISMATCH'', ActionUnlock), (''KEY_REQUIRED'', ActionUnlock),
     (''MAX_TURNS'', ActionRetry), (''MISSING_ATTACHMENT'', ActionStop),
     (''MODEL_UNAVAILABLE'', ActionRevise), (''NOTHING_TO_COMPACT'', ActionStop),
     (''PAYLOAD_TOO_LARGE'', ActionRevise), (''PROJECTS_REQUIRE_CLOUD'', ActionStop),
     (''QUEUE_FULL'', ActionRetry), (''QUOTA_EXHAUSTED'', ActionWait),
     (''RECORD_UNSUPPORTED'', ActionStop), (''RATE_LIMITED'', ActionRetry),
     (''REQUEST_TIMEOUT'', ActionRetry), (''REVISION_CONFLICT'', ActionReload),
     (''RUN_IN_FLIGHT'', ActionReload), (''RUN_LOG_FULL'', ActionStop),
     (''RUN_NOT_FOUND'', ActionReload), (''SEARCH_INDEX_FAILED'', ActionRetry),
     (''SERVICE_BUSY'', ActionRetry), (''SYNC_OUTCOME_UNKNOWN'', ActionRetry),
     (''TEMP_SPACE_BUSY'', ActionRetry), (''THREAD_EXISTS'', ActionStop),
     (''THREAD_NOT_FOUND'', ActionStop), (''THREAD_TOO_LARGE'', ActionRevise),
     (''TOOL_UNAVAILABLE'', ActionRetry), (''UNAUTHENTICATED'', ActionReauthenticate),
     (''UPSTREAM_REFUSED'', ActionRetry)]"

definition Err :: "int \<Rightarrow> string \<Rightarrow> string \<Rightarrow> Error" where
  "Err status code message =
    \<lparr>eHTTP = status, eCode = code, eMessage = message,
     eAction = (case map_of Actions code of None \<Rightarrow> [] | Some a \<Rightarrow> a), eKind = [], eResetsAt = [],
     eRetryAfter = 0, eStatus = 0, eKeyID = [], eUpstream = [], eRateLimit = None, eMissing = []\<rparr>"

definition WithAction :: "Error \<Rightarrow> string \<Rightarrow> Error" where
  "WithAction e action = e\<lparr>eAction := action\<rparr>"

section \<open>Bodies whose shape the harness does not own\<close>

type_synonym Object = "(string \<times> any) list"

definition Str :: "any option \<Rightarrow> string" where
  "Str v = (case v of Some (AString s) \<Rightarrow> s | _ \<Rightarrow> [])"

definition Obj :: "any option \<Rightarrow> Object" where
  "Obj v = (case v of Some (AMap m) \<Rightarrow> m | _ \<Rightarrow> [])"

text \<open>\<^verbatim>\<open>strconv.ParseInt(s, 10, 64)\<close> with its error dropped: zero for bad syntax, the bound
  nearest to a number out of range.\<close>

definition parseInt64 :: "string \<Rightarrow> int" where
  "parseInt64 s = (case s of [] \<Rightarrow> 0
     | c # r \<Rightarrow>
       if c = CHR ''-'' then (case atoiDigits r of None \<Rightarrow> 0 | Some n \<Rightarrow> max (- (2 ^ 63)) (- int n))
       else (case atoiDigits (if c = CHR ''+'' then r else s) of None \<Rightarrow> 0 | Some n \<Rightarrow> min (2 ^ 63 - 1) (int n)))"

definition IntOf :: "any option \<Rightarrow> int" where
  "IntOf v = (case v of
     Some (AFloat64 f) \<Rightarrow> (case f of F_Fin q \<Rightarrow> int64_of_rat q | _ \<Rightarrow> - (2 ^ 63))
   | Some (AInt n) \<Rightarrow> n
   | Some (AInt64 n) \<Rightarrow> n
   | Some (ANumber s) \<Rightarrow> parseInt64 s
   | _ \<Rightarrow> 0)"

fun FirstString :: "string list \<Rightarrow> string" where
  "FirstString [] = []"
| "FirstString (s # ss) = (if s \<noteq> [] then s else FirstString ss)"

text \<open>\<^verbatim>\<open>strings.ToValidUTF8(s, "")\<close>: the length of the rune a text begins with, zero for none,
  and the text without the bytes that are in no rune.\<close>

definition inRange :: "char \<Rightarrow> nat \<Rightarrow> nat \<Rightarrow> bool" where
  "inRange c a b \<longleftrightarrow> a \<le> byte_val c \<and> byte_val c \<le> b"

fun runeSize :: "string \<Rightarrow> nat" where
  "runeSize [] = 0"
| "runeSize (c # s) =
    (if byte_val c < 0x80 then 1 else case s of [] \<Rightarrow> 0 | d # s \<Rightarrow>
     if inRange c 0xC2 0xDF then (if inRange d 0x80 0xBF then 2 else 0) else case s of [] \<Rightarrow> 0 | e # s \<Rightarrow>
     if \<not> inRange e 0x80 0xBF then 0
     else if inRange c 0xE0 0xEF
     then (if inRange d (if byte_val c = 0xE0 then 0xA0 else 0x80) (if byte_val c = 0xED then 0x9F else 0xBF) then 3 else 0)
     else case s of [] \<Rightarrow> 0 | f # s \<Rightarrow>
     if inRange f 0x80 0xBF \<and> inRange c 0xF0 0xF4 \<and>
        inRange d (if byte_val c = 0xF0 then 0x90 else 0x80) (if byte_val c = 0xF4 then 0x8F else 0xBF) then 4 else 0)"

function ToValidUTF8 :: "string \<Rightarrow> string" where
  "ToValidUTF8 s = (if s = [] then [] else
     if runeSize s = 0 then ToValidUTF8 (tl s)
     else take (runeSize s) s @ ToValidUTF8 (drop (runeSize s) s))"
  by pat_completeness auto
termination
  by (relation "measure length") auto

declare ToValidUTF8.simps [simp del]

text \<open>\<^verbatim>\<open>strings.ToLower\<close> on the letters of ASCII.  The only runes outside them that it turns
  into ASCII become \<open>k\<close> and \<open>i\<close>, so it decides \<^verbatim>\<open>Contains(\<dots>, "context length")\<close> alike.\<close>

definition lowerByte :: "char \<Rightarrow> char" where
  "lowerByte c = (if inRange c 65 90 then char_of (byte_val c + 32) else c)"

fun containsStr :: "string \<Rightarrow> string \<Rightarrow> bool" where
  "containsStr [] t = (t = [])"
| "containsStr (c # s) t = (take (length t) (c # s) = t \<or> containsStr s t)"

definition HasPrefix :: "string \<Rightarrow> string \<Rightarrow> bool" where
  "HasPrefix s p \<longleftrightarrow> take (length p) s = p"

section \<open>What a downstream service answered\<close>

definition maxUpstreamMessage :: nat where "maxUpstreamMessage = 512"

definition RefusedAsSent :: "Error \<Rightarrow> int \<Rightarrow> Error" where
  "RefusedAsSent e status = (if eCode e = ''UPSTREAM_REFUSED'' \<and> status div 100 = 4 then e\<lparr>eAction := ActionStop\<rparr> else e)"

definition refusalSwitch :: "int \<Rightarrow> string \<Rightarrow> string \<Rightarrow> string \<Rightarrow> Error" where
  "refusalSwitch status code kind message =
    (if status = 402 \<or> code = ''insufficient_quota'' \<or> kind = ''insufficient_quota''
     then Err 429 ''QUOTA_EXHAUSTED'' (FirstString [message, ''The request quota is exhausted''])
     else if status = 429
     then Err 429 ''RATE_LIMITED'' (FirstString [message, ''Too many requests; retry shortly''])
     else if status = 503 \<and> code = ''model_unavailable''
     then WithAction (Err 503 ''MODEL_UNAVAILABLE'' (FirstString [message, ''The model is temporarily unavailable''])) ActionRetry
     else if status = 503 \<and> code = ''server_is_overloaded''
     then Err 503 ''UPSTREAM_REFUSED'' (FirstString [message, ''The model is overloaded''])
     else if status div 100 = 4 \<and> (code = ''context_length_exceeded'' \<or> containsStr (map lowerByte message) ''context length'')
     then Err 413 ''CONTEXT_TOO_LARGE'' (FirstString [message, ''The conversation exceeds the model's context window''])
     else if (status div 100 = 4 \<or> HasPrefix code ''document_'') \<and> message \<noteq> []
     then Err 502 ''UPSTREAM_REFUSED'' message
     else Err 502 ''UPSTREAM_REFUSED'' ''A downstream service refused the request'')"

definition documentRefusal :: "string \<Rightarrow> Error \<Rightarrow> Error" where
  "documentRefusal code e =
    (if HasPrefix code ''document_''
     then (let e = e\<lparr>eUpstream := code\<rparr>
           in if eCode e = ''UPSTREAM_REFUSED'' then e\<lparr>eAction := ActionRevise\<rparr> else e)
     else e)"

definition OpenAIRefusal :: "(bytes \<Rightarrow> Object option) \<Rightarrow> int \<Rightarrow> bytes \<Rightarrow> Error option" where
  "OpenAIRefusal un status body =
    (if status = 401 then None else case un body of None \<Rightarrow> None | Some inp \<Rightarrow>
     let nested = Obj (map_of inp ''error'') in
     if nested = [] \<and> Str (map_of inp ''object'') \<noteq> ''error'' then None else
     let fs = (if nested = [] then inp else nested);
         code = Str (map_of fs ''code'');
         kind = Str (map_of fs ''type'');
         message = ToValidUTF8 (take maxUpstreamMessage (Str (map_of fs ''message'')))
     in Some (documentRefusal code
          ((RefusedAsSent (refusalSwitch status code kind message) status)\<lparr>eStatus := status\<rparr>)))"

definition DownstreamError :: "(bytes \<Rightarrow> Object option) \<Rightarrow> int \<Rightarrow> bytes \<Rightarrow> Error" where
  "DownstreamError un status body =
    (let inp = (case un body of None \<Rightarrow> [] | Some m \<Rightarrow> m);
         nested = Obj (map_of inp ''error'');
         inp = (if nested \<noteq> [] then nested else inp)
     in case OpenAIRefusal un status body of
       Some refused \<Rightarrow> (if eRetryAfter refused = 0 then refused\<lparr>eRetryAfter := IntOf (map_of inp ''retryAfter'')\<rparr> else refused)
     | None \<Rightarrow> RefusedAsSent
         (if status = 401 then Err 401 ''UNAUTHENTICATED'' ''Authentication is required''
          else if status = 404 then Err 404 ''THREAD_NOT_FOUND'' ''The requested data was not found''
          else if status = 429
          then (Err 429 ''QUOTA_EXHAUSTED'' ''The request quota is exhausted'')
            \<lparr>eKind := FirstString [Str (map_of inp ''kind''), Str (map_of inp ''type'')],
             eResetsAt := FirstString [Str (map_of inp ''resetsAt''), Str (map_of inp ''resets_at'')],
             eRetryAfter := IntOf (map_of inp ''retryAfter'')\<rparr>
          else (Err 502 ''UPSTREAM_REFUSED'' ''A downstream service refused the request'')\<lparr>eStatus := status\<rparr>)
         status)"

definition streamStatus :: "Object \<Rightarrow> int" where
  "streamStatus fs =
    (let t = Str (map_of fs ''type'');
         code = IntOf (map_of fs ''code'')
     in if 400 \<le> code \<and> code < 600 \<and> code \<noteq> 401 then code
        else if t = ''invalid_request_error'' \<or> t = ''BadRequestError'' then 400
        else if t = ''insufficient_quota'' then 402
        else if t = ''rate_limit_error'' \<or> t = ''RateLimitError'' then 429
        else if t = ''service_unavailable_error'' \<or> t = ''ServiceUnavailableError'' then 503
        else 502)"

definition StreamError :: "(bytes \<Rightarrow> Object option) \<Rightarrow> bytes \<Rightarrow> Error" where
  "StreamError un data =
    (let inp = (case un data of None \<Rightarrow> [] | Some m \<Rightarrow> m);
         nested = Obj (map_of inp ''error'');
         fs = (if nested = [] then inp else nested)
     in DownstreamError un (streamStatus fs) data)"

section \<open>Go errors\<close>

record Refusal =
  fStatus :: int
  fDetail :: string
  fRetryAfter :: int

record cpError =
  StatusCode :: int
  cCode :: string
  cMessage :: string
  CurrentKeyID :: string
  CurrentETag :: string
  MinimumProtocol :: int
  MissingAttachments :: "string list"
  RetryAfterSeconds :: int

datatype PutBlobAmbiguity =
    PutBlobTransportFailure | PutBlobUpstreamFailure | PutBlobResponseRead
  | PutBlobResponseDecode | PutBlobInvalidResponse

datatype goError =
    EApi Error
  | ERefusal Refusal
  | ECP cpError
  | ESeal seal_error
  | EAmbiguous PutBlobAmbiguity goError
  | EOutcomeUnknown goError
  | ERunScope
  | EOther string

text \<open>\<^verbatim>\<open>errors.As\<close> for each of the types it is asked for.\<close>

fun asApi :: "goError \<Rightarrow> Error option" where
  "asApi (EApi e) = Some e"
| "asApi (EAmbiguous k e) = asApi e"
| "asApi (EOutcomeUnknown e) = asApi e"
| "asApi _ = None"

fun asRefusal :: "goError \<Rightarrow> Refusal option" where
  "asRefusal (ERefusal r) = Some r"
| "asRefusal (EAmbiguous k e) = asRefusal e"
| "asRefusal (EOutcomeUnknown e) = asRefusal e"
| "asRefusal _ = None"

fun asCP :: "goError \<Rightarrow> cpError option" where
  "asCP (ECP c) = Some c"
| "asCP (EAmbiguous k e) = asCP e"
| "asCP (EOutcomeUnknown e) = asCP e"
| "asCP _ = None"

fun isTooLarge :: "goError \<Rightarrow> bool" where
  "isTooLarge (ESeal s) = (s = ErrPlaintextTooLarge)"
| "isTooLarge (EAmbiguous k e) = isTooLarge e"
| "isTooLarge (EOutcomeUnknown e) = isTooLarge e"
| "isTooLarge _ = False"

fun isAmbiguous :: "goError \<Rightarrow> bool" where
  "isAmbiguous (EAmbiguous k e) = True"
| "isAmbiguous (EOutcomeUnknown e) = isAmbiguous e"
| "isAmbiguous _ = False"

fun isOutcomeUnknown :: "goError \<Rightarrow> bool" where
  "isOutcomeUnknown (EOutcomeUnknown e) = True"
| "isOutcomeUnknown (EAmbiguous k e) = isOutcomeUnknown e"
| "isOutcomeUnknown _ = False"

definition AsError :: "(bytes \<Rightarrow> Object option) \<Rightarrow> goError \<Rightarrow> Error" where
  "AsError un err = (case asApi err of Some a \<Rightarrow> a | None \<Rightarrow>
     case asRefusal err of
       Some r \<Rightarrow> (let e = DownstreamError un (fStatus r) (fDetail r)
                  in if 0 < fRetryAfter r then e\<lparr>eRetryAfter := fRetryAfter r\<rparr> else e)
     | None \<Rightarrow> Err 502 ''UPSTREAM_REFUSED'' ''A downstream request failed'')"

definition IsCode :: "goError \<Rightarrow> string \<Rightarrow> bool" where
  "IsCode err code = (case asCP err of None \<Rightarrow> False | Some e \<Rightarrow> cCode e = code)"

definition StatusPreconditionRequired :: string where "StatusPreconditionRequired = ''PRECONDITION_REQUIRED''"
definition StatusStaleKey :: string where "StatusStaleKey = ''STALE_KEY''"
definition StatusStaleBlob :: string where "StatusStaleBlob = ''STALE_BLOB''"
definition StatusMissingAttachment :: string where "StatusMissingAttachment = ''MISSING_ATTACHMENT''"
definition StatusExistingDataUnderOtherKey :: string where
  "StatusExistingDataUnderOtherKey = ''EXISTING_DATA_UNDER_OTHER_KEY''"
definition StatusIdempotencyConflict :: string where "StatusIdempotencyConflict = ''IDEMPOTENCY_CONFLICT''"
definition StatusProfileSyncUpgradeRequired :: string where
  "StatusProfileSyncUpgradeRequired = ''PROFILE_SYNC_UPGRADE_REQUIRED''"

definition refusedByControlplane :: "goError \<Rightarrow> bool" where
  "refusedByControlplane err = (case asCP err of None \<Rightarrow> False | Some e \<Rightarrow> StatusCode e div 100 = 4)"

definition errRowUnreadable :: Error where
  "errRowUnreadable = Err 502 ''UPSTREAM_REFUSED'' ''The stored row cannot be opened''"

definition ErrRowNotFetched :: Error where
  "ErrRowNotFetched = Err 502 ''UPSTREAM_REFUSED'' ''The storage service could not fetch the data in time''"

definition FromControlplane :: "goError \<Rightarrow> Error" where
  "FromControlplane err = (case asApi err of Some known \<Rightarrow> known | None \<Rightarrow>
     if isTooLarge err then Err 413 ''THREAD_TOO_LARGE'' ''The chat is too large to store''
     else if isOutcomeUnknown err
     then Err 503 ''SYNC_OUTCOME_UNKNOWN'' ''The sync service may not have stored the change''
     else case asCP err of None \<Rightarrow> Err 502 ''UPSTREAM_REFUSED'' ''A downstream request failed''
     | Some c \<Rightarrow>
       if cCode c \<in> {StatusStaleKey, StatusExistingDataUnderOtherKey, ''UNKNOWN_KEY'', ''KEY_MISMATCH''}
       then (Err 409 ''KEY_MISMATCH'' ''The stored data uses another content key'')\<lparr>eKeyID := CurrentKeyID c\<rparr>
       else if cCode c = StatusStaleBlob then Err 409 ''REVISION_CONFLICT'' ''The stored row changed''
       else if cCode c = StatusMissingAttachment
       then (Err 409 ''MISSING_ATTACHMENT'' ''The chat references attachments that are not stored with it'')\<lparr>eMissing := MissingAttachments c\<rparr>
       else if cCode c = ''PAYLOAD_TOO_LARGE'' then Err 413 ''THREAD_TOO_LARGE'' ''The chat is too large to store''
       else if StatusCode c = 401 then Err 401 ''UNAUTHENTICATED'' ''Authentication is required''
       else if StatusCode c = 404 then Err 404 ''THREAD_NOT_FOUND'' ''The requested data was not found''
       else if StatusCode c = 412 then Err 409 ''REVISION_CONFLICT'' ''The stored row changed''
       else if StatusCode c = 429
       then (Err 429 ''QUOTA_EXHAUSTED'' ''The request quota is exhausted'')\<lparr>eRetryAfter := RetryAfterSeconds c\<rparr>
       else RefusedAsSent ((Err 502 ''UPSTREAM_REFUSED'' ''A downstream service refused the request'')\<lparr>eStatus := StatusCode c\<rparr>)
              (StatusCode c))"

section \<open>Every error says what to do about it\<close>

text \<open>An error a client can act on: a known code, a 4xx or 5xx status, and one of the
  seven actions, which is never to send again what a service refused with a 4xx.\<close>

definition allActions :: "string list" where
  "allActions = [ActionReauthenticate, ActionReload, ActionRetry, ActionWait, ActionUnlock, ActionRevise, ActionStop]"

definition knownCode :: "string \<Rightarrow> bool" where
  "knownCode c \<longleftrightarrow> c \<in> set (map fst Actions)"

definition knownAction :: "string \<Rightarrow> bool" where
  "knownAction a \<longleftrightarrow> a \<in> set allActions"

definition knownHTTP :: "int \<Rightarrow> bool" where
  "knownHTTP s \<longleftrightarrow> s \<in> {401, 404, 409, 413, 429, 502, 503}"

definition wellMapped :: "Error \<Rightarrow> bool" where
  "wellMapped e \<longleftrightarrow> knownCode (eCode e) \<and> knownAction (eAction e) \<and> knownHTTP (eHTTP e) \<and>
     (eCode e = ''UPSTREAM_REFUSED'' \<and> eStatus e div 100 = 4 \<longrightarrow> eAction e = ActionStop \<or> eAction e = ActionRevise)"

lemma Err_sel [simp]:
  "eHTTP (Err s c m) = s" "eCode (Err s c m) = c" "eStatus (Err s c m) = 0"
  "eRetryAfter (Err s c m) = 0" "eMessage (Err s c m) = m" "eMissing (Err s c m) = []"
  by (simp_all add: Err_def)

lemma Actions_total: "list_all (\<lambda>p. knownAction (snd p)) Actions"
  by code_simp

lemma Err_action [simp]:
  assumes "knownCode c"
  shows "knownAction (eAction (Err s c m))"
proof -
  obtain a where a: "map_of Actions c = Some a"
    using assms by (metis knownCode_def map_of_eq_None_iff not_None_eq set_map)
  then have "(c, a) \<in> set Actions" by (rule map_of_SomeD)
  then show ?thesis using Actions_total a by (auto simp: list_all_iff Err_def)
qed

lemma known_codes [simp]:
  "knownCode ''UPSTREAM_REFUSED''" "knownCode ''QUOTA_EXHAUSTED''" "knownCode ''RATE_LIMITED''"
  "knownCode ''MODEL_UNAVAILABLE''" "knownCode ''CONTEXT_TOO_LARGE''" "knownCode ''UNAUTHENTICATED''"
  "knownCode ''THREAD_NOT_FOUND''" "knownCode ''THREAD_TOO_LARGE''" "knownCode ''SYNC_OUTCOME_UNKNOWN''"
  "knownCode ''KEY_MISMATCH''" "knownCode ''REVISION_CONFLICT''" "knownCode ''MISSING_ATTACHMENT''"
  "knownCode ''BAD_REQUEST''"
  by code_simp+

lemma known_rest [simp]:
  "knownHTTP 401" "knownHTTP 404" "knownHTTP 409" "knownHTTP 413" "knownHTTP 429" "knownHTTP 502" "knownHTTP 503"
  "knownAction ActionRetry" "knownAction ActionStop" "knownAction ActionRevise"
  by (simp_all add: knownHTTP_def knownAction_def allActions_def)

lemma wellMapped_Err [simp]: "knownCode c \<Longrightarrow> knownHTTP s \<Longrightarrow> wellMapped (Err s c m)"
  by (simp add: wellMapped_def)

lemma wellMapped_other_fields [simp]:
  "wellMapped (e\<lparr>eKeyID := k\<rparr>) = wellMapped e" "wellMapped (e\<lparr>eMissing := xs\<rparr>) = wellMapped e"
  "wellMapped (e\<lparr>eRetryAfter := n\<rparr>) = wellMapped e" "wellMapped (e\<lparr>eKind := t\<rparr>) = wellMapped e"
  "wellMapped (e\<lparr>eResetsAt := t\<rparr>) = wellMapped e" "wellMapped (e\<lparr>eUpstream := t\<rparr>) = wellMapped e"
  by (simp_all add: wellMapped_def)

lemma wellMapped_action:
  "wellMapped e \<Longrightarrow> wellMapped (e\<lparr>eAction := ActionStop\<rparr>)" "wellMapped e \<Longrightarrow> wellMapped (e\<lparr>eAction := ActionRevise\<rparr>)"
  by (simp_all add: wellMapped_def)

lemma wellMapped_RefusedAsSent: "wellMapped e \<Longrightarrow> wellMapped (RefusedAsSent e s)"
  by (simp add: RefusedAsSent_def wellMapped_action)

text \<open>The status is recorded before or after the refusal is marked as sent.\<close>

lemma wellMapped_refused:
  assumes "knownCode (eCode e)" "knownAction (eAction e)" "knownHTTP (eHTTP e)"
  shows "wellMapped ((RefusedAsSent e s)\<lparr>eStatus := s\<rparr>)" "wellMapped (RefusedAsSent (e\<lparr>eStatus := s\<rparr>) s)"
  using assms by (auto simp: wellMapped_def RefusedAsSent_def)

lemma refusalSwitch_known:
  "knownCode (eCode (refusalSwitch status code kind message))"
  "knownAction (eAction (refusalSwitch status code kind message))"
  "knownHTTP (eHTTP (refusalSwitch status code kind message))"
  "eHTTP (refusalSwitch status code kind message) \<noteq> 401"
  by (simp_all add: refusalSwitch_def WithAction_def)

lemma wellMapped_document: "wellMapped e \<Longrightarrow> wellMapped (documentRefusal code e)"
  by (simp add: documentRefusal_def Let_def wellMapped_action)

lemma http_kept [simp]:
  "eHTTP (RefusedAsSent e s) = eHTTP e" "eHTTP (documentRefusal code e) = eHTTP e"
  by (simp_all add: RefusedAsSent_def documentRefusal_def Let_def)

lemma OpenAIRefusal_shape:
  assumes "OpenAIRefusal un status body = Some e"
  shows "\<exists>code kind message. e = documentRefusal code ((RefusedAsSent (refusalSwitch status code kind message) status)\<lparr>eStatus := status\<rparr>)"
  using assms unfolding OpenAIRefusal_def Let_def
  by (cases "un body") (simp_all only: option.case option.inject if_split_asm, auto split: if_split_asm)

lemma wellMapped_OpenAIRefusal:
  assumes "OpenAIRefusal un status body = Some e"
  shows "wellMapped e" "eHTTP e \<noteq> 401"
proof -
  obtain code kind message where
    "e = documentRefusal code ((RefusedAsSent (refusalSwitch status code kind message) status)\<lparr>eStatus := status\<rparr>)"
    using OpenAIRefusal_shape [OF assms] by blast
  then show "wellMapped e" "eHTTP e \<noteq> 401"
    by (simp_all add: wellMapped_document wellMapped_refused refusalSwitch_known)
qed

lemma wellMapped_DownstreamError: "wellMapped (DownstreamError un status body)"
proof (cases "OpenAIRefusal un status body")
  case None
  then show ?thesis
    by (simp add: DownstreamError_def Let_def wellMapped_RefusedAsSent wellMapped_refused)
next
  case (Some e)
  then show ?thesis
    using wellMapped_OpenAIRefusal [OF Some] by (simp add: DownstreamError_def Let_def)
qed

lemma DownstreamError_401: "status \<noteq> 401 \<Longrightarrow> eHTTP (DownstreamError un status body) \<noteq> 401"
proof (cases "OpenAIRefusal un status body")
  case (Some e)
  then show ?thesis
    using wellMapped_OpenAIRefusal [OF Some] by (simp add: DownstreamError_def Let_def)
qed (simp add: DownstreamError_def Let_def)

lemma streamStatus_not_401: "streamStatus fs \<noteq> 401"
  by (simp add: streamStatus_def Let_def)

lemma wellMapped_FromControlplane: "asApi err = None \<Longrightarrow> wellMapped (FromControlplane err)"
  by (cases "asCP err") (simp_all add: FromControlplane_def wellMapped_refused)

lemma wellMapped_AsError: "asApi err = None \<Longrightarrow> wellMapped (AsError un err)"
  by (cases "asRefusal err") (simp_all add: AsError_def Let_def wellMapped_DownstreamError)

lemma errors_say_what_to_do_parts:
  assumes "asApi err = None"
  shows "wellMapped (FromControlplane err)" "wellMapped (AsError un err)"
    "wellMapped (DownstreamError un status body)"
    "wellMapped (StreamError un body) \<and> eHTTP (StreamError un body) \<noteq> 401"
    "eCode (FromControlplane err) = ''SYNC_OUTCOME_UNKNOWN'' \<longleftrightarrow> isOutcomeUnknown err \<and> \<not> isTooLarge err"
    "eCode (FromControlplane err) = ''REVISION_CONFLICT'' \<longrightarrow> \<not> isOutcomeUnknown err \<and>
       (\<exists>c. asCP err = Some c \<and> (cCode c = StatusStaleBlob \<or> StatusCode c = 412))"
proof -
  show "wellMapped (FromControlplane err)" "wellMapped (AsError un err)" "wellMapped (DownstreamError un status body)"
    using assms by (simp_all add: wellMapped_FromControlplane wellMapped_AsError wellMapped_DownstreamError)
  show "wellMapped (StreamError un body) \<and> eHTTP (StreamError un body) \<noteq> 401"
    by (simp add: StreamError_def Let_def wellMapped_DownstreamError DownstreamError_401 streamStatus_not_401)
  show "eCode (FromControlplane err) = ''SYNC_OUTCOME_UNKNOWN'' \<longleftrightarrow> isOutcomeUnknown err \<and> \<not> isTooLarge err"
    using assms by (cases "asCP err") (simp_all add: FromControlplane_def RefusedAsSent_def)
  show "eCode (FromControlplane err) = ''REVISION_CONFLICT'' \<longrightarrow> \<not> isOutcomeUnknown err \<and>
       (\<exists>c. asCP err = Some c \<and> (cCode c = StatusStaleBlob \<or> StatusCode c = 412))"
    using assms by (cases "asCP err") (simp_all add: FromControlplane_def RefusedAsSent_def)
qed


definition staleAnswer :: goError where
  "staleAnswer = ECP \<lparr>StatusCode = 412, cCode = StatusStaleBlob, cMessage = [], CurrentKeyID = [],
     CurrentETag = ''7'', MinimumProtocol = 0, MissingAttachments = [], RetryAfterSeconds = 0\<rparr>"


end
