(* ===== verification/Grant_Scope.thy ===== *)
theory Grant_Scope
  imports Op_Hash Api_Errors
begin

text \<open>Storage grants, \<^verbatim>\<open>internal/store/scope.go\<close> and the two functions of \<^verbatim>\<open>rows.go\<close> that
  make them: which rows a run or an operation may push, pull, list and remove.  The
  current time is an argument; so are HKDF, the pull that reads the run's chat and the
  JSON decoding of its project.\<close>

section \<open>Rows and grants\<close>

record StoredRow =
  rID :: string
  rETag :: string
  rData :: bytes
  rProject :: "string option"
  rProjectSet :: bool
  rUpdatedAt :: "int option"

record StorageGrant =
  Operation :: string
  ChatID :: string
  ProjectID :: string
  KeyID :: string
  ExpiresAt :: int

datatype storageOp = opPush | opPull | opList | opRemove | opPutAttachment | opGetAttachment | opImport

definition keyID :: "hkdf \<Rightarrow> bytes \<Rightarrow> string" where
  "keyID hkdf key = (case DeriveKeyID hkdf key of Inl _ \<Rightarrow> keyIDHexOf [] | Inr i \<Rightarrow> keyIDHexOf i)"

definition maxResourceID :: nat where "maxResourceID = 256"

definition runIDValid :: "string \<Rightarrow> bool" where
  "runIDValid i \<longleftrightarrow> i \<noteq> [] \<and> i \<noteq> ''.'' \<and> i \<noteq> ''..'' \<and> length i \<le> maxResourceID \<and>
     CHR ''/'' \<notin> set i \<and> CHR 0x00 \<notin> set i"

definition allows :: "int \<Rightarrow> StorageGrant \<Rightarrow> storageOp \<Rightarrow> bool" where
  "allows now g op =
    (if \<not> now < ExpiresAt g then False
     else if Operation g = ''project-upload'' then op = opPull \<or> op = opPush
     else if Operation g = ''import'' then op = opImport
     else if Operation g = ''export'' then op = opPull \<or> op = opList \<or> op = opGetAttachment
     else if Operation g = [] then op = opPush \<or> op = opPull \<or> op = opList \<or> op = opPutAttachment \<or> op = opGetAttachment
     else False)"

definition keyMatches :: "hkdf \<Rightarrow> bytes \<Rightarrow> StorageGrant \<Rightarrow> bool" where
  "keyMatches hkdf key g \<longleftrightarrow> keyID hkdf key = KeyID g"

definition CutPrefix :: "string \<Rightarrow> string \<Rightarrow> string option" where
  "CutPrefix s p = (if take (length p) s = p then Some (drop (length p) s) else None)"

definition ownsDocument :: "StorageGrant \<Rightarrow> string \<Rightarrow> bool" where
  "ownsDocument g i = (if ProjectID g = [] then False
     else case CutPrefix i (ProjectID g @ ''/'') of None \<Rightarrow> False | Some document \<Rightarrow> runIDValid document)"

text \<open>The rows a run's grant may read, by scope.\<close>

definition runMayRead :: "StorageGrant \<Rightarrow> string \<Rightarrow> string \<Rightarrow> bool" where
  "runMayRead g scope i =
    (if scope = ''chat'' then i = ChatID g
     else if scope = ''profile'' then i = ProfileSingletonID
     else if scope = ''project'' then ProjectID g \<noteq> [] \<and> i = ProjectID g
     else if scope = ''project_document'' then ownsDocument g i
     else False)"

definition permitsPull :: "hkdf \<Rightarrow> int \<Rightarrow> StorageGrant \<Rightarrow> bytes \<Rightarrow> string \<Rightarrow> string list \<Rightarrow> bool" where
  "permitsPull hkdf now g key scope ids =
    (if \<not> allows now g opPull \<or> \<not> keyMatches hkdf key g then False
     else if Operation g = ''export'' then scopeValid scope
     else if ids = [] then False
     else if Operation g = ''project-upload''
     then list_all (\<lambda>i. scope = ''project'' \<and> i = ProjectID g \<or> scope = ''project_document'' \<and> ownsDocument g i) ids
     else list_all (runMayRead g scope) ids)"

definition permitsPush :: "hkdf \<Rightarrow> int \<Rightarrow> StorageGrant \<Rightarrow> bytes \<Rightarrow> string \<Rightarrow> StoredRow \<Rightarrow> bool" where
  "permitsPush hkdf now g key scope row =
    (if \<not> allows now g opPush \<or> \<not> keyMatches hkdf key g then False
     else if Operation g = ''project-upload''
     then scope = ''project_document'' \<and> ownsDocument g (rID row) \<and> rETag row = [] \<and> rProject row = Some (ProjectID g)
     else Operation g = [] \<and> scope = ''chat'' \<and> rID row = ChatID g)"

definition permitsPutAttachment :: "int \<Rightarrow> StorageGrant \<Rightarrow> string \<Rightarrow> bool" where
  "permitsPutAttachment now g chatID \<longleftrightarrow> allows now g opPutAttachment \<and> chatID = ChatID g"

definition permitsList :: "int \<Rightarrow> StorageGrant \<Rightarrow> string \<Rightarrow> string \<Rightarrow> bool" where
  "permitsList now g scope project =
    (if \<not> allows now g opList then False
     else Operation g = ''export'' \<or> scope = ''project_document'' \<and> project \<noteq> [] \<and> project = ProjectID g)"

section \<open>Making a grant\<close>

text \<open>Times are nanoseconds; a grant lasts an hour.\<close>

definition grantLifetime :: int where "grantLifetime = 3600 * 10 ^ 9"

definition AuthorizeStorage :: "hkdf \<Rightarrow> int \<Rightarrow> bytes \<Rightarrow> string \<Rightarrow> string \<Rightarrow> goError + StorageGrant" where
  "AuthorizeStorage hkdf now key operation projectID =
    (let grant = \<lparr>Operation = operation, ChatID = [], ProjectID = projectID,
                  KeyID = keyID hkdf key, ExpiresAt = now + grantLifetime\<rparr>
     in if operation = ''import'' \<or> operation = ''export'' then Inr grant
        else if operation = ''project-upload''
        then (if \<not> runIDValid projectID then Inl (EApi (Err 400 ''BAD_REQUEST'' ''invalid project id'')) else Inr grant)
        else Inl (EApi (Err 400 ''BAD_REQUEST'' ''invalid storage operation'')))"

text \<open>The project of the run's chat, by the rows pulled: \<open>chatProject\<close> reads the sealed
  field, \<open>None\<close> being a chat that is not JSON of that shape.\<close>

fun chatProjectLoop :: "(bytes \<Rightarrow> string option) \<Rightarrow> string \<Rightarrow> StoredRow list \<Rightarrow> goError + string" where
  "chatProjectLoop chatProject project [] = Inr project"
| "chatProjectLoop chatProject project (row # rows) =
    (if rProjectSet row
     then chatProjectLoop chatProject (case rProject row of None \<Rightarrow> [] | Some x \<Rightarrow> x) rows
     else case chatProject (rData row) of
       None \<Rightarrow> Inl (EApi (Err 400 ''BAD_REQUEST'' ''invalid chat''))
     | Some x \<Rightarrow> chatProjectLoop chatProject x rows)"

text \<open>\<open>pull\<close> is the answer of \<^verbatim>\<open>Rows.Pull\<close> for a scope and ids: the rows opened and the errors
  of those that were not.\<close>

type_synonym pullAnswer = "goError + (StoredRow list \<times> (string \<times> goError) list)"

definition AuthorizeRun ::
  "hkdf \<Rightarrow> int \<Rightarrow> (bytes \<Rightarrow> string option) \<Rightarrow> (string \<Rightarrow> string list \<Rightarrow> pullAnswer) \<Rightarrow> bytes \<Rightarrow> string \<Rightarrow> string option \<Rightarrow>
   goError + StorageGrant" where
  "AuthorizeRun hkdf now chatProject pull key threadID projectID =
    (let project = (case projectID of None \<Rightarrow> [] | Some x \<Rightarrow> x)
     in if \<not> runIDValid threadID \<or> project \<noteq> [] \<and> \<not> runIDValid project
        then Inl (EApi (Err 400 ''BAD_REQUEST'' ''invalid chat or project id''))
        else case pull ''chat'' [threadID] of Inl e \<Rightarrow> Inl e
        | Inr (rows, failed) \<Rightarrow>
          case map_of failed threadID of Some e \<Rightarrow> Inl e
          | None \<Rightarrow> bindR (chatProjectLoop chatProject project rows) (\<lambda>project.
              if project \<noteq> [] \<and> \<not> runIDValid project
              then Inl (EApi (Err 400 ''BAD_REQUEST'' ''invalid project id''))
              else Inr \<lparr>Operation = [], ChatID = threadID, ProjectID = project,
                        KeyID = keyID hkdf key, ExpiresAt = now + grantLifetime\<rparr>))"

section \<open>What a grant lets its holder do\<close>

lemma no_grant_removes: "\<not> allows now g opRemove"
  by (simp add: allows_def)

lemma expired_allows_nothing: "ExpiresAt g \<le> now \<Longrightarrow> \<not> allows now g op"
  by (simp add: allows_def)

lemma CutPrefix_Some: "CutPrefix s p = Some r \<longleftrightarrow> s = p @ r"
proof -
  have "s = p @ r \<longleftrightarrow> take (length p) s = p \<and> drop (length p) s = r"
    using append_eq_conv_conj [of p r s] by auto
  then show ?thesis by (simp add: CutPrefix_def)
qed

lemma ownsDocument_iff:
  "ownsDocument g i \<longleftrightarrow> ProjectID g \<noteq> [] \<and> (\<exists>d. i = ProjectID g @ ''/'' @ d \<and> runIDValid d)"
proof (cases "CutPrefix i (ProjectID g @ ''/'')")
  case None
  then have "\<nexists>d. i = ProjectID g @ ''/'' @ d" using CutPrefix_Some [of i "ProjectID g @ ''/''"] by auto
  then show ?thesis using None by (auto simp: ownsDocument_def)
next
  case (Some d)
  then have i: "i = ProjectID g @ ''/'' @ d" using CutPrefix_Some [of i "ProjectID g @ ''/''" d] by simp
  have "(\<exists>e. i = ProjectID g @ ''/'' @ e \<and> runIDValid e) \<longleftrightarrow> runIDValid d" unfolding i by simp
  then show ?thesis using Some by (simp add: ownsDocument_def)
qed

text \<open>A document belongs to one project only: neither id holds a slash.\<close>

lemma document_of_one_project:
  assumes "p @ ''/'' @ d = q @ ''/'' @ e" "runIDValid p" "runIDValid q"
  shows "p = q \<and> d = e"
  using append_stop_inj [of p "CHR ''/''" d q "CHR ''/''" e "\<lambda>c. c \<noteq> CHR ''/''"] assms
  by (auto simp: runIDValid_def list_all_iff)

lemma AuthorizeRun_grant:
  assumes "AuthorizeRun hkdf now chatProject pull key threadID projectID = Inr g"
  shows "Operation g = [] \<and> ChatID g = threadID \<and> runIDValid threadID \<and>
    (ProjectID g = [] \<or> runIDValid (ProjectID g)) \<and> KeyID g = keyID hkdf key \<and> ExpiresAt g = now + grantLifetime"
  using assms
  by (auto simp: AuthorizeRun_def Let_def bindR_eq_Inr split: if_splits sum.splits option.splits prod.splits)

lemma AuthorizeStorage_grant:
  assumes "AuthorizeStorage hkdf now key operation projectID = Inr g"
  shows "Operation g = operation \<and> operation \<in> {''import'', ''export'', ''project-upload''} \<and> ChatID g = [] \<and>
    ProjectID g = projectID \<and> (operation = ''project-upload'' \<longrightarrow> runIDValid projectID) \<and>
    KeyID g = keyID hkdf key \<and> ExpiresAt g = now + grantLifetime"
  using assms by (auto simp: AuthorizeStorage_def Let_def split: if_splits)

lemma allows_run:
  "Operation g = [] \<Longrightarrow> allows now g op \<longleftrightarrow> now < ExpiresAt g \<and> op \<noteq> opRemove \<and> op \<noteq> opImport"
  by (cases op) (simp_all add: allows_def)

lemma runMayRead_iff:
  "runMayRead g scope i \<longleftrightarrow>
     scope = ''chat'' \<and> i = ChatID g \<or> scope = ''profile'' \<and> i = ProfileSingletonID \<or>
     scope = ''project'' \<and> ProjectID g \<noteq> [] \<and> i = ProjectID g \<or>
     scope = ''project_document'' \<and> ownsDocument g i"
  by (auto simp: runMayRead_def)

lemma run_grant_confines_parts:
  assumes "AuthorizeRun hkdf issued chatProject pull key threadID projectID = Inr g"
  shows "permitsPush hkdf now g k scope row \<longleftrightarrow>
      now < issued + grantLifetime \<and> keyID hkdf k = keyID hkdf key \<and> scope = ''chat'' \<and> rID row = threadID"
    "permitsPull hkdf now g k scope ids \<longleftrightarrow>
      now < issued + grantLifetime \<and> keyID hkdf k = keyID hkdf key \<and> ids \<noteq> [] \<and>
      (\<forall>i\<in>set ids. scope = ''chat'' \<and> i = threadID \<or> scope = ''profile'' \<and> i = ''profile'' \<or>
         scope = ''project'' \<and> ProjectID g \<noteq> [] \<and> i = ProjectID g \<or>
         scope = ''project_document'' \<and> ProjectID g \<noteq> [] \<and> (\<exists>d. i = ProjectID g @ ''/'' @ d \<and> runIDValid d))"
    "permitsList now g scope project \<longleftrightarrow>
      now < issued + grantLifetime \<and> scope = ''project_document'' \<and> project \<noteq> [] \<and> project = ProjectID g"
    "permitsPutAttachment now g chatID \<longleftrightarrow> now < issued + grantLifetime \<and> chatID = threadID"
    "\<not> allows now g opRemove \<and> \<not> allows now g opImport"
    "runIDValid q \<Longrightarrow> q \<noteq> ProjectID g \<Longrightarrow> \<not> ownsDocument g (q @ ''/'' @ e)"
proof -
  have g: "Operation g = []" "ChatID g = threadID" "ProjectID g = [] \<or> runIDValid (ProjectID g)"
    "KeyID g = keyID hkdf key" "ExpiresAt g = issued + grantLifetime"
    using AuthorizeRun_grant [OF assms] by auto
  note run = allows_run [OF g(1)] g keyMatches_def
  show "permitsPush hkdf now g k scope row \<longleftrightarrow>
      now < issued + grantLifetime \<and> keyID hkdf k = keyID hkdf key \<and> scope = ''chat'' \<and> rID row = threadID"
    by (auto simp: permitsPush_def run)
  show "permitsPull hkdf now g k scope ids \<longleftrightarrow>
      now < issued + grantLifetime \<and> keyID hkdf k = keyID hkdf key \<and> ids \<noteq> [] \<and>
      (\<forall>i\<in>set ids. scope = ''chat'' \<and> i = threadID \<or> scope = ''profile'' \<and> i = ''profile'' \<or>
         scope = ''project'' \<and> ProjectID g \<noteq> [] \<and> i = ProjectID g \<or>
         scope = ''project_document'' \<and> ProjectID g \<noteq> [] \<and> (\<exists>d. i = ProjectID g @ ''/'' @ d \<and> runIDValid d))"
    unfolding ownsDocument_iff [symmetric]
    by (auto simp: permitsPull_def run list_all_iff runMayRead_iff ownsDocument_iff ProfileSingletonID_def)
  show "permitsList now g scope project \<longleftrightarrow>
      now < issued + grantLifetime \<and> scope = ''project_document'' \<and> project \<noteq> [] \<and> project = ProjectID g"
    by (auto simp: permitsList_def run)
  show "permitsPutAttachment now g chatID \<longleftrightarrow> now < issued + grantLifetime \<and> chatID = threadID"
    by (simp add: permitsPutAttachment_def run)
  show "\<not> allows now g opRemove \<and> \<not> allows now g opImport" by (simp add: run)
  show "\<not> ownsDocument g (q @ ''/'' @ e)" if "runIDValid q" "q \<noteq> ProjectID g"
    unfolding ownsDocument_iff using document_of_one_project [of q e "ProjectID g"] that g(3) by blast
qed


text \<open>A run of chat \<open>c\<close>, which the control plane files under project \<open>p\<close>.\<close>

definition pullFiled :: "string \<Rightarrow> string list \<Rightarrow> pullAnswer" where
  "pullFiled scope ids = Inr ([\<lparr>rID = ''c'', rETag = ''1'', rData = ''{}'', rProject = Some ''p'',
     rProjectSet = True, rUpdatedAt = None\<rparr>], [])"

definition grantX :: StorageGrant where
  "grantX = \<lparr>Operation = [], ChatID = ''c'', ProjectID = ''p'', KeyID = keyID toyHkdf ''k'', ExpiresAt = 5 + grantLifetime\<rparr>"


end
