(* ===== verification/CP_Stub.thy ===== *)
theory CP_Stub
  imports Grant_Scope Base64 Chunks "HOL-Library.AList"
begin

text \<open>The control plane's storage API as \<^verbatim>\<open>internal/controlplane/cpstub/stub.go\<close> gives it:
  sealed rows with their revisions, the answers kept under idempotency keys, the key
  registry with its passkey bundles and the publication of the search index.  A request
  and an answer are the fields the handlers read and set; a JSON body is kept as the
  object it encodes and a time header as the time.  A map is an association list in
  iteration order.  The clock is an argument.  The test hooks (\<^verbatim>\<open>BeforePutBlob\<close>,
  \<^verbatim>\<open>BeforeDeleteBlob\<close>, \<^verbatim>\<open>SearchConflict\<close>, \<^verbatim>\<open>CaptureHeaders\<close>) are unset; the injected failures of
  reads and writes are part of the state.  Revisions are unbounded integers: an \<^verbatim>\<open>int64\<close>
  that counts writes does not wrap.\<close>

section \<open>Requests and answers\<close>

datatype body = Octets bytes | JObj Object

record httpRequest =
  qMethod :: string
  qPath :: string
  qQuery :: "(string \<times> string) list"
  hClerkUserID :: string
  hKeyID :: string
  hIfMatch :: string
  hIdempotency :: string
  hOperationHash :: string
  hProfileSyncProtocol :: string
  hProjectIDSet :: string
  hProjectID :: string
  hAttachmentRefs :: "string option"
  hActivityAt :: "int option"
  qBody :: body

record httpResponse =
  pStatus :: int
  pETag :: string
  pKeyID :: string
  pProjectIDSet :: string
  pProjectID :: string
  pActivityAt :: "int option"
  pUpdatedAt :: "int option"
  pFenced :: bool
  pBody :: body

definition answer :: "int \<Rightarrow> body \<Rightarrow> httpResponse" where
  "answer status b = \<lparr>pStatus = status, pETag = [], pKeyID = [], pProjectIDSet = [], pProjectID = [],
     pActivityAt = None, pUpdatedAt = None, pFenced = False, pBody = b\<rparr>"

definition writeJSON :: "int \<Rightarrow> Object \<Rightarrow> httpResponse" where
  "writeJSON status v = answer status (JObj v)"

definition writeHeader :: "int \<Rightarrow> httpResponse" where
  "writeHeader status = answer status (Octets [])"

section \<open>State\<close>

record Blob =
  bETag :: int
  bKeyID :: string
  bBody :: bytes
  bProjectIDSet :: bool
  bProjectID :: "string option"
  bUpdatedAt :: int
  bActivityAt :: "int option"
  bAttachmentRefs :: "string list option"

record SearchIndexState =
  PublicationGeneration :: int
  FenceGeneration :: int
  PublishedSourceRevision :: int
  ObjectKey :: string
  siKeyID :: string
  siModel :: string
  PublicationIncomplete :: bool
  siSourceRevision :: int
  Incomplete :: bool

record idempotentAnswer =
  iMethod :: string
  iPath :: string
  iHash :: string
  iStatus :: int
  iETag :: string
  iBody :: body

record KeyBundle =
  CredentialID :: string
  KEKIV :: string
  EncryptedKeys :: string
  RegisteredAt :: int

record cpStore =
  Blobs :: "(string \<times> Blob) list"
  CurrentKey :: string
  KeyETag :: int
  KeyCreatedVia :: string
  KeyRegisteredAt :: int
  Bundles :: "(string \<times> (string \<times> KeyBundle) list) list"
  LegacyAttachments :: "(string \<times> bytes) list"
  AttachmentIndex :: "(string \<times> string) list"
  AttachmentOwners :: "(string \<times> string) list"
  MigrationFailures :: "(string \<times> int) list"
  SourceRevision :: int
  SearchState :: SearchIndexState
  answered :: "(string \<times> idempotentAnswer) list"
  MinimumProfileSyncProtocol :: int
  ActivityBackfills :: "(string \<times> string \<times> int option) list"
  PutBlobFailures :: "(string \<times> int) list"
  GetBlobFailures :: "(string \<times> int list) list"
  ListStatusFailures :: "(string \<times> int) list"

definition noSearchState :: SearchIndexState where
  "noSearchState = \<lparr>PublicationGeneration = 0, FenceGeneration = 0, PublishedSourceRevision = 0, ObjectKey = [],
     siKeyID = [], siModel = [], PublicationIncomplete = False, siSourceRevision = 0, Incomplete = False\<rparr>"

definition NewStub :: cpStore where
  "NewStub = \<lparr>Blobs = [], CurrentKey = [], KeyETag = 0, KeyCreatedVia = [], KeyRegisteredAt = 0, Bundles = [],
     LegacyAttachments = [], AttachmentIndex = [], AttachmentOwners = [], MigrationFailures = [],
     SourceRevision = 0, SearchState = noSearchState, answered = [], MinimumProfileSyncProtocol = 0, ActivityBackfills = [],
     PutBlobFailures = [], GetBlobFailures = [], ListStatusFailures = []\<rparr>"

definition StubKey :: "string \<Rightarrow> string \<Rightarrow> string" where
  "StubKey scope i = scope @ ''/'' @ i"

definition FormatETag :: "int \<Rightarrow> string" where
  "FormatETag n = fmtInt n"

definition IfMatchCreateOnly :: string where "IfMatchCreateOnly = ''0''"
definition IfMatchAnyKey :: string where "IfMatchAnyKey = ''*''"

definition staleBlob :: "string \<Rightarrow> httpResponse" where
  "staleBlob currentETag = writeJSON 412 [(''code'', AString StatusStaleBlob), (''current_etag'', AString currentETag)]"

definition preconditionRequired :: httpResponse where
  "preconditionRequired = writeJSON 428 [(''code'', AString StatusPreconditionRequired), (''message'', AString ''If-Match is required'')]"

definition badRequest :: "string \<Rightarrow> httpResponse" where
  "badRequest why = writeJSON 400 [(''code'', AString ''BAD_REQUEST''), (''error'', AString why)]"

definition countOf :: "(string \<times> int) list \<Rightarrow> string \<Rightarrow> int" where
  "countOf m k = (case map_of m k of None \<Rightarrow> 0 | Some n \<Rightarrow> n)"

section \<open>Idempotency keys\<close>

type_synonym handler = "cpStore \<Rightarrow> httpRequest \<Rightarrow> cpStore \<times> httpResponse"

definition idemKey :: "httpRequest \<Rightarrow> string" where
  "idemKey r = hClerkUserID r @ [CHR 0x00] @ hIdempotency r"

definition idempotencyConflict :: "string \<Rightarrow> string \<Rightarrow> string \<Rightarrow> httpResponse" where
  "idempotencyConflict field expected got =
     writeJSON 409 [(''code'', AString StatusIdempotencyConflict), (''error'', AString ''idempotency conflict''),
       (''field'', AString field), (''expected'', AString expected), (''got'', AString got)]"

definition bodyObject :: "body \<Rightarrow> Object" where
  "bodyObject b = (case b of JObj m \<Rightarrow> m | Octets _ \<Rightarrow> [])"

definition replay :: "idempotentAnswer \<Rightarrow> httpResponse" where
  "replay a = (answer (iStatus a) (iBody a))
     \<lparr>pETag := iETag a, pKeyID := Str (map_of (bodyObject (iBody a)) ''key_id'')\<rparr>"

definition idempotent :: "handler \<Rightarrow> handler" where
  "idempotent change st r =
    (if hIdempotency r = [] then change st r
     else if hOperationHash r = [] then (st, badRequest ''X-Operation-Hash is required'')
     else case map_of (answered st) (idemKey r) of
       Some a \<Rightarrow>
         (if iMethod a \<noteq> qMethod r then (st, idempotencyConflict ''method'' (iMethod a) (qMethod r))
          else if iPath a \<noteq> qPath r then (st, idempotencyConflict ''path'' (iPath a) (qPath r))
          else if iHash a \<noteq> hOperationHash r then (st, idempotencyConflict ''operation_hash'' (iHash a) (hOperationHash r))
          else (st, replay a))
     | None \<Rightarrow>
         (let (st', served) = change st r
          in if pStatus served div 100 = 2
             then (st'\<lparr>answered := AList.update (idemKey r)
                     \<lparr>iMethod = qMethod r, iPath = qPath r, iHash = hOperationHash r, iStatus = pStatus served,
                      iETag = pETag served, iBody = pBody served\<rparr> (answered st')\<rparr>, served)
             else (st', served)))"

section \<open>Rows\<close>

text \<open>The id a route's path values give, and the row it names.\<close>

definition blobPrefix :: string where "blobPrefix = ''/api/sync/blob/''"

definition routeBlob :: "string \<Rightarrow> (string \<times> string) option" where
  "routeBlob path =
    (case CutPrefix path blobPrefix of None \<Rightarrow> None | Some rest \<Rightarrow>
     if rest = ''profile'' then Some (''profile'', ''profile'')
     else case CutPrefix rest ''chat/'' of Some i \<Rightarrow> (if i = [] then None else Some (''chat'', i))
     | None \<Rightarrow> case CutPrefix rest ''project/'' of Some i \<Rightarrow> (if i = [] then None else Some (''project'', i))
     | None \<Rightarrow> case CutPrefix rest ''project_document/'' of Some i \<Rightarrow> (if i = [] then None else Some (''project_document'', i))
     | None \<Rightarrow> None)"

fun splitComma :: "string \<Rightarrow> string list" where
  "splitComma [] = [[]]"
| "splitComma (c # s) =
    (if c = CHR '','' then [] # splitComma s else (c # hd (splitComma s)) # tl (splitComma s))"

definition storedBlob :: "int \<Rightarrow> string \<Rightarrow> Blob option \<Rightarrow> int \<Rightarrow> httpRequest \<Rightarrow> Blob" where
  "storedBlob now scope blob nextETag r =
    \<lparr>bETag = nextETag, bKeyID = hKeyID r, bBody = (case qBody r of Octets b \<Rightarrow> b | JObj _ \<Rightarrow> []),
     bProjectIDSet = (scope = ''chat'' \<and> hProjectIDSet r = ''1'' \<or> (case blob of None \<Rightarrow> False | Some b \<Rightarrow> bProjectIDSet b)),
     bProjectID = (if scope = ''chat'' \<and> hProjectIDSet r = ''1''
                   then (if hProjectID r \<noteq> [] then Some (hProjectID r) else None)
                   else (case blob of None \<Rightarrow> None | Some b \<Rightarrow> bProjectID b)),
     bUpdatedAt = now, bActivityAt = hActivityAt r,
     bAttachmentRefs = map_option (\<lambda>refs. if refs = [] then [] else splitComma refs) (hAttachmentRefs r)\<rparr>"

definition profileRefused :: "cpStore \<Rightarrow> string \<Rightarrow> Blob option \<Rightarrow> httpRequest \<Rightarrow> bool" where
  "profileRefused st scope blob r \<longleftrightarrow> scope = ''profile'' \<and> blob \<noteq> None \<and> 0 < MinimumProfileSyncProtocol st \<and>
     (case atoi (hProfileSyncProtocol r) of None \<Rightarrow> 0 | Some n \<Rightarrow> n) < MinimumProfileSyncProtocol st"

definition putStored :: "int \<Rightarrow> string \<Rightarrow> string \<Rightarrow> int \<Rightarrow> Blob option \<Rightarrow> handler" where
  "putStored now scope key nextETag blob st r =
    (let stored = storedBlob now scope blob nextETag r;
         st = st\<lparr>Blobs := AList.update key stored (Blobs st)\<rparr>;
         st = (if scope = ''chat'' then st\<lparr>SourceRevision := SourceRevision st + 1\<rparr> else st)
     in (st, (writeJSON 200 [(''etag'', AString (FormatETag nextETag)), (''source_revision'', AInt64 (SourceRevision st))])
              \<lparr>pETag := FormatETag nextETag, pKeyID := bKeyID stored\<rparr>))"

definition handlePutBlob :: "int \<Rightarrow> string \<Rightarrow> string \<Rightarrow> handler" where
  "handlePutBlob now scope i st r =
    (let key = StubKey scope i
     in if 0 < countOf (PutBlobFailures st) key
        then (st\<lparr>PutBlobFailures := AList.update key (countOf (PutBlobFailures st) key - 1) (PutBlobFailures st)\<rparr>, writeHeader 500)
        else if hIfMatch r = [] then (st, preconditionRequired)
        else let blob = map_of (Blobs st) key
             in if profileRefused st scope blob r
                then (st, writeJSON 426 [(''code'', AString StatusProfileSyncUpgradeRequired),
                       (''minimum_protocol'', AInt (MinimumProfileSyncProtocol st))])
                else case blob of
                  Some b \<Rightarrow> (if hIfMatch r \<noteq> FormatETag (bETag b) then (st, staleBlob (FormatETag (bETag b)))
                             else putStored now scope key (bETag b + 1) (Some b) st r)
                | None \<Rightarrow> (if hIfMatch r \<noteq> IfMatchCreateOnly then (st, staleBlob ''0'')
                           else putStored now scope key 1 None st r))"

definition handleGetBlob :: "string \<Rightarrow> string \<Rightarrow> handler" where
  "handleGetBlob scope i st r =
    (let key = StubKey scope i
     in case map_of (GetBlobFailures st) key of
       Some (status # pending) \<Rightarrow> (st\<lparr>GetBlobFailures := AList.update key pending (GetBlobFailures st)\<rparr>, writeHeader status)
     | _ \<Rightarrow> (case map_of (Blobs st) key of
         None \<Rightarrow> (st, writeHeader 404)
       | Some b \<Rightarrow> (st, (answer 200 (Octets (bBody b)))
           \<lparr>pETag := FormatETag (bETag b), pKeyID := bKeyID b,
            pProjectIDSet := (if scope = ''chat'' \<and> bProjectIDSet b then ''1'' else []),
            pProjectID := (if scope = ''chat'' \<and> bProjectIDSet b then (case bProjectID b of None \<Rightarrow> [] | Some x \<Rightarrow> x) else []),
            pActivityAt := (if scope = ''chat'' then bActivityAt b else None),
            pUpdatedAt := Some (bUpdatedAt b)\<rparr>)))"

definition handleHeadBlob :: "string \<Rightarrow> string \<Rightarrow> handler" where
  "handleHeadBlob scope i st r =
    (case map_of (Blobs st) (StubKey scope i) of
       None \<Rightarrow> (st, writeHeader 404)
     | Some b \<Rightarrow> (st, (writeHeader 200)\<lparr>pETag := FormatETag (bETag b), pKeyID := bKeyID b\<rparr>))"

definition handleDeleteBlob :: "string \<Rightarrow> string \<Rightarrow> handler" where
  "handleDeleteBlob scope i st r =
    (let key = StubKey scope i
     in if hIfMatch r = [] then (st, preconditionRequired)
        else case map_of (Blobs st) key of
          None \<Rightarrow> (st, staleBlob ''0'')
        | Some b \<Rightarrow>
          (if hIfMatch r \<noteq> FormatETag (bETag b) then (st, staleBlob (FormatETag (bETag b)))
           else let st = st\<lparr>Blobs := AList.delete key (Blobs st)\<rparr>;
                    wiped = (if scope = ''chat'' then map fst (filter (\<lambda>(aid, cid). cid = i) (AttachmentIndex st)) else []);
                    st = (if scope = ''chat''
                          then st\<lparr>AttachmentIndex := filter (\<lambda>(aid, cid). cid \<noteq> i) (AttachmentIndex st),
                                  AttachmentOwners := filter (\<lambda>(aid, _). aid \<notin> set wiped) (AttachmentOwners st),
                                  SourceRevision := SourceRevision st + 1\<rparr> else st)
                in (st, writeJSON 200 [(''ok'', ABool True), (''wiped_v2_attachments'', ASlice (map AString wiped)),
                      (''source_revision'', AInt64 (SourceRevision st))])))"

definition keyScope :: "string \<Rightarrow> string" where
  "keyScope key = takeWhile (\<lambda>c. c \<noteq> CHR ''/'') key"

definition handleDeleteAllProjects :: handler where
  "handleDeleteAllProjects st r =
    (st\<lparr>Blobs := filter (\<lambda>(k, _). keyScope k \<noteq> ''project'' \<and> keyScope k \<noteq> ''project_document'') (Blobs st)\<rparr>,
     writeJSON 200 [(''ok'', ABool True),
       (''deleted'', AInt (int (length (filter (\<lambda>(k, _). keyScope k = ''project'') (Blobs st)))))])"

text \<open>A string field of a decoded JSON struct: absent and null are empty, another type fails.\<close>

definition strField :: "Object \<Rightarrow> string \<Rightarrow> string option" where
  "strField m k = (case map_of m k of None \<Rightarrow> Some [] | Some ANil \<Rightarrow> Some [] | Some (AString s) \<Rightarrow> Some s | _ \<Rightarrow> None)"

definition intField :: "Object \<Rightarrow> string \<Rightarrow> int option" where
  "intField m k = (case map_of m k of None \<Rightarrow> Some 0 | Some ANil \<Rightarrow> Some 0 | Some (AInt64 n) \<Rightarrow> Some n | Some (AInt n) \<Rightarrow> Some n | _ \<Rightarrow> None)"

definition boolField :: "Object \<Rightarrow> string \<Rightarrow> bool option" where
  "boolField m k = (case map_of m k of None \<Rightarrow> Some False | Some ANil \<Rightarrow> Some False | Some (ABool b) \<Rightarrow> Some b | _ \<Rightarrow> None)"

definition rewrapFields :: "body \<Rightarrow> (string \<times> string \<times> string \<times> string \<times> string) option" where
  "rewrapFields b = (case b of Octets _ \<Rightarrow> None | JObj m \<Rightarrow>
     (case (strField m ''scope'', strField m ''id'', strField m ''key_id'', strField m ''if_match'', strField m ''ciphertext_b64'') of
        (Some scope, Some i, Some kid, Some ifMatch, Some c) \<Rightarrow> Some (scope, i, kid, ifMatch, c)
      | _ \<Rightarrow> None))"

definition handleRewrap :: handler where
  "handleRewrap st r =
    (case rewrapFields (qBody r) of None \<Rightarrow> (st, writeHeader 400)
     | Some (scope, i, kid, ifMatch, b64) \<Rightarrow>
       (case stdDecode b64 of None \<Rightarrow> (st, writeHeader 400)
        | Some ciphertext \<Rightarrow>
          (let key = StubKey scope (if scope = ''profile'' then ''profile'' else i)
           in case map_of (Blobs st) key of None \<Rightarrow> (st, staleBlob ''0'')
              | Some b \<Rightarrow>
                (if ifMatch \<noteq> FormatETag (bETag b) then (st, staleBlob (FormatETag (bETag b)))
                 else (st\<lparr>Blobs := AList.update key (b\<lparr>bETag := bETag b + 1, bKeyID := kid, bBody := ciphertext\<rparr>) (Blobs st)\<rparr>,
                       writeJSON 200 [(''ok'', ABool True), (''etag'', AString (FormatETag (bETag b + 1))), (''key_id'', AString kid)])))))"

text \<open>The time a body's \<^verbatim>\<open>activity_at\<close> names is kept as the request's activity time.\<close>

definition handleBackfillChatActivity :: handler where
  "handleBackfillChatActivity st r =
    (case qBody r of Octets _ \<Rightarrow> (st, writeHeader 400)
     | JObj m \<Rightarrow>
       (case (strField m ''id'', strField m ''etag'') of
          (Some i, Some etag) \<Rightarrow>
            (let st = st\<lparr>ActivityBackfills := ActivityBackfills st @ [(i, etag, hActivityAt r)]\<rparr>
             in case (hActivityAt r, map_of (Blobs st) (StubKey ''chat'' i)) of
               (Some activityAt, Some b) \<Rightarrow>
                 (if bActivityAt b = None \<and> FormatETag (bETag b) = etag
                  then (st\<lparr>Blobs := AList.update (StubKey ''chat'' i) (b\<lparr>bActivityAt := Some (min activityAt (bUpdatedAt b))\<rparr>) (Blobs st)\<rparr>,
                        writeJSON 200 [(''updated'', ABool True)])
                  else (st, writeJSON 200 [(''updated'', ABool False)]))
             | _ \<Rightarrow> (st, writeJSON 200 [(''updated'', ABool False)]))
        | _ \<Rightarrow> (st, writeHeader 400)))"

section \<open>The search index's publication\<close>

definition searchState :: "cpStore \<Rightarrow> SearchIndexState" where
  "searchState st = (let state = (SearchState st)\<lparr>siSourceRevision := SourceRevision st\<rparr>
     in state\<lparr>Incomplete := PublicationIncomplete state \<or> PublishedSourceRevision state < siSourceRevision state\<rparr>)"

definition fenceSearchIndex :: "cpStore \<Rightarrow> cpStore" where
  "fenceSearchIndex st = (let state = searchState st
     in st\<lparr>SearchState := noSearchState\<lparr>PublicationGeneration := PublicationGeneration state + 1,
          FenceGeneration := FenceGeneration state + 1, PublicationIncomplete := True\<rparr>\<rparr>)"

definition stateJSON :: "SearchIndexState \<Rightarrow> Object" where
  "stateJSON x =
    [(''publication_generation'', AInt64 (PublicationGeneration x)), (''fence_generation'', AInt64 (FenceGeneration x)),
     (''published_source_revision'', AInt64 (PublishedSourceRevision x)), (''source_revision'', AInt64 (siSourceRevision x)),
     (''object_key'', AString (ObjectKey x)), (''key_id'', AString (siKeyID x)), (''model'', AString (siModel x)),
     (''publication_incomplete'', ABool (PublicationIncomplete x)), (''incomplete'', ABool (Incomplete x))]"

definition handleGetSearchIndexState :: handler where
  "handleGetSearchIndexState st r = (st, writeJSON 200 (stateJSON (searchState st)))"

definition searchIndexConflict :: "SearchIndexState \<Rightarrow> httpResponse" where
  "searchIndexConflict state = writeJSON 409 [(''ok'', ABool False), (''code'', AString ''SEARCH_INDEX_CONFLICT''),
     (''state'', AMap (stateJSON state))]"

text \<open>\<^verbatim>\<open>^search-index-v1-([0-9]+)-[a-f0-9]{32}$\<close>, and the digits it captures.\<close>

definition isLowerHexByte :: "char \<Rightarrow> bool" where
  "isLowerHexByte c \<longleftrightarrow> inRange c 48 57 \<or> inRange c 97 102"

definition isLowerHex32 :: "string \<Rightarrow> bool" where
  "isLowerHex32 s \<longleftrightarrow> length s = 32 \<and> list_all isLowerHexByte s"

definition searchIndexObjectKey :: "string \<Rightarrow> string option" where
  "searchIndexObjectKey s = (case CutPrefix s ''search-index-v1-'' of None \<Rightarrow> None
     | Some rest \<Rightarrow>
       (let digits = takeWhile isDecDigit rest; tail = dropWhile isDecDigit rest
        in if digits \<noteq> [] \<and> tail \<noteq> [] \<and> hd tail = CHR ''-'' \<and> isLowerHex32 (tl tail) then Some digits else None))"

definition maxSearchIndexObjectKeyLength :: nat where "maxSearchIndexObjectKeyLength = 256"
definition maxSearchIndexModelLength :: nat where "maxSearchIndexModelLength = 128"

record publishRequest =
  ExpectedGeneration :: int
  ExpectedFence :: int
  CoveredSourceRevision :: int
  pubObjectKey :: string
  pubKeyID :: string
  pubModel :: string
  pubIncomplete :: bool

definition decodePublish :: "body \<Rightarrow> publishRequest option" where
  "decodePublish b = (case b of Octets _ \<Rightarrow> None | JObj m \<Rightarrow>
     (case (intField m ''expected_generation'', intField m ''expected_fence'', intField m ''covered_source_revision'',
            strField m ''object_key'', strField m ''key_id'', strField m ''model'', boolField m ''incomplete'') of
        (Some g, Some f, Some c, Some ok, Some kid, Some model, Some inc) \<Rightarrow>
          Some \<lparr>ExpectedGeneration = g, ExpectedFence = f, CoveredSourceRevision = c, pubObjectKey = ok,
                pubKeyID = kid, pubModel = model, pubIncomplete = inc\<rparr>
      | _ \<Rightarrow> None))"

definition handlePublishSearchIndex :: handler where
  "handlePublishSearchIndex st r = (case decodePublish (qBody r) of
     None \<Rightarrow> (st, badRequest ''invalid request body'')
   | Some req \<Rightarrow>
     (if ExpectedGeneration req < 0 \<or> ExpectedFence req < 0 \<or> CoveredSourceRevision req < 0
      then (st, badRequest ''search index revisions must be non-negative'')
      else case (if maxSearchIndexObjectKeyLength < length (pubObjectKey req) then None else searchIndexObjectKey (pubObjectKey req)) of
        None \<Rightarrow> (st, badRequest ''invalid search index object_key'')
      | Some digits \<Rightarrow>
        if atoi digits \<noteq> Some (ExpectedFence req) then (st, badRequest ''search index object_key fence mismatch'')
        else if \<not> isLowerHex32 (pubKeyID req) then (st, badRequest ''invalid key_id'')
        else if TrimSpace (pubModel req) = [] \<or> maxSearchIndexModelLength < length (pubModel req) then (st, badRequest ''invalid model'')
        else let state = searchState st
             in if ExpectedGeneration req \<noteq> PublicationGeneration state \<or> ExpectedFence req \<noteq> FenceGeneration state \<or>
                   CoveredSourceRevision req < PublishedSourceRevision state \<or> siSourceRevision state < CoveredSourceRevision req \<or>
                   pubKeyID req \<noteq> CurrentKey st
                then (st, searchIndexConflict state)
                else let st = st\<lparr>SearchState := noSearchState\<lparr>PublicationGeneration := PublicationGeneration state + 1,
                           FenceGeneration := FenceGeneration state, PublishedSourceRevision := CoveredSourceRevision req,
                           ObjectKey := pubObjectKey req, siKeyID := pubKeyID req, siModel := pubModel req,
                           PublicationIncomplete := pubIncomplete req \<or> CoveredSourceRevision req < siSourceRevision state\<rparr>\<rparr>
                     in (st, writeJSON 200 (stateJSON (searchState st)))))"

section \<open>The key registry\<close>

definition hasDataUnderOtherKey :: "cpStore \<Rightarrow> string \<Rightarrow> bool \<Rightarrow> bool" where
  "hasDataUnderOtherKey st claim legacy =
     list_ex (\<lambda>(_, b). bKeyID b = [] \<and> legacy \<or> bKeyID b \<noteq> [] \<and> bKeyID b \<noteq> claim) (Blobs st)"

text \<open>The message repeats the code in lower case, with its underscores as spaces.\<close>

definition keyConflict :: "string \<Rightarrow> Object \<Rightarrow> httpResponse" where
  "keyConflict code details =
     writeJSON 409 (details @ [(''code'', AString code),
       (''error'', AString (map (\<lambda>c. lowerByte (if c = CHR ''_'' then CHR '' '' else c)) code))])"

definition wipeAll :: "cpStore \<Rightarrow> cpStore \<times> string list" where
  "wipeAll st =
    (st\<lparr>Blobs := [], AttachmentIndex := [], AttachmentOwners := [], LegacyAttachments := [],
        SourceRevision := SourceRevision st + int (length (filter (\<lambda>(k, _). HasPrefix k ''chat/'') (Blobs st)))\<rparr>,
     sort (map fst (AttachmentIndex st)))"

definition addBundle :: "int \<Rightarrow> string \<Rightarrow> KeyBundle option \<Rightarrow> cpStore \<Rightarrow> cpStore" where
  "addBundle now kid bundle st = (case bundle of None \<Rightarrow> st
     | Some b \<Rightarrow> st\<lparr>Bundles := AList.update kid
         (AList.update (CredentialID b) (b\<lparr>RegisteredAt := now\<rparr>) (case map_of (Bundles st) kid of None \<Rightarrow> [] | Some m \<Rightarrow> m))
         (Bundles st)\<rparr>)"

record registerBody =
  regKeyID :: string
  CreatedVia :: string
  InitialBundle :: "KeyBundle option"

definition keyRegistered :: "cpStore \<Rightarrow> string list \<Rightarrow> httpResponse" where
  "keyRegistered st wiped = writeJSON 200 [(''ok'', ABool True), (''key_id'', AString (CurrentKey st)),
     (''etag'', AString (FormatETag (KeyETag st))), (''wiped_v2_attachments'', ASlice (map AString wiped))]"

definition installKey :: "int \<Rightarrow> registerBody \<Rightarrow> string list \<Rightarrow> cpStore \<Rightarrow> cpStore \<times> httpResponse" where
  "installKey now body wiped st =
    (let changed = (CurrentKey st \<noteq> regKeyID body);
         fenced = (CreatedVia body = ''start_fresh'' \<or> CurrentKey st \<noteq> [] \<and> changed);
         st = (if changed then st\<lparr>KeyRegisteredAt := now\<rparr> else st);
         st = st\<lparr>CurrentKey := regKeyID body, KeyCreatedVia := CreatedVia body, KeyETag := KeyETag st + 1\<rparr>;
         st = (if changed then st\<lparr>Bundles := filter (\<lambda>(kid, _). kid = regKeyID body) (Bundles st), MigrationFailures := []\<rparr> else st);
         st = (if fenced then fenceSearchIndex st else st);
         st = addBundle now (regKeyID body) (InitialBundle body) st
     in (st, (keyRegistered st wiped)\<lparr>pFenced := fenced\<rparr>))"

definition decodeBundle :: "Object \<Rightarrow> KeyBundle option" where
  "decodeBundle m = (case (strField m ''credential_id'', strField m ''kek_iv'', strField m ''encrypted_keys'') of
     (Some c, Some iv, Some ks) \<Rightarrow> Some \<lparr>CredentialID = c, KEKIV = iv, EncryptedKeys = ks, RegisteredAt = 0\<rparr>
   | _ \<Rightarrow> None)"

definition decodeRegister :: "body \<Rightarrow> registerBody option" where
  "decodeRegister b = (case b of Octets _ \<Rightarrow> None | JObj m \<Rightarrow>
     (case (strField m ''key_id'', strField m ''created_via'') of
        (Some kid, Some via) \<Rightarrow>
          (case map_of m ''initial_bundle'' of
             None \<Rightarrow> Some \<lparr>regKeyID = kid, CreatedVia = via, InitialBundle = None\<rparr>
           | Some ANil \<Rightarrow> Some \<lparr>regKeyID = kid, CreatedVia = via, InitialBundle = None\<rparr>
           | Some (AMap x) \<Rightarrow> map_option (\<lambda>bundle. \<lparr>regKeyID = kid, CreatedVia = via, InitialBundle = Some bundle\<rparr>) (decodeBundle x)
           | _ \<Rightarrow> None)
      | _ \<Rightarrow> None))"

definition bundleIncomplete :: "KeyBundle \<Rightarrow> bool" where
  "bundleIncomplete b \<longleftrightarrow> CredentialID b = [] \<or> KEKIV b = [] \<or> EncryptedKeys b = []"

definition handleRegisterKey :: "int \<Rightarrow> handler" where
  "handleRegisterKey now st r =
    (if hIdempotency r = [] \<or> hOperationHash r = [] then (st, badRequest ''X-Idempotency-Key and X-Operation-Hash are required'')
     else case decodeRegister (qBody r) of None \<Rightarrow> (st, badRequest ''invalid key_id'')
     | Some body \<Rightarrow>
       if \<not> isLowerHex32 (regKeyID body) then (st, badRequest ''invalid key_id'')
       else if CreatedVia body \<notin> {''passkey'', ''manual'', ''recovery'', ''start_fresh''} then (st, badRequest ''invalid created_via'')
       else if hIfMatch r = [] then (st, badRequest ''If-Match is required'')
       else if (case InitialBundle body of None \<Rightarrow> False | Some b \<Rightarrow> bundleIncomplete b)
       then (st, badRequest ''initial_bundle requires credential_id, kek_iv, encrypted_keys'')
       else let asserting = (CreatedVia body = ''recovery'' \<or> CreatedVia body = ''manual'')
            in if CurrentKey st = [] then
                 (if hIfMatch r \<noteq> IfMatchAnyKey then (st, keyConflict StatusStaleKey [(''current_etag'', AString [])])
                  else if \<not> asserting \<and> hasDataUnderOtherKey st (regKeyID body) True then
                    (if CreatedVia body \<noteq> ''start_fresh''
                     then (st, keyConflict StatusExistingDataUnderOtherKey [(''current_key_id'', AString [])])
                     else let (st, wiped) = wipeAll st in installKey now body wiped st)
                  else installKey now body [] st)
               else if hIfMatch r = IfMatchAnyKey then
                 (if CurrentKey st = regKeyID body \<and> CreatedVia body \<noteq> ''start_fresh''
                  then (let st = addBundle now (regKeyID body) (InitialBundle body) st in (st, keyRegistered st []))
                  else (st, keyConflict StatusExistingDataUnderOtherKey [(''current_key_id'', AString (CurrentKey st))]))
               else if hIfMatch r \<noteq> FormatETag (KeyETag st)
               then (st, keyConflict StatusStaleKey [(''current_etag'', AString (FormatETag (KeyETag st))), (''current_key_id'', AString (CurrentKey st))])
               else if CurrentKey st \<noteq> regKeyID body \<and> hasDataUnderOtherKey st (regKeyID body) (\<not> asserting) then
                 (if asserting \<or> CreatedVia body \<noteq> ''start_fresh''
                  then (st, keyConflict StatusExistingDataUnderOtherKey [(''current_key_id'', AString (CurrentKey st))])
                  else let (st, wiped) = wipeAll st in installKey now body wiped st)
               else installKey now body [] st)"

definition bundleKey :: "cpStore \<Rightarrow> string \<Rightarrow> httpRequest \<Rightarrow> httpResponse option" where
  "bundleKey st kid r =
    (if hIdempotency r = [] \<or> hOperationHash r = [] then Some (badRequest ''X-Idempotency-Key and X-Operation-Hash are required'')
     else if \<not> isLowerHex32 kid then Some (badRequest ''invalid key id'')
     else if CurrentKey st = [] then Some (writeJSON 404 [(''code'', AString ''NOT_FOUND''), (''error'', AString ''no current key registered'')])
     else if kid \<noteq> CurrentKey st
     then Some (keyConflict StatusStaleKey [(''current_key_id'', AString (CurrentKey st)), (''current_etag'', AString (FormatETag (KeyETag st)))])
     else None)"

definition handleAddBundle :: "int \<Rightarrow> string \<Rightarrow> handler" where
  "handleAddBundle now kid st r =
    (case (case qBody r of Octets _ \<Rightarrow> None | JObj m \<Rightarrow> decodeBundle m) of
       None \<Rightarrow> (st, badRequest ''credential_id, kek_iv, encrypted_keys are required'')
     | Some b \<Rightarrow>
       if bundleIncomplete b then (st, badRequest ''credential_id, kek_iv, encrypted_keys are required'')
       else case bundleKey st kid r of Some refused \<Rightarrow> (st, refused)
       | None \<Rightarrow> (addBundle now kid (Some b) st, writeJSON 200 [(''ok'', ABool True)]))"

definition handleRemoveBundle :: "string \<Rightarrow> string \<Rightarrow> handler" where
  "handleRemoveBundle kid cid st r =
    (case bundleKey st kid r of Some refused \<Rightarrow> (st, refused)
     | None \<Rightarrow> (case map_of (Bundles st) kid of None \<Rightarrow> st
                | Some m \<Rightarrow> st\<lparr>Bundles := AList.update kid (AList.delete cid m) (Bundles st)\<rparr>,
                writeJSON 200 [(''ok'', ABool True)]))"

definition handleCurrentKey :: handler where
  "handleCurrentKey st r =
    (st, writeJSON 200
      (if CurrentKey st \<noteq> []
       then [(''key_id'', AString (CurrentKey st)), (''etag'', AString (FormatETag (KeyETag st))),
             (''bundles'', AMap (map (\<lambda>(cid, b). (cid, AMap [(''credential_id'', AString (CredentialID b)),
                (''kek_iv'', AString (KEKIV b)), (''encrypted_keys'', AString (EncryptedKeys b))]))
                (case map_of (Bundles st) (CurrentKey st) of None \<Rightarrow> [] | Some m \<Rightarrow> m))),
             (''created_via'', AString (KeyCreatedVia st)), (''has_data'', ABool (hasDataUnderOtherKey st (CurrentKey st) True))]
       else [(''key_id'', AString []), (''etag'', AString []), (''bundles'', AMap []), (''created_via'', AString []),
             (''has_data'', ABool (hasDataUnderOtherKey st [] True))]))"

section \<open>Routes\<close>

definition RewrapPath :: string where "RewrapPath = ''/api/sync/rewrap''"
definition DeleteAllProjectsPath :: string where "DeleteAllProjectsPath = ''/api/sync/blob/projects''"
definition ChatActivityPath :: string where "ChatActivityPath = ''/api/sync/chat-activity''"
definition SearchIndexStatePath :: string where "SearchIndexStatePath = ''/api/sync/search-index''"
definition RegisterKeyPath :: string where "RegisterKeyPath = ''/api/sync/keys''"

text \<open>The two path values of a bundle route, \<^verbatim>\<open>/api/sync/keys/{kid}/bundles/{cid}\<close>.\<close>

definition routeBundle :: "string \<Rightarrow> (string \<times> string) option" where
  "routeBundle path = (case CutPrefix path ''/api/sync/keys/'' of None \<Rightarrow> None
     | Some rest \<Rightarrow>
       (let kid = takeWhile (\<lambda>c. c \<noteq> CHR ''/'') rest
        in if kid = [] then None
           else case CutPrefix (dropWhile (\<lambda>c. c \<noteq> CHR ''/'') rest) ''/bundles'' of None \<Rightarrow> None
           | Some t \<Rightarrow> if t = [] then Some (kid, [])
                       else if hd t = CHR ''/'' \<and> tl t \<noteq> [] then Some (kid, tl t) else None))"

text \<open>The routes that change something, served under an idempotency key, and the others.\<close>

definition changeRoute :: "int \<Rightarrow> httpRequest \<Rightarrow> handler option" where
  "changeRoute now r =
    (case routeBlob (qPath r) of
       Some (scope, i) \<Rightarrow>
         (if qMethod r = ''PUT'' then Some (handlePutBlob now scope i)
          else if qMethod r = ''DELETE'' then Some (handleDeleteBlob scope i) else None)
     | None \<Rightarrow>
       if qMethod r = ''DELETE'' \<and> qPath r = DeleteAllProjectsPath then Some handleDeleteAllProjects
       else if qMethod r = ''POST'' \<and> qPath r = RewrapPath then Some handleRewrap
       else if qMethod r = ''POST'' \<and> qPath r = RegisterKeyPath then Some (handleRegisterKey now)
       else case routeBundle (qPath r) of
         Some (kid, cid) \<Rightarrow>
           (if qMethod r = ''POST'' \<and> cid = [] then Some (handleAddBundle now kid)
            else if qMethod r = ''DELETE'' \<and> cid \<noteq> [] then Some (handleRemoveBundle kid cid)
            else None)
       | None \<Rightarrow> None)"

definition otherRoute :: handler where
  "otherRoute st r =
    (case routeBlob (qPath r) of
       Some (scope, i) \<Rightarrow>
         (if qMethod r = ''GET'' then handleGetBlob scope i st r
          else if qMethod r = ''HEAD'' then handleHeadBlob scope i st r
          else (st, writeHeader 405))
     | None \<Rightarrow>
       if qMethod r = ''POST'' \<and> qPath r = ChatActivityPath then handleBackfillChatActivity st r
       else if qMethod r = ''GET'' \<and> qPath r = SearchIndexStatePath then handleGetSearchIndexState st r
       else if qMethod r = ''PUT'' \<and> qPath r = SearchIndexStatePath then handlePublishSearchIndex st r
       else if qMethod r = ''GET'' \<and> qPath r = ''/api/sync/keys/current'' then handleCurrentKey st r
       else (st, writeHeader 404))"

definition serve :: "int \<Rightarrow> handler" where
  "serve now st r = (case changeRoute now r of Some change \<Rightarrow> idempotent change st r | None \<Rightarrow> otherRoute st r)"

fun serveAll :: "cpStore \<Rightarrow> (int \<times> httpRequest) list \<Rightarrow> cpStore" where
  "serveAll st [] = st"
| "serveAll st ((now, r) # rs) = serveAll (fst (serve now st r)) rs"

section \<open>A retry is answered as the change was\<close>

text \<open>What \<open>idempotent\<close> relies on in the handler it wraps: the kept answers are its own.  A
  refusal, moreover, changes no row.\<close>

locale change_handler =
  fixes change :: handler
  assumes keeps_answers: "answered (fst (change st r)) = answered st"
    and keeps_failures: "GetBlobFailures (fst (change st r)) = GetBlobFailures st"
    and refusal_keeps: "pStatus (snd (change st r)) div 100 \<noteq> 2 \<Longrightarrow>
      Blobs (fst (change st r)) = Blobs st \<and> SourceRevision (fst (change st r)) = SourceRevision st"
begin

lemma idempotent_answers_kept:
  "map_of (answered st) k = Some a \<Longrightarrow> map_of (answered (fst (idempotent change st r))) k = Some a"
  by (auto simp: idempotent_def keeps_answers update_conv' split: option.splits prod.splits)
     (metis fst_conv keeps_answers)+

lemma idempotent_failures: "GetBlobFailures (fst (idempotent change st r)) = GetBlobFailures st"
  using keeps_failures [of st r] by (auto simp: idempotent_def split: option.split prod.split)

lemma idempotent_other_key:
  "k \<noteq> idemKey r \<Longrightarrow> map_of (answered (fst (idempotent change st r))) k = map_of (answered st) k"
  by (auto simp: idempotent_def keeps_answers update_conv' split: option.splits prod.splits)
     (metis fst_conv keeps_answers)+

lemma idempotent_keeps:
  assumes "idempotent change st r = (st', resp)" "pStatus resp div 100 = 2"
    "hIdempotency r \<noteq> []" "hOperationHash r \<noteq> []"
  shows "\<exists>a. map_of (answered st') (idemKey r) = Some a \<and> iMethod a = qMethod r \<and> iPath a = qPath r \<and>
    iHash a = hOperationHash r \<and> iStatus a = pStatus resp \<and> iETag a = pETag resp \<and> iBody a = pBody resp"
proof (cases "map_of (answered st) (idemKey r)")
  case None
  then show ?thesis using assms by (auto simp: idempotent_def update_conv' split: prod.splits if_splits)
next
  case (Some a)
  then show ?thesis using assms
    by (auto simp: idempotent_def replay_def answer_def idempotencyConflict_def writeJSON_def split: if_splits)
qed

lemma idempotent_refusal_keeps:
  assumes "pStatus (snd (idempotent change st r)) div 100 \<noteq> 2"
  shows "Blobs (fst (idempotent change st r)) = Blobs st \<and> SourceRevision (fst (idempotent change st r)) = SourceRevision st \<and>
    answered (fst (idempotent change st r)) = answered st"
proof (cases "hIdempotency r = []")
  case True
  then show ?thesis using assms refusal_keeps [of st r] keeps_answers [of st r] by (simp add: idempotent_def)
next
  case k: False
  show ?thesis
  proof (cases "hOperationHash r \<noteq> [] \<and> map_of (answered st) (idemKey r) = None")
    case True
    obtain st' served where c: "change st r = (st', served)" by (cases "change st r") auto
    have "pStatus served div 100 \<noteq> 2"
    proof
      assume ok: "pStatus served div 100 = 2"
      have "snd (idempotent change st r) = served" using True k ok unfolding idempotent_def c by simp
      then show False using assms ok by simp
    qed
    then have "idempotent change st r = change st r" using True k unfolding idempotent_def c by simp
    then show ?thesis using assms refusal_keeps [of st r] keeps_answers [of st r] by simp
  next
    case False
    then have "fst (idempotent change st r) = st" using k by (auto simp: idempotent_def)
    then show ?thesis by simp
  qed
qed

end

lemmas handler_defs = answer_def writeJSON_def writeHeader_def badRequest_def staleBlob_def preconditionRequired_def
  keyConflict_def keyRegistered_def

interpretation put: change_handler "handlePutBlob now scope i" for now scope i
  by unfold_locales
     (auto simp: handlePutBlob_def putStored_def handler_defs Let_def split: option.splits if_splits)

interpretation del: change_handler "handleDeleteBlob scope i" for scope i
  by unfold_locales
     (auto simp: handleDeleteBlob_def handler_defs Let_def split: option.splits if_splits)

interpretation delAll: change_handler handleDeleteAllProjects
  by unfold_locales (auto simp: handleDeleteAllProjects_def handler_defs)

interpretation rewrap: change_handler handleRewrap
  by unfold_locales (auto simp: handleRewrap_def handler_defs Let_def split: option.splits if_splits prod.splits)

interpretation addBundle: change_handler "handleAddBundle now kid" for now kid
  by unfold_locales
     (auto simp: handleAddBundle_def addBundle_def bundleKey_def handler_defs Let_def split: option.splits if_splits)

interpretation removeBundle: change_handler "handleRemoveBundle kid cid" for kid cid
  by unfold_locales
     (auto simp: handleRemoveBundle_def bundleKey_def handler_defs Let_def split: option.splits if_splits)

lemma installKey_keeps:
  "answered (fst (installKey now body wiped st)) = answered st"
  "GetBlobFailures (fst (installKey now body wiped st)) = GetBlobFailures st" "pStatus (snd (installKey now body wiped st)) = 200"
  by (simp_all add: installKey_def Let_def fenceSearchIndex_def addBundle_def handler_defs split: option.split)

lemma wipeAll_answered: "wipeAll st = (st', wiped) \<Longrightarrow> answered st' = answered st"
  by (auto simp: wipeAll_def)

lemma register_keeps_answers:
  "answered (fst (handleRegisterKey now st r)) = answered st"
  "GetBlobFailures (fst (handleRegisterKey now st r)) = GetBlobFailures st"
  by (simp_all add: handleRegisterKey_def installKey_keeps Let_def addBundle_def wipeAll_def split: option.split prod.split)

lemma registered_status [simp]: "pStatus (keyRegistered st wiped) = 200"
  by (simp add: keyRegistered_def writeJSON_def answer_def)

text \<open>A registration either changes nothing or succeeds, by the shape of its switch.\<close>

definition settled :: "cpStore \<Rightarrow> cpStore \<times> httpResponse \<Rightarrow> bool" where
  "settled st p \<longleftrightarrow> fst p = st \<or> pStatus (snd p) = 200"

lemma settled_rules:
  "settled st (st, x)" "settled st (st', keyRegistered st'' wiped)" "settled st (installKey now b wiped st')"
  "settled st p \<Longrightarrow> settled st q \<Longrightarrow> settled st (if c then p else q)"
  "(\<And>s w. settled st (f s w)) \<Longrightarrow> settled st (case y of (s, w) \<Rightarrow> f s w)"
  "settled st p \<Longrightarrow> (\<And>b. settled st (g b)) \<Longrightarrow> settled st (case d of None \<Rightarrow> p | Some b \<Rightarrow> g b)"
  by (simp_all add: settled_def installKey_keeps split: prod.split option.split)

lemma register_outcome: "settled st (handleRegisterKey now st r)"
  unfolding handleRegisterKey_def Let_def by (rule settled_rules)+

lemma register_refusal:
  "pStatus (snd (handleRegisterKey now st r)) div 100 \<noteq> 2 \<Longrightarrow> fst (handleRegisterKey now st r) = st"
  using register_outcome [of st now r] by (auto simp: settled_def)

interpretation register: change_handler "handleRegisterKey now" for now
  by unfold_locales (simp_all add: register_keeps_answers register_refusal)

lemmas change_handlers = put.change_handler_axioms del.change_handler_axioms delAll.change_handler_axioms
  rewrap.change_handler_axioms addBundle.change_handler_axioms removeBundle.change_handler_axioms
  register.change_handler_axioms

lemma changeRoute_handler:
  assumes "changeRoute now r = Some h"
  shows "change_handler h"
proof (cases "routeBlob (qPath r)")
  case (Some p)
  then show ?thesis
    using assms by (cases p) (auto simp: changeRoute_def change_handlers split: if_split_asm)
next
  case None
  show ?thesis
  proof (cases "routeBundle (qPath r)")
    case (Some p)
    then show ?thesis using assms None by (cases p) (auto simp: changeRoute_def change_handlers split: if_split_asm)
  next
    case n: None
    then show ?thesis using assms None by (auto simp: changeRoute_def change_handlers split: if_split_asm)
  qed
qed

lemma publish_answered: "answered (fst (handlePublishSearchIndex st r)) = answered st"
  by (simp add: handlePublishSearchIndex_def Let_def split: option.split)

lemma activity_answered: "answered (fst (handleBackfillChatActivity st r)) = answered st"
  by (simp add: handleBackfillChatActivity_def Let_def split: option.split body.split)

lemma get_answered: "answered (fst (handleGetBlob scope i st r)) = answered st"
  by (simp add: handleGetBlob_def Let_def split: option.split list.split)

lemma head_answered: "answered (fst (handleHeadBlob scope i st r)) = answered st"
  by (simp add: handleHeadBlob_def split: option.split)

lemma otherRoute_answered: "answered (fst (otherRoute st r)) = answered st"
  by (simp add: otherRoute_def get_answered head_answered activity_answered publish_answered
      handleGetSearchIndexState_def handleCurrentKey_def split: option.split prod.split)

text \<open>Without injected failures of reads there are never any.\<close>

lemma other_failures:
  "GetBlobFailures (fst (handlePublishSearchIndex st r)) = GetBlobFailures st"
  "GetBlobFailures (fst (handleBackfillChatActivity st r)) = GetBlobFailures st"
  "GetBlobFailures (fst (handleHeadBlob scope i st r)) = GetBlobFailures st"
  "GetBlobFailures st = [] \<Longrightarrow> GetBlobFailures (fst (handleGetBlob scope i st r)) = []"
  by (simp_all add: handlePublishSearchIndex_def handleBackfillChatActivity_def handleHeadBlob_def handleGetBlob_def
      Let_def split: option.split body.split)

lemma otherRoute_failures: "GetBlobFailures st = [] \<Longrightarrow> GetBlobFailures (fst (otherRoute st r)) = []"
  by (simp add: otherRoute_def other_failures handleGetSearchIndexState_def handleCurrentKey_def split: option.split prod.split)

lemma serve_failures: "GetBlobFailures st = [] \<Longrightarrow> GetBlobFailures (fst (serve now st r)) = []"
  unfolding serve_def
  by (cases "changeRoute now r")
     (simp_all add: otherRoute_failures change_handler.idempotent_failures [OF changeRoute_handler])

lemma serveAll_failures: "GetBlobFailures st = [] \<Longrightarrow> GetBlobFailures (serveAll st rs) = []"
  by (induction st rs rule: serveAll.induct) (simp_all add: serve_failures)

lemma serve_answers_kept:
  "map_of (answered st) k = Some a \<Longrightarrow> map_of (answered (fst (serve now st r))) k = Some a"
  unfolding serve_def
  by (cases "changeRoute now r")
     (simp_all add: otherRoute_answered change_handler.idempotent_answers_kept [OF changeRoute_handler])

lemma serveAll_answers_kept:
  "map_of (answered st) k = Some a \<Longrightarrow> map_of (answered (serveAll st rs)) k = Some a"
  by (induction st rs rule: serveAll.induct) (simp_all add: serve_answers_kept)

lemma serve_other_key:
  "k \<noteq> idemKey r \<Longrightarrow> map_of (answered (fst (serve now st r))) k = map_of (answered st) k"
  unfolding serve_def
  by (cases "changeRoute now r")
     (simp_all add: otherRoute_answered change_handler.idempotent_other_key [OF changeRoute_handler])

text \<open>A change sent under an idempotency key with its proof, and the retries of it: the same
  operation, whatever bytes seal it and whatever revision header it carries.\<close>

definition keyedChange :: "httpRequest \<Rightarrow> bool" where
  "keyedChange r \<longleftrightarrow> hIdempotency r \<noteq> [] \<and> hOperationHash r \<noteq> [] \<and> changeRoute 0 r \<noteq> None"

definition sameOperation :: "httpRequest \<Rightarrow> httpRequest \<Rightarrow> bool" where
  "sameOperation r r' \<longleftrightarrow> qMethod r' = qMethod r \<and> qPath r' = qPath r \<and> hOperationHash r' = hOperationHash r \<and>
     hClerkUserID r' = hClerkUserID r \<and> hIdempotency r' = hIdempotency r"

lemma changeRoute_some: "changeRoute now r \<noteq> None \<longleftrightarrow> changeRoute 0 r \<noteq> None"
  by (cases "routeBlob (qPath r)"; cases "routeBundle (qPath r)") (simp_all add: changeRoute_def split: prod.split)

lemma changeRoute_same:
  "sameOperation r r' \<Longrightarrow> changeRoute now r' = changeRoute now r"
  by (simp only: changeRoute_def sameOperation_def)

lemma keyedChange_route: "keyedChange r \<Longrightarrow> \<exists>h. changeRoute now r = Some h"
  using changeRoute_some [of now r] by (auto simp: keyedChange_def)

lemma served_answer_kept:
  assumes "keyedChange r" "serve now st r = (st1, first)" "pStatus first div 100 = 2"
  shows "\<exists>a. map_of (answered st1) (idemKey r) = Some a \<and> iMethod a = qMethod r \<and> iPath a = qPath r \<and>
    iHash a = hOperationHash r \<and> iStatus a = pStatus first \<and> iETag a = pETag first \<and> iBody a = pBody first"
proof -
  obtain h where h: "changeRoute now r = Some h" using keyedChange_route [OF assms(1)] by blast
  then have "idempotent h st r = (st1, first)" using assms(2) by (simp add: serve_def)
  then show ?thesis
    using change_handler.idempotent_keeps [OF changeRoute_handler [OF h]] assms(1,3) by (simp add: keyedChange_def)
qed

lemma serve_replay:
  assumes "keyedChange r" "sameOperation r r'" "map_of (answered st) (idemKey r) = Some a"
    "iMethod a = qMethod r" "iPath a = qPath r" "iHash a = hOperationHash r"
  shows "serve now st r' = (st, replay a)"
proof -
  obtain h where "changeRoute now r' = Some h"
    using keyedChange_route [OF assms(1)] changeRoute_same [OF assms(2)] by metis
  moreover have "idemKey r' = idemKey r" using assms(2) by (simp add: idemKey_def sameOperation_def)
  ultimately show ?thesis
    using assms by (simp add: serve_def idempotent_def keyedChange_def sameOperation_def)
qed

lemma retry_answered_as_first_parts:
  assumes "keyedChange r" "serve now st r = (st1, first)" "pStatus first div 100 = 2"
  shows "sameOperation r r' \<Longrightarrow> fst (serve later (serveAll st1 rs) r') = serveAll st1 rs"
    "sameOperation r r' \<Longrightarrow> pStatus (snd (serve later (serveAll st1 rs) r')) = pStatus first \<and>
       pETag (snd (serve later (serveAll st1 rs) r')) = pETag first \<and>
       pBody (snd (serve later (serveAll st1 rs) r')) = pBody first"
    "keyedChange r' \<Longrightarrow> idemKey r' = idemKey r \<Longrightarrow>
       qMethod r' \<noteq> qMethod r \<or> qPath r' \<noteq> qPath r \<or> hOperationHash r' \<noteq> hOperationHash r \<Longrightarrow>
       fst (serve later (serveAll st1 rs) r') = serveAll st1 rs \<and> pStatus (snd (serve later (serveAll st1 rs) r')) = 409"
proof -
  obtain a where a: "map_of (answered st1) (idemKey r) = Some a" "iMethod a = qMethod r" "iPath a = qPath r"
    "iHash a = hOperationHash r" "iStatus a = pStatus first" "iETag a = pETag first" "iBody a = pBody first"
    using served_answer_kept [OF assms] by blast
  have kept: "map_of (answered (serveAll st1 rs)) (idemKey r) = Some a" using serveAll_answers_kept [OF a(1)] .
  show "fst (serve later (serveAll st1 rs) r') = serveAll st1 rs"
    "pStatus (snd (serve later (serveAll st1 rs) r')) = pStatus first \<and>
       pETag (snd (serve later (serveAll st1 rs) r')) = pETag first \<and>
       pBody (snd (serve later (serveAll st1 rs) r')) = pBody first" if "sameOperation r r'"
    using serve_replay [OF assms(1) that kept a(2-4)] a by (simp_all add: replay_def answer_def)
  show "fst (serve later (serveAll st1 rs) r') = serveAll st1 rs \<and> pStatus (snd (serve later (serveAll st1 rs) r')) = 409"
    if o: "keyedChange r'" "idemKey r' = idemKey r" "qMethod r' \<noteq> qMethod r \<or> qPath r' \<noteq> qPath r \<or> hOperationHash r' \<noteq> hOperationHash r"
  proof -
    obtain h where "changeRoute later r' = Some h" using keyedChange_route [OF o(1)] by blast
    then show ?thesis using o kept a
      by (auto simp: serve_def idempotent_def keyedChange_def idempotencyConflict_def handler_defs)
  qed
qed

text \<open>C20: a change made under an idempotency key is never made again.  Whatever the control
  plane serves in between, a retry of it, re-sealed or not, gets the status, the revision
  and the body of the first answer and changes nothing; another request under the same key
  of the same caller is refused as a conflict and changes nothing either.\<close>

theorem retry_answered_as_first:
  assumes "keyedChange r" "serve now st r = (st1, first)" "pStatus first div 100 = 2"
  shows "(sameOperation r r' \<longrightarrow> fst (serve later (serveAll st1 rs) r') = serveAll st1 rs \<and>
       pStatus (snd (serve later (serveAll st1 rs) r')) = pStatus first \<and>
       pETag (snd (serve later (serveAll st1 rs) r')) = pETag first \<and>
       pBody (snd (serve later (serveAll st1 rs) r')) = pBody first) \<and>
    (keyedChange r' \<and> idemKey r' = idemKey r \<and>
       (qMethod r' \<noteq> qMethod r \<or> qPath r' \<noteq> qPath r \<or> hOperationHash r' \<noteq> hOperationHash r) \<longrightarrow>
       fst (serve later (serveAll st1 rs) r') = serveAll st1 rs \<and> pStatus (snd (serve later (serveAll st1 rs) r')) = 409)"
  using retry_answered_as_first_parts [OF assms] by blast

text \<open>A chat created once, then retried under another seal after its row changed.\<close>

definition putX :: "string \<Rightarrow> bytes \<Rightarrow> string \<Rightarrow> httpRequest" where
  "putX nonce sealed ifMatch = \<lparr>qMethod = ''PUT'', qPath = ''/api/sync/blob/chat/c'', qQuery = [], hClerkUserID = ''u'',
     hKeyID = ''k'', hIfMatch = ifMatch, hIdempotency = nonce, hOperationHash = ''h'' @ nonce, hProfileSyncProtocol = [],
     hProjectIDSet = ''1'', hProjectID = [], hAttachmentRefs = Some [], hActivityAt = None, qBody = Octets sealed\<rparr>"

lemma routeX: "changeRoute now (putX n b m) = Some (handlePutBlob now ''chat'' ''c'')"
  by (simp add: changeRoute_def putX_def routeBlob_def CutPrefix_def blobPrefix_def)

lemma keyedX: "n \<noteq> [] \<Longrightarrow> keyedChange (putX n b m)"
  by (simp add: keyedChange_def routeX) (simp add: putX_def)

lemma createX: "\<exists>st1 first. serve 7 NewStub (putX ''n'' ''s1'' ''0'') = (st1, first) \<and> pStatus first = 200 \<and> pETag first = ''1''"
  unfolding serve_def routeX
  by (simp add: idempotent_def putX_def NewStub_def handlePutBlob_def countOf_def profileRefused_def
      IfMatchCreateOnly_def putStored_def Let_def handler_defs FormatETag_def fmtInt_def fmtNat.simps decDigit_def)

theorem retry_answered_as_first_witness:
  "\<exists>st1. fst (serve 9 (serveAll st1 [(8, putX ''m'' ''s3'' ''1'')]) (putX ''n'' ''s2'' ''0'')) = serveAll st1 [(8, putX ''m'' ''s3'' ''1'')] \<and>
     pETag (snd (serve 9 (serveAll st1 [(8, putX ''m'' ''s3'' ''1'')]) (putX ''n'' ''s2'' ''0''))) = ''1''"
proof -
  obtain st1 first where s: "serve 7 NewStub (putX ''n'' ''s1'' ''0'') = (st1, first)" "pStatus first = 200" "pETag first = ''1''"
    using createX by blast
  have same: "sameOperation (putX ''n'' ''s1'' ''0'') (putX ''n'' ''s2'' ''0'')" by (simp add: sameOperation_def putX_def)
  have k: "keyedChange (putX ''n'' ''s1'' ''0'')" by (simp add: keyedX)
  have ok: "pStatus first div 100 = 2" using s(2) by simp
  note once = retry_answered_as_first [OF k s(1) ok, of "putX ''n'' ''s2'' ''0''" 9 "[(8, putX ''m'' ''s3'' ''1'')]"]
  show ?thesis using once same s(3) by auto
qed

end
