(* ===== verification/CP_Client.thy ===== *)
theory CP_Client
  imports CP_Stub
begin

text \<open>The client of the control plane's row API, \<^verbatim>\<open>internal/controlplane/client.go\<close>: the paths it
  asks for, the requests it sends and what it makes of the answers, with the one resend of
  a write whose outcome is unknown.  The HTTP transport is an argument: a function of the
  world, which the exchange changes, together with the error of the request's context.
  A body that is not a JSON object is its octets; the text of a JSON body whose fields have
  the wrong types is not kept.\<close>

section \<open>Paths\<close>

definition upperHexDigit :: "nat \<Rightarrow> char" where
  "upperHexDigit n = ''0123456789ABCDEF'' ! n"

definition unescaped :: "char \<Rightarrow> bool" where
  "unescaped c \<longleftrightarrow> inRange c 48 57 \<or> inRange c 65 90 \<or> inRange c 97 122 \<or> c \<in> set ''-_.~$&+:=@''"

definition PathEscape :: "string \<Rightarrow> string" where
  "PathEscape s = concat (map (\<lambda>c. if unescaped c then [c]
     else [CHR ''%'', upperHexDigit (byte_val c div 16), upperHexDigit (byte_val c mod 16)]) s)"

fun pathUnescape :: "string \<Rightarrow> string option" where
  "pathUnescape [] = Some []"
| "pathUnescape (c # s) =
    (if c = CHR ''%'' then (case s of
       a # b # t \<Rightarrow> (case (fromHexChar a, fromHexChar b) of
          (Some x, Some y) \<Rightarrow> map_option (\<lambda>r. char_of (16 * x + y) # r) (pathUnescape t)
        | _ \<Rightarrow> None)
     | _ \<Rightarrow> None)
     else map_option (\<lambda>r. c # r) (pathUnescape s))"

definition splitProjectDocID :: "string \<Rightarrow> (string \<times> string) option" where
  "splitProjectDocID i =
    (let parent = takeWhile (\<lambda>c. c \<noteq> CHR ''/'') i; rest = dropWhile (\<lambda>c. c \<noteq> CHR ''/'') i
     in if rest = [] \<or> parent = [] \<or> tl rest = [] then None else Some (parent, tl rest))"

definition PathFor :: "string \<Rightarrow> string \<Rightarrow> goError + string" where
  "PathFor scope i =
    (if scope = ''chat'' then Inr (''/api/sync/blob/chat/'' @ PathEscape i)
     else if scope = ''profile'' then Inr ''/api/sync/blob/profile''
     else if scope = ''project'' then Inr (''/api/sync/blob/project/'' @ PathEscape i)
     else if scope = ''project_document'' then
       (case splitProjectDocID i of None \<Rightarrow> Inl (EOther ''controlplane: invalid project_document id'')
        | Some (parent, doc) \<Rightarrow> Inr (''/api/sync/blob/project_document/'' @ PathEscape parent @ ''/'' @ PathEscape doc))
     else Inl (EOther ''controlplane: unknown scope''))"

text \<open>The server reads the path unescaped.\<close>

definition urlPath :: "string \<Rightarrow> string" where
  "urlPath path = (case pathUnescape path of None \<Rightarrow> path | Some p \<Rightarrow> p)"

section \<open>Exchanges\<close>

text \<open>An exchange fails, or gives an answer, with as much of its body as was read, and whether
  reading it failed.\<close>

record 'w transport =
  tDo :: "'w \<Rightarrow> httpRequest \<Rightarrow> 'w \<times> (goError + httpResponse \<times> bool)"
  tCtx :: "'w \<Rightarrow> goError option"

definition newRequest :: "string \<Rightarrow> string \<Rightarrow> string \<Rightarrow> httpRequest" where
  "newRequest method path clerkUserID = \<lparr>qMethod = method, qPath = urlPath path, qQuery = [], hClerkUserID = clerkUserID,
     hKeyID = [], hIfMatch = [], hIdempotency = [], hOperationHash = [], hProfileSyncProtocol = [], hProjectIDSet = [],
     hProjectID = [], hAttachmentRefs = None, hActivityAt = None, qBody = Octets []\<rparr>"

definition strList :: "Object \<Rightarrow> string \<Rightarrow> string list option" where
  "strList m k = (case map_of m k of None \<Rightarrow> Some [] | Some ANil \<Rightarrow> Some []
     | Some (ASlice xs) \<Rightarrow> those (map (\<lambda>x. case x of AString s \<Rightarrow> Some s | ANil \<Rightarrow> Some [] | _ \<Rightarrow> None) xs)
     | _ \<Rightarrow> None)"

definition statusError :: "int \<Rightarrow> bytes \<Rightarrow> goError" where
  "statusError status message = ECP \<lparr>StatusCode = status, cCode = [], cMessage = message, CurrentKeyID = [],
     CurrentETag = [], MinimumProtocol = 0, MissingAttachments = [], RetryAfterSeconds = 0\<rparr>"

definition parseError :: "int \<Rightarrow> body \<Rightarrow> goError" where
  "parseError status b = (case b of Octets t \<Rightarrow> statusError status t
     | JObj m \<Rightarrow>
       (case (strField m ''code'', strField m ''message'', strField m ''current_key_id'', strField m ''current_etag'',
              intField m ''minimum_protocol'', strList m ''missing_attachments'', intField m ''retry_after_seconds'') of
          (Some code, Some message, Some kid, Some etag, Some mp, Some missing, Some retry) \<Rightarrow>
            ECP \<lparr>StatusCode = status, cCode = code, cMessage = message, CurrentKeyID = kid, CurrentETag = etag,
                 MinimumProtocol = mp, MissingAttachments = missing, RetryAfterSeconds = retry\<rparr>
        | _ \<Rightarrow> statusError status []))"

section \<open>Writing a row\<close>

record PutBlobRequest =
  uScope :: string
  uID :: string
  uClerkUserID :: string
  uKeyIDHex :: string
  uIfMatch :: string
  uIdempotencyKey :: string
  uOperationHash :: string
  uProfileSyncProtocol :: int
  uRewrap :: bool
  uCiphertext :: bytes
  uProjectIDSet :: bool
  uProjectID :: "string option"
  uAttachmentRefs :: "string list option"
  uActivityAt :: "int option"

record PutBlobResponse =
  vETag :: string
  vKeyID :: string
  vSourceRevision :: int

definition PutBlobMaxAttempts :: nat where "PutBlobMaxAttempts = 2"

definition isRetryablePutBlobStatus :: "int \<Rightarrow> bool" where
  "isRetryablePutBlobStatus status \<longleftrightarrow> 500 \<le> status \<and> status \<le> 599"

definition putRequest :: "string \<Rightarrow> PutBlobRequest \<Rightarrow> httpRequest" where
  "putRequest path req = (newRequest ''PUT'' path (uClerkUserID req))
     \<lparr>hKeyID := uKeyIDHex req, hIfMatch := uIfMatch req, hIdempotency := uIdempotencyKey req,
      hOperationHash := uOperationHash req,
      hProfileSyncProtocol := (if 0 < uProfileSyncProtocol req then fmtInt (uProfileSyncProtocol req) else []),
      hProjectIDSet := (if uProjectIDSet req then ''1'' else []),
      hProjectID := (if uProjectIDSet req then (case uProjectID req of None \<Rightarrow> [] | Some x \<Rightarrow> x) else []),
      hAttachmentRefs := map_option joinComma (uAttachmentRefs req),
      hActivityAt := uActivityAt req, qBody := Octets (uCiphertext req)\<rparr>"

definition readPutAnswer :: "PutBlobRequest \<Rightarrow> httpResponse \<Rightarrow> goError + PutBlobResponse" where
  "readPutAnswer req resp =
    (case (case pBody resp of Octets _ \<Rightarrow> None | JObj m \<Rightarrow>
             (case (strField m ''etag'', strField m ''key_id'', intField m ''source_revision'') of
                (Some e, Some k, Some n) \<Rightarrow> Some (e, k, n) | _ \<Rightarrow> None)) of
       None \<Rightarrow> Inl (EAmbiguous PutBlobResponseDecode (EOther ''invalid PutBlob response''))
     | Some (etag, kid, n) \<Rightarrow>
       if etag = [] \<and> pETag resp = [] then Inl (EAmbiguous PutBlobInvalidResponse (EOther ''missing ETag in PutBlob response''))
       else if etag \<noteq> [] \<and> pETag resp \<noteq> [] \<and> etag \<noteq> pETag resp
       then Inl (EAmbiguous PutBlobInvalidResponse (EOther ''inconsistent ETag in PutBlob response''))
       else if kid \<noteq> [] \<and> pKeyID resp \<noteq> [] \<and> kid \<noteq> pKeyID resp
       then Inl (EAmbiguous PutBlobInvalidResponse (EOther ''inconsistent KeyID in PutBlob response''))
       else Inr \<lparr>vETag = (if etag = [] then pETag resp else etag),
                 vKeyID = (if kid \<noteq> [] then kid else if pKeyID resp \<noteq> [] then pKeyID resp else uKeyIDHex req),
                 vSourceRevision = n\<rparr>)"

definition putBlobOnce :: "'w transport \<Rightarrow> 'w \<Rightarrow> PutBlobRequest \<Rightarrow> 'w \<times> (goError + PutBlobResponse)" where
  "putBlobOnce T w req =
    (case PathFor (uScope req) (uID req) of Inl e \<Rightarrow> (w, Inl e)
     | Inr path \<Rightarrow>
       (case tDo T w (putRequest path req) of
          (w, Inl e) \<Rightarrow> (w, Inl (EAmbiguous PutBlobTransportFailure e))
        | (w, Inr (resp, unread)) \<Rightarrow>
            (w, if 400 \<le> pStatus resp
                then (if isRetryablePutBlobStatus (pStatus resp)
                      then Inl (EAmbiguous PutBlobUpstreamFailure (parseError (pStatus resp) (pBody resp)))
                      else Inl (parseError (pStatus resp) (pBody resp)))
                else if unread then Inl (EAmbiguous PutBlobResponseRead (EOther ''body''))
                else readPutAnswer req resp)))"

text \<open>The resend loop, with the number of attempts left.\<close>

fun putBlobLoop :: "'w transport \<Rightarrow> nat \<Rightarrow> 'w \<Rightarrow> PutBlobRequest \<Rightarrow> 'w \<times> (goError + PutBlobResponse)" where
  "putBlobLoop T 0 w req = (w, Inl (EOther ''unreachable''))"
| "putBlobLoop T (Suc n) w req =
    (case tCtx T w of Some e \<Rightarrow> (w, Inl e)
     | None \<Rightarrow>
       (case putBlobOnce T w req of
          (w, Inr resp) \<Rightarrow> (w, Inr resp)
        | (w, Inl err) \<Rightarrow>
            if \<not> isAmbiguous err then (w, Inl err)
            else if tCtx T w \<noteq> None \<or> n = 0 then (w, Inl (EOutcomeUnknown err))
            else putBlobLoop T n w req))"

definition rewrapRequest :: "PutBlobRequest \<Rightarrow> httpRequest" where
  "rewrapRequest req = (newRequest ''POST'' RewrapPath (uClerkUserID req))
     \<lparr>hIdempotency := uIdempotencyKey req, hOperationHash := uOperationHash req,
      qBody := JObj [(''scope'', AString (uScope req)), (''id'', AString (uID req)), (''key_id'', AString (uKeyIDHex req)),
        (''if_match'', AString (uIfMatch req)), (''ciphertext_b64'', AString (b64Encode (uCiphertext req)))]\<rparr>"

definition rewrapBlob :: "'w transport \<Rightarrow> 'w \<Rightarrow> PutBlobRequest \<Rightarrow> 'w \<times> (goError + PutBlobResponse)" where
  "rewrapBlob T w req =
    (case tDo T w (rewrapRequest req) of
       (w, Inl e) \<Rightarrow> (w, Inl e)
     | (w, Inr (resp, unread)) \<Rightarrow>
         (w, if 400 \<le> pStatus resp then Inl (parseError (pStatus resp) (pBody resp))
             else case pBody resp of
               Octets _ \<Rightarrow> Inl (EOther ''controlplane: decode rewrap'')
             | JObj m \<Rightarrow> (case (boolField m ''ok'', strField m ''etag'', strField m ''key_id'') of
                 (Some _, Some etag, Some kid) \<Rightarrow>
                   if etag = [] then Inl (EOther ''controlplane: missing etag in rewrap response'')
                   else Inr \<lparr>vETag = etag, vKeyID = (if kid = [] then uKeyIDHex req else kid), vSourceRevision = 0\<rparr>
               | _ \<Rightarrow> Inl (EOther ''controlplane: decode rewrap''))))"

definition PutBlob :: "'w transport \<Rightarrow> 'w \<Rightarrow> PutBlobRequest \<Rightarrow> 'w \<times> (goError + PutBlobResponse)" where
  "PutBlob T w req = (if uRewrap req then rewrapBlob T w req else putBlobLoop T PutBlobMaxAttempts w req)"

section \<open>Reading and deleting rows\<close>

record GetBlobResponse =
  gCiphertext :: bytes
  gETag :: string
  gKeyID :: string
  gProjectIDSet :: bool
  gProjectID :: "string option"
  gActivityAt :: "int option"
  gUpdatedAt :: "int option"

definition GetBlob :: "'w transport \<Rightarrow> 'w \<Rightarrow> string \<Rightarrow> string \<Rightarrow> string \<Rightarrow> 'w \<times> (goError + GetBlobResponse)" where
  "GetBlob T w scope i clerkUserID =
    (case PathFor scope i of Inl e \<Rightarrow> (w, Inl e)
     | Inr path \<Rightarrow>
       (case tDo T w (newRequest ''GET'' path clerkUserID) of
          (w, Inl e) \<Rightarrow> (w, Inl e)
        | (w, Inr (resp, unread)) \<Rightarrow>
          (w, if unread then Inl (EOther ''body'')
              else if 400 \<le> pStatus resp then Inl (parseError (pStatus resp) (pBody resp))
              else Inr \<lparr>gCiphertext = (case pBody resp of Octets b \<Rightarrow> b | JObj _ \<Rightarrow> []), gETag = pETag resp, gKeyID = pKeyID resp,
                        gProjectIDSet = (scope = ''chat'' \<and> pProjectIDSet resp = ''1''),
                        gProjectID = (if scope = ''chat'' \<and> pProjectIDSet resp = ''1'' \<and> pProjectID resp \<noteq> []
                                      then Some (pProjectID resp) else None),
                        gActivityAt = (if scope = ''chat'' then pActivityAt resp else None),
                        gUpdatedAt = pUpdatedAt resp\<rparr>)))"

definition HeadBlob :: "'w transport \<Rightarrow> 'w \<Rightarrow> string \<Rightarrow> string \<Rightarrow> string \<Rightarrow> 'w \<times> (goError + string \<times> string \<times> string)" where
  "HeadBlob T w scope i clerkUserID =
    (case PathFor scope i of Inl e \<Rightarrow> (w, Inl e)
     | Inr path \<Rightarrow>
       (case tDo T w (newRequest ''HEAD'' path clerkUserID) of
          (w, Inl e) \<Rightarrow> (w, Inl e)
        | (w, Inr (resp, unread)) \<Rightarrow>
          (w, if 400 \<le> pStatus resp then Inl (parseError (pStatus resp) (pBody resp))
              else Inr (i, pETag resp, pKeyID resp))))"

record DeleteBlobResponse =
  dOK :: bool
  WipedV2Attachments :: "string list"
  dSourceRevision :: int

definition deleteRequest :: "string \<Rightarrow> string \<Rightarrow> string \<Rightarrow> string \<Rightarrow> string \<Rightarrow> httpRequest" where
  "deleteRequest path clerkUserID ifMatch nonce ophash = (newRequest ''DELETE'' path clerkUserID)
     \<lparr>hIfMatch := ifMatch, hIdempotency := nonce, hOperationHash := ophash\<rparr>"

definition DeleteBlob ::
  "'w transport \<Rightarrow> 'w \<Rightarrow> string \<Rightarrow> string \<Rightarrow> string \<Rightarrow> string \<Rightarrow> string \<Rightarrow> string \<Rightarrow> 'w \<times> (goError + DeleteBlobResponse)" where
  "DeleteBlob T w scope i clerkUserID ifMatch nonce ophash =
    (case PathFor scope i of Inl e \<Rightarrow> (w, Inl e)
     | Inr path \<Rightarrow>
       (case tDo T w (deleteRequest path clerkUserID ifMatch nonce ophash) of
          (w, Inl e) \<Rightarrow> (w, Inl e)
        | (w, Inr (resp, unread)) \<Rightarrow>
          (let b = pBody resp
           in (w, if 400 \<le> pStatus resp then Inl (parseError (pStatus resp) b)
                  else case b of
                    Octets t \<Rightarrow> (if t = [] then Inr \<lparr>dOK = False, WipedV2Attachments = [], dSourceRevision = 0\<rparr>
                                 else Inl (EOther ''controlplane: decode delete response''))
                  | JObj m \<Rightarrow> (case (boolField m ''ok'', strList m ''wiped_v2_attachments'', intField m ''source_revision'') of
                      (Some ok, Some wiped, Some n) \<Rightarrow> Inr \<lparr>dOK = ok, WipedV2Attachments = wiped, dSourceRevision = n\<rparr>
                    | _ \<Rightarrow> Inl (EOther ''controlplane: decode delete response''))))))"

definition DeleteAllProjects ::
  "'w transport \<Rightarrow> 'w \<Rightarrow> string \<Rightarrow> string \<Rightarrow> string \<Rightarrow> string \<Rightarrow> 'w \<times> (goError + bool \<times> int)" where
  "DeleteAllProjects T w clerkUserID kid nonce ophash =
    (case tDo T w ((deleteRequest DeleteAllProjectsPath clerkUserID [] nonce ophash)\<lparr>hKeyID := kid\<rparr>) of
       (w, Inl e) \<Rightarrow> (w, Inl e)
     | (w, Inr (resp, unread)) \<Rightarrow>
       (w, if 400 \<le> pStatus resp then Inl (parseError (pStatus resp) (pBody resp))
           else if unread then Inl (EOther ''controlplane: read delete-all-projects response'')
           else case pBody resp of
             Octets _ \<Rightarrow> Inl (EOther ''controlplane: decode delete-all-projects response'')
           | JObj m \<Rightarrow> (case (boolField m ''ok'', intField m ''deleted'') of
               (Some ok, Some n) \<Rightarrow> Inr (ok, n)
             | _ \<Rightarrow> Inl (EOther ''controlplane: decode delete-all-projects response''))))"

text \<open>The activity time travels as the request's time.\<close>

definition BackfillChatActivity :: "'w transport \<Rightarrow> 'w \<Rightarrow> string \<Rightarrow> string \<Rightarrow> string \<Rightarrow> int \<Rightarrow> 'w \<times> goError option" where
  "BackfillChatActivity T w clerkUserID i etag activityAt =
    (case tDo T w ((newRequest ''POST'' ChatActivityPath clerkUserID)
         \<lparr>hActivityAt := Some activityAt, qBody := JObj [(''id'', AString i), (''etag'', AString etag)]\<rparr>) of
       (w, Inl e) \<Rightarrow> (w, Some e)
     | (w, Inr (resp, unread)) \<Rightarrow> (w, if 400 \<le> pStatus resp then Some (parseError (pStatus resp) (pBody resp)) else None))"

text \<open>Of the registered key, its id; \<open>None\<close> when there is none.\<close>

definition GetCurrentKey :: "'w transport \<Rightarrow> 'w \<Rightarrow> string \<Rightarrow> 'w \<times> (goError + string option)" where
  "GetCurrentKey T w clerkUserID =
    (case tDo T w (newRequest ''GET'' ''/api/sync/keys/current'' clerkUserID) of
       (w, Inl e) \<Rightarrow> (w, Inl e)
     | (w, Inr (resp, unread)) \<Rightarrow>
       (w, if pStatus resp = 404 then Inr None
           else if 400 \<le> pStatus resp then Inl (parseError (pStatus resp) (pBody resp))
           else case pBody resp of Octets _ \<Rightarrow> Inl (EOther ''controlplane: decode current-key'')
           | JObj m \<Rightarrow> (case (strField m ''key_id'', strField m ''etag'', strField m ''created_via'', boolField m ''has_data'') of
               (Some kid, Some _, Some _, Some _) \<Rightarrow> Inr (Some kid)
             | _ \<Rightarrow> Inl (EOther ''controlplane: decode current-key''))))"

record Revision =
  lID :: string
  lETag :: string
  lProject :: "string option"

definition listedRow :: "any \<Rightarrow> Revision option" where
  "listedRow v = (case v of AMap m \<Rightarrow>
     (case (strField m ''id'', strField m ''etag'', (case map_of m ''project_id'' of Some (AString x) \<Rightarrow> Some (Some x)
            | None \<Rightarrow> Some None | Some ANil \<Rightarrow> Some None | _ \<Rightarrow> None)) of
        (Some i, Some e, Some pr) \<Rightarrow> Some \<lparr>lID = i, lETag = e, lProject = pr\<rparr>
      | _ \<Rightarrow> None)
   | _ \<Rightarrow> None)"

definition listPage :: "Object \<Rightarrow> (Revision list \<times> string) option" where
  "listPage m =
    (case ((case map_of m ''updates'' of Some (ASlice xs) \<Rightarrow> those (map listedRow xs)
            | None \<Rightarrow> Some [] | Some ANil \<Rightarrow> Some [] | _ \<Rightarrow> None), strField m ''next_cursor'') of
       (Some rows, Some cursor) \<Rightarrow> Some (rows, cursor)
     | _ \<Rightarrow> None)"

definition ListStatus ::
  "'w transport \<Rightarrow> 'w \<Rightarrow> string \<Rightarrow> string \<Rightarrow> int \<Rightarrow> string \<Rightarrow> string \<Rightarrow> string \<Rightarrow> bool \<Rightarrow> 'w \<times> (goError + Revision list \<times> string)" where
  "ListStatus T w scope cursor limit clerkUserID projectID direction omitDeletes =
    (let limit = (if limit \<le> 0 \<or> 500 < limit then 100 else limit);
         q = [(''scope'', scope), (''limit'', fmtInt limit)] @ (if cursor \<noteq> [] then [(''cursor'', cursor)] else []) @
             (if projectID \<noteq> [] then [(''project_id'', projectID)] else []) @
             (if direction \<noteq> [] then [(''direction'', direction)] else []) @
             (if omitDeletes then [(''deletes'', ''omit'')] else [])
     in case tDo T w ((newRequest ''GET'' ''/api/sync/list-status'' clerkUserID)\<lparr>qQuery := q\<rparr>) of
          (w, Inl e) \<Rightarrow> (w, Inl e)
        | (w, Inr (resp, unread)) \<Rightarrow>
          (w, if unread then Inl (EOther ''body'')
              else if 400 \<le> pStatus resp then Inl (parseError (pStatus resp) (pBody resp))
              else case pBody resp of Octets _ \<Rightarrow> Inl (EOther ''controlplane: decode list-status'')
              | JObj m \<Rightarrow> (case listPage m of None \<Rightarrow> Inl (EOther ''controlplane: decode list-status'') | Some x \<Rightarrow> Inr x)))"

section \<open>Paths name rows\<close>

lemma upperHex_back: "n < 16 \<Longrightarrow> fromHexChar (upperHexDigit n) = Some n"
  by (erule below_by_enum) (simp add: upperHexDigit_def fromHexChar_def byte_val_def upt_rec)

lemma not_unescaped_percent: "\<not> unescaped (CHR ''%'')"
  by (simp add: unescaped_def inRange_def byte_val_def)

lemma pathUnescape_plain: "CHR ''%'' \<notin> set p \<Longrightarrow> pathUnescape (p @ s) = map_option (\<lambda>r. p @ r) (pathUnescape s)"
  by (induction p; cases "pathUnescape s") auto

lemma pathUnescape_escape: "pathUnescape (PathEscape s @ t) = map_option (\<lambda>r. s @ r) (pathUnescape t)"
proof (induction s)
  case (Cons c s)
  have e: "PathEscape (c # s) = (if unescaped c then [c]
     else [CHR ''%'', upperHexDigit (byte_val c div 16), upperHexDigit (byte_val c mod 16)]) @ PathEscape s"
    by (simp add: PathEscape_def)
  show ?case
  proof (cases "unescaped c")
    case True
    then have "c \<noteq> CHR ''%''" using not_unescaped_percent by blast
    then show ?thesis unfolding e using True Cons by (simp add: option.map_comp comp_def)
  next
    case False
    then show ?thesis unfolding e using Cons by (simp add: upperHex_back option.map_comp comp_def)
  qed
qed (simp add: PathEscape_def option.map_ident)

lemma pathUnescape_Nil: "pathUnescape [] = Some []"
  by simp

declare pathUnescape.simps [simp del]

lemma splitProjectDocID_join:
  "splitProjectDocID i = Some (p, d) \<Longrightarrow> i = p @ ''/'' @ d \<and> p \<noteq> [] \<and> d \<noteq> []"
proof -
  assume a: "splitProjectDocID i = Some (p, d)"
  define rest where "rest = dropWhile (\<lambda>c. c \<noteq> CHR ''/'') i"
  have r: "rest \<noteq> []" "p = takeWhile (\<lambda>c. c \<noteq> CHR ''/'') i" "d = tl rest" "p \<noteq> []" "d \<noteq> []"
    using a by (auto simp: splitProjectDocID_def Let_def rest_def split: if_splits)
  have "hd rest = CHR ''/''" using hd_dropWhile [of "\<lambda>c. c \<noteq> CHR ''/''" i] r(1) by (simp add: rest_def)
  then have "rest = CHR ''/'' # d" using r by (cases rest) auto
  moreover have "i = p @ rest" using r(2) by (simp add: rest_def)
  ultimately show ?thesis using r by simp
qed

lemma urlPath_PathFor:
  assumes "PathFor scope i = Inr path"
  shows "urlPath path = blobPrefix @ (if scope = ''profile'' then ''profile'' else scope @ ''/'' @ i)"
proof -
  have sc: "scope \<in> {''chat'', ''profile'', ''project'', ''project_document''}"
    using assms by (auto simp: PathFor_def split: if_splits)
  have plain: "pathUnescape (p @ PathEscape s) = Some (p @ s)" if "CHR ''%'' \<notin> set p" for p s
    using pathUnescape_plain [OF that, of "PathEscape s"] pathUnescape_escape [of s "[]"] by (simp add: pathUnescape_Nil)
  show ?thesis
  proof (cases "scope = ''project_document''")
    case True
    then obtain p d where s: "splitProjectDocID i = Some (p, d)"
      and path: "path = ''/api/sync/blob/project_document/'' @ PathEscape p @ ''/'' @ PathEscape d"
      using assms by (auto simp: PathFor_def split: option.splits)
    have "pathUnescape (''/'' @ PathEscape d) = Some (''/'' @ d)" by (rule plain) simp
    then have "pathUnescape path = Some (''/api/sync/blob/project_document/'' @ p @ ''/'' @ d)"
      unfolding path by (subst pathUnescape_plain) (simp_all add: pathUnescape_escape)
    then show ?thesis using True splitProjectDocID_join [OF s] by (simp add: urlPath_def blobPrefix_def)
  next
    case False
    have prof: "pathUnescape ''/api/sync/blob/profile'' = Some ''/api/sync/blob/profile''" by code_simp
    have chat: "pathUnescape (''/api/sync/blob/chat/'' @ PathEscape i) = Some (''/api/sync/blob/chat/'' @ i)"
      and proj: "pathUnescape (''/api/sync/blob/project/'' @ PathEscape i) = Some (''/api/sync/blob/project/'' @ i)"
      by (rule plain, simp)+
    from sc False consider "scope = ''chat''" | "scope = ''profile''" | "scope = ''project''" by blast
    then show ?thesis
    proof cases
      case 1
      then have path: "path = ''/api/sync/blob/chat/'' @ PathEscape i" using assms by (simp add: PathFor_def)
      show ?thesis unfolding path urlPath_def chat using 1 by (simp add: blobPrefix_def)
    next
      case 2
      then have path: "path = ''/api/sync/blob/profile''" using assms by (simp add: PathFor_def)
      show ?thesis unfolding path urlPath_def prof using 2 by (simp add: blobPrefix_def)
    next
      case 3
      then have path: "path = ''/api/sync/blob/project/'' @ PathEscape i" using assms by (simp add: PathFor_def)
      show ?thesis unfolding path urlPath_def proj using 3 by (simp add: blobPrefix_def)
    qed
  qed
qed

lemma routeBlob_PathFor:
  assumes "PathFor scope i = Inr path" "i \<noteq> []"
  shows "routeBlob (urlPath path) = Some (scope, if scope = ''profile'' then ''profile'' else i)"
proof -
  have sc: "scope \<in> {''chat'', ''profile'', ''project'', ''project_document''}"
    using assms(1) by (auto simp: PathFor_def split: if_splits)
  have cut: "CutPrefix (p @ s) p = Some s" for p s by (simp add: CutPrefix_Some)
  from sc consider "scope = ''chat''" | "scope = ''profile''" | "scope = ''project''" | "scope = ''project_document''" by blast
  then show ?thesis unfolding urlPath_PathFor [OF assms(1)] routeBlob_def cut
    using assms(2) by cases (simp_all add: CutPrefix_def)
qed

end
