(* ===== verification/Rows.thy ===== *)
theory Rows
  imports CP_Client Envelope
begin

text \<open>The rows as the harness reads and writes them, \<^verbatim>\<open>internal/store/rows.go\<close>,
  \<^verbatim>\<open>rows_chat.go\<close> and the resealing of \<^verbatim>\<open>rewrap.go\<close>.  Each operation passes the world on, which
  the environment's functions read and change: the transport to the control plane, the
  clock, random bytes, fresh uuids and the search index's two callbacks.  \<open>eJSON\<close> is
  \<^verbatim>\<open>encoding/json\<close> reading any value, numbers kept as written; \<open>eMarshal\<close> writes an object;
  \<open>eTime\<close> parses RFC 3339, in nanoseconds from the zero time.  \<open>ePromote\<close> moves one legacy
  attachment into the bucket service, which the model leaves out.\<close>

section \<open>The environment\<close>

record 'w env =
  eT :: "'w transport"
  eHkdf :: hkdf
  eHmac :: "bytes \<Rightarrow> bytes \<Rightarrow> bytes"
  eCodec :: codec
  eNow :: "'w \<Rightarrow> int"
  eRand :: "'w \<Rightarrow> 'w \<times> bytes option \<times> bytes option \<times> bytes option"
  eUUID :: "'w \<Rightarrow> 'w \<times> string"
  eJSON :: "bytes \<Rightarrow> any option"
  eMarshal :: "Object \<Rightarrow> bytes"
  eTime :: "string \<Rightarrow> int option"
  ePromote :: "'w \<Rightarrow> string \<Rightarrow> string \<Rightarrow> string \<Rightarrow> string \<Rightarrow> 'w \<times> goError option"
  eDropBuckets :: "'w \<Rightarrow> string \<Rightarrow> string list \<Rightarrow> 'w"
  eChatStored :: "('w \<Rightarrow> string \<Rightarrow> bytes \<Rightarrow> string \<Rightarrow> int \<Rightarrow> 'w) option"
  eChatRemoved :: "('w \<Rightarrow> string \<Rightarrow> int \<Rightarrow> 'w) option"

record Principal =
  pID :: string
  pGrant :: "StorageGrant option"

definition PullBatch :: nat where "PullBatch = 100"
definition ListStatusPage :: int where "ListStatusPage = 500"
definition MaxCommitAttempts :: nat where "MaxCommitAttempts = 3"
definition removeAttempts :: nat where "removeAttempts = 3"
definition maxListPage :: int where "maxListPage = 100"
definition defaultListPage :: int where "defaultListPage = 50"
definition profileSyncProtocol :: int where "profileSyncProtocol = 2"
definition maxAttachmentRefsPerChat :: nat where "maxAttachmentRefsPerChat = 500"

section \<open>What a chat says of itself\<close>

definition attachmentServerKey :: "Object \<Rightarrow> string" where
  "attachmentServerKey raw = FirstString [Str (map_of raw ''encryptionKey''), Str (map_of raw ''key'')]"

text \<open>The attachments of a message decoded into a struct: null is none, another type fails.\<close>

definition messageAttachments :: "any \<Rightarrow> Object list option" where
  "messageAttachments v = (case v of ANil \<Rightarrow> Some [] | AMap m \<Rightarrow>
     (case map_of m ''attachments'' of None \<Rightarrow> Some [] | Some ANil \<Rightarrow> Some []
      | Some (ASlice xs) \<Rightarrow> those (map (\<lambda>x. case x of AMap a \<Rightarrow> Some a | ANil \<Rightarrow> Some [] | _ \<Rightarrow> None) xs)
      | _ \<Rightarrow> None)
   | _ \<Rightarrow> None)"

definition listField :: "Object \<Rightarrow> string \<Rightarrow> any list option" where
  "listField m k = (case map_of m k of None \<Rightarrow> Some [] | Some ANil \<Rightarrow> Some [] | Some (ASlice xs) \<Rightarrow> Some xs | _ \<Rightarrow> None)"

fun addRefs :: "string list \<Rightarrow> Object list \<Rightarrow> string list" where
  "addRefs refs [] = refs"
| "addRefs refs (a # as) =
    (let i = Str (map_of a ''id'')
     in if i = [] \<or> attachmentServerKey a = [] \<or> i \<in> set refs then addRefs refs as else addRefs (refs @ [i]) as)"

definition chatAttachmentRefs :: "(bytes \<Rightarrow> any option) \<Rightarrow> bytes \<Rightarrow> string list option" where
  "chatAttachmentRefs js plaintext = (case js plaintext of
     Some ANil \<Rightarrow> Some []
   | Some (AMap m) \<Rightarrow>
       (case listField m ''messages'' of None \<Rightarrow> None
        | Some msgs \<Rightarrow> (case those (map messageAttachments msgs) of None \<Rightarrow> None
                        | Some atts \<Rightarrow> Some (addRefs [] (concat atts))))
   | _ \<Rightarrow> None)"

definition considerTime :: "(string \<Rightarrow> int option) \<Rightarrow> any option \<Rightarrow> int \<Rightarrow> int \<times> bool" where
  "considerTime tm raw activityAt = (case raw of Some (AString s) \<Rightarrow>
     (case tm s of None \<Rightarrow> (activityAt, False) | Some t \<Rightarrow> (max activityAt t, True))
   | _ \<Rightarrow> (activityAt, False))"

definition considerMessage :: "(string \<Rightarrow> int option) \<Rightarrow> any \<Rightarrow> int \<Rightarrow> int" where
  "considerMessage tm v activityAt = (case v of AMap m \<Rightarrow>
     (let (t, ok) = considerTime tm (map_of m ''createdAt'') activityAt
      in if ok then t else fst (considerTime tm (map_of m ''timestamp'') t))
   | _ \<Rightarrow> activityAt)"

definition chatActivityAt :: "(bytes \<Rightarrow> any option) \<Rightarrow> (string \<Rightarrow> int option) \<Rightarrow> bytes \<Rightarrow> int option" where
  "chatActivityAt js tm plaintext = (case js plaintext of
     Some (AMap m) \<Rightarrow>
       (case listField m ''messages'' of None \<Rightarrow> None
        | Some msgs \<Rightarrow>
          (let t = fold (considerMessage tm) msgs (fst (considerTime tm (map_of m ''createdAt'') 0))
           in if t = 0 then None else Some t))
   | _ \<Rightarrow> None)"

section \<open>Writing\<close>

definition operationHash ::
  "hkdf \<Rightarrow> (bytes \<Rightarrow> bytes \<Rightarrow> bytes) \<Rightarrow> bytes \<Rightarrow> string \<Rightarrow> string \<Rightarrow> string \<Rightarrow> string \<Rightarrow> string \<Rightarrow> int \<Rightarrow> bytes option \<Rightarrow> bytes option \<Rightarrow> string" where
  "operationHash hkdf hmac key meth path kidHex ifMatch nonce protocol aad plaintext =
    ComputeOperationHash hmac (case DeriveOpHashKey hkdf key of Inl _ \<Rightarrow> [] | Inr k \<Rightarrow> k)
      \<lparr>Method = meth, Path = path, KeyIDHex = kidHex, IfMatch = ifMatch, IdempotencyKey = nonce, Body = plaintext,
       AADBytes = aad, Envelope = None, ProfileSyncProtocol = (if 0 < protocol then fmtInt protocol else [])\<rparr>"

definition ifMatchOf :: "StoredRow \<Rightarrow> string" where
  "ifMatchOf row = (if rETag row \<noteq> [] then rETag row else IfMatchCreateOnly)"

definition pushRequest :: "'w env \<Rightarrow> Principal \<Rightarrow> bytes \<Rightarrow> string \<Rightarrow> StoredRow \<Rightarrow> string \<Rightarrow> string \<Rightarrow> bytes \<Rightarrow> bytes \<Rightarrow> PutBlobRequest" where
  "pushRequest E p key scope row nonce path payloadAAD sealed =
    (let kidHex = keyID (eHkdf E) key;
         protocol = (if scope = ''profile'' then profileSyncProtocol else 0)
     in \<lparr>uScope = scope, uID = rID row, uClerkUserID = pID p, uKeyIDHex = kidHex, uIfMatch = ifMatchOf row,
         uIdempotencyKey = nonce,
         uOperationHash = operationHash (eHkdf E) (eHmac E) key ''PUT'' path kidHex (ifMatchOf row) nonce protocol
           (Some payloadAAD) (Some (rData row)),
         uProfileSyncProtocol = protocol, uRewrap = False, uCiphertext = sealed,
         uProjectIDSet = (scope = ''chat''),
         uProjectID = (if scope = ''chat'' then (case rProject row of Some x \<Rightarrow> if x \<noteq> [] then Some x else None | None \<Rightarrow> None) else None),
         uAttachmentRefs = (if scope = ''chat'' then chatAttachmentRefs (eJSON E) (rData row) else None),
         uActivityAt = (if scope = ''chat'' then chatActivityAt (eJSON E) (eTime E) (rData row) else None)\<rparr>)"

definition bad :: "string \<Rightarrow> goError" where
  "bad why = EApi (Err 400 ''BAD_REQUEST'' why)"

definition Push :: "'w env \<Rightarrow> 'w \<Rightarrow> Principal \<Rightarrow> bytes \<Rightarrow> string \<Rightarrow> StoredRow \<Rightarrow> string \<Rightarrow> 'w \<times> (goError + string)" where
  "Push E w p key scope row nonce =
    (if \<not> scopeValid scope then (w, Inl (bad ''invalid scope''))
     else if rID row = [] \<or> nonce = [] then (w, Inl (bad ''a row id and an idempotency key are required''))
     else if (case pGrant p of None \<Rightarrow> False | Some g \<Rightarrow> \<not> permitsPush (eHkdf E) (eNow E w) g key scope row) then (w, Inl ERunScope)
     else case PathFor scope (rID row) of Inl _ \<Rightarrow> (w, Inl (bad ''invalid row id''))
     | Inr path \<Rightarrow>
       let aad = \<lparr>aKeyIDHex = keyID (eHkdf E) key, aScope = scope, aID = rID row, aClerkUserID = pID p\<rparr>
       in case CanonicalPayloadAAD aad of Inl _ \<Rightarrow> (w, Inl (bad ''invalid envelope inputs''))
       | Inr payloadAAD \<Rightarrow>
         let (w, rk, rp, rw) = eRand E w
         in case EncryptWith (eCodec E) rk rp rw key (rData row) aad of
              Inl e \<Rightarrow> (w, Inl (EApi (FromControlplane (ESeal e))))
            | Inr sealed \<Rightarrow>
              let req = pushRequest E p key scope row nonce path payloadAAD sealed
              in if scope = ''chat'' \<and> (case uAttachmentRefs req of None \<Rightarrow> False | Some refs \<Rightarrow> maxAttachmentRefsPerChat < length refs)
                 then (w, Inl (bad ''The chat references more than 500 attachments''))
                 else case PutBlob (eT E) w req of
                   (w, Inl e) \<Rightarrow> (w, Inl (EApi (FromControlplane e)))
                 | (w, Inr resp) \<Rightarrow>
                     ((if scope = ''chat'' then (case eChatStored E of None \<Rightarrow> w
                         | Some stored \<Rightarrow> stored w (rID row) (rData row) (vETag resp) (vSourceRevision resp)) else w),
                      Inr (vETag resp)))"

section \<open>Resealing a legacy row\<close>

definition aadIDOf :: "string \<Rightarrow> string \<Rightarrow> string" where
  "aadIDOf scope i = (if scope = ''profile'' then ProfileSingletonID else i)"

text \<open>Moving the attachments of a chat's messages; the result holds the values rewritten, the
  number of moves that failed, and whether a key was copied.\<close>

definition promoteAtt :: "'w env \<Rightarrow> 'w \<Rightarrow> Principal \<Rightarrow> string \<Rightarrow> any \<Rightarrow> 'w \<times> any \<times> nat \<times> bool" where
  "promoteAtt E w p chatID a = (case a of AMap att \<Rightarrow>
      (let rawID = Str (map_of att ''id'');
           current = Str (map_of att ''encryptionKey'');
           rawKey = FirstString [current, Str (map_of att ''key'')]
       in if map_of att ''type'' \<noteq> Some (AString ''image'') \<or> rawID = [] \<or> rawKey = [] then (w, a, 0, False)
          else case ePromote E w (pID p) chatID rawID rawKey of
            (w, Some _) \<Rightarrow> (w, a, 1, False)
          | (w, None) \<Rightarrow> if current = [] then (w, AMap (AList.update ''encryptionKey'' (AString rawKey) att), 0, True)
                         else (w, a, 0, False))
    | _ \<Rightarrow> (w, a, 0, False))"

fun promoteAtts :: "'w env \<Rightarrow> 'w \<Rightarrow> Principal \<Rightarrow> string \<Rightarrow> any list \<Rightarrow> 'w \<times> any list \<times> nat \<times> bool" where
  "promoteAtts E w p chatID [] = (w, [], 0, False)"
| "promoteAtts E w p chatID (a # as) =
    (let (w, a', failures, normalized) = promoteAtt E w p chatID a;
         (w, as', f, n) = promoteAtts E w p chatID as
     in (w, a' # as', failures + f, normalized \<or> n))"

definition promoteMessage :: "'w env \<Rightarrow> 'w \<Rightarrow> Principal \<Rightarrow> string \<Rightarrow> any \<Rightarrow> 'w \<times> any \<times> nat \<times> bool" where
  "promoteMessage E w p chatID m = (case m of AMap msg \<Rightarrow>
      (case map_of msg ''attachments'' of
         Some (ASlice atts) \<Rightarrow>
           (let (w, atts', f, n) = promoteAtts E w p chatID atts
            in (w, AMap (AList.update ''attachments'' (ASlice atts') msg), f, n))
       | _ \<Rightarrow> (w, m, 0, False))
    | _ \<Rightarrow> (w, m, 0, False))"

fun promoteMessages :: "'w env \<Rightarrow> 'w \<Rightarrow> Principal \<Rightarrow> string \<Rightarrow> any list \<Rightarrow> 'w \<times> any list \<times> nat \<times> bool" where
  "promoteMessages E w p chatID [] = (w, [], 0, False)"
| "promoteMessages E w p chatID (m # ms) =
    (let (w, m', failures, normalized) = promoteMessage E w p chatID m;
         (w, ms', f, n) = promoteMessages E w p chatID ms
     in (w, m' # ms', failures + f, normalized \<or> n))"

definition rewrapChatAttachments :: "'w env \<Rightarrow> 'w \<Rightarrow> Principal \<Rightarrow> string \<Rightarrow> bytes \<Rightarrow> 'w \<times> (goError + bytes option)" where
  "rewrapChatAttachments E w p chatID plaintext = (case eJSON E plaintext of
     Some (AMap parsed) \<Rightarrow>
       (case map_of parsed ''messages'' of
          Some (ASlice msgs) \<Rightarrow>
            (let (w, msgs', failures, normalized) = promoteMessages E w p chatID msgs
             in if 0 < failures then (w, Inl (EOther ''rewrap: attachments''))
                else if normalized then (w, Inr (Some (eMarshal E (AList.update ''messages'' (ASlice msgs') parsed))))
                else (w, Inr None))
        | _ \<Rightarrow> (w, Inr None))
   | _ \<Rightarrow> (w, Inr None))"

definition rewrapNonce :: "string \<Rightarrow> string \<Rightarrow> string \<Rightarrow> string" where
  "rewrapNonce kidHex i priorETag = ''rewrap:'' @ kidHex @ '':'' @ i @ '':'' @ priorETag"

definition rewrapRow :: "'w env \<Rightarrow> 'w \<Rightarrow> Principal \<Rightarrow> string \<Rightarrow> string \<Rightarrow> bytes \<Rightarrow> string \<Rightarrow> Key \<Rightarrow> 'w \<times> (goError + string)" where
  "rewrapRow E w p scope i plaintext priorETag target =
    (case (if scope = ''chat'' then rewrapChatAttachments E w p i plaintext else (w, Inr None)) of
       (w, Inl e) \<Rightarrow> (w, Inl e)
     | (w, Inr normalized) \<Rightarrow>
       (let data = (case normalized of None \<Rightarrow> plaintext | Some x \<Rightarrow> x);
            kidHex = kKeyIDHex target;
            aad = \<lparr>aKeyIDHex = kidHex, aScope = scope, aID = aadIDOf scope i, aClerkUserID = pID p\<rparr>
        in case CanonicalPayloadAAD aad of Inl e \<Rightarrow> (w, Inl (ESeal e))
           | Inr payloadAAD \<Rightarrow>
             (let (w, rk, rp, rw) = eRand E w
              in case EncryptWith (eCodec E) rk rp rw (kBytes target) data aad of Inl e \<Rightarrow> (w, Inl (ESeal e))
                 | Inr sealed \<Rightarrow>
                   (case DeriveOpHashKey (eHkdf E) (kBytes target) of Inl e \<Rightarrow> (w, Inl (ESeal e))
                    | Inr opKey \<Rightarrow>
                      (let nonce = rewrapNonce kidHex i priorETag;
                           hash = ComputeOperationHash (eHmac E) opKey
                             \<lparr>Method = ''POST'', Path = RewrapPath, KeyIDHex = kidHex, IfMatch = priorETag, IdempotencyKey = nonce,
                              Body = Some data, AADBytes = Some payloadAAD, Envelope = None, ProfileSyncProtocol = []\<rparr>
                       in case PutBlob (eT E) w
                            \<lparr>uScope = scope, uID = i, uClerkUserID = pID p, uKeyIDHex = kidHex, uIfMatch = priorETag,
                             uIdempotencyKey = nonce, uOperationHash = hash, uProfileSyncProtocol = 0, uRewrap = True,
                             uCiphertext = sealed, uProjectIDSet = False, uProjectID = None, uAttachmentRefs = None,
                             uActivityAt = None\<rparr> of
                          (w, Inl e) \<Rightarrow> (w, Inl e)
                        | (w, Inr resp) \<Rightarrow> (w, Inr (vETag resp)))))))"

definition backfillChatActivity :: "'w env \<Rightarrow> 'w \<Rightarrow> Principal \<Rightarrow> string \<Rightarrow> string \<Rightarrow> GetBlobResponse \<Rightarrow> string \<Rightarrow> bytes \<Rightarrow> 'w" where
  "backfillChatActivity E w p scope i blob etag plaintext =
    (if scope \<noteq> ''chat'' \<or> gActivityAt blob \<noteq> None then w
     else case chatActivityAt (eJSON E) (eTime E) plaintext of None \<Rightarrow> w
     | Some t \<Rightarrow> fst (BackfillChatActivity (eT E) w (pID p) i etag t))"

section \<open>Reading\<close>

record pulled =
  plRow :: "StoredRow option"
  plErr :: "goError option"
  plTransient :: bool

definition pulledErr :: "goError \<Rightarrow> pulled" where
  "pulledErr e = \<lparr>plRow = None, plErr = Some e, plTransient = False\<rparr>"

definition currentPrimaryKeyIs :: "'w env \<Rightarrow> 'w \<Rightarrow> Principal \<Rightarrow> string \<Rightarrow> 'w \<times> bool" where
  "currentPrimaryKeyIs E w p kidHex =
    (case GetCurrentKey (eT E) w (pID p) of (w, Inr (Some kid)) \<Rightarrow> (w, kid = kidHex) | (w, _) \<Rightarrow> (w, False))"

text \<open>The probe of the registered key, made at most once per pull.\<close>

definition canRewrap :: "'w env \<Rightarrow> 'w \<times> bool option \<Rightarrow> Principal \<Rightarrow> string \<Rightarrow> ('w \<times> bool option) \<times> bool" where
  "canRewrap E wp p kidHex = (case wp of (w, Some known) \<Rightarrow> ((w, Some known), known)
     | (w, None) \<Rightarrow> (case currentPrimaryKeyIs E w p kidHex of (w, known) \<Rightarrow> ((w, Some known), known)))"

text \<open>Opening the sealed bytes: the plaintext and whether they were in a legacy format.\<close>

definition openRow :: "'w env \<Rightarrow> Principal \<Rightarrow> Key \<Rightarrow> string \<Rightarrow> string \<Rightarrow> bytes \<Rightarrow> goError + bytes \<times> bool" where
  "openRow E p target scope i sealed =
    (case Detect (eCodec E) sealed of
       VersionV2 \<Rightarrow>
         (case DecryptV2 (eCodec E) sealed [target]
                 \<lparr>aKeyIDHex = [], aScope = scope, aID = aadIDOf scope i, aClerkUserID = pID p\<rparr> of
            Inl e \<Rightarrow> (if e = ErrNoMatchingKey
              then Inl (EApi ((Err 409 ''KEY_MISMATCH'' ''The stored data uses another content key'')
                     \<lparr>eKeyID := (case unmarshalV2 (eCodec E) sealed of None \<Rightarrow> [] | Some env \<Rightarrow> vKID env)\<rparr>))
              else Inl (EApi errRowUnreadable))
          | Inr dec \<Rightarrow> Inr (dPlaintext dec, False))
     | VersionUnknown \<Rightarrow> Inl (EApi errRowUnreadable)
     | _ \<Rightarrow>
         (case DecryptLegacy (eCodec E) sealed [target] of
            Inl e \<Rightarrow> Inl (EApi (Err 409 ''KEY_MISMATCH'' ''The stored data uses another content key''))
          | Inr dec \<Rightarrow> Inr (dPlaintext dec, True)))"

definition notObject :: "'w env \<Rightarrow> bytes \<Rightarrow> bool" where
  "notObject E plaintext = (let t = TrimSpace plaintext in t = [] \<or> hd t \<noteq> CHR ''{'' \<or> eJSON E t = None)"

definition pullOne :: "'w env \<Rightarrow> 'w \<times> bool option \<Rightarrow> Principal \<Rightarrow> Key \<Rightarrow> string \<Rightarrow> string \<Rightarrow> ('w \<times> bool option) \<times> pulled" where
  "pullOne E wp p target scope i =
    (let (w, probe) = wp
     in case GetBlob (eT E) w scope i (pID p) of
       (w, Inl err) \<Rightarrow>
         ((w, probe), case asCP err of
            Some c \<Rightarrow> (if StatusCode c = 404 then \<lparr>plRow = None, plErr = None, plTransient = False\<rparr>
                        else if StatusCode c div 100 = 4 then pulledErr (EApi (FromControlplane err))
                        else (pulledErr (EApi (FromControlplane err)))\<lparr>plTransient := True\<rparr>)
          | None \<Rightarrow> (pulledErr (EApi (FromControlplane err)))\<lparr>plTransient := True\<rparr>)
     | (w, Inr blob) \<Rightarrow>
         (case openRow E p target scope i (gCiphertext blob) of
            Inl e \<Rightarrow> ((w, probe), pulledErr e)
          | Inr (plaintext, legacy) \<Rightarrow>
            if notObject E plaintext then ((w, probe), pulledErr (EApi errRowUnreadable))
            else
              let ((w, probe), can) = (if legacy then canRewrap E (w, probe) p (kKeyIDHex target) else ((w, probe), False));
                  (w, etag) = (if can then (case rewrapRow E w p scope i plaintext (gETag blob) target of
                      (w, Inr etag) \<Rightarrow> (w, etag) | (w, Inl _) \<Rightarrow> (w, gETag blob)) else (w, gETag blob));
                  w = backfillChatActivity E w p scope i blob etag plaintext
              in ((w, probe), \<lparr>plRow = Some \<lparr>rID = i, rETag = etag, rData = plaintext, rProject = gProjectID blob,
                     rProjectSet = gProjectIDSet blob, rUpdatedAt = gUpdatedAt blob\<rparr>, plErr = None, plTransient = False\<rparr>)))"

fun pullEach :: "'w env \<Rightarrow> 'w \<times> bool option \<Rightarrow> Principal \<Rightarrow> Key \<Rightarrow> string \<Rightarrow> string list \<Rightarrow> ('w \<times> bool option) \<times> (string \<times> pulled) list" where
  "pullEach E wp p target scope [] = (wp, [])"
| "pullEach E wp p target scope (i # is) =
    (let (wp, item) = pullOne E wp p target scope i;
         (wp, items) = pullEach E wp p target scope is
     in (wp, (i, item) # items))"

text \<open>Sorting the results into rows, failures and the ids to fetch again.\<close>

fun settle :: "bool \<Rightarrow> (string \<times> pulled) list \<Rightarrow> StoredRow list \<times> (string \<times> goError) list \<Rightarrow>
    string list \<times> StoredRow list \<times> (string \<times> goError) list" where
  "settle retry [] (rows, failed) = ([], rows, failed)"
| "settle retry ((i, item) # items) (rows, failed) =
    (if plTransient item \<and> retry then (case settle retry items (rows, failed) of (again, acc) \<Rightarrow> (i # again, acc))
     else if plTransient item then settle retry items (rows, AList.update i (EApi ErrRowNotFetched) failed)
     else case plErr item of Some e \<Rightarrow> settle retry items (rows, AList.update i e failed)
     | None \<Rightarrow> (case plRow item of Some row \<Rightarrow> settle retry items (rows @ [row], failed)
                | None \<Rightarrow> settle retry items (rows, failed)))"

text \<open>\<^verbatim>\<open>pullBatch\<close> fetches the distinct ids; the fetches are made in request order here.\<close>

fun remdupsFirst :: "string list \<Rightarrow> string list" where
  "remdupsFirst [] = []"
| "remdupsFirst (i # is) = i # filter (\<lambda>j. j \<noteq> i) (remdupsFirst is)"

definition pullBatchOnce :: "'w env \<Rightarrow> 'w \<times> bool option \<Rightarrow> Principal \<Rightarrow> Key \<Rightarrow> string \<Rightarrow> string list \<Rightarrow> bool \<Rightarrow>
    StoredRow list \<times> (string \<times> goError) list \<Rightarrow> ('w \<times> bool option) \<times> string list \<times> StoredRow list \<times> (string \<times> goError) list" where
  "pullBatchOnce E wp p target scope ids retry acc =
    (let (wp, items) = pullEach E wp p target scope (remdupsFirst ids) in (wp, settle retry items acc))"

definition pullBatch :: "'w env \<Rightarrow> 'w \<times> bool option \<Rightarrow> Principal \<Rightarrow> Key \<Rightarrow> string \<Rightarrow> string list \<Rightarrow>
    StoredRow list \<times> (string \<times> goError) list \<Rightarrow> ('w \<times> bool option) \<times> StoredRow list \<times> (string \<times> goError) list" where
  "pullBatch E wp p target scope ids acc =
    (let (wp, again, acc) = pullBatchOnce E wp p target scope ids True acc
     in if again = [] then (wp, acc)
        else let (wp, _, acc) = pullBatchOnce E wp p target scope again False acc in (wp, acc))"

function pullBatches :: "'w env \<Rightarrow> 'w \<times> bool option \<Rightarrow> Principal \<Rightarrow> Key \<Rightarrow> string \<Rightarrow> string list \<Rightarrow>
    StoredRow list \<times> (string \<times> goError) list \<Rightarrow> 'w \<times> StoredRow list \<times> (string \<times> goError) list" where
  "pullBatches E wp p target scope ids acc =
    (if ids = [] then (fst wp, acc)
     else let (wp, acc) = pullBatch E wp p target scope (take PullBatch ids) acc
          in pullBatches E wp p target scope (drop PullBatch ids) acc)"
  by pat_completeness auto
termination
  by (relation "measure (\<lambda>(E, wp, p, t, s, ids, acc). length ids)") (auto simp: PullBatch_def)

declare pullBatches.simps [simp del]

definition Pull :: "'w env \<Rightarrow> 'w \<Rightarrow> Principal \<Rightarrow> bytes \<Rightarrow> string \<Rightarrow> string list \<Rightarrow> 'w \<times> pullAnswer" where
  "Pull E w p key scope ids =
    (if ids = [] then (w, Inr ([], []))
     else if \<not> scopeValid scope then (w, Inl (bad ''invalid scope''))
     else if (case pGrant p of None \<Rightarrow> False | Some g \<Rightarrow> \<not> permitsPull (eHkdf E) (eNow E w) g key scope ids) then (w, Inl ERunScope)
     else let (w, rows, failed) = pullBatches E (w, None) p \<lparr>kBytes = key, kKeyIDHex = keyID (eHkdf E) key\<rparr> scope ids ([], [])
          in (w, Inr (rows, failed)))"

definition Load :: "'w env \<Rightarrow> 'w \<Rightarrow> Principal \<Rightarrow> bytes \<Rightarrow> string \<Rightarrow> string \<Rightarrow> 'w \<times> (goError + StoredRow)" where
  "Load E w p key scope i =
    (case Pull E w p key scope [i] of
       (w, Inl e) \<Rightarrow> (w, Inl e)
     | (w, Inr (rows, failed)) \<Rightarrow>
       (w, case map_of failed i of Some e \<Rightarrow> Inl e
           | None \<Rightarrow> (case find (\<lambda>row. rID row = i) rows of Some row \<Rightarrow> Inr row
                      | None \<Rightarrow> Inl (EApi (Err 404 ''THREAD_NOT_FOUND'' ''The requested data was not found'')))))"

end
