(* ===== verification/CP_Revisions.thy ===== *)
theory CP_Revisions
  imports CP_Stub
begin

text \<open>What a revision of a row means to the control plane: as long as nothing is deleted, a row's
  revisions only grow, a revision names one content, and of all writes that name a revision
  one is made.  A deletion ends this: the row created next starts counting anew.\<close>

section \<open>How a row moves\<close>

text \<open>A delete, or a key registration, which may wipe everything.\<close>

definition mayRemove :: "httpRequest \<Rightarrow> bool" where
  "mayRemove r \<longleftrightarrow> qMethod r = ''DELETE'' \<or> qPath r = RegisterKeyPath"

definition sameContent :: "Blob \<Rightarrow> Blob \<Rightarrow> bool" where
  "sameContent b b' \<longleftrightarrow> bETag b' = bETag b \<and> bBody b' = bBody b \<and> bKeyID b' = bKeyID b \<and>
     bProjectIDSet b' = bProjectIDSet b \<and> bProjectID b' = bProjectID b \<and> bUpdatedAt b' = bUpdatedAt b"

definition moves :: "Blob option \<Rightarrow> Blob option \<Rightarrow> bool" where
  "moves x y \<longleftrightarrow> (case x of None \<Rightarrow> True
     | Some b \<Rightarrow> (case y of None \<Rightarrow> False | Some b' \<Rightarrow> sameContent b b' \<or> bETag b < bETag b'))"

lemma moves_refl [simp]: "moves x x"
  by (cases x) (auto simp: moves_def sameContent_def)

lemma moves_trans: "moves x y \<Longrightarrow> moves y z \<Longrightarrow> moves x z"
  by (cases x; cases y; cases z) (auto simp: moves_def sameContent_def)

text \<open>A put that is made stores one row at the next revision; any other leaves the rows.\<close>

definition revisionOf :: "cpStore \<Rightarrow> string \<Rightarrow> string \<Rightarrow> int" where
  "revisionOf st scope i = (case map_of (Blobs st) (StubKey scope i) of None \<Rightarrow> 0 | Some b \<Rightarrow> bETag b)"

definition putAccepted :: "cpStore \<Rightarrow> string \<Rightarrow> string \<Rightarrow> httpRequest \<Rightarrow> bool" where
  "putAccepted st scope i r \<longleftrightarrow> countOf (PutBlobFailures st) (StubKey scope i) \<le> 0 \<and>
     hIfMatch r = FormatETag (revisionOf st scope i) \<and> \<not> profileRefused st scope (map_of (Blobs st) (StubKey scope i)) r"

lemma FormatETag_facts: "FormatETag 0 = IfMatchCreateOnly" "FormatETag n \<noteq> []" "IfMatchCreateOnly \<noteq> []"
  by (simp_all add: FormatETag_def IfMatchCreateOnly_def fmtInt_def fmtNat.simps [of 0] decDigit_def fmtNat_nonempty)

lemma storedBlob_etag [simp]: "bETag (storedBlob now scope blob n r) = n"
  by (simp add: storedBlob_def)

lemma put_made:
  assumes "putAccepted st scope i r"
  shows "handlePutBlob now scope i st r =
    putStored now scope (StubKey scope i) (revisionOf st scope i + 1) (map_of (Blobs st) (StubKey scope i)) st r"
  using assms FormatETag_facts
  by (cases "map_of (Blobs st) (StubKey scope i)")
     (simp_all add: putAccepted_def handlePutBlob_def Let_def revisionOf_def)

lemma put_refused:
  assumes "\<not> putAccepted st scope i r"
  shows "Blobs (fst (handlePutBlob now scope i st r)) = Blobs st" "pStatus (snd (handlePutBlob now scope i st r)) \<ge> 400"
  using assms FormatETag_facts
  by (cases "map_of (Blobs st) (StubKey scope i)";
      auto simp: putAccepted_def handlePutBlob_def Let_def revisionOf_def writeHeader_def writeJSON_def answer_def
        preconditionRequired_def staleBlob_def)+

lemma putStored_out:
  "pStatus (snd (putStored now scope key n blob st r)) = 200"
  "Blobs (fst (putStored now scope key n blob st r)) = AList.update key (storedBlob now scope blob n r) (Blobs st)"
  "pETag (snd (putStored now scope key n blob st r)) = FormatETag n"
  by (simp_all add: putStored_def Let_def handler_defs)

lemma put_blobs:
  "Blobs (fst (handlePutBlob now scope i st r)) = Blobs st \<or>
   Blobs (fst (handlePutBlob now scope i st r)) = AList.update (StubKey scope i)
     (storedBlob now scope (map_of (Blobs st) (StubKey scope i)) (revisionOf st scope i + 1) r) (Blobs st)"
  using put_made [of st scope i r now] put_refused(1) [of st scope i r now] putStored_out(2) by metis

lemma put_moves: "moves (map_of (Blobs st) k) (map_of (Blobs (fst (handlePutBlob now scope i st r))) k)"
  using put_blobs [of now scope i st r]
proof
  assume eq: "Blobs (fst (handlePutBlob now scope i st r)) = AList.update (StubKey scope i)
     (storedBlob now scope (map_of (Blobs st) (StubKey scope i)) (revisionOf st scope i + 1) r) (Blobs st)"
  show ?thesis unfolding eq update_conv'
    by (cases "k = StubKey scope i"; cases "map_of (Blobs st) (StubKey scope i)") (simp_all add: moves_def revisionOf_def)
qed simp

lemma rewrap_moves: "moves (map_of (Blobs st) k) (map_of (Blobs (fst (handleRewrap st r))) k)"
  by (auto simp: handleRewrap_def Let_def update_conv' moves_def sameContent_def split: option.split)

lemma activity_moves: "moves (map_of (Blobs st) k) (map_of (Blobs (fst (handleBackfillChatActivity st r))) k)"
  by (auto simp: handleBackfillChatActivity_def Let_def update_conv' moves_def sameContent_def
      split: option.split body.split)

lemma idempotent_moves:
  assumes "\<And>st. moves (map_of (Blobs st) k) (map_of (Blobs (fst (h st r))) k)"
  shows "moves (map_of (Blobs st) k) (map_of (Blobs (fst (idempotent h st r))) k)"
  using assms [of st] by (auto simp: idempotent_def split: option.split prod.split)

lemma addBundle_blobs: "Blobs (fst (handleAddBundle now kid st r)) = Blobs st"
  by (simp add: handleAddBundle_def addBundle_def split: option.split)

lemma changeRoute_kept:
  assumes "changeRoute now r = Some h" "\<not> mayRemove r"
  shows "(\<exists>scope i. h = handlePutBlob now scope i) \<or> h = handleRewrap \<or> (\<exists>kid. h = handleAddBundle now kid)"
proof (cases "routeBlob (qPath r)")
  case (Some p)
  then show ?thesis using assms by (cases p) (auto simp: changeRoute_def mayRemove_def split: if_split_asm)
next
  case n: None
  show ?thesis
  proof (cases "routeBundle (qPath r)")
    case (Some p)
    then show ?thesis using assms n by (cases p) (auto simp: changeRoute_def mayRemove_def split: if_split_asm)
  next
    case None
    then show ?thesis using assms n by (auto simp: changeRoute_def mayRemove_def split: if_split_asm)
  qed
qed

lemma other_blobs:
  "Blobs (fst (handleGetBlob scope i st r)) = Blobs st" "Blobs (fst (handleHeadBlob scope i st r)) = Blobs st"
  "Blobs (fst (handlePublishSearchIndex st r)) = Blobs st"
  "Blobs (fst (handleGetSearchIndexState st r)) = Blobs st" "Blobs (fst (handleCurrentKey st r)) = Blobs st"
  by (simp_all add: handleGetBlob_def handleHeadBlob_def handlePublishSearchIndex_def
      handleGetSearchIndexState_def handleCurrentKey_def Let_def split: option.split list.split)

lemma other_moves: "moves (map_of (Blobs st) k) (map_of (Blobs (fst (otherRoute st r))) k)"
  by (simp add: otherRoute_def other_blobs activity_moves split: option.split prod.split)

lemma serve_moves:
  assumes "\<not> mayRemove r"
  shows "moves (map_of (Blobs st) k) (map_of (Blobs (fst (serve now st r))) k)"
proof (cases "changeRoute now r")
  case None
  then show ?thesis by (simp add: serve_def other_moves)
next
  case (Some h)
  have "moves (map_of (Blobs st) k) (map_of (Blobs (fst (h st r))) k)" for st
    using changeRoute_kept [OF Some assms] by (auto simp: put_moves rewrap_moves addBundle_blobs)
  then show ?thesis using Some by (simp add: serve_def idempotent_moves)
qed

lemma serveAll_moves:
  "list_all (\<lambda>(t, r). \<not> mayRemove r) rs \<Longrightarrow> moves (map_of (Blobs st) k) (map_of (Blobs (serveAll st rs)) k)"
  by (induction st rs rule: serveAll.induct) (auto intro: moves_trans serve_moves)

text \<open>A revision names one content.\<close>

lemma same_revision_same_content:
  assumes "list_all (\<lambda>(t, r). \<not> mayRemove r) rs"
    "map_of (Blobs st) k = Some b" "map_of (Blobs (serveAll st rs)) k = Some b'" "bETag b' = bETag b"
  shows "sameContent b b'"
  using serveAll_moves [OF assms(1), of st k] assms(2-) by (auto simp: moves_def)

section \<open>One write per revision\<close>

text \<open>Whether serving a request makes a write of the row at a revision: it is routed to the
  row's put, names the revision, is not a replay, and succeeds.\<close>

definition writesAt :: "cpStore \<Rightarrow> int \<Rightarrow> httpRequest \<Rightarrow> string \<Rightarrow> string \<Rightarrow> string \<Rightarrow> bool" where
  "writesAt st now r scope i e \<longleftrightarrow> routeBlob (qPath r) = Some (scope, i) \<and> qMethod r = ''PUT'' \<and> hIfMatch r = e \<and>
     (hIdempotency r = [] \<or> map_of (answered st) (idemKey r) = None) \<and> pStatus (snd (serve now st r)) = 200"

fun writers :: "cpStore \<Rightarrow> (int \<times> httpRequest) list \<Rightarrow> string \<Rightarrow> string \<Rightarrow> string \<Rightarrow> nat" where
  "writers st [] scope i e = 0"
| "writers st ((now, r) # rs) scope i e =
    (if writesAt st now r scope i e then 1 else 0) + writers (fst (serve now st r)) rs scope i e"

lemma put_outcome:
  "pStatus (snd (handlePutBlob now scope i st r)) = 200 \<longleftrightarrow> putAccepted st scope i r"
  using put_made [of st scope i r now] put_refused(2) [of st scope i r now] putStored_out(1)
  by (cases "putAccepted st scope i r") auto

lemma serve_put:
  assumes "routeBlob (qPath r) = Some (scope, i)" "qMethod r = ''PUT''"
    "hIdempotency r = [] \<or> map_of (answered st) (idemKey r) = None" "pStatus (snd (serve now st r)) = 200"
  shows "putAccepted st scope i r \<and> pETag (snd (serve now st r)) = FormatETag (revisionOf st scope i + 1) \<and>
    Blobs (fst (serve now st r)) = AList.update (StubKey scope i)
      (storedBlob now scope (map_of (Blobs st) (StubKey scope i)) (revisionOf st scope i + 1) r) (Blobs st)"
proof -
  let ?h = "handlePutBlob now scope i"
  have s: "serve now st r = idempotent ?h st r" using assms(1,2) by (simp add: serve_def changeRoute_def)
  have out: "pStatus (snd (?h st r)) = 200 \<and> Blobs (fst (idempotent ?h st r)) = Blobs (fst (?h st r)) \<and>
      pETag (snd (idempotent ?h st r)) = pETag (snd (?h st r))"
    using assms(3,4) unfolding s
    by (auto simp: idempotent_def handler_defs split: prod.splits if_splits)
  then have "putAccepted st scope i r" by (simp add: put_outcome)
  then show ?thesis using out s put_made [of st scope i r now] by (simp add: putStored_out)
qed

lemma writesAt_revision:
  assumes "writesAt st now r scope i e"
  shows "e = FormatETag (revisionOf st scope i)" "revisionOf (fst (serve now st r)) scope i = revisionOf st scope i + 1"
  using assms serve_put [of r scope i st now]
  by (auto simp: writesAt_def putAccepted_def revisionOf_def update_conv')

lemma revision_grows:
  assumes "\<not> mayRemove r" "map_of (Blobs st) (StubKey scope i) \<noteq> None"
  shows "revisionOf st scope i \<le> revisionOf (fst (serve now st r)) scope i \<and>
    map_of (Blobs (fst (serve now st r))) (StubKey scope i) \<noteq> None"
  using serve_moves [OF assms(1), of st "StubKey scope i" now] assms(2)
  by (auto simp: moves_def revisionOf_def sameContent_def split: option.splits)

lemma no_writer_behind:
  assumes "list_all (\<lambda>(t, r). \<not> mayRemove r) rs" "map_of (Blobs st) (StubKey scope i) \<noteq> None"
    "n < revisionOf st scope i"
  shows "writers st rs scope i (FormatETag n) = 0"
  using assms
proof (induction rs arbitrary: st)
  case (Cons p rs)
  obtain now r where p: "p = (now, r)" by (cases p)
  have "\<not> writesAt st now r scope i (FormatETag n)"
    using writesAt_revision(1) [of st now r scope i "FormatETag n"] Cons.prems(3)
    by (auto simp: FormatETag_def dest: fmtInt_inj)
  moreover have "writers (fst (serve now st r)) rs scope i (FormatETag n) = 0"
    using Cons p revision_grows [of r st scope i now] by (intro Cons.IH) auto
  ultimately show ?case by (simp add: p)
qed simp

lemma one_write_per_revision_parts:
  assumes "list_all (\<lambda>(t, r). \<not> mayRemove r) rs"
  shows "writers st rs scope i e \<le> 1"
    "writesAt st now r scope i e \<Longrightarrow> e = FormatETag (revisionOf st scope i) \<and>
       map_of (Blobs (fst (serve now st r))) (StubKey scope i) =
         Some (storedBlob now scope (map_of (Blobs st) (StubKey scope i)) (revisionOf st scope i + 1) r) \<and>
       pETag (snd (serve now st r)) = FormatETag (revisionOf st scope i + 1)"
proof -
  show "writers st rs scope i e \<le> 1" using assms
  proof (induction rs arbitrary: st)
    case (Cons p rs)
    obtain now r where p: "p = (now, r)" by (cases p)
    have rest: "list_all (\<lambda>(t, r). \<not> mayRemove r) rs" using Cons.prems by simp
    show ?case
    proof (cases "writesAt st now r scope i e")
      case True
      let ?st = "fst (serve now st r)"
      have e: "e = FormatETag (revisionOf st scope i)" and n: "revisionOf ?st scope i = revisionOf st scope i + 1"
        using writesAt_revision [OF True] by auto
      have "map_of (Blobs ?st) (StubKey scope i) \<noteq> None"
        using True serve_put [of r scope i st now] by (auto simp: writesAt_def update_conv')
      then have "writers ?st rs scope i e = 0" unfolding e using no_writer_behind [OF rest] n by simp
      then show ?thesis using True by (simp add: p)
    next
      case False
      then show ?thesis using Cons.IH [OF rest] by (simp add: p)
    qed
  qed simp
  show "e = FormatETag (revisionOf st scope i) \<and>
       map_of (Blobs (fst (serve now st r))) (StubKey scope i) =
         Some (storedBlob now scope (map_of (Blobs st) (StubKey scope i)) (revisionOf st scope i + 1) r) \<and>
       pETag (snd (serve now st r)) = FormatETag (revisionOf st scope i + 1)" if "writesAt st now r scope i e"
    using that serve_put [of r scope i st now] writesAt_revision(1) [OF that] by (auto simp: writesAt_def update_conv')
qed

text \<open>C19: of all the writes of a row that name the same revision, whoever sends them and in
  whatever order they arrive, at most one is made, as long as nothing is deleted
  in between; the first that is made moves the row to the next revision and holds the
  content sent.\<close>

theorem one_write_per_revision:
  assumes "list_all (\<lambda>(t, r). \<not> mayRemove r) rs"
  shows "writers st rs scope i e \<le> 1 \<and>
    (writesAt st now r scope i e \<longrightarrow> e = FormatETag (revisionOf st scope i) \<and>
       map_of (Blobs (fst (serve now st r))) (StubKey scope i) =
         Some (storedBlob now scope (map_of (Blobs st) (StubKey scope i)) (revisionOf st scope i + 1) r) \<and>
       pETag (snd (serve now st r)) = FormatETag (revisionOf st scope i + 1))"
  using one_write_per_revision_parts [OF assms] by blast

theorem one_write_per_revision_witness:
  "writers NewStub [(1, putX ''a'' ''s1'' ''0''), (2, putX ''b'' ''s2'' ''0''), (3, putX ''c'' ''s3'' ''1'')] ''chat'' ''c'' ''0'' \<le> 1"
proof -
  have "list_all (\<lambda>(t, r). \<not> mayRemove r) [(1, putX ''a'' ''s1'' ''0''), (2, putX ''b'' ''s2'' ''0''), (3, putX ''c'' ''s3'' ''1'')]"
    by (simp add: mayRemove_def putX_def RegisterKeyPath_def)
  then show ?thesis using one_write_per_revision by blast
qed

section \<open>A deletion starts the count anew\<close>

text \<open>A chat is created and read at revision 1; another device deletes it and creates it again.
  The reader's write at revision 1 is then made over the new chat.\<close>

definition delX :: "string \<Rightarrow> string \<Rightarrow> httpRequest" where
  "delX nonce ifMatch = (putX nonce [] ifMatch)\<lparr>qMethod := ''DELETE''\<rparr>"

definition recreated :: cpStore where
  "recreated = serveAll NewStub [(1, putX ''a'' ''old'' ''0''), (2, delX ''b'' ''1''), (3, putX ''c'' ''new'' ''0'')]"


end
