(* ===== verification/Push_Once.thy ===== *)
theory Push_Once
  imports Rows CP_Revisions
begin

text \<open>A row pushed over a network that loses requests and answers, \<^verbatim>\<open>Store.Push\<close> of
  \<^verbatim>\<open>internal/store/store.go\<close> over \<open>Rows\<close>, the client and the control plane: however often the
  push is sent, its write is made at most once, a push that returns was made once, at the
  revision it names, and a push that reports a conflict was never made.\<close>

section \<open>Pushing until the outcome is known\<close>

definition unObject :: "(bytes \<Rightarrow> any option) \<Rightarrow> bytes \<Rightarrow> Object option" where
  "unObject js b = (case js b of Some (AMap m) \<Rightarrow> Some m | Some ANil \<Rightarrow> Some [] | _ \<Rightarrow> None)"

fun pushLoop :: "'w env \<Rightarrow> nat \<Rightarrow> 'w \<Rightarrow> Principal \<Rightarrow> bytes \<Rightarrow> string \<Rightarrow> StoredRow \<Rightarrow> string \<Rightarrow> 'w \<times> (goError + StoredRow)" where
  "pushLoop E 0 w p key scope row nonce = (w, Inl (EOther ''unreachable''))"
| "pushLoop E (Suc n) w p key scope row nonce =
    (case Push E w p key scope row nonce of
       (w, Inr etag) \<Rightarrow> (w, Inr (row\<lparr>rETag := etag\<rparr>))
     | (w, Inl err) \<Rightarrow>
         if eCode (AsError (unObject (eJSON E)) err) \<noteq> ''SYNC_OUTCOME_UNKNOWN'' \<or> n = 0 then (w, Inl err)
         else pushLoop E n w p key scope row nonce)"

definition StorePush :: "'w env \<Rightarrow> 'w \<Rightarrow> Principal \<Rightarrow> bytes \<Rightarrow> string \<Rightarrow> StoredRow \<Rightarrow> 'w \<times> (goError + StoredRow)" where
  "StorePush E w p key scope row =
    (let (w, nonce) = eUUID E w in pushLoop E MaxCommitAttempts w p key scope row nonce)"

section \<open>A network\<close>

text \<open>One exchange: what else reaches the control plane before it, when it arrives, and its
  fate.  A delivered answer may fail to be read; otherwise the request reached the control
  plane or not, and the client sees an error or what a gateway answers.\<close>

datatype fate = Delivered bool | Lost bool "httpResponse option"

record event =
  evBefore :: "(int \<times> httpRequest) list"
  evAt :: int
  evFate :: fate
  evCancels :: bool

record net =
  nCP :: cpStore
  nSched :: "event list"
  nArrived :: "(int \<times> httpRequest) list"
  nCancelled :: bool

definition quiet :: event where
  "quiet = \<lparr>evBefore = [], evAt = 0, evFate = Delivered False, evCancels = False\<rparr>"

definition nextEvent :: "net \<Rightarrow> event" where
  "nextEvent w = (case nSched w of [] \<Rightarrow> quiet | ev # _ \<Rightarrow> ev)"

definition arrivals :: "event \<Rightarrow> httpRequest \<Rightarrow> (int \<times> httpRequest) list" where
  "arrivals ev r = evBefore ev @ (case evFate ev of Lost False _ \<Rightarrow> [] | _ \<Rightarrow> [(evAt ev, r)])"

definition seen :: "net \<Rightarrow> event \<Rightarrow> httpRequest \<Rightarrow> goError + httpResponse \<times> bool" where
  "seen w ev r = (case evFate ev of
     Delivered unread \<Rightarrow> Inr (snd (serve (evAt ev) (serveAll (nCP w) (evBefore ev)) r), unread)
   | Lost _ None \<Rightarrow> Inl (EOther ''controlplane: request'')
   | Lost _ (Some resp) \<Rightarrow> Inr (resp, False))"

definition netDo :: "net \<Rightarrow> httpRequest \<Rightarrow> net \<times> (goError + httpResponse \<times> bool)" where
  "netDo w r = (let ev = nextEvent w
     in (w\<lparr>nCP := serveAll (nCP w) (arrivals ev r), nSched := tl (nSched w), nArrived := nArrived w @ arrivals ev r,
           nCancelled := (nCancelled w \<or> evCancels ev)\<rparr>, seen w ev r))"

definition netT :: "net transport" where
  "netT = \<lparr>tDo = netDo, tCtx = (\<lambda>w. if nCancelled w then Some (EOther ''context canceled'') else None)\<rparr>"

text \<open>The rest of the environment leaves the network alone.\<close>

definition sameNet :: "net \<Rightarrow> net \<Rightarrow> bool" where
  "sameNet w w' \<longleftrightarrow> nCP w' = nCP w \<and> nSched w' = nSched w \<and> nArrived w' = nArrived w"

definition overNet :: "net env \<Rightarrow> bool" where
  "overNet E \<longleftrightarrow> eT E = netT \<and> (\<forall>k m. eHmac E k m \<noteq> []) \<and> (\<forall>w. sameNet w (fst (eRand E w))) \<and> (\<forall>w. sameNet w (fst (eUUID E w))) \<and>
     (\<forall>f. eChatStored E = Some f \<longrightarrow> (\<forall>w i d e n. sameNet w (f w i d e n)))"

section \<open>Which write left an answer\<close>

lemma serveAll_append: "serveAll st (xs @ ys) = serveAll (serveAll st xs) ys"
  by (induction st xs rule: serveAll.induct) auto

text \<open>How often the change of an idempotency key is made while requests are served.\<close>

fun made :: "cpStore \<Rightarrow> string \<Rightarrow> (int \<times> httpRequest) list \<Rightarrow> nat" where
  "made st k [] = 0"
| "made st k ((t, r) # rs) =
    (if idemKey r = k \<and> map_of (answered st) k = None \<and> map_of (answered (fst (serve t st r))) k \<noteq> None then 1 else 0) +
    made (fst (serve t st r)) k rs"

lemma made_after: "map_of (answered st) k \<noteq> None \<Longrightarrow> made st k rs = 0"
proof (induction rs arbitrary: st)
  case (Cons p rs)
  then show ?case using serve_answers_kept [of st k _ "fst p" "snd p"] by (cases p) fastforce
qed simp

lemma made_count:
  assumes "map_of (answered st) k = None"
  shows "made st k rs = (if map_of (answered (serveAll st rs)) k = None then 0 else 1)"
  using assms
proof (induction rs arbitrary: st)
  case (Cons p rs)
  obtain t r where p: "p = (t, r)" by (cases p)
  show ?case
  proof (cases "map_of (answered (fst (serve t st r))) k")
    case None
    then show ?thesis using Cons.IH [OF None] by (simp add: p)
  next
    case (Some a)
    then have "idemKey r = k" using serve_other_key [of k r t st] Cons.prems by auto
    moreover have "map_of (answered (serveAll (fst (serve t st r)) rs)) k = Some a" using serveAll_answers_kept [OF Some] .
    ultimately show ?thesis using Some Cons.prems made_after [of "fst (serve t st r)" k rs] by (simp add: p)
  qed
qed simp

lemma answer_origin:
  assumes "map_of (answered st) k = None" "map_of (answered (serveAll st rs)) k = Some a"
  shows "\<exists>pre t r post. rs = pre @ (t, r) # post \<and> idemKey r = k \<and> map_of (answered (serveAll st pre)) k = None \<and>
    map_of (answered (fst (serve t (serveAll st pre) r))) k = Some a"
  using assms
proof (induction rs arbitrary: st)
  case (Cons p rs)
  obtain t r where p: "p = (t, r)" by (cases p)
  show ?case
  proof (cases "map_of (answered (fst (serve t st r))) k")
    case None
    have "map_of (answered (serveAll (fst (serve t st r)) rs)) k = Some a" using Cons.prems(2) by (simp add: p)
    then obtain pre t' r' post where x: "rs = pre @ (t', r') # post" "idemKey r' = k"
        "map_of (answered (serveAll (fst (serve t st r)) pre)) k = None"
        "map_of (answered (fst (serve t' (serveAll (fst (serve t st r)) pre) r'))) k = Some a"
      using Cons.IH [OF None] by blast
    show ?thesis by (rule exI [of _ "p # pre"]) (use x in \<open>auto simp: p\<close>)
  next
    case (Some b)
    then have "b = a" using serveAll_answers_kept [OF Some, of rs] Cons.prems(2) by (simp add: p)
    moreover have "idemKey r = k" using serve_other_key [of k r t st] Cons.prems(1) Some by auto
    ultimately show ?thesis using Some Cons.prems(1) p by (intro exI [of _ "[]"]) auto
  qed
qed simp

section \<open>The requests of one push\<close>

definition pushAAD :: "net env \<Rightarrow> Principal \<Rightarrow> bytes \<Rightarrow> string \<Rightarrow> StoredRow \<Rightarrow> AAD" where
  "pushAAD E p key scope row = \<lparr>aKeyIDHex = keyID (eHkdf E) key, aScope = scope, aID = rID row, aClerkUserID = pID p\<rparr>"

definition ours :: "net env \<Rightarrow> Principal \<Rightarrow> bytes \<Rightarrow> string \<Rightarrow> StoredRow \<Rightarrow> string \<Rightarrow> httpRequest \<Rightarrow> bool" where
  "ours E p key scope row nonce r \<longleftrightarrow> rID row \<noteq> [] \<and> nonce \<noteq> [] \<and>
     (\<exists>path payloadAAD sealed rk rp rw. PathFor scope (rID row) = Inr path \<and>
        CanonicalPayloadAAD (pushAAD E p key scope row) = Inr payloadAAD \<and>
        EncryptWith (eCodec E) rk rp rw key (rData row) (pushAAD E p key scope row) = Inr sealed \<and>
        r = putRequest path (pushRequest E p key scope row nonce path payloadAAD sealed))"

definition pushKey :: "Principal \<Rightarrow> string \<Rightarrow> string" where
  "pushKey p nonce = pID p @ [CHR 0x00] @ nonce"

definition rowStubID :: "string \<Rightarrow> StoredRow \<Rightarrow> string" where
  "rowStubID scope row = (if scope = ''profile'' then ''profile'' else rID row)"

lemma ours_fields:
  assumes "ours E p key scope row nonce r"
  shows "idemKey r = pushKey p nonce" "qMethod r = ''PUT''" "hIfMatch r = ifMatchOf row" "hIdempotency r \<noteq> []"
    "routeBlob (qPath r) = Some (scope, rowStubID scope row)" "hClerkUserID r = pID p" "hIdempotency r = nonce"
  using assms routeBlob_PathFor [of scope "rID row"]
  by (auto simp: ours_def putRequest_def newRequest_def pushRequest_def Let_def idemKey_def pushKey_def rowStubID_def)

lemma ours_same:
  assumes "ours E p key scope row nonce r" "ours E p key scope row nonce r'"
  shows "sameOperation r r'"
  using assms by (auto simp: ours_def sameOperation_def putRequest_def newRequest_def pushRequest_def Let_def)

lemma ours_keyed:
  assumes "overNet E" "ours E p key scope row nonce r"
  shows "keyedChange r"
proof -
  have "hexEncode x \<noteq> []" if "x \<noteq> []" for x using that by (cases x) auto
  then have "hOperationHash r \<noteq> []" using assms
    by (auto simp: ours_def overNet_def putRequest_def newRequest_def pushRequest_def Let_def operationHash_def ComputeOperationHash_def)
  then show ?thesis using ours_fields [OF assms(2)] by (simp add: keyedChange_def changeRoute_def)
qed

text \<open>The answer kept for a push that was made.\<close>

definition goodAnswer :: "httpRequest \<Rightarrow> idempotentAnswer \<Rightarrow> bool" where
  "goodAnswer r a \<longleftrightarrow> iMethod a = qMethod r \<and> iPath a = qPath r \<and> iHash a = hOperationHash r \<and> iStatus a = 200 \<and> iETag a \<noteq> [] \<and>
     (\<exists>n. iBody a = JObj [(''etag'', AString (iETag a)), (''source_revision'', AInt64 n)])"

lemma put_status: "pStatus (snd (handlePutBlob now scope i st r)) = 200 \<or> 400 \<le> pStatus (snd (handlePutBlob now scope i st r))"
  using put_outcome [of now scope i st r] put_refused(2) [of st scope i r now] by blast

lemma put_body:
  assumes "putAccepted st scope i r"
  shows "\<exists>n. pBody (snd (handlePutBlob now scope i st r)) =
    JObj [(''etag'', AString (FormatETag (revisionOf st scope i + 1))), (''source_revision'', AInt64 n)]"
  using put_made [OF assms, of now] by (simp add: putStored_def Let_def handler_defs)

lemma serve_ours:
  assumes o: "overNet E" "ours E p key scope row nonce r" and new: "map_of (answered st) (pushKey p nonce) = None"
  shows "serve t st r = (let c = handlePutBlob t scope (rowStubID scope row) st r
     in (if pStatus (snd c) = 200 then (fst c)\<lparr>answered := AList.update (pushKey p nonce)
           \<lparr>iMethod = qMethod r, iPath = qPath r, iHash = hOperationHash r, iStatus = pStatus (snd c), iETag = pETag (snd c),
            iBody = pBody (snd c)\<rparr> (answered (fst c))\<rparr> else fst c, snd c))"
proof -
  let ?c = "handlePutBlob t scope (rowStubID scope row) st r"
  note f = ours_fields [OF o(2)]
  have k: "hOperationHash r \<noteq> []" using ours_keyed [OF o] by (simp add: keyedChange_def)
  have s: "serve t st r = idempotent (handlePutBlob t scope (rowStubID scope row)) st r"
    using f(2,5) by (simp add: serve_def changeRoute_def)
  have "pStatus (snd ?c) div 100 = 2 \<longleftrightarrow> pStatus (snd ?c) = 200"
    using put_status [of t scope "rowStubID scope row" st r] by auto
  then show ?thesis unfolding s using f(1,4) k new
    by (cases ?c) (simp add: idempotent_def Let_def)
qed

lemma made_by_ours:
  assumes o: "overNet E" "ours E p key scope row nonce r" and new: "map_of (answered st) (pushKey p nonce) = None"
    and a: "map_of (answered (fst (serve t st r))) (pushKey p nonce) = Some a"
  shows "putAccepted st scope (rowStubID scope row) r" "iETag a = FormatETag (revisionOf st scope (rowStubID scope row) + 1)"
    "goodAnswer r a" "pStatus (snd (serve t st r)) = 200" "pETag (snd (serve t st r)) = iETag a" "pBody (snd (serve t st r)) = iBody a"
    "pKeyID (snd (serve t st r)) = hKeyID r"
proof -
  let ?i = "rowStubID scope row"
  let ?c = "handlePutBlob t scope ?i st r"
  have kept: "answered (fst ?c) = answered st" by (rule put.keeps_answers)
  have s: "pStatus (snd ?c) = 200" and aa: "a = \<lparr>iMethod = qMethod r, iPath = qPath r, iHash = hOperationHash r,
      iStatus = 200, iETag = pETag (snd ?c), iBody = pBody (snd ?c)\<rparr>"
    using a new kept unfolding serve_ours [OF o new, of t]
    by (auto simp: Let_def update_conv' split: if_splits)
  show acc: "putAccepted st scope ?i r" using s by (simp add: put_outcome)
  have e: "pETag (snd ?c) = FormatETag (revisionOf st scope ?i + 1)" using put_made [OF acc, of t] by (simp add: putStored_out)
  show "iETag a = FormatETag (revisionOf st scope ?i + 1)" using e aa by simp
  show "goodAnswer r a" using put_body [OF acc, of t] e aa FormatETag_facts(2) by (simp add: goodAnswer_def)
  show "pStatus (snd (serve t st r)) = 200" "pETag (snd (serve t st r)) = iETag a" "pBody (snd (serve t st r)) = iBody a"
    using s aa unfolding serve_ours [OF o new, of t] by (simp_all add: Let_def)
  show "pKeyID (snd (serve t st r)) = hKeyID r"
    using put_made [OF acc, of t] unfolding serve_ours [OF o new, of t]
    by (simp add: Let_def putStored_def storedBlob_def)
qed

lemma unmade_by_ours:
  assumes o: "overNet E" "ours E p key scope row nonce r" and new: "map_of (answered st) (pushKey p nonce) = None"
    and a: "map_of (answered (fst (serve t st r))) (pushKey p nonce) = None"
  shows "400 \<le> pStatus (snd (serve t st r))"
  using a put_status [of t scope "rowStubID scope row" st r] unfolding serve_ours [OF o new, of t]
  by (auto simp: Let_def update_conv' split: if_splits)

section \<open>One exchange of a push\<close>

text \<open>Nobody else uses the push's idempotency key, and what a gateway answers in the control
  plane's place is a server error.\<close>

definition cleanSched :: "string \<Rightarrow> event list \<Rightarrow> bool" where
  "cleanSched k evs \<longleftrightarrow> (\<forall>ev\<in>set evs. (\<forall>(t, r)\<in>set (evBefore ev). idemKey r \<noteq> k) \<and>
     (\<forall>b resp. evFate ev = Lost b (Some resp) \<longrightarrow> 500 \<le> pStatus resp \<and> pStatus resp \<le> 599))"

definition inv :: "net env \<Rightarrow> Principal \<Rightarrow> bytes \<Rightarrow> string \<Rightarrow> StoredRow \<Rightarrow> string \<Rightarrow> net \<Rightarrow> net \<Rightarrow> bool" where
  "inv E p key scope row nonce w0 w \<longleftrightarrow> cleanSched (pushKey p nonce) (nSched w) \<and>
     (\<exists>new. nArrived w = nArrived w0 @ new \<and> nCP w = serveAll (nCP w0) new \<and>
       (\<forall>(t, r)\<in>set new. idemKey r = pushKey p nonce \<longrightarrow> ours E p key scope row nonce r))"

definition keptAnswer :: "Principal \<Rightarrow> string \<Rightarrow> net \<Rightarrow> idempotentAnswer option" where
  "keptAnswer p nonce w = map_of (answered (nCP w)) (pushKey p nonce)"

lemma nextEvent_clean:
  assumes "cleanSched k (nSched w)"
  shows "\<forall>(t, r)\<in>set (evBefore (nextEvent w)). idemKey r \<noteq> k" "cleanSched k (tl (nSched w))"
    "evFate (nextEvent w) = Lost b (Some resp) \<Longrightarrow> 500 \<le> pStatus resp \<and> pStatus resp \<le> 599"
  using assms by (cases "nSched w"; auto simp: nextEvent_def quiet_def cleanSched_def)+

lemma inv_exchange:
  assumes "inv E p key scope row nonce w0 w" "ours E p key scope row nonce r"
  shows "inv E p key scope row nonce w0 (fst (netDo w r))"
proof -
  obtain new where n: "nArrived w = nArrived w0 @ new" "nCP w = serveAll (nCP w0) new"
      "\<forall>(t, r)\<in>set new. idemKey r = pushKey p nonce \<longrightarrow> ours E p key scope row nonce r"
    and c: "cleanSched (pushKey p nonce) (nSched w)" using assms(1) by (auto simp: inv_def)
  let ?more = "arrivals (nextEvent w) r"
  have "\<forall>(t, x)\<in>set ?more. idemKey x = pushKey p nonce \<longrightarrow> ours E p key scope row nonce x"
    using nextEvent_clean(1) [OF c] assms(2) by (auto simp: arrivals_def split: fate.splits bool.splits)
  then show ?thesis
    using n nextEvent_clean(2) [OF c]
    by (auto simp: inv_def netDo_def Let_def serveAll_append intro!: exI [of _ "new @ ?more"])
qed

lemma others_keep_key:
  "\<forall>(t, r)\<in>set rs. idemKey r \<noteq> k \<Longrightarrow> map_of (answered (serveAll st rs)) k = map_of (answered st) k"
  by (induction st rs rule: serveAll.induct) (auto simp: serve_other_key)

text \<open>An answer kept under the push's key is one of the push's own writes.\<close>

lemma kept_is_good:
  assumes o: "overNet E" and i: "inv E p key scope row nonce w0 w" and fresh: "keptAnswer p nonce w0 = None"
    and a: "keptAnswer p nonce w = Some a" and r: "ours E p key scope row nonce r"
  shows "goodAnswer r a"
proof -
  obtain new where n: "nCP w = serveAll (nCP w0) new"
      "\<forall>(t, r)\<in>set new. idemKey r = pushKey p nonce \<longrightarrow> ours E p key scope row nonce r"
    using i by (auto simp: inv_def)
  have a': "map_of (answered (serveAll (nCP w0) new)) (pushKey p nonce) = Some a"
    and f': "map_of (answered (nCP w0)) (pushKey p nonce) = None" using a fresh n by (simp_all add: keptAnswer_def)
  obtain pre t x post where x: "new = pre @ (t, x) # post" "idemKey x = pushKey p nonce"
      "map_of (answered (serveAll (nCP w0) pre)) (pushKey p nonce) = None"
      "map_of (answered (fst (serve t (serveAll (nCP w0) pre) x))) (pushKey p nonce) = Some a"
    using answer_origin [OF f' a'] by blast
  have ox: "ours E p key scope row nonce x" using n(2) x by auto
  have "goodAnswer x a" by (rule made_by_ours(3) [OF o ox x(3,4)])
  moreover have "sameOperation x r" by (rule ours_same [OF ox r])
  ultimately show ?thesis by (simp add: goodAnswer_def sameOperation_def)
qed

lemma exchange_outcome:
  assumes o: "overNet E" and i: "inv E p key scope row nonce w0 w" and fresh: "keptAnswer p nonce w0 = None"
    and r: "ours E p key scope row nonce r" and d: "netDo w r = (w', res)" and res: "res = Inr (resp, unread)"
  shows "500 \<le> pStatus resp \<and> pStatus resp \<le> 599 \<or>
    (case keptAnswer p nonce w' of None \<Rightarrow> 400 \<le> pStatus resp
     | Some a \<Rightarrow> goodAnswer r a \<and> pStatus resp = 200 \<and> pETag resp = iETag a \<and> pBody resp = iBody a)"
proof -
  let ?ev = "nextEvent w" and ?k = "pushKey p nonce"
  let ?st = "serveAll (nCP w) (evBefore ?ev)"
  have c: "cleanSched ?k (nSched w)" using i by (simp add: inv_def)
  have w': "w' = fst (netDo w r)" "res = seen w ?ev r" using d by (auto simp: netDo_def Let_def)
  show ?thesis
  proof (cases "evFate ?ev")
    case (Lost b x)
    then show ?thesis using w'(2) res nextEvent_clean(3) [OF c] by (cases x) (auto simp: seen_def)
  next
    case (Delivered u)
    then have resp: "resp = snd (serve (evAt ?ev) ?st r)" and cp: "nCP w' = fst (serve (evAt ?ev) ?st r)"
      using w' res by (simp_all add: seen_def netDo_def Let_def arrivals_def serveAll_append)
    have before: "map_of (answered ?st) ?k = keptAnswer p nonce w"
      using others_keep_key [OF nextEvent_clean(1) [OF c]] by (simp add: keptAnswer_def)
    show ?thesis
    proof (cases "keptAnswer p nonce w")
      case (Some a)
      have g: "goodAnswer r a" by (rule kept_is_good [OF o i fresh Some r])
      have "idemKey r = ?k" by (rule ours_fields(1) [OF r])
      then have "serve (evAt ?ev) ?st r = (?st, replay a)"
        using serve_replay [OF ours_keyed [OF o r], of r ?st a "evAt ?ev"] before Some g
        by (simp add: sameOperation_def goodAnswer_def)
      then show ?thesis using resp cp before Some g
        by (simp add: keptAnswer_def replay_def answer_def goodAnswer_def)
    next
      case None
      then have n: "map_of (answered ?st) ?k = None" using before by simp
      show ?thesis
      proof (cases "keptAnswer p nonce w'")
        case n': None
        then have "400 \<le> pStatus resp" using unmade_by_ours [OF o r n] cp resp by (simp add: keptAnswer_def)
        then show ?thesis using n' by simp
      next
        case (Some a)
        then show ?thesis using made_by_ours(3-6) [OF o r n] cp resp by (simp add: keptAnswer_def)
      qed
    qed
  qed
qed

section \<open>The client and the store\<close>

lemma readPutAnswer_good:
  assumes "goodAnswer r a" "pBody resp = iBody a" "pETag resp = iETag a"
  shows "\<exists>v. readPutAnswer req resp = Inr v \<and> vETag v = iETag a"
  using assms by (auto simp: goodAnswer_def readPutAnswer_def strField_def intField_def)

lemma parseError_plain: "\<not> isAmbiguous (parseError s b)"
  by (auto simp: parseError_def statusError_def split: body.split option.split)

definition pushReq :: "net env \<Rightarrow> Principal \<Rightarrow> bytes \<Rightarrow> string \<Rightarrow> StoredRow \<Rightarrow> string \<Rightarrow> PutBlobRequest \<Rightarrow> bool" where
  "pushReq E p key scope row nonce req \<longleftrightarrow> uRewrap req = False \<and> uScope req = scope \<and> uID req = rID row \<and>
     (\<forall>path. PathFor scope (rID row) = Inr path \<longrightarrow> ours E p key scope row nonce (putRequest path req))"

lemma putBlobOnce_outcome:
  assumes o: "overNet E" and i: "inv E p key scope row nonce w0 w" and fresh: "keptAnswer p nonce w0 = None"
    and q: "pushReq E p key scope row nonce req" and path: "PathFor scope (rID row) = Inr path"
    and out: "putBlobOnce netT w req = (w', res)"
  shows "inv E p key scope row nonce w0 w'"
    "res = Inr v \<Longrightarrow> \<exists>a. keptAnswer p nonce w' = Some a \<and> vETag v = iETag a"
    "res = Inl e \<Longrightarrow> \<not> isAmbiguous e \<Longrightarrow> keptAnswer p nonce w' = None"
proof -
  let ?r = "putRequest path req"
  have r: "ours E p key scope row nonce ?r" and s: "uScope req = scope" "uID req = rID row" using q path by (auto simp: pushReq_def)
  obtain w1 ans where d: "netDo w ?r = (w1, ans)" by (cases "netDo w ?r")
  have w1: "w' = w1" using out path s d by (auto simp: putBlobOnce_def netT_def split: sum.splits prod.splits)
  show "inv E p key scope row nonce w0 w'" using inv_exchange [OF i r] d w1 by simp
  have oc: "500 \<le> pStatus resp \<and> pStatus resp \<le> 599 \<or>
    (case keptAnswer p nonce w' of None \<Rightarrow> 400 \<le> pStatus resp
     | Some a \<Rightarrow> goodAnswer ?r a \<and> pStatus resp = 200 \<and> pETag resp = iETag a \<and> pBody resp = iBody a)"
    if "ans = Inr (resp, unread)" for resp unread
    using exchange_outcome [OF o i fresh r d that] w1 by simp
  show "\<exists>a. keptAnswer p nonce w' = Some a \<and> vETag v = iETag a" if v: "res = Inr v"
  proof -
    obtain resp where a: "ans = Inr (resp, False)" "pStatus resp < 400" "readPutAnswer req resp = Inr v"
      using out path s d v by (auto simp: putBlobOnce_def netT_def split: sum.splits prod.splits if_splits)
    obtain x where x: "keptAnswer p nonce w' = Some x" "goodAnswer ?r x" "pETag resp = iETag x" "pBody resp = iBody x"
      using oc [OF a(1)] a(2) by (auto split: option.splits)
    then show ?thesis using readPutAnswer_good [OF x(2,4,3), of req] a(3) by auto
  qed
  show "keptAnswer p nonce w' = None" if e: "res = Inl e" "\<not> isAmbiguous e"
  proof (cases ans)
    case (Inl x)
    then show ?thesis using out path s d e by (auto simp: putBlobOnce_def netT_def)
  next
    case (Inr y)
    obtain resp unread where y: "ans = Inr (resp, unread)" using Inr by (cases y) auto
    show ?thesis
    proof (rule ccontr)
      assume "keptAnswer p nonce w' \<noteq> None"
      then obtain x where x: "keptAnswer p nonce w' = Some x" by auto
      then have "500 \<le> pStatus resp \<and> pStatus resp \<le> 599 \<or> goodAnswer ?r x \<and> pStatus resp = 200 \<and> pETag resp = iETag x \<and> pBody resp = iBody x"
        using oc [OF y] by simp
      then show False
        using out path s d y e readPutAnswer_good [of ?r x resp req]
        by (auto simp: putBlobOnce_def netT_def isRetryablePutBlobStatus_def split: if_splits)
    qed
  qed
qed

lemma putBlobOnce_error:
  assumes "putBlobOnce netT w req = (w', Inl e)" "PathFor (uScope req) (uID req) = Inr path"
  shows "asApi e = None \<and> \<not> isTooLarge e \<and> \<not> isOutcomeUnknown e"
proof -
  have p: "asApi (parseError s b) = None \<and> \<not> isTooLarge (parseError s b) \<and> \<not> isOutcomeUnknown (parseError s b)" for s b
    by (auto simp: parseError_def statusError_def split: body.split option.split)
  have r: "asApi x = None \<and> \<not> isTooLarge x \<and> \<not> isOutcomeUnknown x" if "readPutAnswer req resp = Inl x" for resp x
    using that by (auto simp: readPutAnswer_def split: option.splits if_splits prod.splits)
  obtain w1 ans where d: "netDo w (putRequest path req) = (w1, ans)" by (cases "netDo w (putRequest path req)")
  have t: "asApi x = None \<and> \<not> isTooLarge x \<and> \<not> isOutcomeUnknown x" if "ans = Inl x" for x
    using d that by (auto simp: netDo_def Let_def seen_def split: fate.splits option.splits)
  show ?thesis
    using assms d p t r by (auto simp: putBlobOnce_def netT_def split: sum.splits prod.splits if_splits)
qed

lemma unknown_code:
  "asApi e = None \<Longrightarrow> \<not> isTooLarge e \<Longrightarrow> eCode (FromControlplane (EOutcomeUnknown e)) = ''SYNC_OUTCOME_UNKNOWN''"
  by (simp add: FromControlplane_def)

lemma putBlobLoop_outcome:
  assumes "overNet E" "inv E p key scope row nonce w0 w" "keptAnswer p nonce w0 = None"
    "pushReq E p key scope row nonce req" "PathFor scope (rID row) = Inr path" "putBlobLoop netT n w req = (w', res)"
  shows "inv E p key scope row nonce w0 w' \<and>
    (\<forall>v. res = Inr v \<longrightarrow> (\<exists>a. keptAnswer p nonce w' = Some a \<and> vETag v = iETag a)) \<and>
    (\<forall>e. res = Inl e \<longrightarrow> eCode (FromControlplane e) = ''REVISION_CONFLICT'' \<longrightarrow> keptAnswer p nonce w' = None)"
  using assms(2,6)
proof (induction n arbitrary: w)
  case 0
  then show ?case by (auto simp: FromControlplane_def)
next
  case (Suc n)
  show ?case
  proof (cases "tCtx netT w")
    case (Some c)
    then have "c = EOther ''context canceled''" by (simp add: netT_def split: if_splits)
    then show ?thesis using Suc.prems Some by (auto simp: FromControlplane_def)
  next
    case None
    obtain w1 ans where once: "putBlobOnce netT w req = (w1, ans)" by (cases "putBlobOnce netT w req")
    note oc = putBlobOnce_outcome [OF assms(1) Suc.prems(1) assms(3,4,5) once]
    show ?thesis
    proof (cases ans)
      case (Inr v)
      then show ?thesis using Suc.prems None once oc(1,2) by auto
    next
      case (Inl e)
      have ne: "asApi e = None \<and> \<not> isTooLarge e \<and> \<not> isOutcomeUnknown e"
        using putBlobOnce_error [of w req w1 e path] once Inl assms(4,5) by (simp add: pushReq_def)
      consider "\<not> isAmbiguous e" | "isAmbiguous e" "tCtx netT w1 \<noteq> None \<or> n = 0" | "isAmbiguous e" "tCtx netT w1 = None" "n \<noteq> 0"
        by blast
      then show ?thesis
      proof cases
        case 1
        then show ?thesis using Suc.prems None once oc(1,3) Inl by auto
      next
        case 2
        then have "w' = w1" "res = Inl (EOutcomeUnknown e)" using Suc.prems None once Inl by auto
        then show ?thesis using oc(1) unknown_code [of e] ne by auto
      next
        case 3
        then have "putBlobLoop netT n w1 req = (w', res)" using Suc.prems None once Inl by auto
        then show ?thesis by (rule Suc.IH [OF oc(1)])
      qed
    qed
  qed
qed

lemma inv_same: "sameNet w w' \<Longrightarrow> inv E p key scope row nonce w0 w \<Longrightarrow> inv E p key scope row nonce w0 w'"
  by (simp add: sameNet_def inv_def)

lemma kept_same: "sameNet w w' \<Longrightarrow> keptAnswer p nonce w' = keptAnswer p nonce w"
  by (simp add: sameNet_def keptAnswer_def)

lemma pushRequest_ours:
  assumes "PathFor scope (rID row) = Inr path" "CanonicalPayloadAAD (pushAAD E p key scope row) = Inr payloadAAD"
    "EncryptWith (eCodec E) rk rp rw key (rData row) (pushAAD E p key scope row) = Inr sealed" "rID row \<noteq> []" "nonce \<noteq> []"
  shows "pushReq E p key scope row nonce (pushRequest E p key scope row nonce path payloadAAD sealed)"
  using assms by (auto simp: pushReq_def ours_def) (simp_all add: pushRequest_def Let_def)

text \<open>A push either returns before anything is sent, with an error that is no conflict, or sends
  one request, perhaps twice.\<close>

lemma Push_shape:
  assumes "overNet E" "Push E w p key scope row nonce = (w', res)"
  obtains (early) e where "sameNet w w'" "res = Inl e" "eCode (AsError un e) \<noteq> ''REVISION_CONFLICT''"
  | (sent) w1 w2 req path ans where "sameNet w w1" "PathFor scope (rID row) = Inr path" "pushReq E p key scope row nonce req"
      "putBlobLoop netT PutBlobMaxAttempts w1 req = (w2, ans)"
      "case ans of Inl e \<Rightarrow> w' = w2 \<and> res = Inl (EApi (FromControlplane e)) | Inr v \<Rightarrow> sameNet w2 w' \<and> res = Inr (vETag v)"
proof -
  have early': thesis if "w' = w" "res = Inl e" "eCode (AsError un e) \<noteq> ''REVISION_CONFLICT''" for e
    using early that by (simp add: sameNet_def)
  have bad: "eCode (AsError un (bad why)) \<noteq> ''REVISION_CONFLICT''" for why by (simp add: AsError_def bad_def)
  have scope: "eCode (AsError un ERunScope) \<noteq> ''REVISION_CONFLICT''" by (simp add: AsError_def)
  show thesis
  proof (cases "\<not> scopeValid scope \<or> rID row = [] \<or> nonce = [] \<or>
      (case pGrant p of None \<Rightarrow> False | Some g \<Rightarrow> \<not> permitsPush (eHkdf E) (eNow E w) g key scope row)")
    case True
    then show thesis using assms(2) early' bad scope by (auto simp: Push_def split: if_splits)
  next
    case False
    show thesis
    proof (cases "PathFor scope (rID row)")
      case (Inl x)
      then show thesis using assms(2) False early' bad by (auto simp: Push_def)
    next
      case (Inr path)
      show thesis
      proof (cases "CanonicalPayloadAAD (pushAAD E p key scope row)")
        case (Inl x)
        then show thesis using assms(2) False Inr early' bad by (auto simp: Push_def Let_def pushAAD_def)
      next
        case aad: (Inr payloadAAD)
        obtain w1 rk rp rw where rnd: "eRand E w = (w1, rk, rp, rw)" by (cases "eRand E w") auto
        have same: "sameNet w w1" using assms(1) rnd by (metis fst_conv overNet_def)
        show thesis
        proof (cases "EncryptWith (eCodec E) rk rp rw key (rData row) (pushAAD E p key scope row)")
          case (Inl x)
          have "eCode (AsError un (EApi (FromControlplane (ESeal x)))) \<noteq> ''REVISION_CONFLICT''"
            by (simp add: AsError_def FromControlplane_def)
          then show thesis using assms(2) False Inr aad rnd Inl same early by (auto simp: Push_def Let_def pushAAD_def)
        next
          case enc: (Inr sealed)
          let ?req = "pushRequest E p key scope row nonce path payloadAAD sealed"
          have q: "pushReq E p key scope row nonce ?req" using pushRequest_ours [OF Inr aad enc] False by blast
          show thesis
          proof (cases "scope = ''chat'' \<and> (case uAttachmentRefs ?req of None \<Rightarrow> False | Some refs \<Rightarrow> maxAttachmentRefsPerChat < length refs)")
            case True
            then show thesis using assms(2) False Inr aad rnd enc same early bad by (auto simp: Push_def Let_def pushAAD_def)
          next
            case few: False
            obtain w2 ans where loop: "putBlobLoop netT PutBlobMaxAttempts w1 ?req = (w2, ans)"
              by (cases "putBlobLoop netT PutBlobMaxAttempts w1 ?req")
            have put: "PutBlob (eT E) w1 ?req = (w2, ans)"
              using loop assms(1) q by (simp add: PutBlob_def overNet_def pushReq_def)
            have stored: "sameNet w2 (f w2 a b c d)" if "eChatStored E = Some f" for f a b c d
              using assms(1) that by (simp add: overNet_def)
            have out: "case ans of Inl e \<Rightarrow> w' = w2 \<and> res = Inl (EApi (FromControlplane e)) | Inr v \<Rightarrow> sameNet w2 w' \<and> res = Inr (vETag v)"
              using assms(2) False Inr aad rnd enc few put stored
              by (cases ans; cases "eChatStored E") (auto simp: Push_def Let_def pushAAD_def sameNet_def split: if_splits)
            show thesis by (rule sent [OF same Inr q loop out])
          qed
        qed
      qed
    qed
  qed
qed

lemma Push_outcome:
  assumes o: "overNet E" and i: "inv E p key scope row nonce w0 w" and fresh: "keptAnswer p nonce w0 = None"
    and out: "Push E w p key scope row nonce = (w', res)"
  shows "inv E p key scope row nonce w0 w' \<and>
    (\<forall>etag. res = Inr etag \<longrightarrow> (\<exists>a. keptAnswer p nonce w' = Some a \<and> etag = iETag a)) \<and>
    (\<forall>e. res = Inl e \<longrightarrow> eCode (AsError un e) = ''REVISION_CONFLICT'' \<longrightarrow> keptAnswer p nonce w' = None)"
  using o out
proof (cases rule: Push_shape [where un = un])
  case (early e)
  then show ?thesis using inv_same [OF early(1) i] by auto
next
  case (sent w1 w2 req path ans)
  note oc = putBlobLoop_outcome [OF o inv_same [OF sent(1) i] fresh sent(3,2,4)]
  show ?thesis
  proof (cases ans)
    case (Inl e)
    then show ?thesis using sent(5) oc by (auto simp: AsError_def)
  next
    case (Inr v)
    then have "sameNet w2 w'" "res = Inr (vETag v)" using sent(5) by auto
    then show ?thesis using oc Inr inv_same [of w2 w'] kept_same [of w2 w' p nonce] by auto
  qed
qed

lemma pushLoop_outcome:
  assumes o: "overNet E" and i: "inv E p key scope row nonce w0 w" and fresh: "keptAnswer p nonce w0 = None"
    and out: "pushLoop E n w p key scope row nonce = (w', res)"
  shows "inv E p key scope row nonce w0 w' \<and>
    (\<forall>row'. res = Inr row' \<longrightarrow> (\<exists>a. keptAnswer p nonce w' = Some a \<and> row' = row\<lparr>rETag := iETag a\<rparr>)) \<and>
    (\<forall>e. res = Inl e \<longrightarrow> eCode (AsError (unObject (eJSON E)) e) = ''REVISION_CONFLICT'' \<longrightarrow> keptAnswer p nonce w' = None)"
  using i out
proof (induction n arbitrary: w)
  case 0
  then show ?case by (auto simp: AsError_def)
next
  case (Suc n)
  obtain w1 ans where push: "Push E w p key scope row nonce = (w1, ans)" by (cases "Push E w p key scope row nonce")
  note oc = Push_outcome [OF o Suc.prems(1) fresh push, where un = "unObject (eJSON E)"]
  show ?case
  proof (cases ans)
    case (Inr etag)
    then show ?thesis using Suc.prems(2) push oc by auto
  next
    case (Inl e)
    show ?thesis
    proof (cases "eCode (AsError (unObject (eJSON E)) e) \<noteq> ''SYNC_OUTCOME_UNKNOWN'' \<or> n = 0")
      case True
      then show ?thesis using Suc.prems(2) push Inl oc by auto
    next
      case False
      then have "pushLoop E n w1 p key scope row nonce = (w', res)" using Suc.prems(2) push Inl by simp
      then show ?thesis using Suc.IH oc by blast
    qed
  qed
qed

lemma StorePush_outcome:
  assumes o: "overNet E" and u: "eUUID E w = (wu, nonce)" and c: "cleanSched (pushKey p nonce) (nSched w)"
    and fresh: "keptAnswer p nonce w = None" and out: "StorePush E w p key scope row = (w', res)"
  shows "inv E p key scope row nonce w w'"
    "res = Inr row' \<Longrightarrow> \<exists>a. keptAnswer p nonce w' = Some a \<and> row' = row\<lparr>rETag := iETag a\<rparr>"
    "res = Inl e \<Longrightarrow> eCode (AsError (unObject (eJSON E)) e) = ''REVISION_CONFLICT'' \<Longrightarrow> keptAnswer p nonce w' = None"
proof -
  have "sameNet w wu" using o u by (metis fst_conv overNet_def)
  moreover have "inv E p key scope row nonce w w" using c by (auto simp: inv_def intro: exI [of _ "[]"])
  ultimately have "inv E p key scope row nonce w wu" by (rule inv_same)
  moreover have "pushLoop E MaxCommitAttempts wu p key scope row nonce = (w', res)" using out u by (simp add: StorePush_def)
  ultimately show "inv E p key scope row nonce w w'"
    "res = Inr row' \<Longrightarrow> \<exists>a. keptAnswer p nonce w' = Some a \<and> row' = row\<lparr>rETag := iETag a\<rparr>"
    "res = Inl e \<Longrightarrow> eCode (AsError (unObject (eJSON E)) e) = ''REVISION_CONFLICT'' \<Longrightarrow> keptAnswer p nonce w' = None"
    using pushLoop_outcome [OF o _ fresh] by blast+
qed

text \<open>The moment a push's write is made, among the requests that reached the control plane.\<close>

definition madeAt :: "net env \<Rightarrow> Principal \<Rightarrow> bytes \<Rightarrow> string \<Rightarrow> StoredRow \<Rightarrow> string \<Rightarrow> cpStore \<Rightarrow> (int \<times> httpRequest) list \<Rightarrow>
    (int \<times> httpRequest) list \<Rightarrow> int \<Rightarrow> httpRequest \<Rightarrow> string \<Rightarrow> bool" where
  "madeAt E p key scope row nonce st new pre t r etag \<longleftrightarrow> (\<exists>post. new = pre @ (t, r) # post) \<and> ours E p key scope row nonce r \<and>
     ifMatchOf row = FormatETag (revisionOf (serveAll st pre) scope (rowStubID scope row)) \<and>
     etag = FormatETag (revisionOf (serveAll st pre) scope (rowStubID scope row) + 1) \<and>
     map_of (Blobs (serveAll st (pre @ [(t, r)]))) (StubKey scope (rowStubID scope row)) =
       Some (storedBlob t scope (map_of (Blobs (serveAll st pre)) (StubKey scope (rowStubID scope row)))
         (revisionOf (serveAll st pre) scope (rowStubID scope row) + 1) r)"

lemma kept_madeAt:
  assumes o: "overNet E" and i: "inv E p key scope row nonce w w'" and fresh: "keptAnswer p nonce w = None"
    and a: "keptAnswer p nonce w' = Some a"
  shows "\<exists>new pre t r. nArrived w' = nArrived w @ new \<and> nCP w' = serveAll (nCP w) new \<and>
    madeAt E p key scope row nonce (nCP w) new pre t r (iETag a)"
proof -
  let ?k = "pushKey p nonce" and ?i = "rowStubID scope row"
  obtain new where n: "nArrived w' = nArrived w @ new" "nCP w' = serveAll (nCP w) new"
      "\<forall>(t, r)\<in>set new. idemKey r = ?k \<longrightarrow> ours E p key scope row nonce r"
    using i by (auto simp: inv_def)
  obtain pre t r post where x: "new = pre @ (t, r) # post" "idemKey r = ?k"
      "map_of (answered (serveAll (nCP w) pre)) ?k = None" "map_of (answered (fst (serve t (serveAll (nCP w) pre) r))) ?k = Some a"
    using answer_origin [of "nCP w" ?k new a] fresh a n(2) by (auto simp: keptAnswer_def)
  have r: "ours E p key scope row nonce r" using n(3) x(1,2) by auto
  let ?st = "serveAll (nCP w) pre"
  note m = made_by_ours [OF o r x(3,4)]
  have "Blobs (fst (serve t ?st r)) = AList.update (StubKey scope ?i)
      (storedBlob t scope (map_of (Blobs ?st) (StubKey scope ?i)) (revisionOf ?st scope ?i + 1) r) (Blobs ?st)"
    using serve_put [OF ours_fields(5,2) [OF r], of ?st t] x(2,3) m(4) by simp
  then have "madeAt E p key scope row nonce (nCP w) new pre t r (iETag a)"
    using x(1) r m(1,2) ours_fields(3) [OF r]
    by (auto simp: madeAt_def putAccepted_def serveAll_append update_conv')
  then show ?thesis using n by blast
qed

text \<open>C7: over any network, with any loss of requests and answers, any server errors in between
  and any other writers, a push makes its write at most once.  A push that returns was made
  exactly once, at the very revision it was read at, stored the bytes it sent and returns the
  revision that write got; a push that reports a conflict was never made, not even by a
  request whose answer was lost.\<close>

theorem push_made_once:
  assumes "overNet E" "eUUID E w = (wu, nonce)" "cleanSched (pushKey p nonce) (nSched w)" "keptAnswer p nonce w = None"
    "StorePush E w p key scope row = (w', res)"
  shows "\<exists>new. nArrived w' = nArrived w @ new \<and> nCP w' = serveAll (nCP w) new \<and> made (nCP w) (pushKey p nonce) new \<le> 1 \<and>
    (\<forall>row'. res = Inr row' \<longrightarrow> made (nCP w) (pushKey p nonce) new = 1 \<and>
       (\<exists>pre t r. madeAt E p key scope row nonce (nCP w) new pre t r (rETag row') \<and> row' = row\<lparr>rETag := rETag row'\<rparr>)) \<and>
    (\<forall>e. res = Inl e \<and> eCode (AsError (unObject (eJSON E)) e) = ''REVISION_CONFLICT'' \<longrightarrow> made (nCP w) (pushKey p nonce) new = 0)"
proof -
  note oc = StorePush_outcome [OF assms]
  obtain new where n: "nArrived w' = nArrived w @ new" "nCP w' = serveAll (nCP w) new" using oc(1) by (auto simp: inv_def)
  have m: "made (nCP w) (pushKey p nonce) new = (if keptAnswer p nonce w' = None then 0 else 1)"
    using made_count [of "nCP w" "pushKey p nonce" new] assms(4) n(2) by (simp add: keptAnswer_def)
  have ok: "made (nCP w) (pushKey p nonce) new = 1 \<and>
      (\<exists>pre t r. madeAt E p key scope row nonce (nCP w) new pre t r (rETag row') \<and> row' = row\<lparr>rETag := rETag row'\<rparr>)"
    if row: "res = Inr row'" for row'
  proof -
    obtain a where a: "keptAnswer p nonce w' = Some a" "row' = row\<lparr>rETag := iETag a\<rparr>" using oc(2) [OF row] by blast
    obtain pre t r where "madeAt E p key scope row nonce (nCP w) new pre t r (iETag a)"
      using kept_madeAt [OF assms(1) oc(1) assms(4) a(1)] n(1) by auto
    moreover have "row' = row\<lparr>rETag := rETag row'\<rparr>" "rETag row' = iETag a" using a(2) by simp_all
    ultimately show ?thesis using m a(1) by auto
  qed
  have no: "made (nCP w) (pushKey p nonce) new = 0"
    if "res = Inl e" "eCode (AsError (unObject (eJSON E)) e) = ''REVISION_CONFLICT''" for e
    using oc(3) [OF that] m by simp
  show ?thesis using n m ok no by (intro exI [of _ new]) auto
qed

text \<open>A chat pushed over a network that loses the answer to the first request and on which another
  device writes the chat before the second arrives.\<close>

definition envX :: "net env" where
  "envX = \<lparr>eT = netT, eHkdf = toyHkdf, eHmac = toyMac, eCodec = plainCodec, eNow = (\<lambda>_. 0),
     eRand = (\<lambda>w. (w, Some (replicate 32 (CHR ''r'')), Some (replicate 12 (CHR ''r'')), Some (replicate 12 (CHR ''r'')))),
     eUUID = (\<lambda>w. (w, ''n'')), eJSON = (\<lambda>_. Some (AMap [])), eMarshal = (\<lambda>_. []), eTime = (\<lambda>_. None),
     ePromote = (\<lambda>w _ _ _ _. (w, None)), eDropBuckets = (\<lambda>w _ _. w), eChatStored = None, eChatRemoved = None\<rparr>"

definition netX :: net where
  "netX = \<lparr>nCP = NewStub,
     nSched = [\<lparr>evBefore = [], evAt = 1, evFate = Lost True None, evCancels = False\<rparr>,
               \<lparr>evBefore = [(2, putX ''m'' ''other'' ''1'')], evAt = 3, evFate = Delivered False, evCancels = False\<rparr>],
     nArrived = [], nCancelled = False\<rparr>"

definition userX :: Principal where "userX = \<lparr>pID = ''u'', pGrant = None\<rparr>"

definition rowX :: StoredRow where
  "rowX = \<lparr>rID = ''c'', rETag = [], rData = ''{}'', rProject = None, rProjectSet = True, rUpdatedAt = None\<rparr>"

lemma overNetX: "overNet envX"
  by (simp add: overNet_def envX_def toyMac_def sameNet_def)

lemma cleanX: "cleanSched (pushKey userX ''n'') (nSched netX)" "keptAnswer userX ''n'' netX = None"
  by (auto simp: cleanSched_def netX_def pushKey_def userX_def idemKey_def putX_def keptAnswer_def NewStub_def)

theorem push_made_once_witness:
  "\<exists>new. nCP (fst (StorePush envX netX userX (replicate 32 (CHR ''k'')) ''chat'' rowX)) = serveAll NewStub new \<and>
     made NewStub (pushKey userX ''n'') new \<le> 1"
proof -
  let ?p = "StorePush envX netX userX (replicate 32 (CHR ''k'')) ''chat'' rowX"
  have u: "eUUID envX netX = (netX, ''n'')" by (simp add: envX_def)
  have "?p = (fst ?p, snd ?p)" by simp
  from push_made_once [OF overNetX u cleanX this]
  show ?thesis by (auto simp: netX_def)
qed

end
