(* ===== verification/Row_Reads.thy ===== *)
theory Row_Reads
  imports Push_Once
begin

text \<open>What reading rows shows, over the network and the control plane: \<^verbatim>\<open>Rows.Pull\<close> of
  \<^verbatim>\<open>internal/store/rows.go\<close> and \<^verbatim>\<open>Store.Load\<close>.  Each row returned is what the control plane held at
  a moment of the read, opened under the caller's key, and every id asked for is
  accounted for.\<close>

section \<open>How the network moves\<close>

definition netMoves :: "net \<Rightarrow> net \<Rightarrow> bool" where
  "netMoves w w' \<longleftrightarrow> (\<exists>new n. nArrived w' = nArrived w @ new \<and> nCP w' = serveAll (nCP w) new \<and> nSched w' = drop n (nSched w))"

lemma moved_refl [simp]: "netMoves w w"
  by (auto simp: netMoves_def intro: exI [of _ "[]"] exI [of _ 0])

lemma moved_trans: "netMoves a b \<Longrightarrow> netMoves b c \<Longrightarrow> netMoves a c"
proof -
  assume "netMoves a b" "netMoves b c"
  then obtain x m y n where "nArrived b = nArrived a @ x" "nCP b = serveAll (nCP a) x" "nSched b = drop m (nSched a)"
      "nArrived c = nArrived b @ y" "nCP c = serveAll (nCP b) y" "nSched c = drop n (nSched b)" by (auto simp: netMoves_def)
  then show ?thesis unfolding netMoves_def
    by (intro exI [of _ "x @ y"] exI [of _ "n + m"]) (simp add: serveAll_append)
qed

lemma moved_same: "sameNet w w' \<Longrightarrow> netMoves w w'"
  by (auto simp: sameNet_def netMoves_def intro: exI [of _ "[]"] exI [of _ 0])

lemma moved_netDo: "netMoves w (fst (netDo w r))"
  unfolding netMoves_def netDo_def Let_def
  by (intro exI [of _ "arrivals (nextEvent w) r"] exI [of _ 1]) (simp add: drop_Suc)

text \<open>The functions that only read, or reseal, move the network and nothing else.\<close>

definition movesNet :: "net env \<Rightarrow> bool" where
  "movesNet E \<longleftrightarrow> overNet E \<and> (\<forall>w a b c d. netMoves w (fst (ePromote E w a b c d)))"

lemma tDo_net: "movesNet E \<Longrightarrow> tDo (eT E) = netDo"
  by (simp add: movesNet_def overNet_def netT_def)

lemma moved_step: "netDo w r = (w', x) \<Longrightarrow> netMoves w w'"
  using moved_netDo [of w r] by simp

lemma GetBlob_moved: "movesNet E \<Longrightarrow> GetBlob (eT E) w scope i u = (w', x) \<Longrightarrow> netMoves w w'"
  by (auto simp: GetBlob_def tDo_net split: sum.splits prod.splits dest!: moved_step)

lemma GetCurrentKey_moved: "movesNet E \<Longrightarrow> GetCurrentKey (eT E) w u = (w', x) \<Longrightarrow> netMoves w w'"
  by (auto simp: GetCurrentKey_def tDo_net split: sum.splits prod.splits dest!: moved_step)

lemma Backfill_moved: "movesNet E \<Longrightarrow> netMoves w (fst (BackfillChatActivity (eT E) w u i e t))"
  by (auto simp: BackfillChatActivity_def tDo_net split: sum.splits prod.splits dest!: moved_step)

lemma rewrapBlob_moved: "movesNet E \<Longrightarrow> rewrapBlob (eT E) w req = (w', x) \<Longrightarrow> netMoves w w'"
  by (auto simp: rewrapBlob_def tDo_net split: sum.splits prod.splits dest!: moved_step)

lemma rand_moved: "movesNet E \<Longrightarrow> eRand E w = (w', x) \<Longrightarrow> netMoves w w'"
  by (metis moved_same fst_conv movesNet_def overNet_def)

lemma promote_moved: "movesNet E \<Longrightarrow> ePromote E w a b c d = (w', x) \<Longrightarrow> netMoves w w'"
  by (metis fst_conv movesNet_def)

lemma promoteAtt_moved: "movesNet E \<Longrightarrow> netMoves w (fst (promoteAtt E w p c a))"
  by (auto simp: promoteAtt_def Let_def split: any.split prod.split option.split dest: promote_moved)

lemma promoteAtts_moved: "movesNet E \<Longrightarrow> netMoves w (fst (promoteAtts E w p c as))"
proof (induction as arbitrary: w)
  case (Cons a as)
  obtain w1 x where a: "promoteAtt E w p c a = (w1, x)" by (cases "promoteAtt E w p c a")
  have "netMoves w w1" using promoteAtt_moved [OF Cons.prems, of w p c a] a by simp
  then have "netMoves w (fst (promoteAtts E w1 p c as))" using Cons.IH [OF Cons.prems] by (rule moved_trans)
  then show ?case using a by (cases "promoteAtts E w1 p c as"; cases x) simp
qed simp

lemma promoteMessage_moved: "movesNet E \<Longrightarrow> netMoves w (fst (promoteMessage E w p c m))"
  using promoteAtts_moved [of E w p c]
  by (auto simp: promoteMessage_def Let_def split: any.split prod.split option.split) (metis fst_conv)

lemma promoteMessages_moved: "movesNet E \<Longrightarrow> netMoves w (fst (promoteMessages E w p c ms))"
proof (induction ms arbitrary: w)
  case (Cons m ms)
  obtain w1 x where a: "promoteMessage E w p c m = (w1, x)" by (cases "promoteMessage E w p c m")
  have "netMoves w w1" using promoteMessage_moved [OF Cons.prems, of w p c m] a by simp
  then have "netMoves w (fst (promoteMessages E w1 p c ms))" using Cons.IH [OF Cons.prems] by (rule moved_trans)
  then show ?case using a by (cases "promoteMessages E w1 p c ms"; cases x) simp
qed simp

lemma rewrapChat_moved: "movesNet E \<Longrightarrow> netMoves w (fst (rewrapChatAttachments E w p c d))"
  using promoteMessages_moved [of E w p c]
  by (auto simp: rewrapChatAttachments_def Let_def split: any.split prod.split option.split) (metis fst_conv)+

lemma rewrapRow_moved:
  assumes m: "movesNet E" and out: "rewrapRow E w p scope i d e k = (w', x)"
  shows "netMoves w w'"
proof -
  obtain w1 n where c: "(if scope = ''chat'' then rewrapChatAttachments E w p i d else (w, Inr None)) = (w1, n)"
    by (cases "if scope = ''chat'' then rewrapChatAttachments E w p i d else (w, Inr None)")
  have 1: "netMoves w w1" using c rewrapChat_moved [OF m, of w p i d] by (auto split: if_splits)
  obtain w2 r where rnd: "eRand E w1 = (w2, r)" by (cases "eRand E w1")
  have 2: "netMoves w w2" using 1 rand_moved [OF m rnd] by (rule moved_trans)
  have 3: "netMoves w w3" if "PutBlob (eT E) w2 q = (w3, y)" "uRewrap q" for q w3 y
    using that rewrapBlob_moved [OF m, of w2 q w3 y] 2 by (auto simp: PutBlob_def intro: moved_trans)
  show ?thesis
    using out 1 2 3 unfolding rewrapRow_def c
    by (auto simp: Let_def rnd split: sum.splits prod.splits)
qed

text \<open>A successful read shows the row as the control plane holds it at that moment.\<close>

definition gatewaysFail :: "event list \<Rightarrow> bool" where
  "gatewaysFail evs \<longleftrightarrow> (\<forall>ev\<in>set evs. \<forall>b resp. evFate ev = Lost b (Some resp) \<longrightarrow> 500 \<le> pStatus resp \<and> pStatus resp \<le> 599)"

lemma gatewaysFail_moved: "netMoves w w' \<Longrightarrow> gatewaysFail (nSched w) \<Longrightarrow> gatewaysFail (nSched w')"
  by (auto simp: netMoves_def gatewaysFail_def) (blast dest: in_set_dropD)+

lemma failures_moved: "netMoves w w' \<Longrightarrow> GetBlobFailures (nCP w) = [] \<Longrightarrow> GetBlobFailures (nCP w') = []"
  by (auto simp: netMoves_def serveAll_failures)

lemma serve_get:
  assumes "routeBlob (qPath r) = Some (scope, i)" "qMethod r = ''GET''" "GetBlobFailures st = []"
  shows "fst (serve t st r) = st" "map_of (Blobs st) (StubKey scope i) = None \<Longrightarrow> pStatus (snd (serve t st r)) = 404"
    "map_of (Blobs st) (StubKey scope i) = Some b \<Longrightarrow> pBody (snd (serve t st r)) = Octets (bBody b) \<and>
       pETag (snd (serve t st r)) = FormatETag (bETag b) \<and> pStatus (snd (serve t st r)) = 200"
  using assms
  by (auto simp: serve_def changeRoute_def otherRoute_def handleGetBlob_def Let_def handler_defs split: option.split)

text \<open>An answer to a read that is not a server error is the control plane's own.\<close>

abbreviation heldAt :: "net \<Rightarrow> string \<Rightarrow> string \<Rightarrow> Blob option" where
  "heldAt w scope i \<equiv> map_of (Blobs (nCP w)) (StubKey scope (if scope = ''profile'' then ''profile'' else i))"

lemma get_answer:
  assumes g: "gatewaysFail (nSched w)" and f: "GetBlobFailures (nCP w) = []" and i: "i \<noteq> []" and path: "PathFor scope i = Inr path"
    and d: "netDo w (newRequest ''GET'' path u) = (w', Inr (resp, False))" and ok: "pStatus resp < 500"
  shows "(heldAt w' scope i = None \<and> pStatus resp = 404) \<or> (\<exists>b. heldAt w' scope i = Some b \<and>
    pStatus resp = 200 \<and> pBody resp = Octets (bBody b) \<and> pETag resp = FormatETag (bETag b))"
proof -
  let ?r = "newRequest ''GET'' path u" and ?ev = "nextEvent w"
  let ?st = "serveAll (nCP w) (evBefore ?ev)"
  obtain unread where fate: "evFate ?ev = Delivered unread"
  proof (cases "evFate ?ev")
    case (Lost b x)
    then have "x = Some resp" using d by (cases x) (auto simp: netDo_def Let_def seen_def)
    then have "500 \<le> pStatus resp"
      using g Lost by (cases "nSched w") (auto simp: nextEvent_def quiet_def gatewaysFail_def)
    then show thesis using ok by simp
  qed (use that in blast)
  have rt: "routeBlob (qPath ?r) = Some (scope, if scope = ''profile'' then ''profile'' else i)" "qMethod ?r = ''GET''"
    using routeBlob_PathFor [OF path i] by (simp_all add: newRequest_def)
  have f': "GetBlobFailures ?st = []" using f by (rule serveAll_failures)
  note get = serve_get [OF rt f', where t = "evAt ?ev"]
  have resp: "resp = snd (serve (evAt ?ev) ?st ?r)" and cp: "nCP w' = ?st"
    using d fate get(1) by (auto simp: netDo_def Let_def seen_def arrivals_def serveAll_append)
  show ?thesis using get(2,3) resp cp by (cases "heldAt w' scope i") auto
qed

lemma GetBlob_reads:
  assumes m: "movesNet E" and g: "gatewaysFail (nSched w)" and f: "GetBlobFailures (nCP w) = []" and i: "i \<noteq> []"
    and out: "GetBlob (eT E) w scope i u = (w', Inr blob)"
  shows "\<exists>b. heldAt w' scope i = Some b \<and> gCiphertext blob = bBody b \<and> gETag blob = FormatETag (bETag b)"
proof -
  obtain path where path: "PathFor scope i = Inr path" using out by (cases "PathFor scope i") (auto simp: GetBlob_def)
  obtain resp where d: "netDo w (newRequest ''GET'' path u) = (w', Inr (resp, False))" and ok: "pStatus resp < 400"
      and blob: "gCiphertext blob = (case pBody resp of Octets x \<Rightarrow> x | JObj _ \<Rightarrow> [])" "gETag blob = pETag resp"
    using out path by (auto simp: GetBlob_def tDo_net [OF m] split: sum.splits prod.splits if_splits)
  show ?thesis using get_answer [OF g f i path d] ok blob by auto
qed

lemma parseError_status: "\<exists>c. parseError status b = ECP c \<and> StatusCode c = status"
  by (auto simp: parseError_def statusError_def split: body.split option.split)

lemma GetBlob_absent:
  assumes m: "movesNet E" and g: "gatewaysFail (nSched w)" and f: "GetBlobFailures (nCP w) = []" and i: "i \<noteq> []"
    and out: "GetBlob (eT E) w scope i u = (w', Inl err)" and err: "asCP err = Some c" "StatusCode c = 404"
  shows "heldAt w' scope i = None"
proof -
  have "asCP e = None" if "PathFor scope i = Inl e" for e
    using that by (auto simp: PathFor_def split: if_splits option.splits)
  then obtain path where path: "PathFor scope i = Inr path"
    using out err(1) by (cases "PathFor scope i") (auto simp: GetBlob_def)
  have lost: "asCP e = None" if "netDo w r = (w', Inl e)" for r e
    using that by (auto simp: netDo_def Let_def seen_def split: fate.splits option.splits)
  obtain resp where d: "netDo w (newRequest ''GET'' path u) = (w', Inr (resp, False))" and e: "err = parseError (pStatus resp) (pBody resp)"
    using out path err(1) lost by (auto simp: GetBlob_def tDo_net [OF m] split: sum.splits prod.splits if_splits)
  have "pStatus resp = 404" using parseError_status [of "pStatus resp" "pBody resp"] e err by auto
  then show ?thesis using get_answer [OF g f i path d] by auto
qed

lemma canRewrap_moved:
  assumes "movesNet E" "canRewrap E (w, probe) p kid = ((w', probe'), x)"
  shows "netMoves w w'"
proof (cases probe)
  case None
  obtain w1 r where k: "GetCurrentKey (eT E) w (pID p) = (w1, r)" by (cases "GetCurrentKey (eT E) w (pID p)")
  have "w' = w1" using assms(2) None k
    by (auto simp: canRewrap_def currentPrimaryKeyIs_def split: sum.splits option.splits)
  then show ?thesis using GetCurrentKey_moved [OF assms(1) k] by simp
next
  case (Some b)
  then show ?thesis using assms(2) by (simp add: canRewrap_def)
qed

lemma backfill_moved: "movesNet E \<Longrightarrow> netMoves w (backfillChatActivity E w p scope i blob etag d)"
  by (auto simp: backfillChatActivity_def Backfill_moved split: option.split)

text \<open>What a read of a row shows: at some moment the control plane held bytes that open to the
  row's data under the key, at the row's revision unless they were resealed.\<close>

definition shownAt :: "net env \<Rightarrow> Principal \<Rightarrow> bytes \<Rightarrow> string \<Rightarrow> StoredRow \<Rightarrow> net \<Rightarrow> bool" where
  "shownAt E p key scope row w \<longleftrightarrow> (\<exists>b legacy. map_of (Blobs (nCP w)) (StubKey scope (rowStubID scope row)) = Some b \<and>
     openRow E p \<lparr>kBytes = key, kKeyIDHex = keyID (eHkdf E) key\<rparr> scope (rID row) (bBody b) = Inr (rData row, legacy) \<and>
     (\<not> legacy \<longrightarrow> rETag row = FormatETag (bETag b)))"

lemma pullOne_reads:
  assumes m: "movesNet E" and g: "gatewaysFail (nSched w)" and f: "GetBlobFailures (nCP w) = []" and i: "i \<noteq> []"
    and out: "pullOne E (w, probe) p \<lparr>kBytes = key, kKeyIDHex = keyID (eHkdf E) key\<rparr> scope i = ((w', probe'), item)"
  shows "netMoves w w'"
    "plRow item = Some row \<Longrightarrow> rID row = i \<and> (\<exists>w1. netMoves w w1 \<and> netMoves w1 w' \<and> shownAt E p key scope row w1)"
proof -
  let ?k = "\<lparr>kBytes = key, kKeyIDHex = keyID (eHkdf E) key\<rparr>"
  obtain w1 r where get: "GetBlob (eT E) w scope i (pID p) = (w1, r)" by (cases "GetBlob (eT E) w scope i (pID p)")
  have 1: "netMoves w w1" by (rule GetBlob_moved [OF m get])
  have all: "netMoves w w' \<and> (plRow item = Some row \<longrightarrow>
      rID row = i \<and> (\<exists>w1. netMoves w w1 \<and> netMoves w1 w' \<and> shownAt E p key scope row w1))"
  proof (cases "\<exists>blob plaintext legacy. r = Inr blob \<and> openRow E p ?k scope i (gCiphertext blob) = Inr (plaintext, legacy) \<and> \<not> notObject E plaintext")
    case False
    have "w' = w1 \<and> plRow item = None"
    proof (cases r)
      case (Inl e)
      then show ?thesis using out get unfolding pullOne_def
        by (cases "asCP e") (auto simp: Let_def pulledErr_def)
    next
      case (Inr blob)
      show ?thesis
      proof (cases "openRow E p ?k scope i (gCiphertext blob)")
        case (Inl e)
        then show ?thesis using out get Inr unfolding pullOne_def by (auto simp: Let_def pulledErr_def)
      next
        case o: (Inr x)
        obtain plaintext legacy where x: "x = (plaintext, legacy)" by (cases x)
        then have "notObject E plaintext" using False Inr o by blast
        then have "pullOne E (w, probe) p ?k scope i = ((w1, probe), pulledErr (EApi errRowUnreadable))"
          using get Inr o x by (simp add: pullOne_def)
        then show ?thesis using out by (auto simp: pulledErr_def)
      qed
    qed
    then show ?thesis using 1 by simp
  next
    case True
    then obtain blob plaintext legacy where b: "r = Inr blob"
      "openRow E p ?k scope i (gCiphertext blob) = Inr (plaintext, legacy)" "\<not> notObject E plaintext" by blast
    obtain w2 probe2 can where c: "(if legacy then canRewrap E (w1, probe) p (kKeyIDHex ?k) else ((w1, probe), False)) = ((w2, probe2), can)"
      by (metis prod.exhaust)
    have 2: "netMoves w1 w2" using c canRewrap_moved [OF m] by (auto split: if_splits)
    let ?e = "if can then (case rewrapRow E w2 p scope i plaintext (gETag blob) ?k of
        (w, Inr etag) \<Rightarrow> (w, etag) | (w, Inl _) \<Rightarrow> (w, gETag blob)) else (w2, gETag blob)"
    obtain w3 etag where e: "?e = (w3, etag)" by (rule prod.exhaust [of ?e])
    have 3: "netMoves w2 w3" using e rewrapRow_moved [OF m] by (auto split: if_splits prod.splits sum.splits)
    have o: "w' = backfillChatActivity E w3 p scope i blob etag plaintext"
      "plRow item = Some \<lparr>rID = i, rETag = etag, rData = plaintext, rProject = gProjectID blob, rProjectSet = gProjectIDSet blob, rUpdatedAt = gUpdatedAt blob\<rparr>"
      using out get b c e unfolding pullOne_def by (auto simp: Let_def)
    have 4: "netMoves w1 w'" unfolding o(1) using 2 3 backfill_moved [OF m] moved_trans by blast
    obtain x where x: "map_of (Blobs (nCP w1)) (StubKey scope (if scope = ''profile'' then ''profile'' else i)) = Some x"
        "gCiphertext blob = bBody x" "gETag blob = FormatETag (bETag x)"
      using GetBlob_reads [OF m g f i, of scope "pID p" w1 blob] get b(1) by auto
    have "etag = gETag blob" if "\<not> legacy" using c e that by auto
    then have "shownAt E p key scope row w1" "rID row = i" if "plRow item = Some row"
      using that o(2) x b(2) by (auto simp: shownAt_def rowStubID_def)
    then show ?thesis using 1 4 moved_trans by blast
  qed
  show "netMoves w w'" using all by blast
  show "rID row = i \<and> (\<exists>w1. netMoves w w1 \<and> netMoves w1 w' \<and> shownAt E p key scope row w1)" if "plRow item = Some row"
    using all that by blast
qed

text \<open>Loading one row: one fetch, and a second when the first failed on the way.\<close>

definition readRow :: "net env \<Rightarrow> Principal \<Rightarrow> bytes \<Rightarrow> string \<Rightarrow> net \<Rightarrow> net \<Rightarrow> StoredRow \<Rightarrow> bool" where
  "readRow E p key scope w w' row \<longleftrightarrow> (\<exists>w1. netMoves w w1 \<and> netMoves w1 w' \<and> shownAt E p key scope row w1)"

lemma readRow_from: "netMoves w w1 \<Longrightarrow> readRow E p key scope w1 w' row \<Longrightarrow> readRow E p key scope w w' row"
  unfolding readRow_def using moved_trans by blast

lemma pullBatch_one:
  assumes m: "movesNet E" and g: "gatewaysFail (nSched w)" and f: "GetBlobFailures (nCP w) = []" and i: "i \<noteq> []"
    and out: "pullBatch E (w, probe) p \<lparr>kBytes = key, kKeyIDHex = keyID (eHkdf E) key\<rparr> scope [i] ([], []) = ((w', probe'), rows, failed)"
  shows "netMoves w w' \<and> (\<forall>row\<in>set rows. rID row = i \<and> readRow E p key scope w w' row)"
proof -
  let ?k = "\<lparr>kBytes = key, kKeyIDHex = keyID (eHkdf E) key\<rparr>"
  obtain w1 probe1 item1 where one: "pullOne E (w, probe) p ?k scope i = ((w1, probe1), item1)"
    by (metis prod.exhaust)
  note r1 = pullOne_reads [OF m g f i one]
  obtain w2 probe2 item2 where two: "pullOne E (w1, probe1) p ?k scope i = ((w2, probe2), item2)"
    by (metis prod.exhaust)
  note r2 = pullOne_reads [OF m gatewaysFail_moved [OF r1(1) g] failures_moved [OF r1(1) f] i two]
  show ?thesis
  proof (cases "plTransient item1")
    case False
    then have "w' = w1" "set rows \<subseteq> set_option (plRow item1)"
      using out one by (auto simp: pullBatch_def pullBatchOnce_def split: option.splits)
    then show ?thesis using r1 by (auto simp: readRow_def)
  next
    case True
    then have "w' = w2" "set rows \<subseteq> set_option (plRow item2)"
      using out one two by (auto simp: pullBatch_def pullBatchOnce_def split: option.splits if_splits)
    then show ?thesis using r1(1) r2 readRow_from [OF r1(1)] moved_trans [OF r1(1) r2(1)] by (auto simp: readRow_def)
  qed
qed

lemma Load_reads:
  assumes m: "movesNet E" and g: "gatewaysFail (nSched w)" and f: "GetBlobFailures (nCP w) = []" and i: "i \<noteq> []"
    and out: "Load E w p key scope i = (w', res)"
  shows "netMoves w w'" "res = Inr row \<Longrightarrow> rID row = i \<and> readRow E p key scope w w' row"
proof -
  let ?k = "\<lparr>kBytes = key, kKeyIDHex = keyID (eHkdf E) key\<rparr>"
  obtain w1 probe rows failed where b: "pullBatch E (w, None) p ?k scope [i] ([], []) = ((w1, probe), rows, failed)"
    by (metis prod.exhaust)
  note r = pullBatch_one [OF m g f i b]
  have all: "pullBatches E (w, None) p ?k scope [i] ([], []) = (w1, rows, failed)"
    using b by (simp add: pullBatches.simps PullBatch_def)
  have found: "row \<in> set rows" if "find (\<lambda>row. rID row = i) rows = Some row" for row
    using that by (auto simp: find_Some_iff)
  obtain w2 ans where pull: "Pull E w p key scope [i] = (w2, ans)" by (cases "Pull E w p key scope [i]")
  have "(w2 = w \<and> (\<exists>e. ans = Inl e)) \<or> (w2 = w1 \<and> ans = Inr (rows, failed))"
    using pull unfolding Pull_def all by (auto split: if_splits)
  then have "netMoves w w' \<and> (res = Inr row \<longrightarrow> w' = w1 \<and> row \<in> set rows)"
  proof (elim disjE conjE exE)
    fix e assume "w2 = w" "ans = Inl e"
    then show ?thesis using out pull by (auto simp: Load_def)
  next
    assume "w2 = w1" "ans = Inr (rows, failed)"
    then have "w' = w1" "res = Inr row \<Longrightarrow> find (\<lambda>row. rID row = i) rows = Some row"
      using out pull unfolding Load_def by (auto split: option.splits)
    then show ?thesis using r found by blast
  qed
  then show "netMoves w w'" "res = Inr row \<Longrightarrow> rID row = i \<and> readRow E p key scope w w' row" using r by auto
qed

section \<open>A pull accounts for every id\<close>

definition absentAt :: "string \<Rightarrow> net \<Rightarrow> net \<Rightarrow> string \<Rightarrow> bool" where
  "absentAt scope w w' i \<longleftrightarrow> (\<exists>w1. netMoves w w1 \<and> netMoves w1 w' \<and> heldAt w1 scope i = None)"

text \<open>A fetch opens the row, fails, or finds it absent, and only a failure is fetched again.\<close>

definition coherent :: "pulled \<Rightarrow> bool" where
  "coherent item \<longleftrightarrow> (plRow item \<noteq> None \<longrightarrow> plErr item = None) \<and> (plErr item = None \<longrightarrow> \<not> plTransient item)"

lemma pullOne_shape:
  assumes "pullOne E (w, probe) p k scope i = ((w', probe'), item)"
  shows "coherent item" "plRow item = None \<Longrightarrow> plErr item = None \<Longrightarrow>
    \<exists>err c. GetBlob (eT E) w scope i (pID p) = (w', Inl err) \<and> asCP err = Some c \<and> StatusCode c = 404"
proof -
  obtain w1 r where get: "GetBlob (eT E) w scope i (pID p) = (w1, r)" by (cases "GetBlob (eT E) w scope i (pID p)")
  have "coherent item \<and> (plRow item = None \<longrightarrow> plErr item = None \<longrightarrow>
    (\<exists>err c. r = Inl err \<and> w' = w1 \<and> asCP err = Some c \<and> StatusCode c = 404))"
  proof (cases r)
    case (Inl err)
    then show ?thesis using assms get unfolding pullOne_def
      by (cases "asCP err") (auto simp: pulledErr_def coherent_def split: if_splits)
  next
    case (Inr blob)
    show ?thesis
    proof (cases "openRow E p k scope i (gCiphertext blob)")
      case (Inl e)
      then show ?thesis using assms get Inr unfolding pullOne_def by (auto simp: pulledErr_def coherent_def)
    next
      case o: (Inr x)
      obtain plaintext legacy where x: "x = (plaintext, legacy)" by (cases x)
      have "(\<exists>e. item = pulledErr e) \<or> (plRow item \<noteq> None \<and> plErr item = None \<and> \<not> plTransient item)"
        using assms get Inr o x unfolding pullOne_def Let_def
        by (cases "notObject E plaintext") (auto split: prod.splits)
      then show ?thesis by (auto simp: pulledErr_def coherent_def)
    qed
  qed
  then show "coherent item" "plRow item = None \<Longrightarrow> plErr item = None \<Longrightarrow>
    \<exists>err c. GetBlob (eT E) w scope i (pID p) = (w', Inl err) \<and> asCP err = Some c \<and> StatusCode c = 404"
    using get by auto
qed

definition fetched :: "net env \<Rightarrow> Principal \<Rightarrow> bytes \<Rightarrow> string \<Rightarrow> net \<Rightarrow> net \<Rightarrow> string \<times> pulled \<Rightarrow> bool" where
  "fetched E p key scope w w' x \<longleftrightarrow> coherent (snd x) \<and>
     (\<forall>row. plRow (snd x) = Some row \<longrightarrow> rID row = fst x \<and> readRow E p key scope w w' row) \<and>
     (plRow (snd x) = None \<and> plErr (snd x) = None \<longrightarrow> absentAt scope w w' (fst x))"

lemma readRow_wider: "netMoves a w \<Longrightarrow> netMoves w' b \<Longrightarrow> readRow E p key scope w w' row \<Longrightarrow> readRow E p key scope a b row"
  unfolding readRow_def using moved_trans by blast

lemma absentAt_wider: "netMoves a w \<Longrightarrow> netMoves w' b \<Longrightarrow> absentAt scope w w' i \<Longrightarrow> absentAt scope a b i"
  unfolding absentAt_def using moved_trans by blast

lemma fetched_wider: "netMoves a w \<Longrightarrow> netMoves w' b \<Longrightarrow> fetched E p key scope w w' x \<Longrightarrow> fetched E p key scope a b x"
  unfolding fetched_def using readRow_wider absentAt_wider by blast

abbreviation opener :: "net env \<Rightarrow> bytes \<Rightarrow> Key" where
  "opener E key \<equiv> \<lparr>kBytes = key, kKeyIDHex = keyID (eHkdf E) key\<rparr>"

lemma pullOne_fetched:
  assumes "movesNet E" "gatewaysFail (nSched w)" "GetBlobFailures (nCP w) = []" "i \<noteq> []"
    "pullOne E (w, probe) p (opener E key) scope i = ((w', probe'), item)"
  shows "netMoves w w' \<and> fetched E p key scope w w' (i, item)"
proof -
  note r = pullOne_reads [OF assms] and s = pullOne_shape [OF assms(5)]
  have "absentAt scope w w' i" if "plRow item = None" "plErr item = None"
    using GetBlob_absent [OF assms(1-4)] s(2) [OF that] r(1) moved_refl [of w'] unfolding absentAt_def by blast
  then show ?thesis using r s(1) unfolding fetched_def readRow_def by auto
qed

lemma pullEach_fetched:
  assumes m: "movesNet E" and "gatewaysFail (nSched w)" "GetBlobFailures (nCP w) = []" "[] \<notin> set ids"
    "pullEach E (w, probe) p (opener E key) scope ids = ((w', probe'), items)"
  shows "netMoves w w' \<and> map fst items = ids \<and> (\<forall>x\<in>set items. fetched E p key scope w w' x)"
  using assms(2-)
proof (induction ids arbitrary: w probe items)
  case (Cons i ids)
  obtain w1 probe1 item where one: "pullOne E (w, probe) p (opener E key) scope i = ((w1, probe1), item)" by (metis prod.exhaust)
  obtain rest where each: "pullEach E (w1, probe1) p (opener E key) scope ids = ((w', probe'), rest)" and o: "items = (i, item) # rest"
    using Cons.prems(4) one by (auto split: prod.splits)
  have i: "i \<noteq> []" "[] \<notin> set ids" using Cons.prems(3) by auto
  note f = pullOne_fetched [OF m Cons.prems(1,2) i(1) one]
  have w1: "netMoves w w1" using f by simp
  note r = Cons.IH [OF gatewaysFail_moved [OF w1 Cons.prems(1)] failures_moved [OF w1 Cons.prems(2)] i(2) each]
  have w2: "netMoves w1 w'" using r by simp
  have "fetched E p key scope w w' (i, item)" using fetched_wider [OF moved_refl w2] f by blast
  moreover have "\<forall>x\<in>set rest. fetched E p key scope w w' x" using fetched_wider [OF w1 moved_refl] r by blast
  ultimately show ?case using o r moved_trans [OF w1 w2] by auto
qed simp

lemma remdupsFirst_facts: "set (remdupsFirst ids) = set ids" "distinct (remdupsFirst ids)"
  by (induction ids) auto

lemma settle_parts:
  assumes "\<forall>x\<in>set items. coherent (snd x)" "settle retry items (rows, failed) = (again, rows', failed')"
  shows "again = (if retry then map fst (filter (plTransient \<circ> snd) items) else []) \<and>
    rows' = rows @ List.map_filter (plRow \<circ> snd) items \<and>
    fst ` set failed' = fst ` set failed \<union> fst ` {x\<in>set items. plErr (snd x) \<noteq> None \<and> (plTransient (snd x) \<longrightarrow> \<not> retry)}"
  using assms
proof (induction items arbitrary: rows failed again rows' failed')
  case (Cons x items)
  obtain i item where x: "x = (i, item)" by (cases x)
  have c: "coherent item" "\<forall>x\<in>set items. coherent (snd x)" using Cons.prems(1) x by auto
  note IH = Cons.IH [OF c(2)] and out = Cons.prems(2)
  let ?bad = "\<lambda>items. {x\<in>set items. plErr (snd x) \<noteq> None \<and> (plTransient (snd x) \<longrightarrow> \<not> retry)}"
  have worse: "?bad (x # items) = (if plErr item \<noteq> None \<and> (plTransient item \<longrightarrow> \<not> retry) then insert x (?bad items) else ?bad items)"
    by (auto simp: x)
  consider (retry) "plTransient item" "retry" "plErr item \<noteq> None" "plRow item = None"
    | (failed) e where "plTransient item \<longrightarrow> \<not> retry" "plErr item = Some e" "plRow item = None"
    | (row) row where "\<not> plTransient item" "plErr item = None" "plRow item = Some row"
    | (absent) "\<not> plTransient item" "plErr item = None" "plRow item = None"
    using c(1) unfolding coherent_def by blast
  then show ?case
  proof cases
    case retry
    obtain more acc where s: "settle retry items (rows, failed) = (more, rows', failed')" "again = i # more"
      using out retry x by (auto split: prod.splits)
    then show ?thesis using IH [OF s(1)] retry unfolding worse by (simp add: x map_filter_simps)
  next
    case failed
    obtain e' where s: "settle retry items (rows, AList.update i e' failed) = (again, rows', failed')"
      using out failed x by (auto split: if_splits)
    then show ?thesis using IH [OF s] failed unfolding worse by (auto simp: x map_filter_simps dom_update)
  next
    case row
    then have s: "settle retry items (rows @ [row], failed) = (again, rows', failed')" using out x by simp
    then show ?thesis using IH [OF s] row unfolding worse by (simp add: x map_filter_simps)
  next
    case absent
    then have s: "settle retry items (rows, failed) = (again, rows', failed')" using out x by simp
    then show ?thesis using IH [OF s] absent unfolding worse by (simp add: x map_filter_simps)
  qed
qed (simp add: map_filter_simps)

text \<open>The report on some ids: each is opened, failed, left to fetch again, or was absent.\<close>

definition accounted :: "net env \<Rightarrow> Principal \<Rightarrow> bytes \<Rightarrow> string \<Rightarrow> net \<Rightarrow> net \<Rightarrow> string set \<Rightarrow> StoredRow list \<Rightarrow> string set \<Rightarrow> string set \<Rightarrow> bool" where
  "accounted E p key scope w w' ids rows failed again \<longleftrightarrow>
     (\<forall>row\<in>set rows. rID row \<in> ids \<and> readRow E p key scope w w' row) \<and> failed \<subseteq> ids \<and> again \<subseteq> ids \<and>
     (\<forall>i\<in>ids. i \<in> rID ` set rows \<or> i \<in> failed \<or> i \<in> again \<or> absentAt scope w w' i)"

definition apart :: "StoredRow list \<Rightarrow> string set \<Rightarrow> string set \<Rightarrow> bool" where
  "apart rows failed again \<longleftrightarrow> distinct (map rID rows) \<and> rID ` set rows \<inter> failed = {} \<and> rID ` set rows \<inter> again = {} \<and> failed \<inter> again = {}"

lemma accounted_wider:
  "netMoves a w \<Longrightarrow> netMoves w' b \<Longrightarrow> accounted E p key scope w w' ids rows failed again \<Longrightarrow> accounted E p key scope a b ids rows failed again"
  unfolding accounted_def using readRow_wider absentAt_wider by blast

lemma items_accounted:
  fixes retry :: bool
  assumes "\<forall>x\<in>set items. fetched E p key scope w w' x" "distinct (map fst items)"
  defines "rows \<equiv> List.map_filter (plRow \<circ> snd) items"
    and "failed \<equiv> fst ` {x\<in>set items. plErr (snd x) \<noteq> None \<and> (plTransient (snd x) \<longrightarrow> \<not> retry)}"
    and "again \<equiv> (if retry then map fst (filter (plTransient \<circ> snd) items) else [])"
  shows "accounted E p key scope w w' (fst ` set items) rows failed (set again) \<and> apart rows failed (set again) \<and> distinct again"
proof -
  have inj: "fst x = fst y \<Longrightarrow> x = y" if "x \<in> set items" "y \<in> set items" for x y
    using assms(2) that by (auto simp: distinct_map dest: inj_onD)
  have ids: "map rID rows = map fst (filter (\<lambda>x. plRow (snd x) \<noteq> None) items)"
    using assms(1) unfolding rows_def by (induction items) (auto simp: map_filter_simps fetched_def split: option.splits)
  have set: "set rows = {row. \<exists>x\<in>set items. plRow (snd x) = Some row}"
    unfolding rows_def by (induction items) (auto simp: map_filter_simps split: option.splits)
  have rids: "rID ` set rows = fst ` {x\<in>set items. plRow (snd x) \<noteq> None}"
    using arg_cong [OF ids, of set] by simp
  have co: "coherent (snd x)" if "x \<in> set items" for x using assms(1) that by (simp add: fetched_def)
  have "accounted E p key scope w w' (fst ` set items) rows failed (set again)"
    unfolding accounted_def
  proof (intro conjI ballI)
    fix row assume "row \<in> set rows"
    then show "rID row \<in> fst ` set items" "readRow E p key scope w w' row" using set assms(1) by (auto simp: fetched_def)
  next
    fix i assume "i \<in> fst ` set items"
    then obtain x where x: "x \<in> set items" "i = fst x" by auto
    then show "i \<in> rID ` set rows \<or> i \<in> failed \<or> i \<in> set again \<or> absentAt scope w w' i"
      using assms(1) unfolding rids failed_def again_def fetched_def by (cases "plRow (snd x)"; cases "plErr (snd x)"; cases retry) auto
  qed (auto simp: failed_def again_def)
  moreover have "apart rows failed (set again)"
  proof -
    have dis: "fst ` {x\<in>set items. P x} \<inter> fst ` {x\<in>set items. Q x} = {}" if "\<And>x. x \<in> set items \<Longrightarrow> P x \<Longrightarrow> Q x \<Longrightarrow> False" for P Q
      using inj that by fast
    have ag: "set again = fst ` {x\<in>set items. retry \<and> plTransient (snd x)}" by (auto simp: again_def)
    show ?thesis unfolding apart_def rids failed_def ag
      using co by (intro conjI dis) (auto simp: ids assms(2) distinct_map_filter coherent_def)
  qed
  moreover have "distinct again" using assms(2) by (simp add: again_def distinct_map_filter)
  ultimately show ?thesis by blast
qed

lemma batchOnce_accounted:
  assumes m: "movesNet E" "gatewaysFail (nSched w)" "GetBlobFailures (nCP w) = []" "[] \<notin> set ids"
    and out: "pullBatchOnce E (w, probe) p (opener E key) scope ids retry (rows, failed) = ((w', probe'), again, rows', failed')"
  shows "netMoves w w' \<and> (\<exists>new lost. rows' = rows @ new \<and> fst ` set failed' = fst ` set failed \<union> lost \<and>
    accounted E p key scope w w' (set ids) new lost (set again) \<and> apart new lost (set again) \<and> (\<not> retry \<longrightarrow> again = []))"
proof -
  obtain items where each: "pullEach E (w, probe) p (opener E key) scope (remdupsFirst ids) = ((w', probe'), items)"
      and st: "settle retry items (rows, failed) = (again, rows', failed')"
    using out by (auto simp: pullBatchOnce_def split: prod.splits)
  have "[] \<notin> set (remdupsFirst ids)" using m(4) by (simp add: remdupsFirst_facts)
  note f = pullEach_fetched [OF m(1-3) this each]
  have co: "\<forall>x\<in>set items. coherent (snd x)" using f by (auto simp: fetched_def)
  have fst: "fst ` set items = set ids" "distinct (map fst items)"
    using f remdupsFirst_facts [of ids] by (metis list.set_map) (use f remdupsFirst_facts in simp)
  show ?thesis
    using f settle_parts [OF co st] items_accounted [of items E p key scope w w' retry, unfolded fst(1)] fst(2) by auto
qed

lemma accounted_join:
  assumes "accounted E p key scope w w' ids new lost again" "accounted E p key scope w w' again new2 lost2 {}"
  shows "accounted E p key scope w w' ids (new @ new2) (lost \<union> lost2) {}"
  using assms unfolding accounted_def by (auto simp: image_Un)

lemma apart_join:
  assumes "apart new lost again" "apart new2 lost2 {}" "rID ` set new2 \<subseteq> again" "lost2 \<subseteq> again"
  shows "apart (new @ new2) (lost \<union> lost2) {}"
  using assms unfolding apart_def by auto blast+

lemma batch_accounted:
  assumes m: "movesNet E" "gatewaysFail (nSched w)" "GetBlobFailures (nCP w) = []" "[] \<notin> set ids"
    and out: "pullBatch E (w, probe) p (opener E key) scope ids (rows, failed) = ((w', probe'), rows', failed')"
  shows "netMoves w w' \<and> (\<exists>new lost. rows' = rows @ new \<and> fst ` set failed' = fst ` set failed \<union> lost \<and>
    accounted E p key scope w w' (set ids) new lost {} \<and> apart new lost {})"
proof -
  obtain w1 probe1 again rows1 failed1 where
    first: "pullBatchOnce E (w, probe) p (opener E key) scope ids True (rows, failed) = ((w1, probe1), again, rows1, failed1)"
    by (metis prod.exhaust)
  obtain new lost where a: "netMoves w w1" "rows1 = rows @ new" "fst ` set failed1 = fst ` set failed \<union> lost"
      "accounted E p key scope w w1 (set ids) new lost (set again)" "apart new lost (set again)"
    using batchOnce_accounted [OF m first] by blast
  show ?thesis
  proof (cases "again = []")
    case True
    then show ?thesis using out first a by (auto simp: pullBatch_def)
  next
    case False
    obtain w2 probe2 none rows2 failed2 where
      second: "pullBatchOnce E (w1, probe1) p (opener E key) scope again False (rows1, failed1) = ((w2, probe2), none, rows2, failed2)"
      by (metis prod.exhaust)
    have o: "w' = w2" "rows' = rows2" "failed' = failed2" using out first second False by (auto simp: pullBatch_def)
    have "[] \<notin> set again" using a(4) m(4) by (auto simp: accounted_def)
    then obtain new2 lost2 where b: "netMoves w1 w2" "rows2 = rows1 @ new2" "fst ` set failed2 = fst ` set failed1 \<union> lost2"
        "accounted E p key scope w1 w2 (set again) new2 lost2 {}" "apart new2 lost2 {}"
      using batchOnce_accounted [OF m(1) gatewaysFail_moved [OF a(1) m(2)] failures_moved [OF a(1) m(3)] _ second] by auto
    have "accounted E p key scope w w2 (set ids) (new @ new2) (lost \<union> lost2) {}"
      using accounted_wider [OF moved_refl b(1) a(4)] accounted_wider [OF a(1) moved_refl b(4)] by (rule accounted_join)
    moreover have "apart (new @ new2) (lost \<union> lost2) {}"
      using apart_join [OF a(5) b(5)] b(4) by (auto simp: accounted_def)
    ultimately show ?thesis using o a b moved_trans [OF a(1) b(1)] by (auto simp: Un_assoc)
  qed
qed

lemma accounted_union:
  assumes "accounted E p key scope w w' ids new lost {}" "accounted E p key scope w w' ids2 new2 lost2 {}"
  shows "accounted E p key scope w w' (ids \<union> ids2) (new @ new2) (lost \<union> lost2) {}"
  using assms unfolding accounted_def by (auto simp: image_Un)

lemma batches_accounted:
  assumes m: "movesNet E" and "gatewaysFail (nSched w)" "GetBlobFailures (nCP w) = []" "[] \<notin> set ids"
    and "pullBatches E (w, probe) p (opener E key) scope ids (rows, failed) = (w', rows', failed')"
  shows "netMoves w w' \<and> (\<exists>new lost. rows' = rows @ new \<and> fst ` set failed' = fst ` set failed \<union> lost \<and>
    accounted E p key scope w w' (set ids) new lost {} \<and> (length ids \<le> PullBatch \<longrightarrow> apart new lost {}))"
  using assms(2-)
proof (induction "length ids" arbitrary: ids w probe rows failed rule: less_induct)
  case less
  show ?case
  proof (cases "ids = []")
    case True
    then show ?thesis using less.prems(4) by (auto simp: pullBatches.simps accounted_def apart_def intro: exI [of _ "[]"] exI [of _ "{}"])
  next
    case False
    let ?front = "take PullBatch ids" and ?others = "drop PullBatch ids"
    obtain w1 probe1 rows1 failed1 where
      first: "pullBatch E (w, probe) p (opener E key) scope ?front (rows, failed) = ((w1, probe1), rows1, failed1)" by (metis prod.exhaust)
    have rest: "pullBatches E (w1, probe1) p (opener E key) scope ?others (rows1, failed1) = (w', rows', failed')"
      using less.prems(4) False first by (simp add: pullBatches.simps [of E "(w, probe)"])
    have ok: "[] \<notin> set ?front" "[] \<notin> set ?others" using less.prems(3) by (meson in_set_takeD in_set_dropD)+
    obtain new lost where a: "netMoves w w1" "rows1 = rows @ new" "fst ` set failed1 = fst ` set failed \<union> lost"
        "accounted E p key scope w w1 (set ?front) new lost {}" "apart new lost {}"
      using batch_accounted [OF m less.prems(1,2) ok(1) first] by blast
    have "length ?others < length ids" using False by (simp add: PullBatch_def)
    then obtain new2 lost2 where b: "netMoves w1 w'" "rows' = rows1 @ new2" "fst ` set failed' = fst ` set failed1 \<union> lost2"
        "accounted E p key scope w1 w' (set ?others) new2 lost2 {}"
      using less.hyps [OF _ gatewaysFail_moved [OF a(1) less.prems(1)] failures_moved [OF a(1) less.prems(2)] ok(2) rest] by blast
    have "set ids = set ?front \<union> set ?others" by (metis append_take_drop_id set_append)
    then have acc: "accounted E p key scope w w' (set ids) (new @ new2) (lost \<union> lost2) {}"
      using accounted_union [OF accounted_wider [OF moved_refl b(1) a(4)] accounted_wider [OF a(1) moved_refl b(4)]] by simp
    have "apart (new @ new2) (lost \<union> lost2) {}" if "length ids \<le> PullBatch"
      using that a(5) b(4) by (cases new2) (auto simp: accounted_def)
    then show ?thesis using acc a b moved_trans [OF a(1) b(1)] by (auto simp: Un_assoc)
  qed
qed

text \<open>C13: a pull of rows over any network reports on every id asked for.  A row it returns was
  asked for and holds what the control plane held at a moment of the pull, opened under the caller's
  key; an id is otherwise named among the failures, or the control plane held no such row at a
  moment of the pull, so an unreadable or unreachable row is never taken for an absent one.
  Within one batch no id is returned twice, nor both as a row and as a failure.\<close>

theorem pull_accounts_for_every_id:
  assumes "movesNet E" "gatewaysFail (nSched w)" "GetBlobFailures (nCP w) = []" "[] \<notin> set ids"
    "Pull E w p key scope ids = (w', Inr (rows, failed))"
  shows "(\<forall>row\<in>set rows. rID row \<in> set ids \<and> readRow E p key scope w w' row) \<and> fst ` set failed \<subseteq> set ids \<and>
    (\<forall>i\<in>set ids. i \<in> rID ` set rows \<or> i \<in> fst ` set failed \<or> absentAt scope w w' i) \<and>
    (length ids \<le> PullBatch \<longrightarrow> distinct (map rID rows) \<and> rID ` set rows \<inter> fst ` set failed = {})"
proof (cases "ids = []")
  case True
  then show ?thesis using assms(5) by (simp add: Pull_def)
next
  case False
  then have "pullBatches E (w, None) p (opener E key) scope ids ([], []) = (w', rows, failed)"
    using assms(5) by (auto simp: Pull_def split: if_splits prod.splits)
  from batches_accounted [OF assms(1-4) this] show ?thesis unfolding accounted_def apart_def by auto
qed

lemma movesNetX: "movesNet envX"
  using overNetX by (simp add: movesNet_def) (simp add: envX_def)

theorem pull_accounts_for_every_id_witness:
  "\<exists>w' rows failed. Pull envX netX userX (replicate 32 (CHR ''k'')) ''chat'' [''c'', ''d''] = (w', Inr (rows, failed)) \<and>
     distinct (map rID rows) \<and> fst ` set failed \<subseteq> {''c'', ''d''} \<and>
     (''d'' \<in> rID ` set rows \<or> ''d'' \<in> fst ` set failed \<or> absentAt ''chat'' netX w' ''d'')"
proof -
  let ?ids = "[''c'', ''d'']"
  obtain w' rows failed where p: "Pull envX netX userX (replicate 32 (CHR ''k'')) ''chat'' ?ids = (w', Inr (rows, failed))"
    by (cases "pullBatches envX (netX, None) userX (opener envX (replicate 32 (CHR ''k''))) ''chat'' ?ids ([], [])")
      (simp add: Pull_def userX_def scopeValid_def ScopeChat_def)
  have "gatewaysFail (nSched netX)" "GetBlobFailures (nCP netX) = []" "[] \<notin> set ?ids" "length ?ids \<le> PullBatch"
    by (auto simp: gatewaysFail_def netX_def NewStub_def PullBatch_def)
  with pull_accounts_for_every_id [OF movesNetX _ _ _ p] p show ?thesis by auto
qed

end
