(* ===== verification/Store_Commit.thy ===== *)
theory Store_Commit
  imports Row_Reads
begin

text \<open>A change to a stored row, \<^verbatim>\<open>Store.CommitRow\<close> of \<^verbatim>\<open>internal/store/store.go\<close>: read, edit and push,
  again after a conflict.  Over the network and the control plane, a commit that returns
  applied its edit once, to the row as it was when the write was made.\<close>

section \<open>Committing an edit\<close>

definition errEveryCommitConflicted :: goError where
  "errEveryCommitConflicted = EApi (Err 409 ''REVISION_CONFLICT'' ''The row changed during every commit attempt'')"

definition newRow :: "string \<Rightarrow> StoredRow" where
  "newRow i = \<lparr>rID = i, rETag = [], rData = [], rProject = None, rProjectSet = False, rUpdatedAt = None\<rparr>"

definition errorOf :: "'w env \<Rightarrow> goError \<Rightarrow> Error" where
  "errorOf E e = AsError (unObject (eJSON E)) e"

fun commitLoop :: "'w env \<Rightarrow> nat \<Rightarrow> 'w \<Rightarrow> Principal \<Rightarrow> bytes \<Rightarrow> string \<Rightarrow> string \<Rightarrow> bool \<Rightarrow>
    ('w \<Rightarrow> StoredRow \<Rightarrow> bool \<Rightarrow> goError + StoredRow) \<Rightarrow> 'w \<times> goError option" where
  "commitLoop E 0 w p key scope i create edit = (w, Some errEveryCommitConflicted)"
| "commitLoop E (Suc n) w p key scope i create edit =
    (case Load E w p key scope i of (w, loaded) \<Rightarrow>
       case (case loaded of Inr row \<Rightarrow> Inr (row, True)
             | Inl e \<Rightarrow> if \<not> create \<or> eHTTP (errorOf E e) \<noteq> 404 then Inl e else Inr (newRow i, False)) of
         Inl e \<Rightarrow> (w, Some e)
       | Inr (row, exists) \<Rightarrow>
         (case edit w row exists of Inl e \<Rightarrow> (w, Some e)
          | Inr row \<Rightarrow>
            (case StorePush E w p key scope row of
               (w, Inr _) \<Rightarrow> (w, None)
             | (w, Inl e) \<Rightarrow> if eCode (errorOf E e) \<noteq> ''REVISION_CONFLICT'' then (w, Some e)
                             else commitLoop E n w p key scope i create edit)))"

definition CommitRow :: "'w env \<Rightarrow> 'w \<Rightarrow> Principal \<Rightarrow> bytes \<Rightarrow> string \<Rightarrow> string \<Rightarrow> bool \<Rightarrow>
    ('w \<Rightarrow> StoredRow \<Rightarrow> bool \<Rightarrow> goError + StoredRow) \<Rightarrow> 'w \<times> goError option" where
  "CommitRow E w p key scope i create edit = commitLoop E MaxCommitAttempts w p key scope i create edit"

section \<open>What a commit does\<close>

lemma inv_arrivals: "inv E p key scope row nonce w w' \<Longrightarrow> \<exists>new. nArrived w' = nArrived w @ new \<and> nCP w' = serveAll (nCP w) new"
  by (auto simp: inv_def)

text \<open>A uuid is new: no request has been answered under it, and none that others send carries it.\<close>

definition freshUUIDs :: "net env \<Rightarrow> Principal \<Rightarrow> bool" where
  "freshUUIDs E p \<longleftrightarrow> (\<forall>w. keptAnswer p (snd (eUUID E w)) w = None \<and>
     (\<forall>ev\<in>set (nSched w). \<forall>(t, r)\<in>set (evBefore ev). idemKey r \<noteq> pushKey p (snd (eUUID E w))))"

lemma fresh_clean:
  "freshUUIDs E p \<Longrightarrow> gatewaysFail (nSched w) \<Longrightarrow> cleanSched (pushKey p (snd (eUUID E w))) (nSched w)"
  unfolding freshUUIDs_def gatewaysFail_def cleanSched_def by blast

lemma clean_gateways: "cleanSched k evs \<Longrightarrow> gatewaysFail evs"
  unfolding gatewaysFail_def cleanSched_def by blast

text \<open>The writes of a commit: how often each of its pushes is made.\<close>

definition pushMade :: "net env \<Rightarrow> Principal \<Rightarrow> net \<Rightarrow> net \<Rightarrow> nat" where
  "pushMade E p w w' = made (nCP w) (pushKey p (snd (eUUID E w))) (drop (length (nArrived w)) (nArrived w'))"

fun commitMade :: "net env \<Rightarrow> nat \<Rightarrow> net \<Rightarrow> Principal \<Rightarrow> bytes \<Rightarrow> string \<Rightarrow> string \<Rightarrow> bool \<Rightarrow>
    (net \<Rightarrow> StoredRow \<Rightarrow> bool \<Rightarrow> goError + StoredRow) \<Rightarrow> nat" where
  "commitMade E 0 w p key scope i create edit = 0"
| "commitMade E (Suc n) w p key scope i create edit =
    (case Load E w p key scope i of (w, loaded) \<Rightarrow>
       case (case loaded of Inr row \<Rightarrow> Inr (row, True)
             | Inl e \<Rightarrow> if \<not> create \<or> eHTTP (errorOf E e) \<noteq> 404 then Inl e else Inr (newRow i, False)) of
         Inl e \<Rightarrow> 0
       | Inr (row, exists) \<Rightarrow>
         (case edit w row exists of Inl e \<Rightarrow> 0
          | Inr row \<Rightarrow>
            (case StorePush E w p key scope row of
               (w', Inr _) \<Rightarrow> pushMade E p w w'
             | (w', Inl e) \<Rightarrow> pushMade E p w w' + (if eCode (errorOf E e) \<noteq> ''REVISION_CONFLICT'' then 0
                              else commitMade E n w' p key scope i create edit))))"

text \<open>One moment after another, by what reached the control plane.\<close>

definition later :: "net \<Rightarrow> net \<Rightarrow> bool" where
  "later w w' \<longleftrightarrow> (\<exists>new. nArrived w' = nArrived w @ new \<and> nCP w' = serveAll (nCP w) new)"

lemma later_moved: "netMoves w w' \<Longrightarrow> later w w'"
  by (auto simp: netMoves_def later_def)

lemma later_trans: "later a b \<Longrightarrow> later b c \<Longrightarrow> later a c"
  unfolding later_def by (metis append.assoc serveAll_append)

text \<open>The edit was given what the control plane held at one moment of the commit, opened.  If it keeps the
  row's id and revision and nothing is removed meanwhile, its result is written over that
  very content; bytes in a legacy format are resealed in between.\<close>

definition overContent :: "net env \<Rightarrow> Principal \<Rightarrow> bytes \<Rightarrow> string \<Rightarrow> net \<Rightarrow> StoredRow \<Rightarrow> StoredRow \<Rightarrow> net \<Rightarrow> (int \<times> httpRequest) list \<Rightarrow> bool" where
  "overContent E p key scope w0 row row' w pre \<longleftrightarrow> (\<exists>w1 b legacy. later w0 w1 \<and> later w1 w \<and>
     map_of (Blobs (nCP w1)) (StubKey scope (rowStubID scope row)) = Some b \<and>
     openRow E p \<lparr>kBytes = key, kKeyIDHex = keyID (eHkdf E) key\<rparr> scope (rID row) (bBody b) = Inr (rData row, legacy) \<and>
     (\<not> legacy \<and> rID row' = rID row \<and> rETag row' = rETag row \<and> list_all (\<lambda>(t, r). \<not> mayRemove r) (nArrived w @ pre) \<longrightarrow>
       (\<exists>b'. map_of (Blobs (serveAll (nCP w) pre)) (StubKey scope (rowStubID scope row)) = Some b' \<and> sameContent b b')))"

definition applied :: "net env \<Rightarrow> Principal \<Rightarrow> bytes \<Rightarrow> string \<Rightarrow> string \<Rightarrow> bool \<Rightarrow>
    (net \<Rightarrow> StoredRow \<Rightarrow> bool \<Rightarrow> goError + StoredRow) \<Rightarrow> net \<Rightarrow> net \<Rightarrow> bool" where
  "applied E p key scope i create edit w0 w' \<longleftrightarrow> (\<exists>w row exists row' new pre t r etag. later w0 w \<and>
     edit w row exists = Inr row' \<and> nArrived w' = nArrived w @ new \<and> nCP w' = serveAll (nCP w) new \<and>
     madeAt E p key scope row' (snd (eUUID E w)) (nCP w) new pre t r etag \<and>
     (if exists then rID row = i \<and> overContent E p key scope w0 row row' w pre else create \<and> row = newRow i))"

lemma applied_later:
  assumes "later w w0" "applied E p key scope i create edit w0 w'"
  shows "applied E p key scope i create edit w w'"
proof -
  have "overContent E p key scope w row row' w2 pre" if "overContent E p key scope w0 row row' w2 pre" for row row' w2 pre
    using that later_trans [OF assms(1)] unfolding overContent_def by blast
  then show ?thesis using assms(2) later_trans [OF assms(1)] unfolding applied_def by (metis (full_types))
qed

lemma made_over_read:
  assumes r: "readRow E p key scope w0 w row" and m: "madeAt E p key scope row' n (nCP w) new pre t q etag"
  shows "overContent E p key scope w0 row row' w pre"
proof -
  let ?k = "StubKey scope (rowStubID scope row)" and ?st = "serveAll (nCP w) pre"
  obtain w1 b legacy where x: "netMoves w0 w1" "netMoves w1 w" "map_of (Blobs (nCP w1)) ?k = Some b"
      "openRow E p \<lparr>kBytes = key, kKeyIDHex = keyID (eHkdf E) key\<rparr> scope (rID row) (bBody b) = Inr (rData row, legacy)"
      "\<not> legacy \<longrightarrow> rETag row = FormatETag (bETag b)"
    using r by (auto simp: readRow_def shownAt_def)
  obtain between where w: "nArrived w = nArrived w1 @ between" "nCP w = serveAll (nCP w1) between"
    using later_moved [OF x(2)] by (auto simp: later_def)
  have "\<exists>b'. map_of (Blobs ?st) ?k = Some b' \<and> sameContent b b'"
    if "\<not> legacy" "rID row' = rID row" "rETag row' = rETag row" "list_all (\<lambda>(t, r). \<not> mayRemove r) (nArrived w @ pre)"
  proof -
    have k: "rowStubID scope row' = rowStubID scope row" using that(2) by (simp add: rowStubID_def)
    have st: "?st = serveAll (nCP w1) (between @ pre)" using w(2) by (simp add: serveAll_append)
    have "FormatETag (bETag b) = FormatETag (revisionOf ?st scope (rowStubID scope row))"
      using m x(5) that(1,3) FormatETag_facts(2) k by (simp add: madeAt_def ifMatchOf_def)
    then have e: "revisionOf ?st scope (rowStubID scope row) = bETag b" by (auto simp: FormatETag_def dest: fmtInt_inj)
    have "moves (Some b) (map_of (Blobs ?st) ?k)"
      using serveAll_moves [of "between @ pre" "nCP w1" ?k] that(4) w(1) x(3) st by simp
    then show ?thesis using e by (auto simp: moves_def revisionOf_def split: option.splits)
  qed
  then show ?thesis using x later_moved unfolding overContent_def by blast
qed

lemma StorePush_made:
  assumes o: "movesNet E" and u: "freshUUIDs E p" and g: "gatewaysFail (nSched w)" and out: "StorePush E w p key scope row = (w', res)"
  shows "pushMade E p w w' = (if keptAnswer p (snd (eUUID E w)) w' = None then 0 else 1)" "gatewaysFail (nSched w')"
    "GetBlobFailures (nCP w) = [] \<Longrightarrow> GetBlobFailures (nCP w') = []" "later w w'"
    "res = Inr row' \<Longrightarrow> \<exists>new pre t r etag. nArrived w' = nArrived w @ new \<and> nCP w' = serveAll (nCP w) new \<and>
       madeAt E p key scope row (snd (eUUID E w)) (nCP w) new pre t r etag"
    "res = Inr row' \<Longrightarrow> keptAnswer p (snd (eUUID E w)) w' \<noteq> None"
    "res = Inl e \<Longrightarrow> eCode (errorOf E e) = ''REVISION_CONFLICT'' \<Longrightarrow> keptAnswer p (snd (eUUID E w)) w' = None"
proof -
  let ?n = "snd (eUUID E w)"
  have net: "overNet E" using o by (simp add: movesNet_def)
  have fresh: "keptAnswer p ?n w = None" using u by (simp add: freshUUIDs_def)
  note oc = StorePush_outcome [OF net surjective_pairing fresh_clean [OF u g] fresh out]
  obtain new where new: "nArrived w' = nArrived w @ new" "nCP w' = serveAll (nCP w) new" using inv_arrivals [OF oc(1)] by blast
  show "pushMade E p w w' = (if keptAnswer p ?n w' = None then 0 else 1)"
    using made_count [of "nCP w" "pushKey p ?n" new] fresh new by (simp add: pushMade_def keptAnswer_def)
  show "gatewaysFail (nSched w')" using oc(1) clean_gateways by (auto simp: inv_def)
  show "GetBlobFailures (nCP w) = [] \<Longrightarrow> GetBlobFailures (nCP w') = []" using new by (simp add: serveAll_failures)
  show "later w w'" using new by (auto simp: later_def)
  show "keptAnswer p ?n w' \<noteq> None" if "res = Inr row'" using oc(2) [OF that] by auto
  show "\<exists>new pre t r etag. nArrived w' = nArrived w @ new \<and> nCP w' = serveAll (nCP w) new \<and>
       madeAt E p key scope row ?n (nCP w) new pre t r etag" if "res = Inr row'"
    using oc(2) [OF that] kept_madeAt [OF net oc(1) fresh] by blast
  show "keptAnswer p ?n w' = None" if "res = Inl e" "eCode (errorOf E e) = ''REVISION_CONFLICT''"
    using oc(3) that by (simp add: errorOf_def)
qed

lemma commitLoop_outcome:
  assumes m: "movesNet E" and u: "freshUUIDs E p" and i: "i \<noteq> []"
    and "gatewaysFail (nSched w)" "GetBlobFailures (nCP w) = []" "commitLoop E n w p key scope i create edit = (w', res)"
  shows "commitMade E n w p key scope i create edit \<le> 1 \<and>
    (res = None \<longrightarrow> commitMade E n w p key scope i create edit = 1 \<and> applied E p key scope i create edit w w') \<and>
    (\<forall>e. res = Some e \<and> eCode (errorOf E e) = ''REVISION_CONFLICT'' \<longrightarrow> commitMade E n w p key scope i create edit = 0)"
  using assms(4-)
proof (induction n arbitrary: w)
  case (Suc n)
  obtain w1 loaded where load: "Load E w p key scope i = (w1, loaded)" by (cases "Load E w p key scope i")
  note reads = Load_reads [OF m Suc.prems(1,2) i load]
  note g1 = gatewaysFail_moved [OF reads(1) Suc.prems(1)] and f1 = failures_moved [OF reads(1) Suc.prems(2)]
  let ?got = "case loaded of Inr row \<Rightarrow> Inr (row, True)
    | Inl e \<Rightarrow> if \<not> create \<or> eHTTP (errorOf E e) \<noteq> 404 then Inl e else Inr (newRow i, False)"
  show ?case
  proof (cases ?got)
    case (Inl e)
    then show ?thesis using Suc.prems(3) load by auto
  next
    case (Inr x)
    obtain row ex where x: "x = (row, ex)" by (cases x)
    have given: "if ex then rID row = i \<and> readRow E p key scope w w1 row else create \<and> row = newRow i"
      using Inr x reads(2) by (auto split: sum.splits if_splits)
    show ?thesis
    proof (cases "edit w1 row ex")
      case (Inl e)
      then show ?thesis using Suc.prems(3) load Inr x by auto
    next
      case edited: (Inr row')
      obtain w2 ans where push: "StorePush E w1 p key scope row' = (w2, ans)" by (cases "StorePush E w1 p key scope row'")
      note made = StorePush_made [OF m u g1 push]
      have later: "later w w1" by (rule later_moved [OF reads(1)])
      show ?thesis
      proof (cases ans)
        case (Inr row'')
        obtain new pre t r etag where at: "nArrived w2 = nArrived w1 @ new" "nCP w2 = serveAll (nCP w1) new"
            "madeAt E p key scope row' (snd (eUUID E w1)) (nCP w1) new pre t r etag" using made(5) [OF Inr] by blast
        have "if ex then rID row = i \<and> overContent E p key scope w row row' w1 pre else create \<and> row = newRow i"
          using given made_over_read [OF _ at(3)] by simp
        then have "applied E p key scope i create edit w w2" unfolding applied_def using later edited at by blast
        then show ?thesis using Suc.prems(3) load x edited push Inr \<open>?got = Inr x\<close> made(1) made(6) [OF Inr] by auto
      next
        case (Inl e)
        show ?thesis
        proof (cases "eCode (errorOf E e) = ''REVISION_CONFLICT''")
          case False
          then show ?thesis using Suc.prems(3) load x edited push Inl \<open>?got = Inr x\<close> made(1) by auto
        next
          case True
          have rest: "commitLoop E n w2 p key scope i create edit = (w', res)"
            using Suc.prems(3) load x edited push Inl \<open>?got = Inr x\<close> True by simp
          have count: "commitMade E (Suc n) w p key scope i create edit = commitMade E n w2 p key scope i create edit"
            using load x edited push Inl \<open>?got = Inr x\<close> True made(1) made(7) [OF Inl True] by simp
          have "later w w2" using later made(4) by (rule later_trans)
          then show ?thesis unfolding count using Suc.IH [OF made(2) made(3) [OF f1] rest] applied_later by blast
        qed
      qed
    qed
  qed
qed auto


text \<open>A chat created over a network that loses the first read and the answer to the first write.\<close>

definition freshNonce :: "net \<Rightarrow> string" where
  "freshNonce w = replicate (Suc (sum_list (map (length \<circ> fst) (answered (nCP w))) +
     sum_list (map (\<lambda>ev. sum_list (map (\<lambda>(t, r). length (idemKey r)) (evBefore ev))) (nSched w)))) (CHR ''n'')"

definition envC :: "net env" where
  "envC = envX\<lparr>eUUID := \<lambda>w. (w, freshNonce w)\<rparr>"

definition calm :: event where
  "calm = \<lparr>evBefore = [], evAt = 4, evFate = Delivered False, evCancels = False\<rparr>"

definition netC :: net where
  "netC = \<lparr>nCP = NewStub, nSched = [calm\<lparr>evFate := Lost False None\<rparr>, calm, calm\<lparr>evFate := Lost True None\<rparr>], nArrived = [], nCancelled = False\<rparr>"

definition editC :: "net \<Rightarrow> StoredRow \<Rightarrow> bool \<Rightarrow> goError + StoredRow" where
  "editC w row ex = Inr (row\<lparr>rData := ''{}''\<rparr>)"

lemma movesNetC: "movesNet envC"
  using overNetX by (simp add: movesNet_def overNet_def envC_def sameNet_def) (simp add: envX_def)

lemma answered_shorter: "map_of xs k \<noteq> None \<Longrightarrow> length k \<le> sum_list (map (length \<circ> fst) xs)"
  by (induction xs) (auto split: if_splits)

lemma freshNonceC: "freshUUIDs envC p"
proof -
  have kept: "keptAnswer p (freshNonce w) w = None" for w
    using answered_shorter [of "answered (nCP w)" "pushKey p (freshNonce w)"]
    by (fastforce simp: keptAnswer_def freshNonce_def pushKey_def)
  have sent: "idemKey r \<noteq> pushKey p (freshNonce w)" if "ev \<in> set (nSched w)" "(t, r) \<in> set (evBefore ev)" for w ev t r
  proof -
    have "length (idemKey r) \<le> sum_list (map (\<lambda>(t, r). length (idemKey r)) (evBefore ev))"
      using that(2) by (force intro: member_le_sum_list)
    also have "\<dots> \<le> sum_list (map (\<lambda>ev. sum_list (map (\<lambda>(t, r). length (idemKey r)) (evBefore ev))) (nSched w))"
      using that(1) by (force intro: member_le_sum_list)
    finally have "length (idemKey r) < length (pushKey p (freshNonce w))" by (simp add: freshNonce_def pushKey_def)
    then show ?thesis by auto
  qed
  show ?thesis using kept sent by (auto simp: freshUUIDs_def envC_def)
qed


end
