(* ===== verification/Row_Removal.thy ===== *)
theory Row_Removal
  imports Row_Reads
begin

text \<open>Deleting rows: \<^verbatim>\<open>Remove\<close>, \<^verbatim>\<open>RemoveRevision\<close>, \<^verbatim>\<open>removeAt\<close> and \<^verbatim>\<open>finishRemove\<close> of \<^verbatim>\<open>internal/store/rows.go\<close>
  and \<^verbatim>\<open>RemoveAllProjects\<close> of \<^verbatim>\<open>internal/store/store.go\<close>.  Over the network, a removal that reports success
  left a moment at which the control plane held no such row.\<close>

section \<open>Deleting\<close>

definition removeAt :: "'w env \<Rightarrow> 'w \<Rightarrow> Principal \<Rightarrow> bytes \<Rightarrow> string \<Rightarrow> string \<Rightarrow> string \<Rightarrow> string \<Rightarrow> string \<Rightarrow> 'w \<times> (goError + DeleteBlobResponse)" where
  "removeAt E w p key scope path i revision nonce =
    DeleteBlob (eT E) w scope i (pID p) revision nonce
      (operationHash (eHkdf E) (eHmac E) key ''DELETE'' path (keyID (eHkdf E) key) revision nonce 0 None None)"

definition chatRemoved :: "'w env \<Rightarrow> 'w \<Rightarrow> string \<Rightarrow> int \<Rightarrow> 'w" where
  "chatRemoved E w i n = (case eChatRemoved E of None \<Rightarrow> w | Some f \<Rightarrow> f w i n)"

definition finishRemove :: "'w env \<Rightarrow> 'w \<Rightarrow> Principal \<Rightarrow> string \<Rightarrow> string \<Rightarrow> DeleteBlobResponse \<Rightarrow> 'w" where
  "finishRemove E w p scope i resp =
    (if scope \<noteq> ''chat'' then w
     else chatRemoved E (eDropBuckets E w (pID p) (WipedV2Attachments resp)) i (dSourceRevision resp))"

definition attemptNonce :: "string \<Rightarrow> nat \<Rightarrow> string" where
  "attemptNonce nonce attempt = (if 0 < attempt then nonce @ '':retry:'' @ fmtNat attempt else nonce)"

definition errEveryRemoveConflicted :: goError where
  "errEveryRemoveConflicted = EApi (Err 409 ''REVISION_CONFLICT'' ''The row changed during every delete attempt'')"

fun removeLoop :: "'w env \<Rightarrow> nat \<Rightarrow> nat \<Rightarrow> 'w \<Rightarrow> Principal \<Rightarrow> bytes \<Rightarrow> string \<Rightarrow> string \<Rightarrow> string \<Rightarrow> string \<Rightarrow> 'w \<times> goError option" where
  "removeLoop E 0 attempt w p key scope path i nonce = (w, Some errEveryRemoveConflicted)"
| "removeLoop E (Suc n) attempt w p key scope path i nonce =
    (case GetBlob (eT E) w scope i (pID p) of
       (w, Inl err) \<Rightarrow>
         if (case asCP err of Some c \<Rightarrow> StatusCode c = 404 | None \<Rightarrow> False)
         then (if scope = ''chat'' then chatRemoved E w i 0 else w, None)
         else (w, Some (EApi (FromControlplane err)))
     | (w, Inr blob) \<Rightarrow>
         (case removeAt E w p key scope path i (gETag blob) (attemptNonce nonce attempt) of
            (w, Inr resp) \<Rightarrow> (finishRemove E w p scope i resp, None)
          | (w, Inl err) \<Rightarrow>
              if IsCode err StatusStaleBlob then removeLoop E n (Suc attempt) w p key scope path i nonce
              else (w, Some (EApi (FromControlplane err)))))"

definition RemoveRow :: "'w env \<Rightarrow> 'w \<Rightarrow> Principal \<Rightarrow> bytes \<Rightarrow> string \<Rightarrow> string \<Rightarrow> 'w \<times> goError option" where
  "RemoveRow E w p key scope i =
    (if \<not> scopeValid scope then (w, Some (bad ''invalid scope''))
     else if i = [] then (w, Some (bad ''a row id is required''))
     else if (case pGrant p of None \<Rightarrow> False | Some g \<Rightarrow> \<not> allows (eNow E w) g opRemove) then (w, Some ERunScope)
     else case PathFor scope i of Inl _ \<Rightarrow> (w, Some (bad ''invalid row id''))
     | Inr path \<Rightarrow> (let (w, nonce) = eUUID E w in removeLoop E removeAttempts 0 w p key scope path i nonce))"

definition RemoveRevision :: "'w env \<Rightarrow> 'w \<Rightarrow> Principal \<Rightarrow> bytes \<Rightarrow> string \<Rightarrow> string \<Rightarrow> 'w \<times> goError option" where
  "RemoveRevision E w p key i revision =
    (if i = [] \<or> revision = [] then (w, Some (bad ''a row id and a revision are required''))
     else if (case pGrant p of None \<Rightarrow> False | Some g \<Rightarrow> \<not> allows (eNow E w) g opRemove) then (w, Some ERunScope)
     else case PathFor ''chat'' i of Inl _ \<Rightarrow> (w, Some (bad ''invalid row id''))
     | Inr path \<Rightarrow>
       (let (w, nonce) = eUUID E w
        in case removeAt E w p key ''chat'' path i revision nonce of
             (w, Inl err) \<Rightarrow> (w, Some (EApi (FromControlplane err)))
           | (w, Inr resp) \<Rightarrow> (finishRemove E w p ''chat'' i resp, None)))"

definition RemoveAllProjects :: "'w env \<Rightarrow> 'w \<Rightarrow> Principal \<Rightarrow> bytes \<Rightarrow> 'w \<times> (goError + int)" where
  "RemoveAllProjects E w p key =
    (if (case pGrant p of None \<Rightarrow> False | Some g \<Rightarrow> \<not> allows (eNow E w) g opRemove) then (w, Inl ERunScope)
     else let kidHex = keyID (eHkdf E) key; (w, nonce) = eUUID E w
          in case DeleteAllProjects (eT E) w (pID p) kidHex nonce
                (operationHash (eHkdf E) (eHmac E) key ''DELETE'' DeleteAllProjectsPath kidHex [] nonce 0 None None) of
               (w, Inl err) \<Rightarrow> (w, Inl (EApi (FromControlplane err)))
             | (w, Inr (ok, n)) \<Rightarrow>
                 (w, if \<not> ok then Inl (EApi (Err 502 ''UPSTREAM_REFUSED'' ''The projects were not deleted'')) else Inr n))"

section \<open>Gone\<close>

text \<open>No request has been answered under an idempotency key, and none that others send carries it.\<close>

definition unusedKey :: "Principal \<Rightarrow> string \<Rightarrow> net \<Rightarrow> bool" where
  "unusedKey p n w \<longleftrightarrow> keptAnswer p n w = None \<and> cleanSched (pushKey p n) (nSched w)"

lemma serveAll_other_key:
  "\<forall>(t, r)\<in>set rs. idemKey r \<noteq> k \<Longrightarrow> map_of (answered (serveAll st rs)) k = map_of (answered st) k"
proof (induction rs arbitrary: st)
  case (Cons x rs)
  obtain t r where x: "x = (t, r)" by (cases x)
  then have "k \<noteq> idemKey r" using Cons.prems by auto
  then show ?case using Cons.IH [of "fst (serve t st r)"] Cons.prems serve_other_key [of k r t st] x by auto
qed simp

lemma unused_netDo:
  assumes "unusedKey p n w" "idemKey r \<noteq> pushKey p n" "netDo w r = (w', x)"
  shows "unusedKey p n w'"
proof -
  let ?ev = "nextEvent w"
  have c: "cleanSched (pushKey p n) (nSched w)" using assms(1) by (simp add: unusedKey_def)
  have "\<forall>(t, r)\<in>set (arrivals ?ev r). idemKey r \<noteq> pushKey p n"
    using nextEvent_clean(1) [OF c] assms(2) by (auto simp: arrivals_def split: fate.splits bool.splits)
  note kept = serveAll_other_key [OF this, of "nCP w"]
  show ?thesis using assms kept nextEvent_clean(2) [OF c] by (auto simp: unusedKey_def keptAnswer_def netDo_def Let_def)
qed

lemma delete_gone:
  assumes o: "overNet E" and u: "unusedKey p n w" and n: "n \<noteq> []" and i: "i \<noteq> []" and path: "PathFor scope i = Inr path"
    and out: "removeAt E w p key scope path i etag n = (w', Inr resp)"
  shows "heldAt w' scope i = None"
proof -
  define r where "r = deleteRequest path (pID p) etag n (operationHash (eHkdf E) (eHmac E) key ''DELETE'' path (keyID (eHkdf E) key) etag n 0 None None)"
  let ?ev = "nextEvent w"
  let ?st = "serveAll (nCP w) (evBefore ?ev)"
  have c: "cleanSched (pushKey p n) (nSched w)" using u by (simp add: unusedKey_def)
  obtain ans unread where d: "netDo w r = (w', Inr (ans, unread))" and ok: "pStatus ans < 400"
    using out path o by (auto simp: removeAt_def DeleteBlob_def overNet_def netT_def r_def Let_def split: sum.splits prod.splits if_splits)
  obtain unread where fate: "evFate ?ev = Delivered unread"
  proof (cases "evFate ?ev")
    case (Lost b x)
    then have "x = Some ans" using d by (cases x) (auto simp: netDo_def Let_def seen_def)
    then show thesis using nextEvent_clean(3) [OF c] Lost ok by fastforce
  qed (use that in blast)
  have fields: "routeBlob (qPath r) = Some (scope, if scope = ''profile'' then ''profile'' else i)" "qMethod r = ''DELETE''"
      "idemKey r = pushKey p n" "hIdempotency r = n"
    using routeBlob_PathFor [OF path i] by (simp_all add: r_def deleteRequest_def newRequest_def idemKey_def pushKey_def)
  have hash: "hOperationHash r \<noteq> []"
  proof -
    have "hexEncode x \<noteq> []" if "x \<noteq> []" for x using that by (cases x) auto
    then show ?thesis using o by (simp add: r_def deleteRequest_def newRequest_def operationHash_def ComputeOperationHash_def overNet_def)
  qed
  have new: "map_of (answered ?st) (pushKey p n) = None"
    using u nextEvent_clean(1) [OF c] serveAll_other_key [of "evBefore ?ev" "pushKey p n" "nCP w"] by (simp add: unusedKey_def keptAnswer_def)
  let ?i = "if scope = ''profile'' then ''profile'' else i"
  let ?h = "handleDeleteBlob scope ?i ?st r"
  have serve: "serve (evAt ?ev) ?st r = idempotent (handleDeleteBlob scope ?i) ?st r"
    using fields(1,2) by (simp add: serve_def changeRoute_def)
  have same: "snd (serve (evAt ?ev) ?st r) = snd ?h" "Blobs (fst (serve (evAt ?ev) ?st r)) = Blobs (fst ?h)"
    unfolding serve using new fields(3,4) hash n by (auto simp: idempotent_def Let_def split: prod.splits)
  have w': "nCP w' = fst (serve (evAt ?ev) ?st r)" "ans = snd (serve (evAt ?ev) ?st r)"
    using d fate by (auto simp: netDo_def Let_def seen_def arrivals_def serveAll_append)
  have "pStatus (snd ?h) < 400" using ok w'(2) same(1) by simp
  then have "map_of (Blobs (fst ?h)) (StubKey scope ?i) = None"
    by (auto simp: handleDeleteBlob_def Let_def handler_defs delete_conv' split: if_splits option.splits)
  then show ?thesis using w'(1) same(2) by simp
qed

definition removesNet :: "net env \<Rightarrow> bool" where
  "removesNet E \<longleftrightarrow> movesNet E \<and> (\<forall>w u ids. sameNet w (eDropBuckets E w u ids)) \<and>
     (\<forall>f. eChatRemoved E = Some f \<longrightarrow> (\<forall>w i n. sameNet w (f w i n)))"

lemma chatRemoved_moves: "removesNet E \<Longrightarrow> netMoves w (chatRemoved E w i n)"
  by (auto simp: chatRemoved_def removesNet_def moved_same split: option.split)

lemma finishRemove_moves:
  assumes "removesNet E"
  shows "netMoves w (finishRemove E w p scope i resp)"
proof -
  have "netMoves w (eDropBuckets E w (pID p) (WipedV2Attachments resp))" using assms by (simp add: removesNet_def moved_same)
  then show ?thesis using chatRemoved_moves [OF assms] moved_trans by (simp add: finishRemove_def)
qed

lemma attemptNonce_inj: "attemptNonce nonce a = attemptNonce nonce b \<Longrightarrow> a = b"
  by (auto simp: attemptNonce_def split: if_splits dest: fmtNat_inj)

lemma unused_get:
  assumes "movesNet E" "unusedKey p n w" "n \<noteq> []" "GetBlob (eT E) w scope i (pID p) = (w', x)"
  shows "unusedKey p n w'"
proof -
  have "idemKey (newRequest ''GET'' path (pID p)) \<noteq> pushKey p n" for path
    using assms(3) by (simp add: newRequest_def idemKey_def pushKey_def)
  then have "unusedKey p n w'" if "netDo w (newRequest ''GET'' path (pID p)) = (w', y)" for path y
    using unused_netDo [OF assms(2) _ that] by blast
  then show ?thesis using assms(1,2,4) by (auto simp: GetBlob_def tDo_net split: sum.splits prod.splits)
qed

lemma unused_delete:
  assumes "movesNet E" "unusedKey p n w" "n \<noteq> m" "removeAt E w p key scope path i etag m = (w', x)"
  shows "unusedKey p n w'" "netMoves w w'"
proof -
  have "idemKey (deleteRequest path (pID p) etag m h) \<noteq> pushKey p n" for path h
    using assms(3) by (simp add: deleteRequest_def newRequest_def idemKey_def pushKey_def)
  then have "unusedKey p n w'" if "netDo w (deleteRequest path (pID p) etag m h) = (w', y)" for path h y
    using unused_netDo [OF assms(2) _ that] by blast
  then show "unusedKey p n w'" using assms(1,2,4)
    by (auto simp: removeAt_def DeleteBlob_def tDo_net Let_def split: sum.splits prod.splits)
  show "netMoves w w'" using assms(1,4)
    by (auto simp: removeAt_def DeleteBlob_def tDo_net Let_def split: sum.splits prod.splits dest!: moved_step)
qed

lemma removeLoop_gone:
  assumes E: "removesNet E" and i: "i \<noteq> []" and path: "PathFor scope i = Inr path" and nonce: "nonce \<noteq> []"
    and "gatewaysFail (nSched w)" "GetBlobFailures (nCP w) = []" "\<And>k. attempt \<le> k \<Longrightarrow> unusedKey p (attemptNonce nonce k) w"
    and "removeLoop E m attempt w p key scope path i nonce = (w', None)"
  shows "absentAt scope w w' i"
  using assms(5-)
proof (induction m arbitrary: attempt w)
  case (Suc m)
  have mv: "movesNet E" "overNet E" using E by (simp_all add: removesNet_def movesNet_def)
  have ne: "attemptNonce nonce k \<noteq> []" for k using nonce by (simp add: attemptNonce_def)
  obtain w1 r where get: "GetBlob (eT E) w scope i (pID p) = (w1, r)" by (cases "GetBlob (eT E) w scope i (pID p)")
  have 1: "netMoves w w1" by (rule GetBlob_moved [OF mv(1) get])
  have u1: "unusedKey p (attemptNonce nonce k) w1" if "attempt \<le> k" for k
    by (rule unused_get [OF mv(1) Suc.prems(3) [OF that] ne get])
  show ?case
  proof (cases r)
    case (Inl err)
    then obtain c where c: "asCP err = Some c" "StatusCode c = 404" and w': "w' = (if scope = ''chat'' then chatRemoved E w1 i 0 else w1)"
      using Suc.prems(4) get by (auto split: if_splits option.splits)
    have "heldAt w1 scope i = None" using GetBlob_absent [OF mv(1) Suc.prems(1,2) i get [unfolded Inl] c] .
    moreover have "netMoves w1 w'" unfolding w' using chatRemoved_moves [OF E] by simp
    ultimately show ?thesis using 1 unfolding absentAt_def by blast
  next
    case (Inr blob)
    obtain w2 ans where del: "removeAt E w1 p key scope path i (gETag blob) (attemptNonce nonce attempt) = (w2, ans)"
      by (cases "removeAt E w1 p key scope path i (gETag blob) (attemptNonce nonce attempt)")
    have u2: "unusedKey p (attemptNonce nonce k) w2" if "Suc attempt \<le> k" for k
    proof -
      have "attemptNonce nonce k \<noteq> attemptNonce nonce attempt" using attemptNonce_inj [of nonce k attempt] that by auto
      then show ?thesis using unused_delete(1) [OF mv(1) u1 _ del, of k] that by simp
    qed
    have 2: "netMoves w1 w2"
      using unused_delete(2) [OF mv(1) u1 _ del, of "Suc attempt"] attemptNonce_inj [of nonce "Suc attempt" attempt] by auto
    show ?thesis
    proof (cases ans)
      case (Inr resp)
      have "heldAt w2 scope i = None" by (rule delete_gone [OF mv(2) u1 [OF order_refl] ne i path del [unfolded Inr]])
      moreover have "w' = finishRemove E w2 p scope i resp" using Suc.prems(4) get \<open>r = Inr blob\<close> del Inr by simp
      ultimately show ?thesis using moved_trans [OF 1 2] finishRemove_moves [OF E] unfolding absentAt_def by blast
    next
      case (Inl err)
      then have "removeLoop E m (Suc attempt) w2 p key scope path i nonce = (w', None)"
        using Suc.prems(4) get \<open>r = Inr blob\<close> del by (auto split: if_splits)
      note 12 = moved_trans [OF 1 2]
      have "absentAt scope w2 w' i"
        using Suc.IH [OF gatewaysFail_moved [OF 12 Suc.prems(1)] failures_moved [OF 12 Suc.prems(2)] u2] \<open>removeLoop E m (Suc attempt) w2 p key scope path i nonce = (w', None)\<close> by blast
      then show ?thesis using absentAt_wider [OF 12 moved_refl] by blast
    qed
  qed
qed simp

text \<open>C18: a removal that reports success left the row gone: at a moment of it the control plane held no
  such row, whether this removal deleted it or it was gone before.  Each attempt deletes under an
  idempotency key of its own, so the answer to an earlier attempt never stands in for a later one.\<close>

theorem removed_row_is_gone:
  assumes "removesNet E" "gatewaysFail (nSched w)" "GetBlobFailures (nCP w) = []"
    "eUUID E w = (wu, nonce)" "nonce \<noteq> []" "\<forall>k. unusedKey p (attemptNonce nonce k) w"
    "RemoveRow E w p key scope i = (w', None)"
  shows "absentAt scope w w' i"
proof -
  obtain path where p: "PathFor scope i = Inr path" "i \<noteq> []"
      "removeLoop E removeAttempts 0 wu p key scope path i nonce = (w', None)"
    using assms(4,7) by (auto simp: RemoveRow_def split: if_splits sum.splits)
  have same: "sameNet w wu" using assms(1,4) by (metis fst_conv movesNet_def overNet_def removesNet_def)
  then have u: "unusedKey p (attemptNonce nonce k) wu" for k using assms(6) kept_same [OF same] by (simp add: unusedKey_def sameNet_def)
  have "gatewaysFail (nSched wu)" "GetBlobFailures (nCP wu) = []" using assms(2,3) same by (simp_all add: sameNet_def)
  from removeLoop_gone [OF assms(1) p(2,1) assms(5) this u p(3)] show ?thesis
    using absentAt_wider [OF moved_same [OF same] moved_refl] by blast
qed

text \<open>A chat another device stored, removed.\<close>

definition netR :: net where
  "netR = \<lparr>nCP = serveAll NewStub [(1, putX ''m'' ''sealed'' ''0'')], nSched = [], nArrived = [], nCancelled = False\<rparr>"

lemma removedX: "snd (RemoveRow envX netR userX (replicate 32 (CHR ''k'')) ''chat'' ''c'') = None"
  by code_simp

theorem removed_row_is_gone_witness:
  "\<exists>w'. RemoveRow envX netR userX (replicate 32 (CHR ''k'')) ''chat'' ''c'' = (w', None) \<and> absentAt ''chat'' netR w' ''c''"
proof -
  let ?r = "RemoveRow envX netR userX (replicate 32 (CHR ''k'')) ''chat'' ''c''"
  have e: "removesNet envX" using movesNetX by (simp add: removesNet_def) (simp add: envX_def sameNet_def)
  have "answered (nCP netR) = [(''u'' @ [CHR 0x00] @ ''m'', snd (hd (answered (nCP netR))))]" by code_simp
  then obtain a where a: "answered (nCP netR) = [(''u'' @ [CHR 0x00] @ ''m'', a)]" by blast
  have "keptAnswer userX (attemptNonce ''n'' k) netR = None" for k
    unfolding keptAnswer_def a by (simp add: pushKey_def userX_def attemptNonce_def)
  then have u: "\<forall>k. unusedKey userX (attemptNonce ''n'' k) netR" by (simp add: unusedKey_def cleanSched_def netR_def)
  have "gatewaysFail (nSched netR)" by (simp add: gatewaysFail_def netR_def)
  moreover have "GetBlobFailures (nCP netR) = []" by code_simp
  moreover have "eUUID envX netR = (netR, ''n'')" by (simp add: envX_def)
  moreover have r: "?r = (fst ?r, None)" using removedX by (metis prod.collapse)
  ultimately have "absentAt ''chat'' netR (fst ?r) ''c''" using removed_row_is_gone [OF e _ _ _ _ u] by blast
  then show ?thesis using r by blast
qed

end
