(* ===== verification/CP_Listing.thy ===== *)
theory CP_Listing
  imports CP_Client Go_Sort
begin

text \<open>How the control plane lists rows in pages, \<^verbatim>\<open>handleListStatus\<close> of
  \<^verbatim>\<open>internal/controlplane/cpstub/stub.go\<close>, and what the client makes of a page.  A page's cursor is the place of its
  last row; its text, base64 of JSON, is an argument with the law that it reads back.  Listing by place shows
  every row once, which a locale states for any strict total order.\<close>

section \<open>A page of rows\<close>

record listCursor =
  At :: int
  cID :: string

record cursorText =
  encCursor :: "listCursor \<Rightarrow> string"
  decCursor :: "string \<Rightarrow> listCursor option"

definition cursorLaws :: "cursorText \<Rightarrow> bool" where
  "cursorLaws K \<longleftrightarrow> (\<forall>c. encCursor K c \<noteq> [] \<and> decCursor K (encCursor K c) = Some c)"

definition queryGet :: "httpRequest \<Rightarrow> string \<Rightarrow> string" where
  "queryGet r k = (case map_of (qQuery r) k of None \<Rightarrow> [] | Some v \<Rightarrow> v)"

text \<open>A key of the store is a scope and an id, cut at the first slash.\<close>

definition keyRow :: "string \<Rightarrow> string" where
  "keyRow key = (case dropWhile (\<lambda>c. c \<noteq> CHR ''/'') key of [] \<Rightarrow> [] | _ # i \<Rightarrow> i)"

definition listedAt :: "Blob \<Rightarrow> int" where
  "listedAt b = (case bActivityAt b of Some t \<Rightarrow> t | None \<Rightarrow> bUpdatedAt b)"

definition place :: "string \<times> Blob \<Rightarrow> listCursor" where
  "place x = \<lparr>At = listedAt (snd x), cID = fst x\<rparr>"

definition listedFirst :: "bool \<Rightarrow> listCursor \<Rightarrow> listCursor \<Rightarrow> bool" where
  "listedFirst ascending a b =
    (if At a \<noteq> At b then (At b < At a) \<noteq> ascending
     else cID a \<noteq> cID b \<and> strLess (cID b) (cID a) \<noteq> ascending)"

definition listed :: "cpStore \<Rightarrow> string \<Rightarrow> string \<Rightarrow> bool \<Rightarrow> (string \<times> Blob) list" where
  "listed st scope project ascending =
    sortSlice (\<lambda>x y. listedFirst ascending (place x) (place y))
      (map (\<lambda>(key, b). (keyRow key, b))
        (filter (\<lambda>(key, b). keyScope key = scope \<and> (project = [] \<or> bProjectID b = Some project)) (Blobs st)))"

text \<open>A row as a page names it; its times, which the rows do not read, are left out.\<close>

definition metaJSON :: "string \<times> Blob \<Rightarrow> any" where
  "metaJSON x = AMap ([(''id'', AString (fst x)), (''etag'', AString (FormatETag (bETag (snd x)))), (''key_id'', AString (bKeyID (snd x)))] @
     (case bProjectID (snd x) of None \<Rightarrow> [] | Some p \<Rightarrow> [(''project_id'', AString p)]))"

definition pageFrom :: "cursorText \<Rightarrow> int \<Rightarrow> bool \<Rightarrow> listCursor option \<Rightarrow> (string \<times> Blob) list \<Rightarrow> (string \<times> Blob) list \<times> string" where
  "pageFrom K limit ascending after all =
    (let all = (case after of None \<Rightarrow> all | Some c \<Rightarrow> filter (\<lambda>x. listedFirst ascending c (place x)) all);
         page = take (nat limit) all
     in if 0 < limit \<and> limit \<le> int (length all) then (page, encCursor K (place (last page))) else (all, []))"

definition pageJSON :: "(string \<times> Blob) list \<times> string \<Rightarrow> Object" where
  "pageJSON x = [(''updates'', ASlice (map metaJSON (fst x))), (''deletes'', ANil)] @
     (if snd x = [] then [] else [(''next_cursor'', AString (snd x))])"

definition handleListStatus :: "cursorText \<Rightarrow> handler" where
  "handleListStatus K st r =
    (let scope = queryGet r ''scope''; raw = queryGet r ''cursor''; ascending = (queryGet r ''direction'' = ''asc'')
     in if 0 < countOf (ListStatusFailures st) scope
        then (st\<lparr>ListStatusFailures := AList.update scope (countOf (ListStatusFailures st) scope - 1) (ListStatusFailures st)\<rparr>, writeHeader 500)
        else if raw \<noteq> [] \<and> decCursor K raw = None then (st, writeHeader 400)
        else (st, writeJSON 200 (pageJSON (pageFrom K (parseInt64 (queryGet r ''limit'')) ascending
               (if raw = [] then None else decCursor K raw) (listed st scope (queryGet r ''project_id'') ascending)))))"

section \<open>Listing by place\<close>

text \<open>Rows in the strict order of their places, read page by page from the place the last page ended at:
  what follows that place is what the pages so far leave.\<close>

locale keyset =
  fixes before :: "'k \<Rightarrow> 'k \<Rightarrow> bool"
  assumes irreflexive: "\<not> before a a"
    and transitive: "before a b \<Longrightarrow> before b c \<Longrightarrow> before a c"
    and total_order: "a \<noteq> b \<Longrightarrow> before a b \<or> before b a"
begin

lemma asymmetric: "before a b \<Longrightarrow> \<not> before b a"
  using irreflexive transitive by blast

lemma order_weak: "weakOrder (\<lambda>x y. before (f x) (f y))"
  unfolding weakOrder_def using asymmetric transitive total_order by metis

lemma sorted_strictly:
  assumes "distinct (map f xs)"
  shows "sorted_wrt (\<lambda>x y. before (f x) (f y)) (sortSlice (\<lambda>x y. before (f x) (f y)) xs)"
proof -
  let ?ys = "sortSlice (\<lambda>x y. before (f x) (f y)) xs"
  have "mset (map f ?ys) = mset (map f xs)" by (simp add: sortSlice_mset)
  then have "distinct (map f ?ys)" using assms by (metis mset_eq_imp_distinct_iff)
  then have "\<forall>i j. i < j \<longrightarrow> j < length ?ys \<longrightarrow> f (?ys ! i) \<noteq> f (?ys ! j)"
    by (auto simp: distinct_conv_nth)
  then show ?thesis
    using sortSlice_sorted [OF order_weak, of f xs] total_order unfolding sorted_wrt_iff_nth_less by blast
qed

lemma after_place:
  assumes "sorted_wrt (\<lambda>x y. before (f x) (f y)) xs" "n < length xs"
  shows "filter (\<lambda>x. before (f (xs ! n)) (f x)) xs = drop (Suc n) xs"
proof -
  let ?P = "\<lambda>x. before (f (xs ! n)) (f x)"
  have xs: "xs = take n xs @ xs ! n # drop (Suc n) xs" using assms(2) by (simp add: id_take_nth_drop)
  then have s: "\<forall>x\<in>set (take n xs). before (f x) (f (xs ! n))" "\<forall>x\<in>set (drop (Suc n) xs). ?P x"
    using assms(1) by (metis (no_types, lifting) list.set_intros(1) sorted_wrt_append, metis (no_types, lifting) sorted_wrt.simps(2) sorted_wrt_append)
  have "filter ?P (take n xs) = []" using s(1) asymmetric by (auto simp: filter_empty_conv)
  moreover have "filter ?P (drop (Suc n) xs) = drop (Suc n) xs" using s(2) by (simp add: filter_id_conv)
  ultimately show ?thesis using irreflexive by (subst xs) (simp only: filter_append filter.simps if_False append_Nil)
qed

end

lemma listedFirst_iff:
  "listedFirst True a b \<longleftrightarrow> At a < At b \<or> At a = At b \<and> strLess (cID a) (cID b)"
  "listedFirst False a b \<longleftrightarrow> listedFirst True b a"
proof -
  consider "cID a = cID b" "\<not> strLess (cID a) (cID b)" "\<not> strLess (cID b) (cID a)"
    | "cID a \<noteq> cID b" "strLess (cID a) (cID b)" "\<not> strLess (cID b) (cID a)"
    | "cID a \<noteq> cID b" "\<not> strLess (cID a) (cID b)" "strLess (cID b) (cID a)"
    using strLess_linear(1,2) by metis
  then have "(listedFirst True a b \<longleftrightarrow> At a < At b \<or> At a = At b \<and> strLess (cID a) (cID b)) \<and>
      (listedFirst False a b \<longleftrightarrow> listedFirst True b a)"
    by cases (auto simp: listedFirst_def)
  then show "listedFirst True a b \<longleftrightarrow> At a < At b \<or> At a = At b \<and> strLess (cID a) (cID b)"
    "listedFirst False a b \<longleftrightarrow> listedFirst True b a" by blast+
qed

lemma keyset_ascending: "keyset (listedFirst True)"
proof
  fix a b c :: listCursor
  show "\<not> listedFirst True a a" by (simp add: listedFirst_def)
  show "listedFirst True a b \<Longrightarrow> listedFirst True b c \<Longrightarrow> listedFirst True a c"
    using strLess_linear(3) [of "cID a" "cID b" "cID c"] by (auto simp: listedFirst_iff)
  assume "a \<noteq> b"
  then have "At a \<noteq> At b \<or> cID a \<noteq> cID b" by (auto intro: listCursor.equality)
  then show "listedFirst True a b \<or> listedFirst True b a"
    using strLess_linear(2) [of "cID a" "cID b"] by (auto simp: listedFirst_iff)
qed

interpretation placed: keyset "listedFirst ascending" for ascending
proof (cases ascending)
  case True
  then show "keyset (listedFirst ascending)" using keyset_ascending by simp
next
  case False
  then show "keyset (listedFirst ascending)"
    using keyset_ascending unfolding keyset_def by (simp add: listedFirst_iff(2))
qed

section \<open>What a page shows\<close>

text \<open>The keys of the store are distinct and each holds a slash.\<close>

definition keysApart :: "cpStore \<Rightarrow> bool" where
  "keysApart st \<longleftrightarrow> distinct (map fst (Blobs st)) \<and> (\<forall>key\<in>fst ` set (Blobs st). CHR ''/'' \<in> set key)"

lemma key_parts: "CHR ''/'' \<in> set key \<Longrightarrow> key = keyScope key @ CHR ''/'' # keyRow key"
proof -
  assume "CHR ''/'' \<in> set key"
  then have "dropWhile (\<lambda>c. c \<noteq> CHR ''/'') key \<noteq> []" by (simp add: dropWhile_eq_Nil_conv)
  then obtain c i where d: "dropWhile (\<lambda>c. c \<noteq> CHR ''/'') key = c # i" by (cases "dropWhile (\<lambda>c. c \<noteq> CHR ''/'') key") auto
  then have "c = CHR ''/''" using hd_dropWhile [of "\<lambda>c. c \<noteq> CHR ''/''" key] by simp
  then show ?thesis using d takeWhile_dropWhile_id [of "\<lambda>c. c \<noteq> CHR ''/''" key] by (simp add: keyScope_def keyRow_def)
qed

definition held :: "cpStore \<Rightarrow> string \<Rightarrow> string \<Rightarrow> (string \<times> Blob) list" where
  "held st scope project = map (\<lambda>(key, b). (keyRow key, b))
     (filter (\<lambda>(key, b). keyScope key = scope \<and> (project = [] \<or> bProjectID b = Some project)) (Blobs st))"

lemma held_distinct:
  assumes "keysApart st"
  shows "distinct (map fst (held st scope project))"
proof -
  let ?xs = "filter (\<lambda>(key, b). keyScope key = scope \<and> (project = [] \<or> bProjectID b = Some project)) (Blobs st)"
  have "distinct (map fst ?xs)" using assms by (simp add: keysApart_def distinct_map_filter)
  moreover have "inj_on (keyRow \<circ> fst) (set ?xs)"
  proof (rule inj_onI)
    fix x y assume xy: "x \<in> set ?xs" "y \<in> set ?xs" "(keyRow \<circ> fst) x = (keyRow \<circ> fst) y"
    then have "CHR ''/'' \<in> set (fst x)" "CHR ''/'' \<in> set (fst y)" "keyScope (fst x) = scope" "keyScope (fst y) = scope"
      using assms by (auto simp: keysApart_def)
    then have "fst x = fst y" using key_parts [of "fst x"] key_parts [of "fst y"] xy(3) by simp
    then show "x = y" using \<open>distinct (map fst ?xs)\<close> xy(1,2) by (metis distinct_map inj_onD)
  qed
  ultimately have "distinct (map (keyRow \<circ> fst) ?xs)" by (simp add: distinct_map)
  then show ?thesis by (simp add: held_def comp_def case_prod_unfold)
qed

lemma listed_sorted:
  assumes "keysApart st"
  shows "sorted_wrt (\<lambda>x y. listedFirst asc (place x) (place y)) (listed st scope project asc)"
    "mset (listed st scope project asc) = mset (held st scope project)"
proof -
  have "distinct (map cID (map place (held st scope project)))" using held_distinct [OF assms] by (simp add: place_def comp_def)
  then have "distinct (map place (held st scope project))" by (simp only: distinct_map)
  then show "sorted_wrt (\<lambda>x y. listedFirst asc (place x) (place y)) (listed st scope project asc)"
    unfolding listed_def held_def [symmetric] by (rule placed.sorted_strictly)
  show "mset (listed st scope project asc) = mset (held st scope project)"
    by (simp add: listed_def held_def sortSlice_mset)
qed

text \<open>The cursor of the first \<open>n\<close> rows, and the answer to a request that brings it.\<close>

definition cursorAt :: "cursorText \<Rightarrow> (string \<times> Blob) list \<Rightarrow> nat \<Rightarrow> string" where
  "cursorAt K xs n = (if n = 0 then [] else encCursor K (place (xs ! (n - 1))))"

lemma page_from:
  assumes K: "cursorLaws K" and s: "sorted_wrt (\<lambda>x y. listedFirst asc (place x) (place y)) xs" and lim: "0 < limit" and n: "n \<le> length xs"
  shows "pageFrom K (int limit) asc (if cursorAt K xs n = [] then None else decCursor K (cursorAt K xs n)) xs =
    (take limit (drop n xs), if n + limit \<le> length xs then cursorAt K xs (n + limit) else [])"
proof -
  let ?after = "if cursorAt K xs n = [] then None else decCursor K (cursorAt K xs n)"
  have dec: "decCursor K (encCursor K c) = Some c" "encCursor K c \<noteq> []" for c using K by (simp_all add: cursorLaws_def)
  have rest: "(case ?after of None \<Rightarrow> xs | Some c \<Rightarrow> filter (\<lambda>x. listedFirst asc c (place x)) xs) = drop n xs"
  proof (cases n)
    case (Suc m)
    then show ?thesis using n dec placed.after_place [OF s, of m] by (simp add: cursorAt_def)
  qed (simp add: cursorAt_def)
  have full: "0 < int limit \<and> int limit \<le> int (length (drop n xs)) \<longleftrightarrow> n + limit \<le> length xs" using lim n by auto
  have last: "last (take limit (drop n xs)) = xs ! (n + limit - 1)" if "n + limit \<le> length xs"
    using that lim by (simp add: last_conv_nth)
  show ?thesis
  proof (cases "n + limit \<le> length xs")
    case True
    then show ?thesis unfolding pageFrom_def rest Let_def using full last lim by (simp add: cursorAt_def)
  next
    case False
    then show ?thesis unfolding pageFrom_def rest Let_def using full by (simp only: if_False) simp
  qed
qed

end
