(* ===== verification/Row_Listing.thy ===== *)
theory Row_Listing
  imports Rows CP_Listing
begin

text \<open>Listing rows: \<^verbatim>\<open>listStatus\<close>, \<^verbatim>\<open>IDs\<close>, \<^verbatim>\<open>Revisions\<close> and \<^verbatim>\<open>List\<close> of \<^verbatim>\<open>internal/store/rows.go\<close> and the walk over every page,
  \<^verbatim>\<open>EachPage\<close>, of \<^verbatim>\<open>internal/store/store.go\<close>.  The walks end only if the control plane's cursors do, so they
  are partial functions; over the control plane's own listing they end and show every row once.\<close>

section \<open>Pages of rows\<close>

definition listStatus :: "'w env \<Rightarrow> 'w \<Rightarrow> Principal \<Rightarrow> string \<Rightarrow> string \<Rightarrow> string \<Rightarrow> int \<Rightarrow> 'w \<times> (goError + Revision list \<times> string)" where
  "listStatus E w p scope cursor project limit =
    (if \<not> scopeValid scope then (w, Inl (bad ''invalid scope''))
     else if (case pGrant p of None \<Rightarrow> False | Some g \<Rightarrow> \<not> permitsList (eNow E w) g scope project) then (w, Inl ERunScope)
     else case ListStatus (eT E) w scope cursor limit (pID p) (if scope = ''chat'' then project else []) ''desc'' True of
       (w, Inl e) \<Rightarrow> (w, Inl (EApi (FromControlplane e)))
     | (w, Inr (updates, next)) \<Rightarrow>
         (w, Inr (filter (\<lambda>item. \<not> (scope = ''project_document'' \<and> project \<noteq> [] \<and> CutPrefix (lID item) (project @ ''/'') = None)) updates,
                  next)))"

definition cursorStuck :: goError where
  "cursorStuck = EApi (Err 502 ''UPSTREAM_REFUSED'' ''The storage cursor did not advance'')"

partial_function (option) idsLoop ::
  "'w env \<Rightarrow> 'w \<Rightarrow> Principal \<Rightarrow> string \<Rightarrow> string \<Rightarrow> string list \<Rightarrow> string \<Rightarrow> ('w \<times> (goError + string list)) option" where
  "idsLoop E w p scope project all cursor =
    (case listStatus E w p scope cursor project ListStatusPage of
       (w, Inl e) \<Rightarrow> Some (w, Inl e)
     | (w, Inr (found, next)) \<Rightarrow>
         (let all = all @ map lID found
          in if next = [] then Some (w, Inr all)
             else if next = cursor then Some (w, Inl cursorStuck)
             else idsLoop E w p scope project all next))"

definition IDs :: "'w env \<Rightarrow> 'w \<Rightarrow> Principal \<Rightarrow> string \<Rightarrow> string \<Rightarrow> ('w \<times> (goError + string list)) option" where
  "IDs E w p scope project = idsLoop E w p scope project [] []"

definition Revisions :: "'w env \<Rightarrow> 'w \<Rightarrow> Principal \<Rightarrow> string \<Rightarrow> string \<Rightarrow> string \<Rightarrow> int \<Rightarrow> 'w \<times> (goError + Revision list \<times> string)" where
  "Revisions E w p scope cursor project limit =
    listStatus E w p scope cursor project (if limit \<le> 0 \<or> maxListPage < limit then defaultListPage else limit)"

record Page =
  pgRows :: "StoredRow list"
  pgNext :: string
  pgUnreadable :: "(string \<times> goError) list"

definition ListRows :: "'w env \<Rightarrow> 'w \<Rightarrow> Principal \<Rightarrow> bytes \<Rightarrow> string \<Rightarrow> string \<Rightarrow> string \<Rightarrow> int \<Rightarrow> 'w \<times> (goError + Page)" where
  "ListRows E w p key scope cursor project limit =
    (case Revisions E w p scope cursor project limit of
       (w, Inl e) \<Rightarrow> (w, Inl e)
     | (w, Inr (found, next)) \<Rightarrow>
         if found = [] then (w, Inr \<lparr>pgRows = [], pgNext = next, pgUnreadable = []\<rparr>)
         else case Pull E w p key scope (map lID found) of
           (w, Inl e) \<Rightarrow> (w, Inl e)
         | (w, Inr (rows, failed)) \<Rightarrow> (w, Inr \<lparr>pgRows = rows, pgNext = next, pgUnreadable = failed\<rparr>))"

section \<open>Every page\<close>

text \<open>The rows and ids not seen before, with those seen then: \<^verbatim>\<open>slices.DeleteFunc\<close> with \<^verbatim>\<open>again\<close>.\<close>

fun unseen :: "('a \<Rightarrow> string) \<Rightarrow> string list \<Rightarrow> 'a list \<Rightarrow> string list \<times> 'a list" where
  "unseen idOf seen [] = (seen, [])"
| "unseen idOf seen (x # xs) =
    (if idOf x \<in> set seen then unseen idOf seen xs
     else case unseen idOf (idOf x # seen) xs of (seen, ys) \<Rightarrow> (seen, x # ys))"

text \<open>A visit changes the visitor's own state, or ends the walk with an error.\<close>

type_synonym 'a visitor = "'a \<Rightarrow> StoredRow list \<Rightarrow> string list \<Rightarrow> 'a \<times> goError option"

partial_function (option) eachPage ::
  "'w env \<Rightarrow> 'w \<Rightarrow> Principal \<Rightarrow> bytes \<Rightarrow> string \<Rightarrow> string \<Rightarrow> 'a visitor \<Rightarrow> string \<Rightarrow> string list \<Rightarrow> 'a \<Rightarrow> ('w \<times> 'a \<times> goError option) option" where
  "eachPage E w p key scope project visit cursor seen a =
    (case ListRows E w p key scope cursor project 100 of
       (w, Inl e) \<Rightarrow> Some (w, a, Some e)
     | (w, Inr page) \<Rightarrow>
         (case unseen rID seen (pgRows page) of (seen, rows) \<Rightarrow>
            case unseen (\<lambda>i. i) seen (sort (map fst (pgUnreadable page))) of (seen, unreadable) \<Rightarrow>
              case visit a rows unreadable of
                (a, Some e) \<Rightarrow> Some (w, a, Some e)
              | (a, None) \<Rightarrow>
                  if pgNext page = [] then Some (w, a, None)
                  else if cursor = pgNext page then Some (w, a, Some cursorStuck)
                  else eachPage E w p key scope project visit (pgNext page) seen a))"

definition EachPage :: "'w env \<Rightarrow> 'w \<Rightarrow> Principal \<Rightarrow> bytes \<Rightarrow> string \<Rightarrow> string \<Rightarrow> 'a visitor \<Rightarrow> 'a \<Rightarrow> ('w \<times> 'a \<times> goError option) option" where
  "EachPage E w p key scope project visit a = eachPage E w p key scope project visit [] [] a"

fun visitRows :: "('a \<Rightarrow> StoredRow \<Rightarrow> 'a \<times> goError option) \<Rightarrow> 'a \<Rightarrow> StoredRow list \<Rightarrow> 'a \<times> goError option" where
  "visitRows visit a [] = (a, None)"
| "visitRows visit a (row # rows) = (case visit a row of (a, Some e) \<Rightarrow> (a, Some e) | (a, None) \<Rightarrow> visitRows visit a rows)"

definition EachRowOrUnreadable :: "'w env \<Rightarrow> 'w \<Rightarrow> Principal \<Rightarrow> bytes \<Rightarrow> string \<Rightarrow> string \<Rightarrow>
    ('a \<Rightarrow> StoredRow \<Rightarrow> 'a \<times> goError option) \<Rightarrow> ('a \<Rightarrow> string \<Rightarrow> 'a) \<Rightarrow> 'a \<Rightarrow> ('w \<times> 'a \<times> goError option) option" where
  "EachRowOrUnreadable E w p key scope project visit unreadable a =
    EachPage E w p key scope project (\<lambda>a rows unopened. visitRows visit (foldl unreadable a unopened) rows) a"

definition EachRow :: "'w env \<Rightarrow> 'w \<Rightarrow> Principal \<Rightarrow> bytes \<Rightarrow> string \<Rightarrow> string \<Rightarrow>
    ('a \<Rightarrow> StoredRow \<Rightarrow> 'a \<times> goError option) \<Rightarrow> 'a \<Rightarrow> ('w \<times> 'a \<times> goError option) option" where
  "EachRow E w p key scope project visit a = EachRowOrUnreadable E w p key scope project visit (\<lambda>a i. a) a"

section \<open>Over the control plane's listing\<close>

definition ListStatusPath :: string where "ListStatusPath = ''/api/sync/list-status''"

definition stubDo :: "cursorText \<Rightarrow> cpStore \<Rightarrow> httpRequest \<Rightarrow> cpStore \<times> (goError + httpResponse \<times> bool)" where
  "stubDo K st r =
    (let (st, resp) = (if qMethod r = ''GET'' \<and> qPath r = ListStatusPath then handleListStatus K st r else serve 0 st r)
     in (st, Inr (resp, False)))"

definition stubT :: "cursorText \<Rightarrow> cpStore transport" where
  "stubT K = \<lparr>tDo = stubDo K, tCtx = (\<lambda>_. None)\<rparr>"

lemma parseInt64_fmtInt: "0 \<le> n \<Longrightarrow> n < 2 ^ 63 \<Longrightarrow> parseInt64 (fmtInt n) = n"
proof -
  assume n: "0 \<le> n" "n < 2 ^ 63"
  obtain c r where cr: "fmtNat (nat n) = c # r" using fmtNat_nonempty by (cases "fmtNat (nat n)") auto
  have "isDecDigit c" using fmtNat_digits [of "nat n"] cr by simp
  then have "c \<noteq> CHR ''-''" "c \<noteq> CHR ''+''" by (auto simp: isDecDigit_def byte_val_def)
  then show ?thesis
    using n cr fmtNat_digits [of "nat n"] readNat_fmtNat [of "nat n"] by (simp add: parseInt64_def atoiDigits_def fmtInt_def)
qed

definition revisionRow :: "string \<times> Blob \<Rightarrow> Revision" where
  "revisionRow x = \<lparr>lID = fst x, lETag = FormatETag (bETag (snd x)), lProject = bProjectID (snd x)\<rparr>"

lemma listedRow_meta: "listedRow (metaJSON x) = Some (revisionRow x)"
  by (cases "bProjectID (snd x)") (simp_all add: listedRow_def metaJSON_def strField_def revisionRow_def)

lemma listPage_pageJSON: "listPage (pageJSON (xs, next)) = Some (map revisionRow xs, next)"
proof -
  have "those (map listedRow (map metaJSON xs)) = Some (map revisionRow xs)"
    by (induction xs) (simp_all add: listedRow_meta)
  then show ?thesis by (simp add: listPage_def pageJSON_def strField_def)
qed

lemma urlPath_list: "urlPath ''/api/sync/list-status'' = ''/api/sync/list-status''"
  by code_simp

text \<open>Which rows a listing of a project keeps: chats are filed by project, documents name it.\<close>

definition ofProject :: "string \<Rightarrow> string \<Rightarrow> string \<Rightarrow> Blob \<Rightarrow> bool" where
  "ofProject scope project i b \<longleftrightarrow> project = [] \<or> (scope = ''chat'' \<longrightarrow> bProjectID b = Some project) \<and>
     (scope = ''project_document'' \<longrightarrow> CutPrefix i (project @ ''/'') \<noteq> None)"

definition showsDoc :: "string \<Rightarrow> string \<Rightarrow> string \<Rightarrow> bool" where
  "showsDoc scope project i \<longleftrightarrow> \<not> (scope = ''project_document'' \<and> project \<noteq> [] \<and> CutPrefix i (project @ ''/'') = None)"

text \<open>A page from any cursor.\<close>

definition rawCursor :: "cursorText \<Rightarrow> listCursor option \<Rightarrow> string" where
  "rawCursor K cur = (case cur of None \<Rightarrow> [] | Some c \<Rightarrow> encCursor K c)"

lemma ListStatus_from:
  fixes cur project
  assumes K: "cursorLaws K" and ok: "countOf (ListStatusFailures st) scope \<le> 0" and lim: "0 < limit" "limit \<le> 500"
  defines "page \<equiv> pageFrom K (int limit) False cur (listed st scope project False)"
  shows "ListStatus (stubT K) st scope (rawCursor K cur) (int limit) u project ''desc'' True =
    (st, Inr (map revisionRow (fst page), snd page))"
proof -
  define q where "q = [(''scope'', scope), (''limit'', fmtInt (int limit))] @ (if rawCursor K cur \<noteq> [] then [(''cursor'', rawCursor K cur)] else []) @
    (if project \<noteq> [] then [(''project_id'', project)] else []) @ (if ''desc'' \<noteq> [] then [(''direction'', ''desc'')] else []) @
    (if True then [(''deletes'', ''omit'')] else [])"
  define r where "r = (newRequest ''GET'' ''/api/sync/list-status'' u)\<lparr>qQuery := q\<rparr>"
  have r: "queryGet r ''scope'' = scope" "queryGet r ''cursor'' = rawCursor K cur" "queryGet r ''project_id'' = project"
      "queryGet r ''direction'' = ''desc''" "parseInt64 (queryGet r ''limit'') = int limit"
    using lim(2) by (simp_all add: queryGet_def parseInt64_fmtInt r_def q_def)
  have path: "qPath r = ListStatusPath" "qMethod r = ''GET''"
    using urlPath_list by (simp_all add: r_def newRequest_def ListStatusPath_def)
  have cur: "(if rawCursor K cur = [] then None else decCursor K (rawCursor K cur)) = cur"
      "\<not> (rawCursor K cur \<noteq> [] \<and> decCursor K (rawCursor K cur) = None)"
    using K by (auto simp: rawCursor_def cursorLaws_def split: option.splits)
  have "handleListStatus K st r = (st, writeJSON 200 (pageJSON page))"
    using ok cur unfolding handleListStatus_def Let_def r page_def by (simp del: de_Morgan_conj)
  then have "stubDo K st r = (st, Inr (writeJSON 200 (pageJSON page), False))" using path by (simp add: stubDo_def)
  then show ?thesis
    using lim unfolding r_def q_def
    by (cases page) (simp add: ListStatus_def stubT_def writeJSON_def answer_def listPage_pageJSON)
qed

lemma listStatus_from:
  fixes cur project
  assumes "cursorLaws K" "countOf (ListStatusFailures st) scope \<le> 0" "0 < limit" "limit \<le> 500" "eT E = stubT K" "pGrant p = None" "scopeValid scope"
  defines "page \<equiv> pageFrom K (int limit) False cur (listed st scope (if scope = ''chat'' then project else []) False)"
  shows "listStatus E st p scope (rawCursor K cur) project (int limit) =
    (st, Inr (filter (\<lambda>x. showsDoc scope project (lID x)) (map revisionRow (fst page)), snd page))"
  unfolding listStatus_def assms(5) ListStatus_from [OF assms(1-4)] page_def using assms(6,7) by (simp add: showsDoc_def)

lemma StubKey_parts: "CHR ''/'' \<notin> set scope \<Longrightarrow> keyScope (StubKey scope i) = scope \<and> keyRow (StubKey scope i) = i"
  by (induction scope) (auto simp: StubKey_def keyScope_def keyRow_def)

lemma held_set:
  assumes "keysApart st" "CHR ''/'' \<notin> set scope"
  shows "(i, b) \<in> set (held st scope project) \<longleftrightarrow> (StubKey scope i, b) \<in> set (Blobs st) \<and> (project = [] \<or> bProjectID b = Some project)"
proof
  assume "(i, b) \<in> set (held st scope project)"
  then obtain key where k: "(key, b) \<in> set (Blobs st)" "keyRow key = i" "keyScope key = scope" "project = [] \<or> bProjectID b = Some project"
    by (auto simp: held_def)
  then have "CHR ''/'' \<in> set key" using assms(1) by (force simp: keysApart_def)
  then have "key = StubKey scope i" using key_parts [of key] k(2,3) by (simp add: StubKey_def)
  then show "(StubKey scope i, b) \<in> set (Blobs st) \<and> (project = [] \<or> bProjectID b = Some project)" using k by simp
next
  assume "(StubKey scope i, b) \<in> set (Blobs st) \<and> (project = [] \<or> bProjectID b = Some project)"
  then show "(i, b) \<in> set (held st scope project)" using StubKey_parts [OF assms(2), of i] by (force simp: held_def)
qed

lemma listStatus_stub:
  assumes "cursorLaws K" "keysApart st" "countOf (ListStatusFailures st) scope \<le> 0" "0 < limit" "limit \<le> 500"
    and xs: "xs = listed st scope (if scope = ''chat'' then project else []) False" and n: "n \<le> length xs"
    and "eT E = stubT K" "pGrant p = None" "scopeValid scope"
  shows "listStatus E st p scope (cursorAt K xs n) project (int limit) =
    (st, Inr (filter (\<lambda>x. showsDoc scope project (lID x)) (map revisionRow (take limit (drop n xs))),
              if n + limit \<le> length xs then cursorAt K xs (n + limit) else []))"
proof -
  let ?cur = "if cursorAt K xs n = [] then None else decCursor K (cursorAt K xs n)"
  have raw: "rawCursor K ?cur = cursorAt K xs n" using assms(1) by (simp add: rawCursor_def cursorAt_def cursorLaws_def)
  have sorted: "sorted_wrt (\<lambda>x y. listedFirst False (place x) (place y)) xs" unfolding xs by (rule listed_sorted(1) [OF assms(2)])
  note page = page_from [OF assms(1) sorted assms(4) n]
  show ?thesis using listStatus_from [OF assms(1,3-5,8-10), of ?cur project, folded xs] unfolding raw page fst_conv snd_conv .
qed

lemma cursorAt_apart:
  assumes K: "cursorLaws K" and s: "sorted_wrt (\<lambda>x y. listedFirst asc (place x) (place y)) xs" and n: "n < m" "m \<le> length xs"
  shows "cursorAt K xs m \<noteq> []" "cursorAt K xs m \<noteq> cursorAt K xs n"
proof -
  have enc: "encCursor K c \<noteq> []" "encCursor K c = encCursor K d \<Longrightarrow> c = d" for c d
    using K by (simp add: cursorLaws_def) (metis K cursorLaws_def option.inject)
  show ne: "cursorAt K xs m \<noteq> []" using n enc(1) by (simp add: cursorAt_def)
  show "cursorAt K xs m \<noteq> cursorAt K xs n"
  proof (cases n)
    case (Suc k)
    have "listedFirst asc (place (xs ! k)) (place (xs ! (m - 1)))"
      using s n Suc by (simp add: sorted_wrt_iff_nth_less)
    then have "place (xs ! (m - 1)) \<noteq> place (xs ! k)" using placed.irreflexive by metis
    then show ?thesis using n Suc enc(2) by (auto simp: cursorAt_def)
  qed (use ne in \<open>simp add: cursorAt_def\<close>)
qed

lemma idsLoop_stub:
  assumes K: "cursorLaws K" and wf: "keysApart st" and ok: "countOf (ListStatusFailures st) scope \<le> 0"
    and E: "eT E = stubT K" "pGrant p = None" "scopeValid scope"
    and xs: "xs = listed st scope (if scope = ''chat'' then project else []) False" and n: "n \<le> length xs"
  shows "idsLoop E st p scope project all (cursorAt K xs n) = Some (st, Inr (all @ filter (showsDoc scope project) (map fst (drop n xs))))"
  using n
proof (induction "length xs - n" arbitrary: n all rule: less_induct)
  case less
  note page = listStatus_stub [OF K wf ok _ _ xs less.prems E, of 500]
  note step = idsLoop.simps [of E st p scope project all "cursorAt K xs n"]
  have ids: "map lID (filter (\<lambda>x. showsDoc scope project (lID x)) (map revisionRow ys)) = filter (showsDoc scope project) (map fst ys)" for ys
    by (induction ys) (simp_all add: revisionRow_def)
  show ?case
  proof (cases "n + 500 \<le> length xs")
    case False
    then show ?thesis unfolding step using page ids [of "drop n xs"] by (simp add: ListStatusPage_def)
  next
    case True
    have s: "sorted_wrt (\<lambda>x y. listedFirst False (place x) (place y)) xs" unfolding xs by (rule listed_sorted(1) [OF wf])
    note apart = cursorAt_apart [OF K s _ True, of n]
    have "take 500 (drop n xs) @ drop (n + 500) xs = drop n xs" by (metis add.commute append_take_drop_id drop_drop)
    then have join: "filter P (map fst (take 500 (drop n xs))) @ filter P (map fst (drop (n + 500) xs)) = filter P (map fst (drop n xs))" for P
      by (metis filter_append map_append)
    show ?thesis unfolding step
      using page ids [of "take 500 (drop n xs)"] True apart less.hyps [of "n + 500"] join
      by (simp add: ListStatusPage_def Let_def)
  qed
qed

text \<open>C28: listing the ids of a scope, or of a project, ends and names every row the control plane
  holds there exactly once, however many pages it takes.\<close>

theorem ids_name_every_row:
  assumes "cursorLaws K" "keysApart st" "countOf (ListStatusFailures st) scope \<le> 0" "eT E = stubT K" "pGrant p = None" "scopeValid scope"
  shows "\<exists>ids. IDs E st p scope project = Some (st, Inr ids) \<and> distinct ids \<and>
    (\<forall>i. i \<in> set ids \<longleftrightarrow> (\<exists>b. (StubKey scope i, b) \<in> set (Blobs st) \<and> ofProject scope project i b))"
proof -
  let ?of = "if scope = ''chat'' then project else []"
  let ?xs = "listed st scope ?of False"
  let ?ids = "filter (showsDoc scope project) (map fst ?xs)"
  have 1: "IDs E st p scope project = Some (st, Inr ?ids)"
    using idsLoop_stub [OF assms refl, of 0 project "[]"] by (simp add: IDs_def cursorAt_def)
  note ms = listed_sorted(2) [OF assms(2), of scope ?of False]
  have "mset (map fst ?xs) = mset (map fst (held st scope ?of))" using ms by simp
  then have "distinct (map fst ?xs)" using held_distinct [OF assms(2)] by (rule mset_eq_imp_distinct_iff [THEN iffD2])
  then have 2: "distinct ?ids" by (rule distinct_filter)
  have slash: "CHR ''/'' \<notin> set scope"
    using assms(6) by (auto simp: scopeValid_def ScopeChat_def ScopeProfile_def ScopeProject_def ScopeProjectDocument_def)
  have "set ?xs = set (held st scope ?of)" using ms by (metis mset_eq_setD)
  then have 3: "i \<in> set ?ids \<longleftrightarrow> showsDoc scope project i \<and> (\<exists>b. (i, b) \<in> set (held st scope ?of))" for i
    unfolding set_filter list.set_map by (simp add: image_iff Bex_def) blast
  have "showsDoc scope project i \<and> (?of = [] \<or> bProjectID b = Some ?of) \<longleftrightarrow> ofProject scope project i b" for i b
    by (auto simp: showsDoc_def ofProject_def)
  then have "i \<in> set ?ids \<longleftrightarrow> (\<exists>b. (StubKey scope i, b) \<in> set (Blobs st) \<and> ofProject scope project i b)" for i
    unfolding 3 held_set [OF assms(2) slash] by metis
  then show ?thesis using 1 2 by blast
qed

text \<open>A control plane with two chats, one of them in a project, and a cursor as text.\<close>

definition readInt :: "string \<Rightarrow> int" where
  "readInt a = (if a \<noteq> [] \<and> hd a = CHR ''-'' then - int (readNat (tl a)) else int (readNat a))"

definition plainCursor :: cursorText where
  "plainCursor = \<lparr>encCursor = (\<lambda>c. fmtInt (At c) @ CHR '':'' # cID c),
     decCursor = (\<lambda>s. let a = takeWhile (\<lambda>c. c \<noteq> CHR '':'') s; rest = dropWhile (\<lambda>c. c \<noteq> CHR '':'') s
        in if rest = [] then None
           else Some \<lparr>At = readInt a, cID = tl rest\<rparr>)\<rparr>"

lemma plainCursor_laws: "cursorLaws plainCursor"
proof -
  have no: "CHR '':'' \<notin> set (fmtInt i)" for i
    using fmtInt_chars [of i] by (auto simp: list_all_iff isIntChar_def isDecDigit_def byte_val_def)
  then have cut: "takeWhile (\<lambda>c. c \<noteq> CHR '':'') (fmtInt i @ CHR '':'' # s) = fmtInt i"
      "dropWhile (\<lambda>c. c \<noteq> CHR '':'') (fmtInt i @ CHR '':'' # s) = CHR '':'' # s" for i s
    by (induction "fmtInt i") (auto simp: takeWhile_append dropWhile_append)
  have minus: "hd (fmtNat n) \<noteq> CHR ''-''" for n
    using fmtNat_digits [of n] fmtNat_nonempty [of n] by (cases "fmtNat n") (auto simp: isDecDigit_def byte_val_def)
  have "readInt (fmtInt i) = i" for i
    using minus by (simp add: fmtInt_def readNat_fmtNat readInt_def)
  then show ?thesis by (simp add: cursorLaws_def plainCursor_def cut Let_def)
qed

definition twoChats :: cpStore where
  "twoChats = NewStub\<lparr>Blobs := [(''chat/a'', storedBlob 1 ''chat'' None 1 (putX ''n'' ''s1'' ''0'')),
     (''chat/b'', (storedBlob 2 ''chat'' None 1 (putX ''m'' ''s2'' ''0''))\<lparr>bProjectID := Some ''p''\<rparr>)]\<rparr>"

definition envS :: "cpStore env" where
  "envS = \<lparr>eT = stubT plainCursor, eHkdf = toyHkdf, eHmac = toyMac, eCodec = plainCodec, eNow = (\<lambda>_. 0),
     eRand = (\<lambda>w. (w, None, None, None)), eUUID = (\<lambda>w. (w, ''n'')), eJSON = (\<lambda>_. Some (AMap [])), eMarshal = (\<lambda>_. []),
     eTime = (\<lambda>_. None), ePromote = (\<lambda>w _ _ _ _. (w, None)), eDropBuckets = (\<lambda>w _ _. w), eChatStored = None, eChatRemoved = None\<rparr>"

theorem ids_name_every_row_witness:
  "\<exists>ids. IDs envS twoChats \<lparr>pID = ''u'', pGrant = None\<rparr> ''chat'' ''p'' = Some (twoChats, Inr ids) \<and> distinct ids \<and> ''b'' \<in> set ids \<and> ''a'' \<notin> set ids"
proof -
  have "keysApart twoChats" "countOf (ListStatusFailures twoChats) ''chat'' \<le> 0" "eT envS = stubT plainCursor" "scopeValid ''chat''"
    by (simp_all add: keysApart_def twoChats_def NewStub_def countOf_def envS_def scopeValid_def ScopeChat_def)
  from ids_name_every_row [OF plainCursor_laws this(1-3) _ this(4), of "\<lparr>pID = ''u'', pGrant = None\<rparr>" "''p''"]
  obtain ids where ids: "IDs envS twoChats \<lparr>pID = ''u'', pGrant = None\<rparr> ''chat'' ''p'' = Some (twoChats, Inr ids)" "distinct ids"
      "\<forall>i. i \<in> set ids \<longleftrightarrow> (\<exists>b. (StubKey ''chat'' i, b) \<in> set (Blobs twoChats) \<and> ofProject ''chat'' ''p'' i b)" by auto
  have "''b'' \<in> set ids" "''a'' \<notin> set ids"
    unfolding ids(3) [rule_format] by (simp_all add: twoChats_def ofProject_def StubKey_def storedBlob_def putX_def)
  then show ?thesis using ids by blast
qed

end
