(* ===== verification/Page_Walk.thy ===== *)
theory Page_Walk
  imports Row_Listing Row_Reads
begin

text \<open>The walk over every page, \<^verbatim>\<open>Store.EachPage\<close>, against the control plane's own listing.  Reading a chat
  written before the control plane kept its activity records it, which files the chat behind the
  pages already listed while the walk goes on; the walk still ends and visits every row once.\<close>

section \<open>What reading changes\<close>

text \<open>Reading some rows may reseal them and record their activity, which moves their place once.\<close>

definition sameRow :: "Blob \<Rightarrow> Blob \<Rightarrow> bool" where
  "sameRow b b' \<longleftrightarrow> bProjectID b' = bProjectID b \<and>
     (listedAt b' = listedAt b \<and> (bActivityAt b' = None \<longrightarrow> bActivityAt b = None) \<or> bActivityAt b = None \<and> bActivityAt b' \<noteq> None)"

definition tended :: "string set \<Rightarrow> cpStore \<Rightarrow> cpStore \<Rightarrow> bool" where
  "tended I st st' \<longleftrightarrow> map fst (Blobs st') = map fst (Blobs st) \<and> GetBlobFailures st' = GetBlobFailures st \<and>
     ListStatusFailures st' = ListStatusFailures st \<and>
     (\<forall>k b. map_of (Blobs st) k = Some b \<longrightarrow> (\<exists>b'. map_of (Blobs st') k = Some b' \<and> sameRow b b' \<and> (k \<notin> I \<longrightarrow> b' = b)))"

lemma sameRow_refl [simp]: "sameRow b b"
  by (simp add: sameRow_def)

lemma sameRow_trans: "sameRow a b \<Longrightarrow> sameRow b c \<Longrightarrow> sameRow a c"
  by (auto simp: sameRow_def)

lemma tended_refl [simp]: "tended I st st"
  by (simp add: tended_def)

lemma tended_trans:
  assumes "tended I a b" "tended J b c"
  shows "tended (I \<union> J) a c"
proof -
  have "\<exists>d'. map_of (Blobs c) k = Some d' \<and> sameRow d d' \<and> (k \<notin> I \<union> J \<longrightarrow> d' = d)" if k: "map_of (Blobs a) k = Some d" for k d
  proof -
    obtain e where e: "map_of (Blobs b) k = Some e" "sameRow d e" "k \<notin> I \<longrightarrow> e = d" using assms(1) k unfolding tended_def by blast
    obtain f where f: "map_of (Blobs c) k = Some f" "sameRow e f" "k \<notin> J \<longrightarrow> f = e" using assms(2) e(1) unfolding tended_def by blast
    then show ?thesis using e sameRow_trans by blast
  qed
  then show ?thesis using assms unfolding tended_def by auto
qed

lemma tended_mono: "tended I st st' \<Longrightarrow> I \<subseteq> J \<Longrightarrow> tended J st st'"
  unfolding tended_def by blast

lemma update_keys: "map_of xs k \<noteq> None \<Longrightarrow> map fst (AList.update k v xs) = map fst xs"
  by (induction xs) auto

lemma tended_update:
  assumes "map_of (Blobs st) k = Some b" "sameRow b b'" "Blobs st' = AList.update k b' (Blobs st)"
    "GetBlobFailures st' = GetBlobFailures st" "ListStatusFailures st' = ListStatusFailures st"
  shows "tended {k} st st'"
  using assms update_keys [of "Blobs st" k b'] unfolding tended_def by (auto simp: update_conv')

lemma rewrap_tended:
  assumes "rewrapFields (qBody r) = Some (scope, i, kid, m, c)"
  shows "tended {StubKey scope (if scope = ''profile'' then ''profile'' else i)} st (fst (handleRewrap st r))"
proof -
  let ?k = "StubKey scope (if scope = ''profile'' then ''profile'' else i)"
  show ?thesis
  proof (cases "map_of (Blobs st) ?k")
    case None
    then show ?thesis using assms by (auto simp: handleRewrap_def Let_def split: option.split)
  next
    case (Some b)
    have "tended {?k} st (st\<lparr>Blobs := AList.update ?k (b\<lparr>bETag := n, bKeyID := kid, bBody := x\<rparr>) (Blobs st)\<rparr>)" for n x
      by (rule tended_update [OF Some]) (simp_all add: sameRow_def listedAt_def split: option.split)
    then show ?thesis using assms Some by (auto simp: handleRewrap_def Let_def split: option.split)
  qed
qed

lemma backfill_tended:
  assumes "qBody r = JObj [(''id'', AString i), (''etag'', AString e)]"
  shows "tended {StubKey ''chat'' i} st (fst (handleBackfillChatActivity st r))"
proof -
  let ?k = "StubKey ''chat'' i"
  let ?st = "st\<lparr>ActivityBackfills := ActivityBackfills st @ [(i, e, hActivityAt r)]\<rparr>"
  have plain: "tended {?k} st ?st" by (simp add: tended_def)
  show ?thesis
  proof (cases "map_of (Blobs st) ?k")
    case None
    then show ?thesis using assms plain by (cases "hActivityAt r") (simp_all add: handleBackfillChatActivity_def strField_def Let_def)
  next
    case (Some b)
    have "tended {?k} st (?st\<lparr>Blobs := AList.update ?k (b\<lparr>bActivityAt := Some t\<rparr>) (Blobs st)\<rparr>)" if "bActivityAt b = None" for t
      by (rule tended_update [OF Some]) (simp_all add: sameRow_def that)
    then show ?thesis using assms Some plain
      by (cases "hActivityAt r") (simp_all add: handleBackfillChatActivity_def strField_def Let_def)
  qed
qed

section \<open>Reading one row\<close>

text \<open>The rest of the environment leaves the control plane alone.\<close>

definition overStub :: "cursorText \<Rightarrow> cpStore env \<Rightarrow> bool" where
  "overStub K E \<longleftrightarrow> eT E = stubT K \<and> (\<forall>w. fst (eRand E w) = w) \<and> (\<forall>w a b c d. fst (ePromote E w a b c d) = w)"

lemma stubDo_serve: "qPath r \<noteq> ListStatusPath \<Longrightarrow> stubDo K st r = (fst (serve 0 st r), Inr (snd (serve 0 st r), False))"
  by (simp add: stubDo_def split: prod.split)

lemma urlPath_fixed:
  "urlPath RewrapPath = RewrapPath" "urlPath ChatActivityPath = ChatActivityPath" "urlPath ''/api/sync/keys/current'' = ''/api/sync/keys/current''"
  by code_simp+

lemmas urlPath_literal = urlPath_fixed [unfolded RewrapPath_def ChatActivityPath_def]

lemma serve_rewrap_tended:
  assumes "qPath r = RewrapPath" "qMethod r = ''POST''" "rewrapFields (qBody r) = Some (scope, i, kid, m, c)"
  shows "tended {StubKey scope (if scope = ''profile'' then ''profile'' else i)} st (fst (serve t st r))"
proof -
  have s: "serve t st r = idempotent handleRewrap st r"
    using assms(1,2) by (simp add: serve_def changeRoute_def routeBlob_def blobPrefix_def CutPrefix_def RewrapPath_def DeleteAllProjectsPath_def)
  have "tended I st (st'\<lparr>answered := a\<rparr>) = tended I st st'" for I st' a by (simp add: tended_def)
  then show ?thesis unfolding s using rewrap_tended [OF assms(3), of st]
    by (auto simp: idempotent_def Let_def split: prod.split option.split)
qed

lemma rewrapBlob_tended:
  assumes E: "overStub K E" and out: "rewrapBlob (eT E) st req = (st', x)" and i: "uScope req = scope" "uID req = i"
  shows "tended {StubKey scope (if scope = ''profile'' then ''profile'' else i)} st st'"
proof -
  let ?r = "rewrapRequest req"
  have r: "qPath ?r = RewrapPath" "qMethod ?r = ''POST''" "qPath ?r \<noteq> ListStatusPath"
      "rewrapFields (qBody ?r) = Some (scope, i, uKeyIDHex req, uIfMatch req, b64Encode (uCiphertext req))"
    using i by (simp_all add: rewrapRequest_def newRequest_def urlPath_literal rewrapFields_def strField_def RewrapPath_def ListStatusPath_def)
  have "st' = fst (serve 0 st ?r)"
    using out E stubDo_serve [OF r(3), of K st] by (simp add: rewrapBlob_def overStub_def stubT_def)
  then show ?thesis using serve_rewrap_tended [OF r(1,2,4), of st 0] by simp
qed

lemma backfillCall_tended:
  assumes "overStub K E"
  shows "tended {StubKey ''chat'' i} st (fst (BackfillChatActivity (eT E) st u i e t))"
proof -
  let ?r = "(newRequest ''POST'' ChatActivityPath u)\<lparr>hActivityAt := Some t, qBody := JObj [(''id'', AString i), (''etag'', AString e)]\<rparr>"
  have r: "qPath ?r = ChatActivityPath" "qMethod ?r = ''POST''" "qPath ?r \<noteq> ListStatusPath"
    "qBody ?r = JObj [(''id'', AString i), (''etag'', AString e)]"
    by (simp_all add: newRequest_def urlPath_literal ChatActivityPath_def ListStatusPath_def)
  have "serve 0 st ?r = handleBackfillChatActivity st ?r"
    using r(1,2) by (simp add: serve_def changeRoute_def otherRoute_def routeBlob_def blobPrefix_def CutPrefix_def
        ChatActivityPath_def RewrapPath_def RegisterKeyPath_def DeleteAllProjectsPath_def routeBundle_def)
  then have "fst (BackfillChatActivity (eT E) st u i e t) = fst (handleBackfillChatActivity st ?r)"
    using assms stubDo_serve [OF r(3), of K st] by (simp add: BackfillChatActivity_def overStub_def stubT_def)
  then show ?thesis using backfill_tended [OF r(4), of st] by simp
qed

lemma currentKey_same:
  assumes "overStub K E"
  shows "fst (GetCurrentKey (eT E) st u) = st"
proof -
  let ?r = "newRequest ''GET'' ''/api/sync/keys/current'' u"
  have r: "qPath ?r = ''/api/sync/keys/current''" "qMethod ?r = ''GET''" "qPath ?r \<noteq> ListStatusPath"
    by (simp_all add: newRequest_def urlPath_fixed ListStatusPath_def)
  have "serve 0 st ?r = handleCurrentKey st ?r"
    using r(1,2) by (simp add: serve_def changeRoute_def otherRoute_def routeBlob_def blobPrefix_def CutPrefix_def
        ChatActivityPath_def RewrapPath_def RegisterKeyPath_def DeleteAllProjectsPath_def SearchIndexStatePath_def routeBundle_def)
  then have "fst (serve 0 st ?r) = st" by (simp add: handleCurrentKey_def)
  then show ?thesis using assms stubDo_serve [OF r(3), of K st] by (simp add: GetCurrentKey_def overStub_def stubT_def split: prod.split)
qed

lemma promote_same: "overStub K E \<Longrightarrow> fst (promoteAtt E st p c a) = st"
  by (auto simp: promoteAtt_def Let_def overStub_def split: any.split prod.split option.split) (metis fst_conv)+

lemma promoteAtts_same: "overStub K E \<Longrightarrow> fst (promoteAtts E st p c as) = st"
proof (induction as arbitrary: st)
  case (Cons a as)
  then show ?case using promote_same [OF Cons.prems, of st p c a] by (auto split: prod.split) (metis Cons.IH Cons.prems fst_conv)
qed simp

lemma promoteMessage_same: "overStub K E \<Longrightarrow> fst (promoteMessage E st p c m) = st"
  using promoteAtts_same [of K E st p c]
  by (auto simp: promoteMessage_def Let_def split: any.split prod.split option.split) (metis fst_conv)

lemma promoteMessages_same: "overStub K E \<Longrightarrow> fst (promoteMessages E st p c ms) = st"
proof (induction ms arbitrary: st)
  case (Cons m ms)
  then show ?case using promoteMessage_same [OF Cons.prems, of st p c m] by (auto split: prod.split) (metis Cons.IH Cons.prems fst_conv)
qed simp

lemma rewrapChat_same: "overStub K E \<Longrightarrow> fst (rewrapChatAttachments E st p c d) = st"
  using promoteMessages_same [of K E st p c]
  by (auto simp: rewrapChatAttachments_def Let_def split: any.split prod.split option.split) (metis fst_conv)+

lemma rewrapRow_tended:
  assumes E: "overStub K E" and out: "rewrapRow E st p scope i d e k = (st', x)"
  shows "tended {StubKey scope (if scope = ''profile'' then ''profile'' else i)} st st'"
proof -
  let ?c = "if scope = ''chat'' then rewrapChatAttachments E st p i d else (st, Inr None)"
  obtain w n where wn: "?c = (w, n)" by (rule prod.exhaust [of ?c])
  then have "w = st" using rewrapChat_same [OF E, of st p i d] by (auto split: if_splits)
  then have c: "?c = (st, n)" using wn by simp
  obtain r where rnd: "eRand E st = (st, r)" using E by (cases "eRand E st") (auto simp: overStub_def, metis fst_conv)
  have 3: "tended {StubKey scope (if scope = ''profile'' then ''profile'' else i)} st w3"
    if "PutBlob (eT E) st q = (w3, y)" "uRewrap q" "uScope q = scope" "uID q = i" for q w3 y
    using that rewrapBlob_tended [OF E, of st q w3 y] by (simp add: PutBlob_def)
  show ?thesis using out 3 unfolding rewrapRow_def c by (auto simp: Let_def rnd split: sum.splits prod.splits)
qed

lemma canRewrap_same: "overStub K E \<Longrightarrow> fst (fst (canRewrap E (st, probe) p kid)) = st"
  using currentKey_same [of K E st "pID p"]
  by (auto simp: canRewrap_def currentPrimaryKeyIs_def split: option.split prod.split sum.split)

lemma backfill_tended_row: "overStub K E \<Longrightarrow> tended {StubKey scope i} st (backfillChatActivity E st p scope i blob etag d)"
  using backfillCall_tended [of K E i st] by (auto simp: backfillChatActivity_def split: option.split)

definition fetchable :: "cpStore \<Rightarrow> string \<Rightarrow> string \<Rightarrow> bool" where
  "fetchable st scope i \<longleftrightarrow> i \<noteq> [] \<and> scope \<noteq> ''profile'' \<and> (\<exists>path. PathFor scope i = Inr path) \<and> map_of (Blobs st) (StubKey scope i) \<noteq> None"

lemma fetchable_tended: "tended I st st' \<Longrightarrow> fetchable st scope i \<Longrightarrow> fetchable st' scope i"
  unfolding tended_def fetchable_def by fastforce

lemma GetBlob_stub:
  assumes E: "overStub K E" and f: "GetBlobFailures st = []" and i: "fetchable st scope i"
  shows "\<exists>blob. GetBlob (eT E) st scope i u = (st, Inr blob)"
proof -
  obtain path b where path: "PathFor scope i = Inr path" and b: "map_of (Blobs st) (StubKey scope i) = Some b"
    using i by (auto simp: fetchable_def)
  have ne: "i \<noteq> []" "scope \<noteq> ''profile''" using i by (auto simp: fetchable_def)
  let ?r = "newRequest ''GET'' path u"
  have rt: "routeBlob (qPath ?r) = Some (scope, i)" "qMethod ?r = ''GET''"
    using routeBlob_PathFor [OF path ne(1)] ne(2) by (simp_all add: newRequest_def)
  have nl: "qPath ?r \<noteq> ListStatusPath"
    using rt(1) by (auto simp: ListStatusPath_def routeBlob_def blobPrefix_def CutPrefix_def)
  have "stubDo K st ?r = (st, Inr (snd (serve 0 st ?r), False))" "pStatus (snd (serve 0 st ?r)) = 200"
    using stubDo_serve [OF nl, of K st] serve_get [OF rt f, where t = 0] b by auto
  then show ?thesis using E path by (simp add: GetBlob_def overStub_def stubT_def)
qed

text \<open>A row that is there is opened or unreadable, and reading it tends to nothing else.\<close>

definition settledItem :: "string \<times> pulled \<Rightarrow> bool" where
  "settledItem x \<longleftrightarrow> coherent (snd x) \<and> \<not> plTransient (snd x) \<and> (plRow (snd x) \<noteq> None \<or> plErr (snd x) \<noteq> None) \<and>
     (\<forall>row. plRow (snd x) = Some row \<longrightarrow> rID row = fst x)"

lemma pullOne_stub:
  assumes E: "overStub K E" and f: "GetBlobFailures st = []" and i: "fetchable st scope i"
    and out: "pullOne E (st, probe) p k scope i = ((st', probe'), item)"
  shows "tended {StubKey scope i} st st' \<and> settledItem (i, item)"
proof -
  obtain blob where get: "GetBlob (eT E) st scope i (pID p) = (st, Inr blob)" using GetBlob_stub [OF E f i] by blast
  have np: "scope \<noteq> ''profile''" using i by (simp add: fetchable_def)
  show ?thesis
  proof (cases "\<exists>plaintext legacy. openRow E p k scope i (gCiphertext blob) = Inr (plaintext, legacy) \<and> \<not> notObject E plaintext")
    case False
    then obtain e where "pullOne E (st, probe) p k scope i = ((st, probe), pulledErr e)"
      using get by (cases "openRow E p k scope i (gCiphertext blob)") (auto simp: pullOne_def)
    then show ?thesis using out by (auto simp: pulledErr_def settledItem_def coherent_def)
  next
    case True
    then obtain plaintext legacy where o: "openRow E p k scope i (gCiphertext blob) = Inr (plaintext, legacy)" "\<not> notObject E plaintext" by blast
    let ?c = "if legacy then canRewrap E (st, probe) p (kKeyIDHex k) else ((st, probe), False)"
    obtain wp can where wc: "?c = (wp, can)" by (rule prod.exhaust [of ?c])
    have "fst wp = st"
    proof (cases legacy)
      case True
      then have "canRewrap E (st, probe) p (kKeyIDHex k) = (wp, can)" using wc by simp
      then show ?thesis using canRewrap_same [OF E, of st probe p "kKeyIDHex k"] by simp
    next
      case False
      then show ?thesis using wc by auto
    qed
    then obtain probe2 where c: "?c = ((st, probe2), can)" using wc by (cases wp) simp
    let ?e = "if can then (case rewrapRow E st p scope i plaintext (gETag blob) k of
        (w, Inr etag) \<Rightarrow> (w, etag) | (w, Inl _) \<Rightarrow> (w, gETag blob)) else (st, gETag blob)"
    obtain w3 etag where e: "?e = (w3, etag)" by (rule prod.exhaust [of ?e])
    have "tended {StubKey scope i} st w" if "rewrapRow E st p scope i plaintext (gETag blob) k = (w, x)" for w x
      using rewrapRow_tended [OF E that] np by simp
    then have 3: "tended {StubKey scope i} st w3" using e by (auto split: if_splits prod.splits sum.splits)
    have r: "st' = backfillChatActivity E w3 p scope i blob etag plaintext"
      "item = \<lparr>plRow = Some \<lparr>rID = i, rETag = etag, rData = plaintext, rProject = gProjectID blob, rProjectSet = gProjectIDSet blob,
         rUpdatedAt = gUpdatedAt blob\<rparr>, plErr = None, plTransient = False\<rparr>"
      using out get o c e unfolding pullOne_def by (auto simp: Let_def)
    have "tended ({StubKey scope i} \<union> {StubKey scope i}) st st'" unfolding r(1) by (rule tended_trans [OF 3 backfill_tended_row [OF E]])
    then show ?thesis using r(2) by (simp add: settledItem_def coherent_def)
  qed
qed

section \<open>Reading a page\<close>

lemma pullEach_stub:
  assumes E: "overStub K E" and "GetBlobFailures st = []" "\<forall>i\<in>set ids. fetchable st scope i"
    "pullEach E (st, probe) p k scope ids = ((st', probe'), items)"
  shows "tended (StubKey scope ` set ids) st st' \<and> map fst items = ids \<and> (\<forall>x\<in>set items. settledItem x)"
  using assms(2-)
proof (induction ids arbitrary: st probe items)
  case (Cons i ids)
  obtain st1 probe1 item where one: "pullOne E (st, probe) p k scope i = ((st1, probe1), item)" by (metis prod.exhaust)
  obtain rest where each: "pullEach E (st1, probe1) p k scope ids = ((st', probe'), rest)" and o: "items = (i, item) # rest"
    using Cons.prems(3) one by (auto split: prod.splits)
  have "fetchable st scope i" using Cons.prems(2) by simp
  note f = pullOne_stub [OF E Cons.prems(1) this one]
  have t: "tended {StubKey scope i} st st1" using f by simp
  have "GetBlobFailures st1 = []" using t Cons.prems(1) by (simp add: tended_def)
  moreover have "\<forall>j\<in>set ids. fetchable st1 scope j" using Cons.prems(2) fetchable_tended [OF t] by simp
  ultimately have r: "tended (StubKey scope ` set ids) st1 st' \<and> map fst rest = ids \<and> (\<forall>x\<in>set rest. settledItem x)"
    using Cons.IH each by blast
  then have "tended ({StubKey scope i} \<union> StubKey scope ` set ids) st st'" using tended_trans [OF t] by blast
  then show ?case using f r o by simp
qed simp

lemma batch_stub:
  assumes E: "overStub K E" and f: "GetBlobFailures st = []" and ids: "\<forall>i\<in>set ids. fetchable st scope i"
    and out: "pullBatch E (st, probe) p k scope ids (rows, failed) = ((st', probe'), rows', failed')"
  shows "tended (StubKey scope ` set ids) st st' \<and> (\<exists>new. rows' = rows @ new \<and> rID ` set new \<union> fst ` set failed' = set ids \<union> fst ` set failed)"
proof -
  obtain w1 probe1 items where each: "pullEach E (st, probe) p k scope (remdupsFirst ids) = ((w1, probe1), items)" by (metis prod.exhaust)
  have ids': "\<forall>i\<in>set (remdupsFirst ids). fetchable st scope i" using ids by (simp add: remdupsFirst_facts)
  note e = pullEach_stub [OF E f ids' each]
  obtain again rows1 failed1 where s: "settle True items (rows, failed) = (again, rows1, failed1)" by (metis prod.exhaust)
  have co: "\<forall>x\<in>set items. coherent (snd x)" using e by (auto simp: settledItem_def)
  note parts = settle_parts [OF co s]
  have "again = []" using parts e by (auto simp: settledItem_def filter_empty_conv)
  then have o: "st' = w1" "rows' = rows1" "failed' = failed1"
    using out each s by (auto simp: pullBatch_def pullBatchOnce_def)
  let ?new = "List.map_filter (plRow \<circ> snd) items" and ?lost = "fst ` {x\<in>set items. plErr (snd x) \<noteq> None \<and> (plTransient (snd x) \<longrightarrow> \<not> True)}"
  have settled: "\<forall>x\<in>set items. settledItem x" and fst: "map fst items = remdupsFirst ids" using e by simp_all
  have rows: "rID ` set ?new = fst ` {x\<in>set items. plRow (snd x) \<noteq> None}"
    using settled by (induction items) (auto simp: map_filter_simps settledItem_def split: option.splits)
  have "plErr (snd x) \<noteq> None \<and> (plTransient (snd x) \<longrightarrow> \<not> True) \<or> plRow (snd x) \<noteq> None" if "x \<in> set items" for x
    using settled that by (auto simp: settledItem_def)
  then have "rID ` set ?new \<union> ?lost = fst ` set items" unfolding rows by blast
  then have all: "rID ` set ?new \<union> ?lost = set ids" using arg_cong [OF fst, of set] by (simp add: remdupsFirst_facts)
  have new: "rows' = rows @ ?new" "fst ` set failed' = fst ` set failed \<union> ?lost" using parts o by simp_all
  have "rID ` set ?new \<union> fst ` set failed' = set ids \<union> fst ` set failed" unfolding new(2) all [symmetric] by (simp only: Un_ac)
  moreover have "tended (StubKey scope ` set ids) st st'" using e o(1) by (simp add: remdupsFirst_facts)
  ultimately show ?thesis using new(1) by (intro conjI exI [of _ ?new])
qed

lemma pull_stub:
  assumes E: "overStub K E" and f: "GetBlobFailures st = []" and ids: "\<forall>i\<in>set ids. fetchable st scope i" "ids \<noteq> []" "length ids \<le> PullBatch"
    and p: "pGrant p = None" "scopeValid scope"
  shows "\<exists>st' rows failed. Pull E st p key scope ids = (st', Inr (rows, failed)) \<and> tended (StubKey scope ` set ids) st st' \<and>
    rID ` set rows \<union> fst ` set failed = set ids"
proof -
  obtain st' probe' rows failed where b: "pullBatch E (st, None) p \<lparr>kBytes = key, kKeyIDHex = keyID (eHkdf E) key\<rparr> scope ids ([], []) =
      ((st', probe'), rows, failed)" by (metis prod.exhaust)
  have "Pull E st p key scope ids = (st', Inr (rows, failed))"
    using b ids p by (simp add: Pull_def pullBatches.simps)
  then show ?thesis using batch_stub [OF E f ids(1) b] by auto
qed

section \<open>The rows of a walk\<close>

definition filedUnder :: "string \<Rightarrow> string \<Rightarrow> string" where
  "filedUnder scope project = (if scope = ''chat'' then project else [])"

definition inScope :: "cpStore \<Rightarrow> string \<Rightarrow> string \<Rightarrow> string set" where
  "inScope st scope project = {i. \<exists>b. map_of (Blobs st) (StubKey scope i) = Some b \<and>
     (filedUnder scope project = [] \<or> bProjectID b = Some (filedUnder scope project))}"

definition placeOf :: "cpStore \<Rightarrow> string \<Rightarrow> string \<Rightarrow> listCursor" where
  "placeOf st scope i = place (i, the (map_of (Blobs st) (StubKey scope i)))"

definition behind :: "listCursor option \<Rightarrow> listCursor \<Rightarrow> bool" where
  "behind cur c = (case cur of None \<Rightarrow> True | Some a \<Rightarrow> listedFirst False a c)"

lemma slash_scope: "scopeValid scope \<Longrightarrow> CHR ''/'' \<notin> set scope"
  by (auto simp: scopeValid_def ScopeChat_def ScopeProfile_def ScopeProject_def ScopeProjectDocument_def)

lemma keys_map_of: "keysApart st \<Longrightarrow> (k, b) \<in> set (Blobs st) \<longleftrightarrow> map_of (Blobs st) k = Some b"
  by (simp add: keysApart_def)

lemma keysApart_tended: "tended I st st' \<Longrightarrow> keysApart st \<Longrightarrow> keysApart st'"
  unfolding tended_def keysApart_def by (metis list.set_map)

lemma held_inScope:
  assumes "keysApart st" "scopeValid scope"
  shows "(i, b) \<in> set (held st scope (filedUnder scope project)) \<longleftrightarrow> i \<in> inScope st scope project \<and> map_of (Blobs st) (StubKey scope i) = Some b"
  unfolding held_set [OF assms(1) slash_scope [OF assms(2)]] keys_map_of [OF assms(1)] inScope_def by auto

lemma inScope_tended:
  assumes "tended I st st'" "keysApart st"
  shows "inScope st' scope project = inScope st scope project"
proof -
  have "(\<exists>b'. map_of (Blobs st') k = Some b' \<and> (u = [] \<or> bProjectID b' = Some u)) \<longleftrightarrow>
      (\<exists>b. map_of (Blobs st) k = Some b \<and> (u = [] \<or> bProjectID b = Some u))" for k u
  proof (cases "map_of (Blobs st) k")
    case None
    then have "k \<notin> fst ` set (Blobs st')" using assms(1) unfolding tended_def by (metis list.set_map map_of_eq_None_iff)
    then show ?thesis using None by (simp add: map_of_eq_None_iff [symmetric])
  next
    case (Some b)
    then obtain b' where "map_of (Blobs st') k = Some b'" "sameRow b b'" using assms(1) unfolding tended_def by blast
    then show ?thesis using Some by (simp add: sameRow_def)
  qed
  then show ?thesis by (simp add: inScope_def)
qed

lemma placeOf_tended:
  assumes "tended I st st'" "i \<in> inScope st scope project" "StubKey scope i \<notin> I"
  shows "map_of (Blobs st') (StubKey scope i) = map_of (Blobs st) (StubKey scope i)"
  using assms unfolding tended_def inScope_def by fastforce

text \<open>A page from a cursor: the rows behind it in order, up to the limit.\<close>

lemma page_facts:
  fixes K cur project
  assumes wf: "keysApart st" "scopeValid scope" and lim: "0 < (limit :: nat)" and K: "cursorLaws K"
  defines "page \<equiv> pageFrom K (int limit) False cur (listed st scope (filedUnder scope project) False)"
  shows "length (fst page) \<le> limit"
    "fst ` set (fst page) \<subseteq> {i \<in> inScope st scope project. behind cur (placeOf st scope i)}"
    "snd page = [] \<Longrightarrow> fst ` set (fst page) = {i \<in> inScope st scope project. behind cur (placeOf st scope i)}"
    "snd page \<noteq> [] \<Longrightarrow> \<exists>c. snd page = encCursor K c \<and> fst page \<noteq> [] \<and> behind cur c \<and>
       (\<forall>i\<in>fst ` set (fst page). \<not> listedFirst False c (placeOf st scope i)) \<and>
       (\<forall>i\<in>inScope st scope project. behind cur (placeOf st scope i) \<longrightarrow> i \<notin> fst ` set (fst page) \<longrightarrow> listedFirst False c (placeOf st scope i))"
proof -
  define xs where "xs = listed st scope (filedUnder scope project) False"
  define ys where "ys = filter (\<lambda>x. behind cur (place x)) xs"
  have row: "x \<in> set xs \<longleftrightarrow> fst x \<in> inScope st scope project \<and> map_of (Blobs st) (StubKey scope (fst x)) = Some (snd x)" for x
    using held_inScope [OF wf, of "fst x" "snd x" project] listed_sorted(2) [OF wf(1), of scope "filedUnder scope project" False]
    unfolding xs_def by (metis mset_eq_setD prod.collapse)
  have pl: "placeOf st scope (fst x) = place x" if "x \<in> set xs" for x using row that by (simp add: placeOf_def)
  have ids: "fst ` set ys = {i \<in> inScope st scope project. behind cur (placeOf st scope i)}"
  proof (intro set_eqI iffI)
    fix i assume "i \<in> fst ` set ys"
    then show "i \<in> {i \<in> inScope st scope project. behind cur (placeOf st scope i)}" using row pl by (auto simp: ys_def)
  next
    fix i assume i: "i \<in> {i \<in> inScope st scope project. behind cur (placeOf st scope i)}"
    then obtain b where "map_of (Blobs st) (StubKey scope i) = Some b" by (auto simp: inScope_def)
    then have "(i, b) \<in> set xs" using i row [of "(i, b)"] by simp
    then have "(i, b) \<in> set ys" using i pl [of "(i, b)"] by (simp add: ys_def)
    then show "i \<in> fst ` set ys" by force
  qed
  have sorted: "sorted_wrt (\<lambda>x y. listedFirst False (place x) (place y)) ys"
    unfolding ys_def xs_def by (intro sorted_wrt_filter listed_sorted(1) [OF wf(1)])
  have after: "(case cur of None \<Rightarrow> xs | Some c \<Rightarrow> filter (\<lambda>x. listedFirst False c (place x)) xs) = ys"
    by (cases cur) (simp_all add: ys_def behind_def)
  have page: "page = (if limit \<le> length ys then (take limit ys, encCursor K (place (last (take limit ys)))) else (ys, []))"
    unfolding page_def pageFrom_def xs_def [symmetric] after Let_def using lim by simp
  have enc: "encCursor K c \<noteq> []" for c using K by (simp add: cursorLaws_def)
  show "length (fst page) \<le> limit" using page by simp
  show "fst ` set (fst page) \<subseteq> {i \<in> inScope st scope project. behind cur (placeOf st scope i)}"
    unfolding ids [symmetric] page by (auto dest: in_set_takeD)
  show "fst ` set (fst page) = {i \<in> inScope st scope project. behind cur (placeOf st scope i)}" if "snd page = []"
    unfolding ids [symmetric] using page that enc by (simp split: if_splits)
  assume "snd page \<noteq> []"
  then have full: "limit \<le> length ys" "page = (take limit ys, encCursor K (place (last (take limit ys))))" using page by (auto split: if_splits)
  let ?last = "ys ! (limit - 1)"
  have "take limit ys \<noteq> []" using full(1) lim by auto
  then have last: "last (take limit ys) = ?last" "?last \<in> set ys" using full(1) lim by (simp_all add: last_conv_nth)
  have le: "\<not> listedFirst False (place ?last) (place x)" if "x \<in> set (take limit ys)" for x
  proof -
    obtain j where "j < limit" "x = ys ! j" using \<open>x \<in> set (take limit ys)\<close> by (auto simp: in_set_conv_nth)
    then have "x = ?last \<or> listedFirst False (place x) (place ?last)"
      using sorted full(1) by (cases "j = limit - 1") (auto simp: sorted_wrt_iff_nth_less)
    then show ?thesis using placed.irreflexive placed.asymmetric by blast
  qed
  have gt: "listedFirst False (place ?last) (place x)" if "x \<in> set ys" "x \<notin> set (take limit ys)" for x
  proof -
    obtain j where j: "j < length ys" "x = ys ! j" using \<open>x \<in> set ys\<close> by (auto simp: in_set_conv_nth)
    have "\<not> j < limit"
    proof
      assume "j < limit"
      then have "x \<in> set (take limit ys)" using j full(1) by (auto simp: in_set_conv_nth intro: exI [of _ j])
      then show False using \<open>x \<notin> set (take limit ys)\<close> by simp
    qed
    then show ?thesis using sorted j lim by (simp add: sorted_wrt_iff_nth_less)
  qed
  have sub: "set ys \<subseteq> set xs" by (auto simp: ys_def)
  show "\<exists>c. snd page = encCursor K c \<and> fst page \<noteq> [] \<and> behind cur c \<and>
       (\<forall>i\<in>fst ` set (fst page). \<not> listedFirst False c (placeOf st scope i)) \<and>
       (\<forall>i\<in>inScope st scope project. behind cur (placeOf st scope i) \<longrightarrow> i \<notin> fst ` set (fst page) \<longrightarrow> listedFirst False c (placeOf st scope i))"
  proof (intro exI [of _ "place ?last"] conjI ballI impI)
    show "snd page = encCursor K (place ?last)" using full(2) last(1) by simp
    show "fst page \<noteq> []" using full lim by auto
    show "behind cur (place ?last)" using last(2) by (simp add: ys_def)
  next
    fix i assume "i \<in> fst ` set (fst page)"
    then obtain x where x: "x \<in> set (take limit ys)" "i = fst x" using full(2) by auto
    then have "x \<in> set xs" using sub by (auto dest: in_set_takeD)
    then show "\<not> listedFirst False (place ?last) (placeOf st scope i)" using le [OF x(1)] pl x(2) by simp
  next
    fix i assume i: "i \<in> inScope st scope project" "behind cur (placeOf st scope i)" "i \<notin> fst ` set (fst page)"
    then have "i \<in> fst ` set ys" using ids by blast
    then obtain x where x: "x \<in> set ys" "i = fst x" by auto
    then have "x \<notin> set (take limit ys)" using i(3) full(2) by auto
    then show "listedFirst False (place ?last) (placeOf st scope i)" using gt [OF x(1)] pl [OF subsetD [OF sub x(1)]] x(2) by simp
  qed
qed

section \<open>The walk\<close>

lemma unseen_facts:
  assumes "unseen idOf known xs = (known', ys)"
  shows "set known' = set known \<union> idOf ` set xs \<and> distinct (map idOf ys) \<and> idOf ` set ys = idOf ` set xs - set known"
  using assms
proof (induction xs arbitrary: known known' ys)
  case (Cons x xs)
  show ?case
  proof (cases "idOf x \<in> set known")
    case True
    then show ?thesis using Cons.IH [of known known' ys] Cons.prems by auto
  next
    case False
    obtain zs where z: "unseen idOf (idOf x # known) xs = (known', zs)" "ys = x # zs" using Cons.prems False by (auto split: prod.splits)
    then show ?thesis using Cons.IH [OF z(1)] False by auto
  qed
qed simp

definition logVisit :: "string list visitor" where
  "logVisit a rows unreadable = (a @ map rID rows @ unreadable, None)"

text \<open>How much of a walk is left: the rows behind its cursor, and those whose place may still move.\<close>

definition placesLeft :: "cpStore \<Rightarrow> string \<Rightarrow> string \<Rightarrow> listCursor option \<Rightarrow> nat" where
  "placesLeft st scope project cur = (\<Sum>i\<in>inScope st scope project.
     (if behind cur (placeOf st scope i) then 1 else 0) + (if bActivityAt (the (map_of (Blobs st) (StubKey scope i))) = None then 1 else 0))"

lemma inScope_finite: "finite (inScope st scope project)"
proof -
  have "inj (StubKey scope)" by (simp add: inj_def StubKey_def)
  then have "finite (StubKey scope -` fst ` set (Blobs st))" by (intro finite_vimageI) simp_all
  moreover have "inScope st scope project \<subseteq> StubKey scope -` fst ` set (Blobs st)"
  proof
    fix i assume "i \<in> inScope st scope project"
    then have "map_of (Blobs st) (StubKey scope i) \<noteq> None" by (auto simp: inScope_def)
    then show "i \<in> StubKey scope -` fst ` set (Blobs st)" by (simp add: map_of_eq_None_iff)
  qed
  ultimately show ?thesis by (rule rev_finite_subset)
qed

lemma placesLeft_less:
  assumes t: "tended (StubKey scope ` L) st st'" "keysApart st" and L: "L \<subseteq> Pg" "Pg \<subseteq> inScope st scope project" "Pg \<noteq> {}"
    and c: "behind cur c" "\<forall>i\<in>Pg. behind cur (placeOf st scope i) \<and> \<not> listedFirst False c (placeOf st scope i)"
  shows "placesLeft st' scope project (Some c) < placesLeft st scope project cur"
proof -
  let ?I = "inScope st scope project"
  let ?f = "\<lambda>st cur i. (if behind cur (placeOf st scope i) then 1 else 0) + (if bActivityAt (the (map_of (Blobs st) (StubKey scope i))) = None then 1 else 0) :: nat"
  have inj: "StubKey scope i \<in> StubKey scope ` L \<longleftrightarrow> i \<in> L" for i by (auto simp: StubKey_def)
  have out: "?f st' (Some c) i \<le> ?f st cur i" if "i \<in> ?I" "i \<notin> Pg" for i
  proof -
    have "map_of (Blobs st') (StubKey scope i) = map_of (Blobs st) (StubKey scope i)"
      using placeOf_tended [OF t(1) that(1)] that(2) L(1) inj by blast
    moreover have "behind cur x" if "behind (Some c) x" for x
      using that c(1) placed.transitive by (cases cur) (auto simp: behind_def)
    ultimately show ?thesis by (auto simp: placeOf_def)
  qed
  have page: "?f st' (Some c) i < ?f st cur i" if i: "i \<in> Pg" for i
  proof -
    obtain b where b: "map_of (Blobs st) (StubKey scope i) = Some b" using i L(2) by (auto simp: inScope_def)
    obtain b' where b': "map_of (Blobs st') (StubKey scope i) = Some b'" "sameRow b b'" using t(1) b unfolding tended_def by blast
    have "placeOf st scope i = place (i, b)" using b by (simp add: placeOf_def)
    then have pl: "behind cur (place (i, b))" "\<not> behind (Some c) (place (i, b))"
      using c(2) [rule_format, OF i] unfolding behind_def [of "Some c"] by simp_all
    have "place (i, b') = place (i, b)" if "listedAt b' = listedAt b" using that by (simp add: place_def)
    then show ?thesis using b b' pl by (auto simp: placeOf_def sameRow_def)
  qed
  have le: "?f st' (Some c) i \<le> ?f st cur i" if "i \<in> ?I" for i using out [OF that] page [of i] by (cases "i \<in> Pg") auto
  obtain i where "i \<in> Pg" using L(3) by auto
  then have "sum (?f st' (Some c)) ?I < sum (?f st cur) ?I"
    using sum_strict_mono_ex1 [OF inScope_finite, of st scope project "?f st' (Some c)" "?f st cur"] le page L(2) by blast
  then show ?thesis unfolding placesLeft_def inScope_tended [OF t] .
qed

lemma ListRows_stub:
  assumes E: "overStub K E" and K: "cursorLaws K" and wf: "keysApart st" "scopeValid scope" and f: "GetBlobFailures st = []"
    and ok: "countOf (ListStatusFailures st) scope \<le> 0" and p: "pGrant p = None" and fetch: "\<forall>i\<in>inScope st scope project. fetchable st scope i"
    and page: "page = pageFrom K 100 False cur (listed st scope (filedUnder scope project) False)"
    and L: "L = filter (showsDoc scope project) (map fst (fst page))"
  shows "\<exists>st' pg. ListRows E st p key scope (rawCursor K cur) project 100 = (st', Inr pg) \<and> pgNext pg = snd page \<and>
    tended (StubKey scope ` set L) st st' \<and> rID ` set (pgRows pg) \<union> fst ` set (pgUnreadable pg) = set L"
proof -
  have e: "eT E = stubT K" using E by (simp add: overStub_def)
  have page': "page = pageFrom K (int 100) False cur (listed st scope (filedUnder scope project) False)" using page by simp
  note facts = page_facts [OF wf _ K, where limit = 100 and cur = cur and project = project, folded page', simplified]
  have ids: "map lID (filter (\<lambda>x. showsDoc scope project (lID x)) (map revisionRow ys)) = filter (showsDoc scope project) (map fst ys)" for ys
    by (induction ys) (simp_all add: revisionRow_def)
  obtain found where rev: "Revisions E st p scope (rawCursor K cur) project 100 = (st, Inr (found, snd page))" and found: "map lID found = L"
    using listStatus_from [OF K ok _ _ e p wf(2), where limit = 100 and cur = cur and project = project] ids page
    by (simp add: Revisions_def maxListPage_def filedUnder_def L)
  show ?thesis
  proof (cases "found = []")
    case True
    then show ?thesis using rev found by (simp add: ListRows_def)
  next
    case False
    then have "L \<noteq> []" using found by auto
    moreover have "\<forall>i\<in>set L. fetchable st scope i" using facts(2) fetch by (auto simp: L)
    moreover have "length L \<le> PullBatch" using facts(1) by (simp add: L PullBatch_def length_filter_le [THEN order_trans])
    ultimately obtain st' rows failed where "Pull E st p key scope L = (st', Inr (rows, failed))"
        "tended (StubKey scope ` set L) st st'" "rID ` set rows \<union> fst ` set failed = set L"
      using pull_stub [OF E f _ _ _ p wf(2)] by blast
    then show ?thesis using rev found False by (simp add: ListRows_def)
  qed
qed

definition walkable :: "cursorText \<Rightarrow> cpStore env \<Rightarrow> Principal \<Rightarrow> string \<Rightarrow> string \<Rightarrow> cpStore \<Rightarrow> bool" where
  "walkable K E p scope project st \<longleftrightarrow> overStub K E \<and> cursorLaws K \<and> keysApart st \<and> scopeValid scope \<and> GetBlobFailures st = [] \<and>
     countOf (ListStatusFailures st) scope \<le> 0 \<and> pGrant p = None \<and> (\<forall>i\<in>inScope st scope project. fetchable st scope i)"

lemma walkable_tended:
  assumes "walkable K E p scope project st" "tended I st st'"
  shows "walkable K E p scope project st'"
proof -
  have "keysApart st" using assms(1) by (simp add: walkable_def)
  note same = inScope_tended [OF assms(2) this] keysApart_tended [OF assms(2) this]
  show ?thesis using assms same fetchable_tended [OF assms(2)] unfolding walkable_def by (auto simp: tended_def)
qed

definition wanted :: "cpStore \<Rightarrow> string \<Rightarrow> string \<Rightarrow> string set" where
  "wanted st scope project = {i \<in> inScope st scope project. showsDoc scope project i}"

text \<open>One page of the walk: what it visits, and where it goes on.\<close>

lemma walk_page:
  assumes out: "unseen rID known (pgRows pg) = (known1, rows)"
    "unseen (\<lambda>i. i) known1 (sort (map fst (pgUnreadable pg))) = (known2, lost)"
    and pg: "rID ` set (pgRows pg) \<union> fst ` set (pgUnreadable pg) = set L" and a: "set a = set known" "distinct a"
  defines "a' \<equiv> a @ map rID rows @ lost"
  shows "set known2 = set known \<union> set L" "set a' = set known2" "distinct a'"
proof -
  note 1 = unseen_facts [OF out(1)] and 2 = unseen_facts [OF out(2)]
  show k: "set known2 = set known \<union> set L" using 1 2 pg by (auto simp: image_Un)
  show "set a' = set known2" using 1 2 a(1) by (auto simp: a'_def)
  show "distinct a'" using 1 2 a by (auto simp: a'_def)
qed

lemma cursor_moves:
  assumes "cursorLaws K" "behind cur c"
  shows "rawCursor K cur \<noteq> encCursor K c"
proof
  assume eq: "rawCursor K cur = encCursor K c"
  have "encCursor K c \<noteq> []" using assms(1) by (simp add: cursorLaws_def)
  then obtain d where d: "cur = Some d" using eq by (cases cur) (auto simp: rawCursor_def)
  then have "encCursor K d = encCursor K c" using eq by (simp add: rawCursor_def)
  then have "d = c" using assms(1) unfolding cursorLaws_def by (metis option.inject)
  then show False using assms(2) d placed.irreflexive by (simp add: behind_def)
qed

lemma walk_goes_on:
  assumes t: "tended (StubKey scope ` set L) st st'" "keysApart st"
    and old: "\<forall>i\<in>wanted st scope project. i \<in> set known \<or> behind cur (placeOf st scope i)"
    and L: "set L = {i \<in> P. showsDoc scope project i}" and known: "set known' = set known \<union> set L"
    and c: "\<forall>i\<in>inScope st scope project. behind cur (placeOf st scope i) \<longrightarrow> i \<notin> P \<longrightarrow> listedFirst False c (placeOf st scope i)"
  shows "\<forall>i\<in>wanted st' scope project. i \<in> set known' \<or> behind (Some c) (placeOf st' scope i)"
proof
  fix i assume "i \<in> wanted st' scope project"
  then have i: "i \<in> wanted st scope project" "i \<in> inScope st scope project" "showsDoc scope project i"
    using inScope_tended [OF t] by (auto simp: wanted_def)
  show "i \<in> set known' \<or> behind (Some c) (placeOf st' scope i)"
  proof (cases "i \<in> set known \<or> i \<in> set L")
    case True
    then show ?thesis using known by auto
  next
    case False
    then have "StubKey scope i \<notin> StubKey scope ` set L" by (auto simp: StubKey_def)
    then have "placeOf st' scope i = placeOf st scope i" using placeOf_tended [OF t(1) i(2)] by (simp add: placeOf_def)
    moreover have "behind cur (placeOf st scope i)" "i \<notin> P" using old i False L by auto
    ultimately show ?thesis using c i(2) by (simp add: behind_def)
  qed
qed

lemma eachPage_stub:
  assumes "walkable K E p scope project st" "set a = set known" "distinct a" "set a \<subseteq> wanted st scope project"
    "\<forall>i\<in>wanted st scope project. i \<in> set known \<or> behind cur (placeOf st scope i)"
  shows "\<exists>st' a'. eachPage E st p key scope project logVisit (rawCursor K cur) known a = Some (st', a', None) \<and>
    distinct a' \<and> set a' = wanted st scope project"
  using assms
proof (induction "placesLeft st scope project cur" arbitrary: st cur known a rule: less_induct)
  case less
  note w = less.prems(1) [unfolded walkable_def]
  define page where "page = pageFrom K 100 False cur (listed st scope (filedUnder scope project) False)"
  define L where "L = filter (showsDoc scope project) (map fst (fst page))"
  obtain st1 pg where list: "ListRows E st p key scope (rawCursor K cur) project 100 = (st1, Inr pg)" "pgNext pg = snd page"
      "tended (StubKey scope ` set L) st st1" "rID ` set (pgRows pg) \<union> fst ` set (pgUnreadable pg) = set L"
    using ListRows_stub [OF _ _ _ _ _ _ _ _ page_def L_def] w by blast
  have page': "page = pageFrom K (int 100) False cur (listed st scope (filedUnder scope project) False)" by (simp add: page_def)
  have facts: "fst ` set (fst page) \<subseteq> {i \<in> inScope st scope project. behind cur (placeOf st scope i)}"
    "snd page = [] \<Longrightarrow> fst ` set (fst page) = {i \<in> inScope st scope project. behind cur (placeOf st scope i)}"
    "snd page \<noteq> [] \<Longrightarrow> \<exists>c. snd page = encCursor K c \<and> fst page \<noteq> [] \<and> behind cur c \<and>
       (\<forall>i\<in>fst ` set (fst page). \<not> listedFirst False c (placeOf st scope i)) \<and>
       (\<forall>i\<in>inScope st scope project. behind cur (placeOf st scope i) \<longrightarrow> i \<notin> fst ` set (fst page) \<longrightarrow> listedFirst False c (placeOf st scope i))"
    using page_facts [of st scope 100 K cur project, folded page'] w by simp_all
  obtain known1 rows where u1: "unseen rID known (pgRows pg) = (known1, rows)" by (cases "unseen rID known (pgRows pg)")
  obtain known2 lost where u2: "unseen (\<lambda>i. i) known1 (sort (map fst (pgUnreadable pg))) = (known2, lost)"
    by (cases "unseen (\<lambda>i. i) known1 (sort (map fst (pgUnreadable pg)))")
  define a1 where "a1 = a @ map rID rows @ lost"
  note visit = walk_page [OF u1 u2 list(4) less.prems(2,3), folded a1_def]
  have L: "set L = {i \<in> fst ` set (fst page). showsDoc scope project i}" by (auto simp: L_def)
  have want: "set L \<subseteq> wanted st scope project" using facts(1) L by (auto simp: wanted_def)
  have sub: "set a1 \<subseteq> wanted st scope project" using visit(1,2) want less.prems(2,4) by auto
  have step: "eachPage E st p key scope project logVisit (rawCursor K cur) known a =
      (if snd page = [] then Some (st1, a1, None) else if rawCursor K cur = snd page then Some (st1, a1, Some cursorStuck)
       else eachPage E st1 p key scope project logVisit (snd page) known2 a1)"
    by (subst eachPage.simps) (simp add: list(1,2) u1 u2 logVisit_def a1_def)
  show ?case
  proof (cases "snd page = []")
    case True
    have "wanted st scope project \<subseteq> set a1"
      using less.prems(5) facts(2) [OF True] L visit(1,2) by (auto simp: wanted_def)
    then show ?thesis using step True sub visit(3) by auto
  next
    case False
    then obtain c where c: "snd page = encCursor K c" "fst page \<noteq> []" "behind cur c"
        "\<forall>i\<in>fst ` set (fst page). \<not> listedFirst False c (placeOf st scope i)"
        "\<forall>i\<in>inScope st scope project. behind cur (placeOf st scope i) \<longrightarrow> i \<notin> fst ` set (fst page) \<longrightarrow> listedFirst False c (placeOf st scope i)"
      using facts(3) by blast
    have keys: "keysApart st" using w by simp
    have wanted: "wanted st1 scope project = wanted st scope project" using inScope_tended [OF list(3) keys] by (simp add: wanted_def)
    have less': "placesLeft st1 scope project (Some c) < placesLeft st scope project cur"
      by (rule placesLeft_less [OF list(3) keys, of "fst ` set (fst page)"]) (use facts(1) L c in auto)
    have other: "rawCursor K cur \<noteq> snd page" unfolding c(1) by (rule cursor_moves [OF _ c(3)]) (use w in simp)
    have inv: "\<forall>i\<in>wanted st1 scope project. i \<in> set known2 \<or> behind (Some c) (placeOf st1 scope i)"
      by (rule walk_goes_on [OF list(3) keys less.prems(5) L visit(1) c(5)])
    obtain st' a' where "eachPage E st1 p key scope project logVisit (rawCursor K (Some c)) known2 a1 = Some (st', a', None)"
        "distinct a'" "set a' = wanted st1 scope project"
      using less.hyps [OF less' walkable_tended [OF less.prems(1) list(3)] visit(2,3) _ inv] sub wanted by auto
    then show ?thesis using step False other c(1) wanted by (simp add: rawCursor_def)
  qed
qed

text \<open>C8: visiting every page of a scope, or of a project, ends and visits each row the control plane
  holds there exactly once, opened or named as unreadable, although reading a row may move it to a later page
  while the walk goes on.\<close>

theorem each_page_visits_every_row_once:
  assumes "walkable K E p scope project st"
  shows "\<exists>st' ids. EachPage E st p key scope project logVisit [] = Some (st', ids, None) \<and> distinct ids \<and>
    (\<forall>i. i \<in> set ids \<longleftrightarrow> (\<exists>b. map_of (Blobs st) (StubKey scope i) = Some b \<and> ofProject scope project i b))"
proof -
  have "i \<in> wanted st scope project \<longleftrightarrow> (\<exists>b. map_of (Blobs st) (StubKey scope i) = Some b \<and> ofProject scope project i b)" for i
    by (auto simp: wanted_def inScope_def filedUnder_def showsDoc_def ofProject_def)
  moreover have "\<exists>st' a'. eachPage E st p key scope project logVisit (rawCursor K None) [] [] = Some (st', a', None) \<and>
      distinct a' \<and> set a' = wanted st scope project"
    by (rule eachPage_stub [OF assms]) (simp_all add: behind_def)
  ultimately show ?thesis by (simp add: EachPage_def rawCursor_def) blast
qed

lemma twoChats_scope: "inScope twoChats ''chat'' [] \<subseteq> {''a'', ''b''}"
  by (auto simp: inScope_def twoChats_def StubKey_def split: if_splits)

theorem each_page_visits_every_row_once_witness:
  "\<exists>st' ids. EachPage envS twoChats \<lparr>pID = ''u'', pGrant = None\<rparr> (replicate 32 (CHR ''k'')) ''chat'' [] logVisit [] = Some (st', ids, None) \<and>
     distinct ids \<and> ''a'' \<in> set ids"
proof -
  have "fetchable twoChats ''chat'' i" if "i \<in> {''a'', ''b''}" for i
    using that by (auto simp: fetchable_def PathFor_def twoChats_def StubKey_def)
  moreover have "overStub plainCursor envS" by (simp add: overStub_def envS_def)
  moreover have "keysApart twoChats" "GetBlobFailures twoChats = []" "countOf (ListStatusFailures twoChats) ''chat'' \<le> 0" "scopeValid ''chat''"
    by (simp_all add: keysApart_def twoChats_def NewStub_def countOf_def scopeValid_def ScopeChat_def)
  ultimately have w: "walkable plainCursor envS \<lparr>pID = ''u'', pGrant = None\<rparr> ''chat'' [] twoChats"
    using twoChats_scope plainCursor_laws by (auto simp: walkable_def)
  obtain st' ids where e: "EachPage envS twoChats \<lparr>pID = ''u'', pGrant = None\<rparr> (replicate 32 (CHR ''k'')) ''chat'' [] logVisit [] = Some (st', ids, None)"
      "distinct ids" "''a'' \<in> set ids \<longleftrightarrow> (\<exists>b. map_of (Blobs twoChats) (StubKey ''chat'' ''a'') = Some b \<and> ofProject ''chat'' [] ''a'' b)"
    using each_page_visits_every_row_once [OF w] by blast
  have "''a'' \<in> set ids" unfolding e(3) by (simp add: twoChats_def StubKey_def ofProject_def)
  then show ?thesis using e by blast
qed

end
