(* ===== verification/Chats.thy ===== *)
theory Chats
  imports Api_Errors Chunks
begin

text \<open>The chat a run reads and writes, \<^verbatim>\<open>internal/domain/thread.go\<close>, and the events of
  a run, \<^verbatim>\<open>internal/domain/events.go\<close>.  A pointer to a value is an option.  A nil
  slice and an empty one are the same list: they differ only in whether the
  member is left out of the JSON.  Times in milliseconds, \<^verbatim>\<open>float64\<close> of an integer, are
  integers; the quotient a duration is stays a rational.  JSON a tool returned is
  kept as bytes, with None for \<^verbatim>\<open>nil\<close>.\<close>

section \<open>Threads, messages and blocks\<close>

record DisplaySource =
  dsURL :: string
  dsTitle :: string
  dsSnippet :: string

record ToolDisplay =
  tdQuery :: string
  tdURL :: string
  tdStatus :: string
  tdSources :: "DisplaySource list"

record Block =
  bkID :: string
  bkType :: string
  bkContent :: string
  bkToolCallID :: string
  bkName :: string
  bkArguments :: string
  bkComplete :: bool
  bkResult :: "bytes option"
  bkMetadata :: "bytes option"
  bkProgress :: "bytes list"
  bkActivity :: "bytes option"
  bkDisplay :: "ToolDisplay option"
  bkStartedAt :: int
  bkEndedAt :: int
  bkDuration :: rat
  bkAnswers :: "(string \<times> string list) list"
  bkInvalidArguments :: bool

record QuestionOption =
  qoID :: string
  qoLabel :: string

record AnsweredQuestion =
  aqID :: string
  aqPrompt :: string
  aqAnswered :: bool
  aqSelected :: "QuestionOption list"

record WidgetAnswers =
  waToolCallID :: string
  waTitle :: string
  waQuestions :: "AnsweredQuestion list"

record DocumentPage =
  dpImage :: string
  dpIsScanned :: bool
  dpPage :: int
  dpText :: string

record Attachment =
  atID :: string
  atKind :: string
  atFileName :: string
  atMimeType :: string
  atSize :: "int option"
  atThumbnail :: string
  atTextContent :: string
  atDescription :: string
  atPages :: "DocumentPage list"
  atBase64 :: string
  atEncryptionKey :: string
  atKey :: string
  atStorageThreadID :: string
  atInferenceMimeType :: string

record URLCitation =
  ucURL :: string
  ucTitle :: string
  ucStartIndex :: int
  ucEndIndex :: int

record Annotation =
  anType :: string
  anURLCitation :: "URLCitation option"

record Compaction =
  cmMessages :: int
  cmStartedAt :: int
  cmEndedAt :: int
  cmModel :: string
  cmVersion :: int

record Message =
  msID :: string
  msRole :: string
  msCreatedAt :: string
  msContent :: string
  msQuote :: string
  msModel :: string
  msModelDisplayName :: string
  msTimeline :: "Block list"
  msAttachments :: "Attachment list"
  msAnnotations :: "Annotation list"
  msUsage :: "bytes option"
  msIsError :: "bool option"
  msIsInterrupted :: "bool option"
  msAnswers :: "WidgetAnswers list"
  msCompaction :: "Compaction option"

record ActiveRun =
  arRunID :: string
  arExpiresAt :: string
  arInstance :: string

record ContextUsage =
  cuUsedTokens :: int
  cuLimitTokens :: int
  cuPercentage :: rat

record Thread =
  thID :: string
  thTitle :: string
  thTitleState :: string
  thCreatedAt :: string
  thUpdatedAt :: string
  thModel :: string
  thProjectID :: "string option"
  thPresetID :: "string option"
  thPinned :: bool
  thWebSearchEnabled :: bool
  thMessages :: "Message list"
  thLastRequestID :: string
  thLastRequestKind :: string
  thActiveRun :: "ActiveRun option"
  thContextUsage :: "ContextUsage option"
  thFlagged :: bool
  thHiddenCount :: nat
  thRecordVersion :: int

text \<open>The zero values Go starts from.\<close>

definition Block0 :: Block where
  "Block0 = \<lparr>bkID = [], bkType = [], bkContent = [], bkToolCallID = [], bkName = [], bkArguments = [],
     bkComplete = False, bkResult = None, bkMetadata = None, bkProgress = [], bkActivity = None,
     bkDisplay = None, bkStartedAt = 0, bkEndedAt = 0, bkDuration = 0, bkAnswers = [],
     bkInvalidArguments = False\<rparr>"

definition Message0 :: Message where
  "Message0 = \<lparr>msID = [], msRole = [], msCreatedAt = [], msContent = [], msQuote = [], msModel = [],
     msModelDisplayName = [], msTimeline = [], msAttachments = [], msAnnotations = [], msUsage = None,
     msIsError = None, msIsInterrupted = None, msAnswers = [], msCompaction = None\<rparr>"

definition ValueOr :: "'a option \<Rightarrow> 'a \<Rightarrow> 'a" where
  "ValueOr p fallback = (case p of None \<Rightarrow> fallback | Some x \<Rightarrow> x)"

text \<open>\<^verbatim>\<open>strings.TrimSuffix\<close> and \<^verbatim>\<open>strings.TrimPrefix\<close>.\<close>

definition TrimSuffix :: "string \<Rightarrow> string \<Rightarrow> string" where
  "TrimSuffix s x = (let n = length s - length x in
     if length x \<le> length s \<and> drop n s = x then take n s else s)"

definition TrimPrefix :: "string \<Rightarrow> string \<Rightarrow> string" where
  "TrimPrefix s x = (if take (length x) s = x then drop (length x) s else s)"

text \<open>\<^verbatim>\<open>slices.IndexFunc\<close>, with None for \<open>-1\<close>.\<close>

fun IndexFunc :: "('a \<Rightarrow> bool) \<Rightarrow> 'a list \<Rightarrow> nat option" where
  "IndexFunc P [] = None"
| "IndexFunc P (x # xs) = (if P x then Some 0 else map_option Suc (IndexFunc P xs))"

definition MessageIndex :: "Thread \<Rightarrow> string \<Rightarrow> nat option" where
  "MessageIndex t i = IndexFunc (\<lambda>m. msID m = i) (thMessages t)"

definition CallID :: "Block \<Rightarrow> string" where
  "CallID b = (if bkToolCallID b \<noteq> [] then bkToolCallID b else bkID b)"

definition IsImage :: "Attachment \<Rightarrow> bool" where
  "IsImage a \<longleftrightarrow> atKind a = ''image''"

definition StorageKey :: "Attachment \<Rightarrow> string" where
  "StorageKey a = (if atEncryptionKey a \<noteq> [] then atEncryptionKey a else atKey a)"

definition HasContent :: "Attachment \<Rightarrow> bool" where
  "HasContent a \<longleftrightarrow> atTextContent a \<noteq> [] \<or> atPages a \<noteq> []"

text \<open>\<^verbatim>\<open>FindAttachment\<close> looks through the messages in turn.\<close>

definition FindAttachment :: "Thread \<Rightarrow> string \<Rightarrow> Attachment option" where
  "FindAttachment t i = List.find (\<lambda>a. atID a = i) (concat (map msAttachments (thMessages t)))"

section \<open>Compaction markers\<close>

text \<open>The index of the last marker, with \<open>-1\<close> for none as in the source.\<close>

fun latestFrom :: "Message list \<Rightarrow> nat \<Rightarrow> int" where
  "latestFrom messages 0 = - 1"
| "latestFrom messages (Suc i) =
    (if msRole (messages ! i) = CompactionRole then int i else latestFrom messages i)"

definition LatestCompaction :: "Message list \<Rightarrow> int" where
  "LatestCompaction messages = latestFrom messages (length messages)"

definition isMarker :: "Message \<Rightarrow> bool" where
  "isMarker m \<longleftrightarrow> msRole m = CompactionRole"

definition DropCompactionsAfter :: "nat \<Rightarrow> Thread \<Rightarrow> Thread" where
  "DropCompactionsAfter index t = t\<lparr>thMessages :=
     take (index + 1) (thMessages t) @ filter (\<lambda>m. \<not> isMarker m) (drop (index + 1) (thMessages t))\<rparr>"

section \<open>Events\<close>

text \<open>The members of an event that neither the reply nor the log reads are kept as
  their JSON.\<close>

record ToolActivity =
  taToolCallID :: string
  taTool :: string
  taProgress :: rat
  taOutput :: "string list"

text \<open>A patch's value is a number, a string or other JSON.\<close>

datatype patchValue = PNumber rat | PText string | POther bytes

record ActivityPatch =
  apOp :: string
  apPath :: string
  apValue :: patchValue

record ActivitySnapshot =
  asMessageID :: string
  asActivityType :: string
  asContent :: ToolActivity
  asDisplay :: "ToolDisplay option"

datatype Event =
    RunStarted string string string string
  | MessagesSnapshot bytes bool
  | StateSnapshotEvent bytes
  | StateDelta bytes
  | TextChunk string string string
  | ReasoningChunk string string
  | ReasoningSummary string string string
  | ToolCallStart string string string
  | ToolCallArgs string string
  | ToolCallEnd string
  | ToolCallResult string string string "bytes option" bytes "ToolDisplay option"
  | ActivityOpened ActivitySnapshot
  | ActivityDelta string string "ActivityPatch list" "ToolDisplay option"
  | CompactionStart string string
  | CompactionEnd string string string bytes
  | RunFinished bytes
  | RunError bytes

definition ReasoningSuffix :: string where "ReasoningSuffix = ''-reasoning''"
definition ActivityPrefix :: string where "ActivityPrefix = ''act_''"

fun eventType :: "Event \<Rightarrow> string" where
  "eventType (RunStarted _ _ _ _) = ''RUN_STARTED''"
| "eventType (MessagesSnapshot _ _) = ''MESSAGES_SNAPSHOT''"
| "eventType (StateSnapshotEvent _) = ''STATE_SNAPSHOT''"
| "eventType (StateDelta _) = ''STATE_DELTA''"
| "eventType (TextChunk _ _ _) = ''TEXT_MESSAGE_CHUNK''"
| "eventType (ReasoningChunk _ _) = ''REASONING_MESSAGE_CHUNK''"
| "eventType (ReasoningSummary _ _ _) = ''REASONING_SUMMARY''"
| "eventType (ToolCallStart _ _ _) = ''TOOL_CALL_START''"
| "eventType (ToolCallArgs _ _) = ''TOOL_CALL_ARGS''"
| "eventType (ToolCallEnd _) = ''TOOL_CALL_END''"
| "eventType (ToolCallResult _ _ _ _ _ _) = ''TOOL_CALL_RESULT''"
| "eventType (ActivityOpened _) = ''ACTIVITY_SNAPSHOT''"
| "eventType (ActivityDelta _ _ _ _) = ''ACTIVITY_DELTA''"
| "eventType (CompactionStart _ _) = ''COMPACTION_START''"
| "eventType (CompactionEnd _ _ _ _) = ''COMPACTION_END''"
| "eventType (RunFinished _) = ''RUN_FINISHED''"
| "eventType (RunError _) = ''RUN_ERROR''"

text \<open>The interface \<^verbatim>\<open>TextDelta\<close>: which events extend a text, what they extend, by
  what, and the event extending it by another text.\<close>

fun isTextDelta :: "Event \<Rightarrow> bool" where
  "isTextDelta (TextChunk _ _ _) = True"
| "isTextDelta (ReasoningChunk _ _) = True"
| "isTextDelta (ToolCallArgs _ _) = True"
| "isTextDelta _ = False"

fun Target :: "Event \<Rightarrow> string" where
  "Target (TextChunk i _ _) = i"
| "Target (ReasoningChunk i _) = i"
| "Target (ToolCallArgs i _) = i"
| "Target _ = []"

fun DeltaText :: "Event \<Rightarrow> string" where
  "DeltaText (TextChunk _ _ d) = d"
| "DeltaText (ReasoningChunk _ d) = d"
| "DeltaText (ToolCallArgs _ d) = d"
| "DeltaText _ = []"

fun WithText :: "Event \<Rightarrow> string \<Rightarrow> Event" where
  "WithText (TextChunk i r _) s = TextChunk i r s"
| "WithText (ReasoningChunk i _) s = ReasoningChunk i s"
| "WithText (ToolCallArgs i _) s = ToolCallArgs i s"
| "WithText e s = e"

text \<open>An event's frame.  \<open>members\<close> is \<^verbatim>\<open>json.Marshal\<close> of the event and \<open>header\<close> that of
  its type and time; either may fail.\<close>

definition EncodeEvent ::
  "(Event \<Rightarrow> bytes option) \<Rightarrow> (string \<Rightarrow> string \<Rightarrow> bytes option) \<Rightarrow> Event \<Rightarrow> string \<Rightarrow> bytes option" where
  "EncodeEvent members header e emitted =
    (case members e of None \<Rightarrow> None
     | Some ms \<Rightarrow> (case header (eventType e) emitted of None \<Rightarrow> None
        | Some h \<Rightarrow> Some (if ms = ''{}'' then h else take (length h - 1) h @ '','' @ drop 1 ms)))"

section \<open>Indexes and markers\<close>

lemma IndexFunc_Some:
  "IndexFunc P xs = Some i \<Longrightarrow> i < length xs \<and> P (xs ! i) \<and> (\<forall>j<i. \<not> P (xs ! j))"
proof (induction xs arbitrary: i)
  case Nil
  then show ?case by simp
next
  case (Cons x xs)
  show ?case
  proof (cases "P x")
    case True
    then show ?thesis using Cons.prems by simp
  next
    case False
    then obtain k where k: "IndexFunc P xs = Some k" "i = Suc k" using Cons.prems by auto
    then have "k < length xs" "P (xs ! k)" "\<forall>j<k. \<not> P (xs ! j)" using Cons.IH by blast+
    then show ?thesis using False k(2) by (auto simp: nth_Cons split: nat.splits)
  qed
qed

lemma IndexFunc_None [simp]: "IndexFunc P xs = None \<longleftrightarrow> (\<forall>x\<in>set xs. \<not> P x)"
  by (induction xs) auto

lemma IndexFunc_found: "x \<in> set xs \<Longrightarrow> P x \<Longrightarrow> \<exists>i. IndexFunc P xs = Some i"
  using IndexFunc_None [of P xs] by (cases "IndexFunc P xs") auto

lemma IndexFunc_split:
  "IndexFunc P xs = Some i \<Longrightarrow>
     xs = take i xs @ xs ! i # drop (Suc i) xs \<and> (\<forall>x\<in>set (take i xs). \<not> P x)"
  using IndexFunc_Some [of P xs i] by (auto simp: id_take_nth_drop [symmetric] in_set_conv_nth)

lemma latestFrom_cases:
  "n \<le> length messages \<Longrightarrow>
   (latestFrom messages n = - 1 \<and> (\<forall>j<n. \<not> isMarker (messages ! j))) \<or>
   (\<exists>i<n. latestFrom messages n = int i \<and> isMarker (messages ! i) \<and>
      (\<forall>j. i < j \<and> j < n \<longrightarrow> \<not> isMarker (messages ! j)))"
proof (induction n)
  case 0
  then show ?case by simp
next
  case (Suc n)
  show ?case
  proof (cases "isMarker (messages ! n)")
    case True
    then show ?thesis by (auto simp: isMarker_def)
  next
    case False
    then have step: "latestFrom messages (Suc n) = latestFrom messages n" by (simp add: isMarker_def)
    show ?thesis
      using Suc False unfolding step by (auto simp: less_Suc_eq)
  qed
qed

text \<open>The latest marker is one, and no marker is after it.\<close>

lemma LatestCompaction_cases:
  obtains (none) "LatestCompaction messages = - 1" "\<forall>m\<in>set messages. \<not> isMarker m"
  | (marker) i where "i < length messages" "LatestCompaction messages = int i" "isMarker (messages ! i)"
      "\<And>j. i < j \<Longrightarrow> j < length messages \<Longrightarrow> \<not> isMarker (messages ! j)"
  using latestFrom_cases [of "length messages" messages, folded LatestCompaction_def]
  by (auto simp: all_set_conv_all_nth)

lemma LatestCompaction_bounds:
  "- 1 \<le> LatestCompaction messages" "LatestCompaction messages < int (length messages)"
  by (cases messages rule: LatestCompaction_cases; simp)+

lemma after_LatestCompaction:
  assumes "LatestCompaction messages < int j" "j < length messages"
  shows "\<not> isMarker (messages ! j)"
  by (cases messages rule: LatestCompaction_cases) (use assms in auto)

end
