(* ===== verification/Timeline.thy ===== *)
theory Timeline
  imports Chats
begin

text \<open>How a reply's messages are built from the events of its run,
  \<^verbatim>\<open>internal/domain/timeline.go\<close>.  Every message the assembler points to is one of
  \<^verbatim>\<open>ordered\<close>, so a pointer to a message is its index there, and a tool call's block is
  a message and an index, as \<^verbatim>\<open>blockRef\<close> has it.  An index out of range panics in Go
  and is None here.  The lemmas show that this never happens, that a call's
  reference always names the call's own block, and that a reply's text, its content
  blocks and its reasoning are exactly what the run streamed.\<close>

section \<open>The assembler\<close>

record blockRef =
  brMessage :: nat
  brIndex :: nat

record MessageAssembler =
  ordered :: "Message list"
  byID :: "string \<rightharpoonup> nat"
  calls :: "string \<rightharpoonup> blockRef"
  sealed :: "string \<rightharpoonup> nat"

definition NewMessageAssembler :: MessageAssembler where
  "NewMessageAssembler = \<lparr>ordered = [], byID = Map.empty, calls = Map.empty, sealed = Map.empty\<rparr>"

definition updMessage :: "nat \<Rightarrow> (Message \<Rightarrow> Message) \<Rightarrow> MessageAssembler \<Rightarrow> MessageAssembler" where
  "updMessage p f a = a\<lparr>ordered := (ordered a)[p := f (ordered a ! p)]\<rparr>"

definition Seed :: "Message \<Rightarrow> MessageAssembler \<Rightarrow> MessageAssembler" where
  "Seed m a =
    (let n = length (msTimeline m);
         s = (if n > 0 \<and> bkType (msTimeline m ! (n - 1)) = ''content'' then n - 1 else n)
     in a\<lparr>byID := (byID a)(msID m \<mapsto> length (ordered a)), sealed := (sealed a)(msID m \<mapsto> s),
          ordered := ordered a @ [m]\<rparr>)"

definition orphanID :: "string \<Rightarrow> string" where
  "orphanID i = (if i = [] then ''msg_orphan'' else i)"

definition messageFor :: "string \<Rightarrow> string \<Rightarrow> MessageAssembler \<Rightarrow> MessageAssembler \<times> nat" where
  "messageFor now i a =
    (let i = orphanID i in
     case byID a i of Some p \<Rightarrow> (a, p)
     | None \<Rightarrow> (a\<lparr>byID := (byID a)(i \<mapsto> length (ordered a)),
          ordered := ordered a @ [Message0\<lparr>msID := i, msRole := ''assistant'', msCreatedAt := now\<rparr>]\<rparr>,
          length (ordered a)))"

definition stamp :: "string \<Rightarrow> nat \<Rightarrow> string \<Rightarrow> MessageAssembler \<Rightarrow> MessageAssembler" where
  "stamp i p emitted a =
    (if emitted \<noteq> [] \<and> sealed a i = None \<and> msTimeline (ordered a ! p) = []
     then updMessage p (\<lambda>m. m\<lparr>msCreatedAt := emitted\<rparr>) a else a)"

text \<open>What \<^verbatim>\<open>streamed\<close> does to the message's timeline; \<open>n\<close> is how many leading blocks are
  sealed.\<close>

definition lateTail :: "nat \<Rightarrow> Block list \<Rightarrow> bool" where
  "lateTail n blocks \<longleftrightarrow> n + 2 \<le> length blocks \<and>
     bkType (blocks ! (length blocks - 1)) = ''content'' \<and>
     bkType (blocks ! (length blocks - 2)) = ''thinking''"

definition openBlock :: "string \<Rightarrow> string \<Rightarrow> int \<Rightarrow> nat \<Rightarrow> Block list \<Rightarrow> Block list" where
  "openBlock i kind time n blocks =
    (if length blocks \<le> n \<or> bkType (blocks ! (length blocks - 1)) \<noteq> kind
     then blocks @ [Block0\<lparr>bkID := i @ ''_'' @ kind @ ''_'' @ fmtNat (length blocks), bkType := kind,
                          bkStartedAt := (if kind = ''thinking'' then time else 0)\<rparr>]
     else blocks)"

definition growBlock :: "string \<Rightarrow> string \<Rightarrow> int \<Rightarrow> Block \<Rightarrow> Block" where
  "growBlock kind delta time b =
    (let b = b\<lparr>bkContent := bkContent b @ delta\<rparr> in
     if kind \<noteq> ''content'' \<and> bkStartedAt b > 0 \<and> time \<ge> bkStartedAt b
     then b\<lparr>bkEndedAt := time, bkDuration := of_int (time - bkStartedAt b) / 1000\<rparr> else b)"

definition streamInto :: "string \<Rightarrow> string \<Rightarrow> string \<Rightarrow> int \<Rightarrow> nat \<Rightarrow> Message \<Rightarrow> Message" where
  "streamInto i kind delta time n m =
    (let blocks = msTimeline m; k = length blocks in
     if kind = ''thinking'' \<and> lateTail n blocks
     then m\<lparr>msTimeline := blocks[k - 2 := (blocks ! (k - 2))\<lparr>bkContent := bkContent (blocks ! (k - 2)) @ delta\<rparr>]\<rparr>
     else let blocks = openBlock i kind time n blocks; l = length blocks - 1;
              m = m\<lparr>msTimeline := blocks[l := growBlock kind delta time (blocks ! l)]\<rparr>
          in if kind = ''content'' then m\<lparr>msContent := msContent m @ delta\<rparr> else m)"

text \<open>\<open>millis\<close> is \<^verbatim>\<open>Millis\<close>: the parse of an RFC 3339 time, or zero.\<close>

definition Millis :: "(string \<Rightarrow> int option) \<Rightarrow> string \<Rightarrow> int" where
  "Millis parse v = ValueOr (parse v) 0"

definition streamed ::
  "(string \<Rightarrow> int option) \<Rightarrow> string \<Rightarrow> string \<Rightarrow> string \<Rightarrow> string \<Rightarrow> string \<Rightarrow> MessageAssembler \<Rightarrow> MessageAssembler" where
  "streamed parse now i kind delta emitted a =
    (case messageFor now i a of (a, p) \<Rightarrow>
       let a = stamp i p emitted a
       in updMessage p (streamInto i kind delta (Millis parse emitted) (ValueOr (sealed a i) 0)) a)"

text \<open>\<^verbatim>\<open>call.block()\<close> for a call the assembler knows, changed by \<open>f\<close>.\<close>

definition onCall :: "string \<Rightarrow> (Block \<Rightarrow> Block) \<Rightarrow> MessageAssembler \<Rightarrow> MessageAssembler option" where
  "onCall c f a = (case calls a c of None \<Rightarrow> Some a
     | Some r \<Rightarrow>
        if brMessage r < length (ordered a) \<and> brIndex r < length (msTimeline (ordered a ! brMessage r))
        then Some (updMessage (brMessage r)
          (\<lambda>m. m\<lparr>msTimeline := (msTimeline m)[brIndex r := f (msTimeline m ! brIndex r)]\<rparr>) a)
        else None)"

definition callParent :: "string \<Rightarrow> string \<Rightarrow> MessageAssembler \<Rightarrow> string" where
  "callParent c parent a =
    (let p = (if parent = [] \<and> ordered a \<noteq> [] then msID (last (ordered a)) else parent)
     in if p = [] then ''msg_'' @ c else p)"

definition startCall ::
  "(string \<Rightarrow> int option) \<Rightarrow> string \<Rightarrow> string \<Rightarrow> string \<Rightarrow> string \<Rightarrow> string \<Rightarrow> MessageAssembler \<Rightarrow> MessageAssembler" where
  "startCall parse now c name parent emitted a =
    (let i = callParent c parent a in
     case messageFor now i a of (a, p) \<Rightarrow>
       let a = stamp i p emitted a;
           a = a\<lparr>calls := (calls a)(c \<mapsto> \<lparr>brMessage = p, brIndex = length (msTimeline (ordered a ! p))\<rparr>)\<rparr>
       in updMessage p (\<lambda>m. m\<lparr>msTimeline := msTimeline m @ [Block0\<lparr>bkID := c, bkType := ''tool_call'',
            bkToolCallID := c, bkName := name, bkStartedAt := Millis parse emitted\<rparr>]\<rparr>) a)"

definition setResult :: "bytes option \<Rightarrow> bytes \<Rightarrow> ToolDisplay option \<Rightarrow> int \<Rightarrow> Block \<Rightarrow> Block" where
  "setResult content metadata display time b =
    (let b = b\<lparr>bkResult := content\<rparr>;
         b = (if time \<ge> bkStartedAt b then b\<lparr>bkEndedAt := time\<rparr> else b);
         b = (if metadata \<noteq> [] then b\<lparr>bkMetadata := Some metadata\<rparr> else b)
     in if display \<noteq> None then b\<lparr>bkDisplay := display\<rparr> else b)"

text \<open>The lines a patch adds to a call's output; \<open>raw\<close> is \<^verbatim>\<open>api.Raw\<close>.\<close>

definition outputLines :: "(patchValue \<Rightarrow> bytes) \<Rightarrow> ActivityPatch list \<Rightarrow> bytes list" where
  "outputLines raw patch = map (\<lambda>op. raw (apValue op)) (filter (\<lambda>op. apPath op = ''/output/-'') patch)"

record timelineEnv =
  teParse :: "string \<Rightarrow> int option"
  teRaw :: "patchValue \<Rightarrow> bytes"

fun Apply :: "timelineEnv \<Rightarrow> string \<Rightarrow> Event \<Rightarrow> string \<Rightarrow> MessageAssembler \<Rightarrow> MessageAssembler option" where
  "Apply E now (TextChunk i role delta) emitted a =
     Some (streamed (teParse E) now i ''content'' delta emitted a)"
| "Apply E now (ReasoningChunk i delta) emitted a =
     Some (streamed (teParse E) now (TrimSuffix i ReasoningSuffix) ''thinking'' delta emitted a)"
| "Apply E now (ToolCallStart c name parent) emitted a =
     Some (startCall (teParse E) now c name parent emitted a)"
| "Apply E now (ToolCallArgs c delta) emitted a =
     onCall c (\<lambda>b. b\<lparr>bkArguments := bkArguments b @ delta\<rparr>) a"
| "Apply E now (ToolCallEnd c) emitted a = onCall c (\<lambda>b. b\<lparr>bkComplete := True\<rparr>) a"
| "Apply E now (ToolCallResult i c role content metadata display) emitted a =
     onCall c (setResult content metadata display (Millis (teParse E) emitted)) a"
| "Apply E now (ActivityOpened s) emitted a =
     (if asDisplay s \<noteq> None
      then onCall (TrimPrefix (asMessageID s) ActivityPrefix) (\<lambda>b. b\<lparr>bkDisplay := asDisplay s\<rparr>) a
      else Some a)"
| "Apply E now (ActivityDelta i kind patch display) emitted a =
     (if outputLines (teRaw E) patch \<noteq> []
      then onCall (TrimPrefix i ActivityPrefix)
             (\<lambda>b. b\<lparr>bkProgress := bkProgress b @ outputLines (teRaw E) patch\<rparr>) a
      else Some a)"
| "Apply E now e emitted a = Some a"

text \<open>A run's events in the order they were framed: when each was applied, the event
  and when it was emitted.\<close>

fun ApplyAll :: "timelineEnv \<Rightarrow> (string \<times> Event \<times> string) list \<Rightarrow> MessageAssembler \<Rightarrow> MessageAssembler option" where
  "ApplyAll E [] a = Some a"
| "ApplyAll E ((now, e, emitted) # es) a =
     (case Apply E now e emitted a of None \<Rightarrow> None | Some a \<Rightarrow> ApplyAll E es a)"

definition LastBlock :: "string \<Rightarrow> MessageAssembler \<Rightarrow> Block option" where
  "LastBlock i a = (case byID a i of None \<Rightarrow> None
     | Some p \<Rightarrow> if msTimeline (ordered a ! p) = [] then None else Some (last (msTimeline (ordered a ! p))))"

definition MessagesOf :: "MessageAssembler \<Rightarrow> Message list" where
  "MessagesOf a = ordered a"

section \<open>Replacing a reply's text\<close>

definition isContent :: "Block \<Rightarrow> bool" where
  "isContent b \<longleftrightarrow> bkType b = ''content''"

definition ReplaceReplyText :: "string \<Rightarrow> Message \<Rightarrow> Message" where
  "ReplaceReplyText text m =
    (let timeline = msTimeline m;
         edited = Block0\<lparr>bkType := ''content'', bkID := ''edited-content'', bkContent := text\<rparr>;
         (first, edited) = (case IndexFunc isContent timeline of
            None \<Rightarrow> (length timeline, edited)
          | Some k \<Rightarrow> (k, edited\<lparr>bkID := bkID (timeline ! k)\<rparr>));
         blocks = concat (map (\<lambda>i.
            (if i = first \<and> text \<noteq> [] then [edited] else []) @
            (if i < length timeline \<and> \<not> isContent (timeline ! i) then [timeline ! i] else []))
            [0..<length timeline + 1])
     in m\<lparr>msContent := text, msTimeline := blocks\<rparr>)"

section \<open>What changes to a timeline keep\<close>

definition kindText :: "string \<Rightarrow> Block list \<Rightarrow> string" where
  "kindText k bs = concat (map bkContent (filter (\<lambda>b. bkType b = k) bs))"

definition blockLike :: "Block \<Rightarrow> Block \<Rightarrow> bool" where
  "blockLike b b' \<longleftrightarrow> bkType b' = bkType b \<and> bkToolCallID b' = bkToolCallID b \<and> bkID b' = bkID b"

text \<open>A message grows: it keeps its id, and its blocks stay where they are with their
  ids and types.\<close>

definition grows :: "Message \<Rightarrow> Message \<Rightarrow> bool" where
  "grows m m' \<longleftrightarrow> msID m' = msID m \<and> length (msTimeline m) \<le> length (msTimeline m') \<and>
     (\<forall>k<length (msTimeline m). blockLike (msTimeline m ! k) (msTimeline m' ! k))"

lemma blockLike_refl [simp]: "blockLike b b"
  by (simp add: blockLike_def)

lemma grows_refl [simp]: "grows m m"
  by (simp add: grows_def)

lemma kindText_simps [simp]:
  "kindText k [] = []"
  "kindText k (b # bs) = (if bkType b = k then bkContent b else []) @ kindText k bs"
  "kindText k (bs @ cs) = kindText k bs @ kindText k cs"
  by (simp_all add: kindText_def)

lemma kindText_other: "\<forall>b\<in>set bs. bkType b \<noteq> k \<Longrightarrow> kindText k bs = []"
  by (induction bs) auto

lemma kindText_update:
  assumes "j < length bs" "bkType b = bkType (bs ! j)" "bkContent b = bkContent (bs ! j)"
  shows "kindText k (bs[j := b]) = kindText k bs"
proof -
  have "bs = take j bs @ bs ! j # drop (Suc j) bs" using assms(1) by (simp add: id_take_nth_drop)
  then have "kindText k bs = kindText k (take j bs @ bs ! j # drop (Suc j) bs)" by simp
  then show ?thesis using assms by (simp add: upd_conv_take_nth_drop)
qed

lemma openBlock_props:
  assumes "kind = ''content'' \<or> kind = ''thinking''"
  shows "\<exists>bs b. openBlock i kind time n blocks = bs @ [b] \<and> bkType b = kind \<and>
     kindText k (openBlock i kind time n blocks) = kindText k blocks \<and>
     (\<exists>cs. openBlock i kind time n blocks = blocks @ cs)"
proof (cases "length blocks \<le> n \<or> bkType (blocks ! (length blocks - 1)) \<noteq> kind")
  case True
  then show ?thesis by (auto simp: openBlock_def Block0_def)
next
  case False
  then obtain bs b where "blocks = bs @ [b]" by (cases blocks rule: rev_cases) auto
  then show ?thesis using False by (auto simp: openBlock_def)
qed

lemma growBlock_props [simp]:
  "bkType (growBlock kind delta time b) = bkType b"
  "bkContent (growBlock kind delta time b) = bkContent b @ delta"
  "bkToolCallID (growBlock kind delta time b) = bkToolCallID b"
  "bkID (growBlock kind delta time b) = bkID b"
  by (simp_all add: growBlock_def Let_def)

lemma lateTail_split:
  assumes "lateTail n blocks"
  obtains bs t c where "blocks = bs @ [t, c]" "bkType t = ''thinking''" "bkType c = ''content''"
proof -
  from assms have "2 \<le> length blocks" by (simp add: lateTail_def)
  then obtain bs c where 1: "blocks = bs @ [c]" by (cases blocks rule: rev_cases) auto
  with \<open>2 \<le> length blocks\<close> obtain cs t where 2: "bs = cs @ [t]" by (cases bs rule: rev_cases) auto
  show thesis using that [of cs t c] assms 1 2 by (simp add: lateTail_def nth_append)
qed

lemma streamInto_text:
  assumes kind: "kind = ''content'' \<or> kind = ''thinking''"
  shows "kindText k (msTimeline (streamInto i kind delta time n m)) =
           kindText k (msTimeline m) @ (if k = kind then delta else [])"
    and "msContent (streamInto i kind delta time n m) =
           msContent m @ (if kind = ''content'' then delta else [])"
    and "grows m (streamInto i kind delta time n m)"
proof -
  let ?m = "streamInto i kind delta time n m"
  have "kindText k (msTimeline ?m) = kindText k (msTimeline m) @ (if k = kind then delta else []) \<and>
      msContent ?m = msContent m @ (if kind = ''content'' then delta else []) \<and> grows m ?m"
  proof (cases "kind = ''thinking'' \<and> lateTail n (msTimeline m)")
    case True
    then obtain bs t c where split: "msTimeline m = bs @ [t, c]" "bkType t = ''thinking''" "bkType c = ''content''"
      using lateTail_split by blast
    have m': "?m = m\<lparr>msTimeline := bs @ [t\<lparr>bkContent := bkContent t @ delta\<rparr>, c]\<rparr>"
      using True split(1) by (simp add: streamInto_def Let_def nth_append list_update_append)
    have "\<forall>j<length bs + 2. blockLike ((bs @ [t, c]) ! j) ((bs @ [t\<lparr>bkContent := bkContent t @ delta\<rparr>, c]) ! j)"
      by (auto simp: nth_append blockLike_def nth_Cons split: nat.splits)
    then show ?thesis using True split unfolding m' by (auto simp: grows_def)
  next
    case False
    obtain bs b cs where ob: "openBlock i kind time n (msTimeline m) = bs @ [b]" "bkType b = kind"
        "kindText k (bs @ [b]) = kindText k (msTimeline m)" "bs @ [b] = msTimeline m @ cs"
      using openBlock_props [OF kind, of i time n "msTimeline m" k] by metis
    have len: "length (msTimeline m) \<le> length (bs @ [b])" using ob(4) by simp
    have like: "\<forall>j<length (msTimeline m). blockLike (msTimeline m ! j) ((bs @ [growBlock kind delta time b]) ! j)"
    proof (intro allI impI)
      fix j assume j: "j < length (msTimeline m)"
      then have "(bs @ [b]) ! j = msTimeline m ! j" unfolding ob(4) by (simp add: nth_append)
      then show "blockLike (msTimeline m ! j) ((bs @ [growBlock kind delta time b]) ! j)"
        using j len by (auto simp: nth_append blockLike_def split: if_splits)
    qed
    have m': "?m = (let m1 = m\<lparr>msTimeline := bs @ [growBlock kind delta time b]\<rparr> in
        if kind = ''content'' then m1\<lparr>msContent := msContent m1 @ delta\<rparr> else m1)"
      by (simp only: streamInto_def Let_def False if_False ob(1)) (simp add: nth_append list_update_append)
    show ?thesis using len like ob(2,3) unfolding m' by (auto simp: grows_def Let_def)
  qed
  then show "kindText k (msTimeline ?m) = kindText k (msTimeline m) @ (if k = kind then delta else [])"
    "msContent ?m = msContent m @ (if kind = ''content'' then delta else [])" "grows m ?m" by blast+
qed

section \<open>What the assembler keeps\<close>

text \<open>Every message is found under its id, and every call's reference names a tool
  call block with the call's id.\<close>

definition callOk :: "Message list \<Rightarrow> string \<Rightarrow> blockRef \<Rightarrow> bool" where
  "callOk ms c r \<longleftrightarrow> brMessage r < length ms \<and> brIndex r < length (msTimeline (ms ! brMessage r)) \<and>
     bkType (msTimeline (ms ! brMessage r) ! brIndex r) = ''tool_call'' \<and>
     bkToolCallID (msTimeline (ms ! brMessage r) ! brIndex r) = c"

definition assemblerOk :: "MessageAssembler \<Rightarrow> bool" where
  "assemblerOk a \<longleftrightarrow>
     (\<forall>i p. byID a i = Some p \<longleftrightarrow> p < length (ordered a) \<and> msID (ordered a ! p) = i) \<and>
     (\<forall>c r. calls a c = Some r \<longrightarrow> callOk (ordered a) c r)"

text \<open>The text a message of the assembler holds, by the message's id.\<close>

definition textAt :: "string \<Rightarrow> string \<Rightarrow> MessageAssembler \<Rightarrow> string" where
  "textAt k i a = (case byID a i of None \<Rightarrow> [] | Some p \<Rightarrow> kindText k (msTimeline (ordered a ! p)))"

definition contentAt :: "string \<Rightarrow> MessageAssembler \<Rightarrow> string" where
  "contentAt i a = (case byID a i of None \<Rightarrow> [] | Some p \<Rightarrow> msContent (ordered a ! p))"

lemma callOk_grows:
  assumes "callOk ms c r" "length ms \<le> length ms'" "\<And>p. p < length ms \<Longrightarrow> grows (ms ! p) (ms' ! p)"
  shows "callOk ms' c r"
  using assms(1) assms(2) assms(3) [of "brMessage r"] by (auto simp: callOk_def grows_def blockLike_def)

lemma byID_D: "assemblerOk a \<Longrightarrow> byID a j = Some q \<Longrightarrow> q < length (ordered a) \<and> msID (ordered a ! q) = j"
  by (simp add: assemblerOk_def)

lemma byID_I: "assemblerOk a \<Longrightarrow> q < length (ordered a) \<Longrightarrow> byID a (msID (ordered a ! q)) = Some q"
  by (simp add: assemblerOk_def)

lemma updMessage_simps [simp]:
  "byID (updMessage p f a) = byID a" "calls (updMessage p f a) = calls a"
  "sealed (updMessage p f a) = sealed a" "length (ordered (updMessage p f a)) = length (ordered a)"
  by (simp_all add: updMessage_def)

lemma nth_updMessage:
  "q < length (ordered a) \<Longrightarrow>
     ordered (updMessage p f a) ! q = (if q = p then f (ordered a ! p) else ordered a ! q)"
  by (simp add: updMessage_def nth_list_update)

lemma updMessage_ok:
  assumes ok: "assemblerOk a" and f: "grows (ordered a ! p) (f (ordered a ! p))"
  shows "assemblerOk (updMessage p f a)"
proof -
  have g: "grows (ordered a ! q) (ordered (updMessage p f a) ! q)" if "q < length (ordered a)" for q
    using that f by (simp add: nth_updMessage)
  then have "msID (ordered (updMessage p f a) ! q) = msID (ordered a ! q)" if "q < length (ordered a)" for q
    using that by (simp add: grows_def)
  moreover have "callOk (ordered (updMessage p f a)) c r" if "callOk (ordered a) c r" for c r
    using that g by (rule_tac callOk_grows) auto
  ultimately show ?thesis using ok unfolding assemblerOk_def by auto
qed

lemma messageFor_ok:
  assumes ok: "assemblerOk a" and m: "messageFor now i a = (a', p)"
  shows "assemblerOk a'" "byID a' (orphanID i) = Some p" "p < length (ordered a')"
    "calls a' = calls a" "sealed a' = sealed a" "textAt k j a' = textAt k j a" "contentAt j a' = contentAt j a"
proof -
  have "assemblerOk a' \<and> byID a' (orphanID i) = Some p \<and> p < length (ordered a') \<and> calls a' = calls a \<and>
      sealed a' = sealed a \<and> textAt k j a' = textAt k j a \<and> contentAt j a' = contentAt j a"
  proof (cases "byID a (orphanID i)")
    case None
    let ?n = "Message0\<lparr>msID := orphanID i, msRole := ''assistant'', msCreatedAt := now\<rparr>"
    have a': "a' = a\<lparr>byID := (byID a)(orphanID i \<mapsto> length (ordered a)), ordered := ordered a @ [?n]\<rparr>"
      "p = length (ordered a)"
      using m None by (auto simp: messageFor_def Let_def)
    have ids: "byID a j = Some q \<longleftrightarrow> q < length (ordered a) \<and> msID (ordered a ! q) = j" for j q
      using ok by (simp add: assemblerOk_def)
    have "callOk (ordered a @ [?n]) c r" if "callOk (ordered a) c r" for c r
      using that by (rule callOk_grows) (simp_all add: nth_append)
    then have calls: "calls a c = Some r \<Longrightarrow> callOk (ordered a @ [?n]) c r" for c r
      using ok by (auto simp: assemblerOk_def)
    have no: "\<forall>q<length (ordered a). msID (ordered a ! q) \<noteq> orphanID i" using None ids by (metis option.distinct(1))
    have all: "((byID a)(orphanID i \<mapsto> length (ordered a))) j = Some q \<longleftrightarrow>
        q < length (ordered a @ [?n]) \<and> msID ((ordered a @ [?n]) ! q) = j" for j q
      using ids [of j q] no by (auto simp: nth_append Message0_def less_Suc_eq)
    have "assemblerOk a'" unfolding a' assemblerOk_def using all calls by simp
    moreover have "textAt k j a' = textAt k j a \<and> contentAt j a' = contentAt j a"
    proof (cases "byID a j")
      case None
      then show ?thesis unfolding a' by (simp add: textAt_def contentAt_def Message0_def nth_append)
    next
      case (Some q)
      then have "j \<noteq> orphanID i" "q < length (ordered a)" using None byID_D [OF ok] by auto
      then show ?thesis using Some unfolding a' by (simp add: textAt_def contentAt_def nth_append)
    qed
    ultimately show ?thesis by (simp add: a')
  next
    case (Some q)
    then have "a' = a" "p = q" using m by (auto simp: messageFor_def)
    then show ?thesis using ok Some by (auto simp: assemblerOk_def)
  qed
  then show "assemblerOk a'" "byID a' (orphanID i) = Some p" "p < length (ordered a')"
    "calls a' = calls a" "sealed a' = sealed a" "textAt k j a' = textAt k j a" "contentAt j a' = contentAt j a"
    by blast+
qed

lemma updMessage_text:
  assumes "assemblerOk a" "p < length (ordered a)" "byID a i = Some p"
  shows "textAt k j (updMessage p f a) =
      (if j = i then kindText k (msTimeline (f (ordered a ! p))) else textAt k j a)"
    "contentAt j (updMessage p f a) = (if j = i then msContent (f (ordered a ! p)) else contentAt j a)"
proof -
  have "textAt k j (updMessage p f a) =
        (if j = i then kindText k (msTimeline (f (ordered a ! p))) else textAt k j a) \<and>
      contentAt j (updMessage p f a) = (if j = i then msContent (f (ordered a ! p)) else contentAt j a)"
  proof (cases "byID a j")
    case None
    then show ?thesis using assms(3) by (auto simp: textAt_def contentAt_def)
  next
    case (Some q)
    then have q: "q < length (ordered a)" "msID (ordered a ! q) = j" using byID_D [OF assms(1)] by blast+
    have "msID (ordered a ! p) = i" using byID_D [OF assms(1,3)] by blast
    then have "q = p \<Longrightarrow> j = i" using q(2) by blast
    moreover have "j = i \<Longrightarrow> q = p" using Some assms(3) by simp
    ultimately have "q = p \<longleftrightarrow> j = i" by blast
    then show ?thesis using Some q(1) by (simp add: textAt_def contentAt_def nth_updMessage)
  qed
  then show "textAt k j (updMessage p f a) =
      (if j = i then kindText k (msTimeline (f (ordered a ! p))) else textAt k j a)"
    "contentAt j (updMessage p f a) = (if j = i then msContent (f (ordered a ! p)) else contentAt j a)"
    by blast+
qed

lemma stamp_ok:
  assumes "assemblerOk a" "p < length (ordered a)" "byID a i = Some p"
  shows "assemblerOk (stamp s p emitted a)" "byID (stamp s p emitted a) = byID a"
    "calls (stamp s p emitted a) = calls a" "sealed (stamp s p emitted a) = sealed a"
    "length (ordered (stamp s p emitted a)) = length (ordered a)"
    "textAt k j (stamp s p emitted a) = textAt k j a" "contentAt j (stamp s p emitted a) = contentAt j a"
    "msTimeline (ordered (stamp s p emitted a) ! p) = msTimeline (ordered a ! p)"
proof -
  have "grows (ordered a ! p) ((ordered a ! p)\<lparr>msCreatedAt := emitted\<rparr>)" by (simp add: grows_def)
  then have "assemblerOk (updMessage p (\<lambda>m. m\<lparr>msCreatedAt := emitted\<rparr>) a)"
    using updMessage_ok [OF assms(1), of p "\<lambda>m. m\<lparr>msCreatedAt := emitted\<rparr>"] by simp
  then show "assemblerOk (stamp s p emitted a)" using assms(1) by (simp add: stamp_def)
  have i: "j = i \<Longrightarrow> textAt k j a = kindText k (msTimeline (ordered a ! p)) \<and> contentAt j a = msContent (ordered a ! p)"
    using assms(3) by (simp add: textAt_def contentAt_def)
  show "byID (stamp s p emitted a) = byID a" "calls (stamp s p emitted a) = calls a"
    "sealed (stamp s p emitted a) = sealed a" "length (ordered (stamp s p emitted a)) = length (ordered a)"
    by (simp_all add: stamp_def)
  show "textAt k j (stamp s p emitted a) = textAt k j a" "contentAt j (stamp s p emitted a) = contentAt j a"
    using i updMessage_text [OF assms] by (simp_all add: stamp_def)
  show "msTimeline (ordered (stamp s p emitted a) ! p) = msTimeline (ordered a ! p)"
    using assms(2) by (simp add: stamp_def nth_updMessage)
qed

section \<open>What an event adds to a reply\<close>

fun deltaFor :: "string \<Rightarrow> string \<Rightarrow> Event \<Rightarrow> string" where
  "deltaFor k i (TextChunk j role d) = (if k = ''content'' \<and> orphanID j = i then d else [])"
| "deltaFor k i (ReasoningChunk j d) =
     (if k = ''thinking'' \<and> orphanID (TrimSuffix j ReasoningSuffix) = i then d else [])"
| "deltaFor k i e = []"

text \<open>One event keeps the assembler in order and adds to each message what it streams.\<close>

definition adds :: "Event \<Rightarrow> MessageAssembler \<Rightarrow> MessageAssembler \<Rightarrow> bool" where
  "adds e a a' \<longleftrightarrow> assemblerOk a' \<and>
     (\<forall>j. textAt ''content'' j a' = textAt ''content'' j a @ deltaFor ''content'' j e) \<and>
     (\<forall>j. textAt ''thinking'' j a' = textAt ''thinking'' j a @ deltaFor ''thinking'' j e) \<and>
     (\<forall>j. contentAt j a' = contentAt j a @ deltaFor ''content'' j e)"

lemma streamed_adds:
  assumes ok: "assemblerOk a" and kind: "kind = ''content'' \<or> kind = ''thinking''"
  shows "assemblerOk (streamed parse now i kind delta emitted a)"
    "textAt k j (streamed parse now i kind delta emitted a) =
       textAt k j a @ (if k = kind \<and> orphanID i = j then delta else [])"
    "contentAt j (streamed parse now i kind delta emitted a) =
       contentAt j a @ (if kind = ''content'' \<and> orphanID i = j then delta else [])"
proof -
  obtain a1 p where m: "messageFor now i a = (a1, p)" by fastforce
  define a2 where "a2 = stamp i p emitted a1"
  define f where "f = streamInto i kind delta (Millis parse emitted) (ValueOr (sealed a2 i) 0)"
  have s: "streamed parse now i kind delta emitted a = updMessage p f a2"
    by (simp add: streamed_def m a2_def f_def Let_def)
  note m1 = messageFor_ok [OF ok m]
  note st = stamp_ok [OF m1(1,3,2), where s = i and emitted = emitted, folded a2_def]
  have p: "p < length (ordered a2)" "byID a2 (orphanID i) = Some p" using st(2,5) m1(2,3) by simp_all
  note into = streamInto_text [OF kind, where i = i and delta = delta and time = "Millis parse emitted" and
      n = "ValueOr (sealed a2 i) 0", folded f_def]
  show "assemblerOk (streamed parse now i kind delta emitted a)"
    unfolding s by (rule updMessage_ok [OF st(1)]) (rule into(3))
  have here: "textAt k (orphanID i) a2 = kindText k (msTimeline (ordered a2 ! p))"
    "contentAt (orphanID i) a2 = msContent (ordered a2 ! p)" for k
    using p(2) by (simp_all add: textAt_def contentAt_def)
  show "textAt k j (streamed parse now i kind delta emitted a) =
       textAt k j a @ (if k = kind \<and> orphanID i = j then delta else [])"
    unfolding s updMessage_text [OF st(1) p] into using here m1(6) st(6) by auto
  show "contentAt j (streamed parse now i kind delta emitted a) =
       contentAt j a @ (if kind = ''content'' \<and> orphanID i = j then delta else [])"
    unfolding s updMessage_text [OF st(1) p] into using here m1(7) st(7) by auto
qed

lemma onCall_adds:
  assumes ok: "assemblerOk a" and f: "\<And>b. blockLike b (f b) \<and> bkContent (f b) = bkContent b"
  shows "\<exists>a'. onCall c f a = Some a' \<and> assemblerOk a' \<and>
     (\<forall>k j. textAt k j a' = textAt k j a) \<and> (\<forall>j. contentAt j a' = contentAt j a)"
proof (cases "calls a c")
  case None
  then show ?thesis using ok by (simp add: onCall_def)
next
  case (Some r)
  let ?p = "brMessage r" and ?x = "brIndex r"
  let ?g = "\<lambda>m. m\<lparr>msTimeline := (msTimeline m)[?x := f (msTimeline m ! ?x)]\<rparr>"
  have r: "?p < length (ordered a)" "?x < length (msTimeline (ordered a ! ?p))"
    using ok Some by (auto simp: assemblerOk_def callOk_def)
  then have o: "onCall c f a = Some (updMessage ?p ?g a)" using Some by (simp add: onCall_def)
  have "grows (ordered a ! ?p) (?g (ordered a ! ?p))" using f r(2) by (auto simp: grows_def nth_list_update)
  then have ok': "assemblerOk (updMessage ?p ?g a)" by (rule updMessage_ok [OF ok])
  have i: "byID a (msID (ordered a ! ?p)) = Some ?p" using byID_I [OF ok r(1)] .
  have "kindText k (msTimeline (?g (ordered a ! ?p))) = kindText k (msTimeline (ordered a ! ?p))" for k
    using r(2) f by (simp add: kindText_update blockLike_def)
  then have "textAt k j (updMessage ?p ?g a) = textAt k j a" "contentAt j (updMessage ?p ?g a) = contentAt j a" for k j
    using updMessage_text [OF ok r(1) i, where f = ?g] i by (simp_all add: textAt_def contentAt_def)
  then show ?thesis using o ok' by blast
qed

lemma startCall_adds:
  assumes ok: "assemblerOk a" and a'_def: "a' = startCall parse now c name parent emitted a"
  shows "assemblerOk a'" "textAt ''content'' j a' = textAt ''content'' j a"
    "textAt ''thinking'' j a' = textAt ''thinking'' j a" "contentAt j a' = contentAt j a"
proof -
  define i where "i = callParent c parent a"
  obtain a1 p where m: "messageFor now i a = (a1, p)" by fastforce
  define a2 where "a2 = stamp i p emitted a1"
  define n where "n = length (msTimeline (ordered a2 ! p))"
  define b where "b = Block0\<lparr>bkID := c, bkType := ''tool_call'', bkToolCallID := c, bkName := name,
    bkStartedAt := Millis parse emitted\<rparr>"
  define f where "f = (\<lambda>m :: Message. m\<lparr>msTimeline := msTimeline m @ [b]\<rparr>)"
  have a': "a' = (updMessage p f a2)\<lparr>calls := (calls a2)(c \<mapsto> \<lparr>brMessage = p, brIndex = n\<rparr>)\<rparr>"
    unfolding a'_def startCall_def i_def [symmetric] Let_def m prod.case a2_def [symmetric]
    by (simp add: updMessage_def f_def b_def n_def)
  note m1 = messageFor_ok [OF ok m]
  note st = stamp_ok [OF m1(1,3,2), where s = i and emitted = emitted, folded a2_def]
  have p: "p < length (ordered a2)" "byID a2 (orphanID i) = Some p" using st(2,5) m1(2,3) by simp_all
  have "grows (ordered a2 ! p) (f (ordered a2 ! p))" by (simp add: grows_def f_def nth_append)
  then have ok2: "assemblerOk (updMessage p f a2)" by (rule updMessage_ok [OF st(1)])
  have "callOk (ordered (updMessage p f a2)) c \<lparr>brMessage = p, brIndex = n\<rparr>"
    using p(1) by (simp add: callOk_def nth_updMessage f_def n_def b_def nth_append)
  then show "assemblerOk a'" using ok2 unfolding a' assemblerOk_def by auto
  have here: "textAt k (orphanID i) a2 = kindText k (msTimeline (ordered a2 ! p))"
    "contentAt (orphanID i) a2 = msContent (ordered a2 ! p)" for k
    using p(2) by (simp_all add: textAt_def contentAt_def)
  have same: "textAt k j a' = textAt k j (updMessage p f a2)" "contentAt j a' = contentAt j (updMessage p f a2)" for k
    by (simp_all add: a' textAt_def contentAt_def updMessage_def split: option.splits)
  show "textAt ''content'' j a' = textAt ''content'' j a" "textAt ''thinking'' j a' = textAt ''thinking'' j a"
    "contentAt j a' = contentAt j a"
    unfolding same updMessage_text [OF st(1) p] using here m1(6,7) st(6,7) by (auto simp: f_def b_def)
qed

lemma setResult_like: "blockLike b (setResult content metadata display time b)"
  "bkContent (setResult content metadata display time b) = bkContent b"
  by (simp_all add: setResult_def blockLike_def Let_def)

lemma Apply_adds:
  assumes ok: "assemblerOk a"
  shows "\<exists>a'. Apply E now e emitted a = Some a' \<and> adds e a a'"
proof -
  have call: "\<exists>a'. onCall c f a = Some a' \<and> adds e a a'"
    if like: "\<And>b. blockLike b (f b) \<and> bkContent (f b) = bkContent b" and none: "\<And>k j. deltaFor k j e = []" for c f
  proof -
    obtain a' where "onCall c f a = Some a'" "assemblerOk a'" "\<forall>k j. textAt k j a' = textAt k j a"
      "\<forall>j. contentAt j a' = contentAt j a"
      using onCall_adds [OF ok like, of c] by blast
    then show ?thesis using none by (simp add: adds_def)
  qed
  have none: "adds e a a" if "\<And>k j. deltaFor k j e = []" using ok that by (simp add: adds_def)
  show ?thesis
  proof (cases e)
    case (TextChunk i role d)
    then show ?thesis using streamed_adds [OF ok, of "''content''"] by (simp add: adds_def)
  next
    case (ReasoningChunk i d)
    then show ?thesis using streamed_adds [OF ok, of "''thinking''"] by (simp add: adds_def)
  next
    case (ToolCallStart c name parent)
    then show ?thesis using startCall_adds [OF ok refl] by (simp add: adds_def)
  next
    case (ToolCallArgs c d)
    then show ?thesis using call by (simp add: blockLike_def)
  next
    case (ToolCallEnd c)
    then show ?thesis using call by (simp add: blockLike_def)
  next
    case (ToolCallResult i c role content metadata display)
    then show ?thesis using call setResult_like by simp
  next
    case (ActivityOpened s)
    then show ?thesis using call none by (simp add: blockLike_def)
  next
    case (ActivityDelta i kind patch display)
    then show ?thesis using call none by (simp add: blockLike_def)
  qed (use none in simp_all)
qed

section \<open>Runs\<close>

text \<open>A run starts with an empty assembler, or with the reply a continuation extends.\<close>

definition startAssembler :: "Message option \<Rightarrow> MessageAssembler" where
  "startAssembler seed = (case seed of None \<Rightarrow> NewMessageAssembler | Some m \<Rightarrow> Seed m NewMessageAssembler)"

lemma startAssembler_ok: "assemblerOk (startAssembler seed)"
  by (auto simp: startAssembler_def NewMessageAssembler_def Seed_def assemblerOk_def Let_def split: option.splits)

lemma ApplyAll_adds:
  assumes "assemblerOk a"
  shows "\<exists>a'. ApplyAll E es a = Some a' \<and> assemblerOk a' \<and>
     (\<forall>j. textAt ''content'' j a' = textAt ''content'' j a @ concat (map (\<lambda>(_, e, _). deltaFor ''content'' j e) es)) \<and>
     (\<forall>j. textAt ''thinking'' j a' = textAt ''thinking'' j a @ concat (map (\<lambda>(_, e, _). deltaFor ''thinking'' j e) es)) \<and>
     (\<forall>j. contentAt j a' = contentAt j a @ concat (map (\<lambda>(_, e, _). deltaFor ''content'' j e) es))"
  using assms
proof (induction es arbitrary: a)
  case Nil
  then show ?case by simp
next
  case (Cons x es)
  obtain now e emitted where x: "x = (now, e, emitted)" by (cases x)
  obtain b where b: "Apply E now e emitted a = Some b" "adds e a b" using Apply_adds [OF Cons.prems] by blast
  then have "assemblerOk b" by (simp add: adds_def)
  from Cons.IH [OF this] b show ?case unfolding x adds_def by auto
qed

lemma ApplyAll_append:
  "ApplyAll E (xs @ ys) a = (case ApplyAll E xs a of None \<Rightarrow> None | Some b \<Rightarrow> ApplyAll E ys b)"
proof (induction xs arbitrary: a)
  case Nil
  then show ?case by simp
next
  case (Cons x xs)
  then show ?case by (cases x) (simp split: option.splits)
qed

text \<open>A concrete clock for examples: a time is its milliseconds in decimal.\<close>

definition envT :: timelineEnv where
  "envT = \<lparr>teParse = (\<lambda>s. Some (int (readNat s))), teRaw = (\<lambda>v. [])\<rparr>"

text \<open>C22: Whatever events a run frames, in whatever order, and whether or not it
  continues an earlier reply, applying them never indexes a timeline out of range,
  and every call the assembler knows stays a reference to a tool call block that
  carries the call's own id: what tools report always lands in their own block.\<close>

theorem calls_keep_their_blocks:
  "\<exists>a. ApplyAll E es (startAssembler seed) = Some a \<and>
     (\<forall>c r. calls a c = Some r \<longrightarrow>
        brMessage r < length (MessagesOf a) \<and> brIndex r < length (msTimeline (MessagesOf a ! brMessage r)) \<and>
        bkType (msTimeline (MessagesOf a ! brMessage r) ! brIndex r) = ''tool_call'' \<and>
        bkToolCallID (msTimeline (MessagesOf a ! brMessage r) ! brIndex r) = c)"
proof -
  obtain a where a: "ApplyAll E es (startAssembler seed) = Some a" "assemblerOk a"
    using ApplyAll_adds [OF startAssembler_ok] by blast
  then show ?thesis by (auto simp: assemblerOk_def callOk_def MessagesOf_def)
qed

theorem calls_keep_their_blocks_witness:
  "let es = [([], ToolCallStart ''c1'' ''web_search'' ''m'', ''10''), ([], TextChunk ''m'' ''assistant'' ''hi'', ''20''),
            ([], ToolCallArgs ''c1'' ''{}'', ''30'')]
   in \<exists>a r. ApplyAll envT es (startAssembler None) = Some a \<and> calls a ''c1'' = Some r \<and>
        bkToolCallID (msTimeline (MessagesOf a ! brMessage r) ! brIndex r) = ''c1'' \<and>
        bkArguments (msTimeline (MessagesOf a ! brMessage r) ! brIndex r) = ''{}''"
proof -
  let ?es = "[([], ToolCallStart ''c1'' ''web_search'' ''m'', ''10''), ([], TextChunk ''m'' ''assistant'' ''hi'', ''20''),
            ([], ToolCallArgs ''c1'' ''{}'', ''30'')]"
  obtain a where a: "ApplyAll envT ?es (startAssembler None) = Some a"
    "\<forall>c r. calls a c = Some r \<longrightarrow> bkToolCallID (msTimeline (MessagesOf a ! brMessage r) ! brIndex r) = c"
    using calls_keep_their_blocks [of envT ?es None] by blast
  have c: "calls a ''c1'' = Some \<lparr>brMessage = 0, brIndex = 0\<rparr> \<and> bkArguments (msTimeline (MessagesOf a ! 0) ! 0) = ''{}''"
    using a(1) by (auto simp: startCall_def callParent_def onCall_def streamed_def messageFor_def orphanID_def
        startAssembler_def NewMessageAssembler_def stamp_def updMessage_def streamInto_def openBlock_def growBlock_def
        lateTail_def Let_def Millis_def ValueOr_def envT_def Message0_def Block0_def MessagesOf_def readNat_def
        byte_val_def nth_Cons')
  then have "bkToolCallID (msTimeline (MessagesOf a ! 0) ! 0) = ''c1''" using a(2) by fastforce
  then show ?thesis unfolding Let_def
    using c by (intro exI [of _ a] exI [of _ "\<lparr>brMessage = 0, brIndex = 0\<rparr>"] conjI a(1)) simp_all
qed

text \<open>The text of a kind that a run streamed to a message.\<close>

definition streamedText :: "string \<Rightarrow> string \<Rightarrow> (string \<times> Event \<times> string) list \<Rightarrow> string" where
  "streamedText k i es = concat (map (\<lambda>(_, e, _). deltaFor k i e) es)"

lemma streamedText_append [simp]: "streamedText k i (xs @ ys) = streamedText k i xs @ streamedText k i ys"
  by (simp add: streamedText_def)

lemma ApplyAll_text:
  assumes "assemblerOk a"
  obtains a' where "ApplyAll E es a = Some a'" "assemblerOk a'"
    "\<And>j. textAt ''content'' j a' = textAt ''content'' j a @ streamedText ''content'' j es"
    "\<And>j. textAt ''thinking'' j a' = textAt ''thinking'' j a @ streamedText ''thinking'' j es"
    "\<And>j. contentAt j a' = contentAt j a @ streamedText ''content'' j es"
  using ApplyAll_adds [OF assms, of E es] unfolding streamedText_def by blast

text \<open>What a message held before the run: its own text when it is the reply the run
  continues, nothing otherwise.\<close>

definition seedOf :: "Message option \<Rightarrow> string \<Rightarrow> Message" where
  "seedOf seed i = (case seed of None \<Rightarrow> Message0 | Some m \<Rightarrow> if msID m = i then m else Message0)"

lemma startAssembler_text:
  "textAt k i (startAssembler seed) = kindText k (msTimeline (seedOf seed i))"
  "contentAt i (startAssembler seed) = msContent (seedOf seed i)"
  by (auto simp: startAssembler_def NewMessageAssembler_def Seed_def seedOf_def textAt_def contentAt_def
      Message0_def Let_def split: option.splits)

text \<open>C15: A reply holds exactly what its run streamed: the content of every message the
  run made or continued is what the message held before followed by the text
  chunks addressed to it, in order, its content blocks concatenate to the same, and its
  thinking blocks to the reasoning streamed, even where reasoning arrives after the
  text began.  Chunks that name no message go to the orphan message.\<close>

theorem reply_is_what_was_streamed:
  "\<exists>a. ApplyAll E es (startAssembler seed) = Some a \<and>
     (\<forall>m\<in>set (MessagesOf a).
        msContent m = msContent (seedOf seed (msID m)) @ streamedText ''content'' (msID m) es \<and>
        kindText ''content'' (msTimeline m) =
          kindText ''content'' (msTimeline (seedOf seed (msID m))) @ streamedText ''content'' (msID m) es \<and>
        kindText ''thinking'' (msTimeline m) =
          kindText ''thinking'' (msTimeline (seedOf seed (msID m))) @ streamedText ''thinking'' (msID m) es)"
proof -
  obtain a where a: "ApplyAll E es (startAssembler seed) = Some a" and ok: "assemblerOk a"
    and c: "\<And>j. textAt ''content'' j a = textAt ''content'' j (startAssembler seed) @ streamedText ''content'' j es"
    and t: "\<And>j. textAt ''thinking'' j a = textAt ''thinking'' j (startAssembler seed) @ streamedText ''thinking'' j es"
    and k: "\<And>j. contentAt j a = contentAt j (startAssembler seed) @ streamedText ''content'' j es"
    using ApplyAll_text [OF startAssembler_ok] by blast
  have "msContent m = contentAt (msID m) a" "kindText kind (msTimeline m) = textAt kind (msID m) a"
    if m: "m \<in> set (MessagesOf a)" for m kind
  proof -
    obtain p where "p < length (ordered a)" "m = ordered a ! p"
      using m by (auto simp: MessagesOf_def in_set_conv_nth)
    then have "byID a (msID m) = Some p" "m = ordered a ! p" using byID_I [OF ok] by auto
    then show "msContent m = contentAt (msID m) a" "kindText kind (msTimeline m) = textAt kind (msID m) a"
      by (simp_all add: contentAt_def textAt_def)
  qed
  then show ?thesis using a c t k startAssembler_text by auto
qed

text \<open>At a run of three chunks, late reasoning joins the reasoning before the text.\<close>

theorem reply_is_what_was_streamed_witness:
  "let es = [([], ReasoningChunk ''m-reasoning'' ''ab'', ''10''), ([], TextChunk ''m'' ''assistant'' ''hi'', ''20''),
            ([], ReasoningChunk ''m-reasoning'' ''c'', ''30'')]
   in streamedText ''content'' ''m'' es = ''hi'' \<and> streamedText ''thinking'' ''m'' es = ''abc'' \<and>
      (\<exists>a. ApplyAll envT es (startAssembler None) = Some a \<and> map bkContent (msTimeline (MessagesOf a ! 0)) = [''abc'', ''hi''] \<and>
        (\<forall>m\<in>set (MessagesOf a). msContent m = msContent (seedOf None (msID m)) @ streamedText ''content'' (msID m) es))"
proof -
  let ?es = "[([], ReasoningChunk ''m-reasoning'' ''ab'', ''10''), ([], TextChunk ''m'' ''assistant'' ''hi'', ''20''),
            ([], ReasoningChunk ''m-reasoning'' ''c'', ''30'')]"
  have t: "TrimSuffix ''m-reasoning'' ReasoningSuffix = ''m''" by (simp add: TrimSuffix_def ReasoningSuffix_def)
  have s: "streamedText ''content'' ''m'' ?es = ''hi''" "streamedText ''thinking'' ''m'' ?es = ''abc''"
    by (simp_all add: streamedText_def t orphanID_def)
  obtain a where a: "ApplyAll envT ?es (startAssembler None) = Some a"
    "\<forall>m\<in>set (MessagesOf a). msContent m = msContent (seedOf None (msID m)) @ streamedText ''content'' (msID m) ?es"
    using reply_is_what_was_streamed [of envT ?es None] by blast
  have b: "map bkContent (msTimeline (MessagesOf a ! 0)) = [''abc'', ''hi'']"
    using a(1) by (auto simp: t streamed_def messageFor_def orphanID_def startAssembler_def NewMessageAssembler_def
        stamp_def updMessage_def streamInto_def openBlock_def growBlock_def lateTail_def Let_def Millis_def ValueOr_def
        envT_def Message0_def Block0_def MessagesOf_def readNat_def byte_val_def nth_Cons' list_update_code)
  show ?thesis unfolding Let_def by (intro conjI exI [of _ a] s a b)
qed

section \<open>Edits of a reply\<close>

lemma kept_slots:
  "b \<le> length xs \<Longrightarrow> a \<le> b \<Longrightarrow>
     concat (map (\<lambda>i. if i < length xs \<and> P (xs ! i) then [xs ! i] else []) [a..<b]) =
     filter P (take (b - a) (drop a xs))"
proof (induction b)
  case 0
  then show ?case by simp
next
  case (Suc b)
  show ?case
  proof (cases "a = Suc b")
    case False
    then have "take (Suc b - a) (drop a xs) = take (b - a) (drop a xs) @ [xs ! b]"
      using Suc.prems by (simp add: Suc_diff_le take_Suc_conv_app_nth)
    then show ?thesis using Suc False by simp
  qed simp
qed

text \<open>An edit keeps every step that is not text where it was, and puts the new text, as
  one block, where the first text was.\<close>

definition editedBlocks :: "string \<Rightarrow> Block list \<Rightarrow> Block list" where
  "editedBlocks text bs =
    (case IndexFunc isContent bs of
       None \<Rightarrow> bs @ (if text = [] then [] else
          [Block0\<lparr>bkType := ''content'', bkID := ''edited-content'', bkContent := text\<rparr>])
     | Some k \<Rightarrow> take k bs @ (if text = [] then [] else
          [Block0\<lparr>bkType := ''content'', bkID := bkID (bs ! k), bkContent := text\<rparr>]) @
          filter (\<lambda>b. \<not> isContent b) (drop k bs))"

lemma replaced_blocks:
  assumes "k \<le> length bs"
  shows "concat (map (\<lambda>i. (if i = k \<and> c then [e] else []) @
      (if i < length bs \<and> \<not> isContent (bs ! i) then [bs ! i] else [])) [0..<length bs + 1]) =
    filter (\<lambda>b. \<not> isContent b) (take k bs) @ (if c then [e] else []) @ filter (\<lambda>b. \<not> isContent b) (drop k bs)"
proof -
  define g where "g = (\<lambda>i. if i < length bs \<and> \<not> isContent (bs ! i) then [bs ! i] else [])"
  define f where "f = (\<lambda>i. (if i = k \<and> c then [e] else []) @ g i)"
  have cons: "[k..<length bs + 1] = k # [k + 1..<length bs + 1]" using assms by (simp add: upt_conv_Cons)
  have upt: "[0..<length bs + 1] = [0..<k] @ [k..<length bs + 1]"
    using assms upt_add_eq_append [of 0 k "length bs + 1 - k"] by simp
  have low: "map f [0..<k] = map g [0..<k]" and high: "map f [k + 1..<length bs + 1] = map g [k + 1..<length bs + 1]"
    by (auto simp: f_def)
  have "concat (map f [0..<length bs + 1]) = concat (map g [0..<k]) @ f k @ concat (map g [k + 1..<length bs + 1])"
    unfolding upt cons map_append concat_append low list.map high by simp
  also have "f k @ concat (map g [k + 1..<length bs + 1]) = (if c then [e] else []) @ concat (map g [k..<length bs + 1])"
    unfolding cons by (simp add: f_def)
  also have "concat (map g [k..<length bs + 1]) = concat (map g [k..<length bs])" using assms by (simp add: g_def)
  finally show ?thesis
    using kept_slots [of k bs 0 "\<lambda>b. \<not> isContent b"] kept_slots [of "length bs" bs k "\<lambda>b. \<not> isContent b"] assms
    unfolding f_def g_def by simp
qed

lemma ReplaceReplyText_eq:
  "ReplaceReplyText text m = m\<lparr>msContent := text, msTimeline := editedBlocks text (msTimeline m)\<rparr>"
proof (cases "IndexFunc isContent (msTimeline m)")
  case None
  then have all: "filter (\<lambda>b. \<not> isContent b) (msTimeline m) = msTimeline m" by simp
  show ?thesis
    unfolding ReplaceReplyText_def editedBlocks_def Let_def None option.case prod.case
      replaced_blocks [OF order.refl] by (simp add: all)
next
  case (Some k)
  then have k: "k \<le> length (msTimeline m)" "filter (\<lambda>b. \<not> isContent b) (take k (msTimeline m)) = take k (msTimeline m)"
    using IndexFunc_Some [OF Some] IndexFunc_split [OF Some] by auto
  show ?thesis
    unfolding ReplaceReplyText_def editedBlocks_def Let_def Some option.case prod.case
      replaced_blocks [OF k(1)] by (simp add: k(2))
qed

lemma edited_text:
  "kindText ''content'' (msTimeline (ReplaceReplyText text m)) = text"
  "filter (\<lambda>b. \<not> isContent b) (msTimeline (ReplaceReplyText text m)) = filter (\<lambda>b. \<not> isContent b) (msTimeline m)"
proof -
  have none: "kindText ''content'' (filter (\<lambda>b. \<not> isContent b) bs) = []" for bs
    by (rule kindText_other) (auto simp: isContent_def)
  have kept: "filter (\<lambda>b. \<not> isContent b) (take k bs) @ filter (\<lambda>b. \<not> isContent b) (drop k bs) =
      filter (\<lambda>b. \<not> isContent b) bs" for k bs
    by (metis append_take_drop_id filter_append)
  show "kindText ''content'' (msTimeline (ReplaceReplyText text m)) = text"
  proof (cases "IndexFunc isContent (msTimeline m)")
    case None
    then have "kindText ''content'' (msTimeline m) = []" by (intro kindText_other) (auto simp: isContent_def)
    then show ?thesis unfolding ReplaceReplyText_eq editedBlocks_def None by (simp add: Block0_def)
  next
    case (Some k)
    then have "kindText ''content'' (take k (msTimeline m)) = []"
      using IndexFunc_split [OF Some] by (intro kindText_other) (auto simp: isContent_def)
    then show ?thesis unfolding ReplaceReplyText_eq editedBlocks_def Some by (simp add: none Block0_def)
  qed
  show "filter (\<lambda>b. \<not> isContent b) (msTimeline (ReplaceReplyText text m)) = filter (\<lambda>b. \<not> isContent b) (msTimeline m)"
    unfolding ReplaceReplyText_eq editedBlocks_def
    using kept by (auto simp: isContent_def split: option.splits simp del: IndexFunc_None)
qed

end
