(* ===== verification/Thoughts.thy ===== *)
theory Thoughts
  imports Timeline
begin

text \<open>Summaries of a reply's reasoning while it thinks, \<^verbatim>\<open>internal/engine/thoughts.go\<close>.  The
  stream's mutex orders every change, so each is a function of the state.  A goroutine
  that asks for a summary is the job it carries, kept in \<open>tsJobs\<close> until its answer
  arrives, and the timer is the time it is due with the epoch its closure captured.
  Times are nanoseconds of the monotonic clock.\<close>

section \<open>Fields of a text\<close>

text \<open>\<^verbatim>\<open>strings.Fields\<close>: the parts between runs of white space.  A white space rune
  starts with a byte no other rune continues with, so a match of its bytes is the rune.\<close>

definition spaceLen :: "string \<Rightarrow> nat" where
  "spaceLen s = (case List.find (\<lambda>r. take (length r) s = r) spaceRunes of None \<Rightarrow> 0 | Some r \<Rightarrow> length r)"

function fieldsFrom :: "string \<Rightarrow> string \<Rightarrow> string list" where
  "fieldsFrom cur [] = (if cur = [] then [] else [cur])"
| "fieldsFrom cur (c # s) =
    (if spaceLen (c # s) > 0
     then (if cur = [] then [] else [cur]) @ fieldsFrom [] (drop (spaceLen (c # s)) (c # s))
     else fieldsFrom (cur @ [c]) s)"
  by pat_completeness auto
termination by (relation "measure (\<lambda>(cur, s). length s)") auto

definition Fields :: "string \<Rightarrow> string list" where
  "Fields s = fieldsFrom [] s"

fun joinWords :: "string list \<Rightarrow> string" where
  "joinWords [] = []"
| "joinWords [w] = w"
| "joinWords (w # ws) = w @ '' '' @ joinWords ws"

section \<open>Following a trace\<close>

definition minSummaryWords :: nat where "minSummaryWords = 20"
definition summaryTailWords :: nat where "summaryTailWords = 200"
definition summaryInterval :: int where "summaryInterval = 3000000000"

record summaryJob =
  sjTail :: string
  sjEpoch :: nat
  sjMessage :: string
  sjBlock :: string

record thoughtSummaries =
  tsMessage :: string
  tsBlock :: string
  tsTrace :: string
  tsEpoch :: nat
  tsInFlight :: bool
  tsLast :: "int option"
  tsTimer :: "(int \<times> nat) option"
  tsJobs :: "summaryJob list"

definition newThoughts :: thoughtSummaries where
  "newThoughts = \<lparr>tsMessage = [], tsBlock = [], tsTrace = [], tsEpoch = 0, tsInFlight = False,
     tsLast = None, tsTimer = None, tsJobs = []\<rparr>"

definition closeTrace :: "thoughtSummaries \<Rightarrow> thoughtSummaries" where
  "closeTrace s = s\<lparr>tsEpoch := tsEpoch s + 1, tsMessage := [], tsBlock := [], tsTrace := [],
     tsInFlight := False, tsTimer := None\<rparr>"

definition summaryTail :: "string \<Rightarrow> string" where
  "summaryTail trace = (let words = Fields trace in
     if length words > summaryTailWords then joinWords (drop (length words - summaryTailWords) words) else trace)"

definition fire :: "int \<Rightarrow> thoughtSummaries \<Rightarrow> thoughtSummaries" where
  "fire now s = s\<lparr>tsInFlight := True, tsLast := Some now,
     tsJobs := tsJobs s @ [\<lparr>sjTail = summaryTail (tsTrace s), sjEpoch = tsEpoch s,
       sjMessage = tsMessage s, sjBlock = tsBlock s\<rparr>]\<rparr>"

text \<open>A zero \<^verbatim>\<open>last\<close> is longer ago than any interval.\<close>

definition summaryWait :: "int \<Rightarrow> thoughtSummaries \<Rightarrow> int" where
  "summaryWait now s = (case tsLast s of None \<Rightarrow> 0 | Some l \<Rightarrow> summaryInterval - (now - l))"

definition considerTrace :: "int \<Rightarrow> thoughtSummaries \<Rightarrow> thoughtSummaries" where
  "considerTrace now s =
    (if tsInFlight s \<or> tsTimer s \<noteq> None \<or> length (Fields (tsTrace s)) < minSummaryWords then s
     else if summaryWait now s \<le> 0 then fire now s
     else s\<lparr>tsTimer := Some (now + summaryWait now s, tsEpoch s)\<rparr>)"

fun follow :: "int \<Rightarrow> MessageAssembler \<Rightarrow> Event \<Rightarrow> thoughtSummaries \<Rightarrow> thoughtSummaries" where
  "follow now a (ReasoningChunk i d) s =
    (let message = TrimSuffix i ReasoningSuffix in
     case LastBlock message a of None \<Rightarrow> s
     | Some block \<Rightarrow>
        if bkType block \<noteq> ''thinking'' then s
        else let s = (if bkID block \<noteq> tsBlock s
                      then (closeTrace s)\<lparr>tsMessage := message, tsBlock := bkID block\<rparr> else s)
             in considerTrace now (s\<lparr>tsTrace := bkContent block\<rparr>))"
| "follow now a (TextChunk i role d) s = closeTrace s"
| "follow now a (ToolCallStart c name parent) s = closeTrace s"
| "follow now a e s = s"

text \<open>The timer's function: it fires unless the trace it was set for has closed.\<close>

definition timerFires :: "int \<Rightarrow> nat \<Rightarrow> thoughtSummaries \<Rightarrow> thoughtSummaries" where
  "timerFires now epoch s = (if tsEpoch s = epoch then fire now (s\<lparr>tsTimer := None\<rparr>) else s)"

text \<open>A summary arrives: dropped when its trace has closed, and framed when it says
  something.\<close>

definition summaryArrives ::
  "summaryJob \<Rightarrow> string option \<Rightarrow> thoughtSummaries \<Rightarrow> thoughtSummaries \<times> Event option" where
  "summaryArrives j answer s =
    (let s = s\<lparr>tsJobs := remove1 j (tsJobs s)\<rparr> in
     if tsEpoch s \<noteq> sjEpoch j then (s, None)
     else (s\<lparr>tsInFlight := False\<rparr>,
       case answer of None \<Rightarrow> None
       | Some summary \<Rightarrow> if TrimSpace summary = [] then None
           else Some (ReasoningSummary (sjMessage j) (sjBlock j) (TrimSpace summary))))"

section \<open>Summaries over a run\<close>

text \<open>The state of a run's summaries at a time, with the times summaries were asked for,
  latest first.  A timer's function runs no earlier than the timer is due; one that was
  stopped may still run, as Go allows, with the epoch it captured.\<close>

definition asked :: "int \<Rightarrow> thoughtSummaries \<Rightarrow> thoughtSummaries \<Rightarrow> int list" where
  "asked now s s' = (if length (tsJobs s) < length (tsJobs s') then [now] else [])"

inductive thoughtReach :: "int \<Rightarrow> thoughtSummaries \<Rightarrow> (int \<times> nat) set \<Rightarrow> int list \<Rightarrow> bool" where
  start: "thoughtReach now newThoughts {} []"
| follows: "thoughtReach t s ts fs \<Longrightarrow> t \<le> now \<Longrightarrow> s' = follow now a e s \<Longrightarrow>
    thoughtReach now s' (ts \<union> set_option (tsTimer s')) (asked now s s' @ fs)"
| timer: "thoughtReach t s ts fs \<Longrightarrow> t \<le> now \<Longrightarrow> (due, epoch) \<in> ts \<Longrightarrow> due \<le> now \<Longrightarrow> s' = timerFires now epoch s \<Longrightarrow>
    thoughtReach now s' (ts - {(due, epoch)}) (asked now s s' @ fs)"
| arrives: "thoughtReach t s ts fs \<Longrightarrow> t \<le> now \<Longrightarrow> j \<in> set (tsJobs s) \<Longrightarrow> s' = fst (summaryArrives j answer s) \<Longrightarrow>
    thoughtReach now s' ts fs"
| ends: "thoughtReach t s ts fs \<Longrightarrow> t \<le> now \<Longrightarrow> thoughtReach now (closeTrace s) ts fs"

text \<open>The jobs of the open trace.\<close>

definition openJobs :: "thoughtSummaries \<Rightarrow> summaryJob list" where
  "openJobs s = filter (\<lambda>j. sjEpoch j = tsEpoch s) (tsJobs s)"

text \<open>A timer that can still fire is the trace's own, and due an interval after the last
  summary was asked for; \<open>ts\<close> are the timers whose functions may yet run.\<close>

definition timersOk :: "(int \<times> nat) set \<Rightarrow> nat \<Rightarrow> (int \<times> nat) option \<Rightarrow> bool \<Rightarrow> int option \<Rightarrow> bool" where
  "timersOk ts epoch timer inFlight prev \<longleftrightarrow>
     (\<forall>d\<in>ts. snd d \<le> epoch \<and> (snd d = epoch \<longrightarrow> timer = Some d)) \<and>
     (\<forall>d. timer = Some d \<longrightarrow> snd d = epoch \<and> \<not> inFlight \<and>
        (\<exists>l. prev = Some l \<and> fst d = l + summaryInterval))"

definition lastAsked :: "int list \<Rightarrow> int option" where
  "lastAsked fs = (case fs of [] \<Rightarrow> None | f # _ \<Rightarrow> Some f)"

definition thoughtsOk :: "int \<Rightarrow> thoughtSummaries \<Rightarrow> (int \<times> nat) set \<Rightarrow> int list \<Rightarrow> bool" where
  "thoughtsOk now s ts fs \<longleftrightarrow>
     (\<forall>j\<in>set (tsJobs s). sjEpoch j \<le> tsEpoch s) \<and>
     length (openJobs s) = (if tsInFlight s then 1 else 0) \<and>
     (\<forall>j\<in>set (openJobs s). sjMessage j = tsMessage s \<and> sjBlock j = tsBlock s) \<and>
     timersOk ts (tsEpoch s) (tsTimer s) (tsInFlight s) (tsLast s) \<and>
     lastAsked fs = tsLast s \<and> (\<forall>f\<in>set fs. f \<le> now) \<and>
     sorted_wrt (\<lambda>x y. y + summaryInterval \<le> x) fs"

lemma interval_pos: "0 < summaryInterval"
  by (simp add: summaryInterval_def)

lemma timersOk_simps:
  "timersOk ts epoch None inFlight prev \<longleftrightarrow> (\<forall>d\<in>ts. snd d < epoch)"
  "timersOk ts epoch (Some d) inFlight prev \<longleftrightarrow> (\<forall>e\<in>ts. snd e \<le> epoch \<and> (snd e = epoch \<longrightarrow> e = d)) \<and>
     snd d = epoch \<and> \<not> inFlight \<and> (\<exists>l. prev = Some l \<and> fst d = l + summaryInterval)"
  by (auto simp: timersOk_def nat_less_le)

lemma timersOk_epoch: "timersOk ts epoch timer inFlight prev \<Longrightarrow> d \<in> ts \<Longrightarrow> snd d \<le> epoch"
  unfolding timersOk_def by blast

lemma timersOk_own: "timersOk ts epoch timer inFlight prev \<Longrightarrow> timersOk (ts \<union> set_option timer) epoch timer inFlight prev"
  by (cases timer) (auto simp: timersOk_simps)

lemma timersOk_idle: "timersOk ts epoch timer inFlight prev \<Longrightarrow> timersOk ts epoch timer False prev"
  by (cases timer) (auto simp: timersOk_simps)

lemma thoughtsOk_later: "thoughtsOk t s ts fs \<Longrightarrow> t \<le> now \<Longrightarrow> thoughtsOk now s ts fs"
  unfolding thoughtsOk_def by fastforce

lemma thoughtsOk_trace [simp]: "thoughtsOk now (s\<lparr>tsTrace := x\<rparr>) ts fs = thoughtsOk now s ts fs"
  by (simp add: thoughtsOk_def openJobs_def)

lemma openJobs_close [simp]: "(\<forall>j\<in>set (tsJobs s). sjEpoch j \<le> tsEpoch s) \<Longrightarrow> openJobs (closeTrace s) = []"
  by (fastforce simp: openJobs_def closeTrace_def filter_empty_conv)

lemma retarget_ok:
  assumes ok: "thoughtsOk now s ts fs"
  shows "thoughtsOk now ((closeTrace s)\<lparr>tsMessage := m, tsBlock := b\<rparr>) ts fs"
proof -
  have j: "\<forall>j\<in>set (tsJobs s). sjEpoch j \<le> tsEpoch s" and ts: "timersOk ts (tsEpoch s) (tsTimer s) (tsInFlight s) (tsLast s)"
    and fs: "lastAsked fs = tsLast s" "\<forall>f\<in>set fs. f \<le> now"
      "sorted_wrt (\<lambda>x y. y + summaryInterval \<le> x) fs"
    using ok unfolding thoughtsOk_def by blast+
  have "openJobs ((closeTrace s)\<lparr>tsMessage := m, tsBlock := b\<rparr>) = []"
    using openJobs_close [OF j] by (simp add: openJobs_def)
  moreover have "\<forall>j\<in>set (tsJobs s). sjEpoch j \<le> tsEpoch s + 1" using j le_SucI by fastforce
  moreover have "timersOk ts (tsEpoch s + 1) None False (tsLast s)"
    using timersOk_epoch [OF ts] by (auto simp: timersOk_simps less_Suc_eq_le)
  ultimately show ?thesis using fs unfolding thoughtsOk_def by (simp add: closeTrace_def)
qed

lemma closeTrace_ok: "thoughtsOk now s ts fs \<Longrightarrow> thoughtsOk now (closeTrace s) ts fs"
  using retarget_ok [of now s ts fs "[]" "[]"] by (cases s) (simp add: closeTrace_def)

lemma fire_ok:
  assumes ok: "thoughtsOk now s ts fs" and idle: "\<not> tsInFlight s" "tsTimer s = None"
    and wait: "\<And>l. tsLast s = Some l \<Longrightarrow> l + summaryInterval \<le> now"
  shows "thoughtsOk now (fire now s) ts (now # fs)"
proof -
  have fs: "sorted_wrt (\<lambda>x y. y + summaryInterval \<le> x) fs" "lastAsked fs = tsLast s"
    "\<forall>f\<in>set fs. f \<le> now" using ok by (simp_all add: thoughtsOk_def)
  have "\<forall>y\<in>set fs. y + summaryInterval \<le> now"
  proof (cases fs)
    case (Cons f gs)
    then have "f + summaryInterval \<le> now" using fs(2) wait by (simp add: lastAsked_def)
    then show ?thesis using fs(1) Cons interval_pos by fastforce
  qed simp
  then have w: "sorted_wrt (\<lambda>x y. y + summaryInterval \<le> x) (now # fs)" using fs(1) by simp
  have none: "openJobs s = []" using ok idle(1) by (simp add: thoughtsOk_def)
  have "timersOk ts (tsEpoch s) None True (Some now)"
    using ok idle(2) by (simp add: thoughtsOk_def timersOk_simps)
  moreover have "openJobs (fire now s) = [\<lparr>sjTail = summaryTail (tsTrace s), sjEpoch = tsEpoch s,
       sjMessage = tsMessage s, sjBlock = tsBlock s\<rparr>]"
    using none by (simp add: openJobs_def fire_def)
  ultimately show ?thesis using ok w fs(3) idle by (auto simp: thoughtsOk_def fire_def lastAsked_def)
qed

lemma thoughtsOk_timer: "thoughtsOk now s ts fs \<Longrightarrow> thoughtsOk now s (ts \<union> set_option (tsTimer s)) fs"
  unfolding thoughtsOk_def using timersOk_own by blast

lemma thoughtsOk_subset: "thoughtsOk now s ts fs \<Longrightarrow> ts' \<subseteq> ts \<Longrightarrow> thoughtsOk now s ts' fs"
  unfolding thoughtsOk_def timersOk_def by blast

lemma considerTrace_ok:
  assumes ok: "thoughtsOk now s ts fs"
  shows "thoughtsOk now (considerTrace now s) (ts \<union> set_option (tsTimer (considerTrace now s)))
     (asked now s (considerTrace now s) @ fs)"
proof -
  consider (stay) "tsInFlight s \<or> tsTimer s \<noteq> None \<or> length (Fields (tsTrace s)) < minSummaryWords"
    | (now) "\<not> tsInFlight s" "tsTimer s = None" "\<not> length (Fields (tsTrace s)) < minSummaryWords" "summaryWait now s \<le> 0"
    | (wait) "\<not> tsInFlight s" "tsTimer s = None" "\<not> length (Fields (tsTrace s)) < minSummaryWords" "\<not> summaryWait now s \<le> 0"
    by blast
  then show ?thesis
  proof cases
    case stay
    then have "considerTrace now s = s" by (simp add: considerTrace_def)
    then show ?thesis using thoughtsOk_timer [OF ok] by (simp add: asked_def)
  next
    case now
    then have c: "considerTrace now s = fire now s" by (simp add: considerTrace_def)
    have "thoughtsOk now (fire now s) ts (now # fs)"
      by (rule fire_ok [OF ok now(1,2)]) (use now(4) in \<open>simp add: summaryWait_def\<close>)
    then show ?thesis unfolding c using now(2) by (simp add: asked_def fire_def)
  next
    case wait
    then obtain l where l: "tsLast s = Some l" by (cases "tsLast s") (simp_all add: summaryWait_def)
    then have c: "considerTrace now s = s\<lparr>tsTimer := Some (l + summaryInterval, tsEpoch s)\<rparr>"
      using wait by (simp add: considerTrace_def summaryWait_def)
    have "timersOk ts (tsEpoch s) None False (Some l)" using ok wait(1,2) l by (simp add: thoughtsOk_def)
    then have "timersOk (ts \<union> {(l + summaryInterval, tsEpoch s)}) (tsEpoch s) (Some (l + summaryInterval, tsEpoch s)) False (Some l)"
      by (auto simp: timersOk_simps)
    then show ?thesis using ok wait l unfolding c by (simp add: thoughtsOk_def openJobs_def asked_def)
  qed
qed

lemma follow_ok:
  assumes ok: "thoughtsOk now s ts fs" and s': "s' = follow now a e s"
  shows "thoughtsOk now s' (ts \<union> set_option (tsTimer s')) (asked now s s' @ fs)"
proof -
  have same: "thoughtsOk now s (ts \<union> set_option (tsTimer s)) (asked now s s @ fs)"
    using thoughtsOk_timer [OF ok] by (simp add: asked_def)
  have closed: "thoughtsOk now (closeTrace s) (ts \<union> set_option (tsTimer (closeTrace s))) (asked now s (closeTrace s) @ fs)"
    using closeTrace_ok [OF ok] by (simp add: closeTrace_def asked_def)
  consider "s' = s" | "s' = closeTrace s" | s1 where "s' = considerTrace now s1" "thoughtsOk now s1 ts fs" "tsJobs s1 = tsJobs s"
  proof (cases e)
    case (ReasoningChunk i d)
    show thesis
    proof (cases "LastBlock (TrimSuffix i ReasoningSuffix) a")
      case None
      then show thesis using that(1) s' ReasoningChunk by simp
    next
      case (Some b)
      let ?s = "if bkID b \<noteq> tsBlock s then (closeTrace s)\<lparr>tsMessage := TrimSuffix i ReasoningSuffix, tsBlock := bkID b\<rparr> else s"
      let ?t = "?s\<lparr>tsTrace := bkContent b\<rparr>"
      have "thoughtsOk now ?t ts fs" "tsJobs ?t = tsJobs s" using ok retarget_ok [OF ok] by (simp_all add: closeTrace_def)
      moreover have "s' = s \<or> s' = considerTrace now ?t" using s' ReasoningChunk Some by (simp add: Let_def)
      ultimately show thesis using that(1,3) by blast
    qed
  qed (use that(1,2) s' in simp_all)
  then show ?thesis
  proof cases
    case 3
    then show ?thesis using considerTrace_ok [OF 3(2)] by (simp add: asked_def)
  qed (use same closed in simp_all)
qed

lemma timer_ok:
  assumes ok: "thoughtsOk now s ts fs" and d: "(due, epoch) \<in> ts" "due \<le> now" and s': "s' = timerFires now epoch s"
  shows "thoughtsOk now s' (ts - {(due, epoch)}) (asked now s s' @ fs)"
proof (cases "tsEpoch s = epoch")
  case True
  let ?s = "s\<lparr>tsTimer := None\<rparr>"
  have own: "timersOk ts (tsEpoch s) (tsTimer s) (tsInFlight s) (tsLast s)" using ok by (simp add: thoughtsOk_def)
  then have t: "tsTimer s = Some (due, epoch)" using d(1) True unfolding timersOk_def by fastforce
  then obtain l where l: "\<not> tsInFlight s" "tsLast s = Some l" "due = l + summaryInterval"
    using own by (auto simp: timersOk_simps)
  have "timersOk (ts - {(due, epoch)}) (tsEpoch s) None (tsInFlight s) (tsLast s)"
    using own t by (auto simp: timersOk_simps nat_less_le)
  then have "thoughtsOk now ?s (ts - {(due, epoch)}) fs"
    using ok by (simp add: thoughtsOk_def openJobs_def)
  then have "thoughtsOk now (fire now ?s) (ts - {(due, epoch)}) (now # fs)"
    by (rule fire_ok) (use l d(2) in simp_all)
  then show ?thesis using s' True by (simp add: timerFires_def asked_def fire_def)
next
  case False
  then have "s' = s" using s' by (simp add: timerFires_def)
  moreover have "thoughtsOk now s (ts - {(due, epoch)}) fs" using thoughtsOk_subset [OF ok] by blast
  ultimately show ?thesis by (simp add: asked_def)
qed

lemma arrives_ok:
  assumes ok: "thoughtsOk now s ts fs" and j: "j \<in> set (tsJobs s)" and s': "s' = fst (summaryArrives j answer s)"
  shows "thoughtsOk now s' ts fs"
proof -
  have jobs: "\<forall>k\<in>set (remove1 j (tsJobs s)). sjEpoch k \<le> tsEpoch s"
    using ok set_remove1_subset [of j "tsJobs s"] unfolding thoughtsOk_def by blast
  show ?thesis
  proof (cases "sjEpoch j = tsEpoch s")
    case True
    then have mem: "j \<in> set (openJobs s)" using j by (simp add: openJobs_def)
    then have fl: "tsInFlight s" "openJobs s = [j]"
      using ok unfolding thoughtsOk_def by (auto simp: length_Suc_conv split: if_splits)
    have "s' = s\<lparr>tsJobs := remove1 j (tsJobs s), tsInFlight := False\<rparr>"
      using s' True by (simp add: summaryArrives_def Let_def)
    moreover have "openJobs (s\<lparr>tsJobs := remove1 j (tsJobs s), tsInFlight := False\<rparr>) = remove1 j (openJobs s)"
      by (simp add: openJobs_def filter_remove1)
    ultimately show ?thesis using ok fl jobs timersOk_idle [of ts "tsEpoch s" "tsTimer s" True "tsLast s"]
      by (simp add: thoughtsOk_def)
  next
    case False
    then have "s' = s\<lparr>tsJobs := remove1 j (tsJobs s)\<rparr>" using s' by (auto simp: summaryArrives_def Let_def)
    moreover have "openJobs (s\<lparr>tsJobs := remove1 j (tsJobs s)\<rparr>) = openJobs s"
      using False by (simp add: openJobs_def filter_remove1 remove1_idem)
    ultimately show ?thesis using ok jobs by (simp add: thoughtsOk_def)
  qed
qed

lemma thoughtReach_ok: "thoughtReach now s ts fs \<Longrightarrow> thoughtsOk now s ts fs"
proof (induction rule: thoughtReach.induct)
  case (start now)
  then show ?case by (simp add: thoughtsOk_def newThoughts_def openJobs_def lastAsked_def timersOk_simps)
next
  case (follows t s ts fs now s' a e)
  then show ?case using follow_ok thoughtsOk_later by blast
next
  case (timer t s ts fs now due epoch s')
  then show ?case using timer_ok thoughtsOk_later by blast
next
  case (arrives t s ts fs now j s' answer)
  then show ?case using arrives_ok thoughtsOk_later by blast
next
  case (ends t s ts fs now)
  then show ?case using closeTrace_ok thoughtsOk_later by blast
qed

text \<open>C23: Whatever a reply streams and however timers and answers interleave, summaries of its
  reasoning are asked for at least three seconds apart, at most one request is under way
  for the trace that is open, and that one names the message and the block being followed:
  a summary of a trace that has closed is dropped, never shown for another.\<close>

theorem summaries_rationed:
  assumes "thoughtReach now s ts fs"
  shows "sorted_wrt (\<lambda>x y. y + 3000000000 \<le> x) fs \<and>
    length (filter (\<lambda>j. sjEpoch j = tsEpoch s) (tsJobs s)) \<le> 1 \<and>
    (\<forall>j answer e. j \<in> set (tsJobs s) \<longrightarrow> snd (summaryArrives j answer s) = Some e \<longrightarrow>
      (\<exists>text. e = ReasoningSummary (tsMessage s) (tsBlock s) text))"
proof -
  have ok: "thoughtsOk now s ts fs" using thoughtReach_ok [OF assms] .
  then have "sorted_wrt (\<lambda>x y. y + 3000000000 \<le> x) fs" "length (openJobs s) \<le> 1"
    by (auto simp: thoughtsOk_def summaryInterval_def)
  moreover have "\<exists>text. e = ReasoningSummary (tsMessage s) (tsBlock s) text"
    if j: "j \<in> set (tsJobs s)" and e: "snd (summaryArrives j answer s) = Some e" for j answer e
  proof -
    have "sjEpoch j = tsEpoch s" "\<exists>text. e = ReasoningSummary (sjMessage j) (sjBlock j) text"
      using e by (auto simp: summaryArrives_def Let_def split: if_splits option.splits)
    moreover from this(1) have "sjMessage j = tsMessage s" "sjBlock j = tsBlock s"
      using ok j by (auto simp: thoughtsOk_def openJobs_def)
    ultimately show ?thesis by simp
  qed
  ultimately show ?thesis unfolding openJobs_def by blast
qed

text \<open>A reply twenty words into its reasoning.\<close>

definition traceW :: string where
  "traceW = concat (replicate 20 ''a '')"

definition replyW :: MessageAssembler where
  "replyW = \<lparr>ordered = [Message0\<lparr>msID := ''m'', msTimeline := [Block0\<lparr>bkID := ''b'', bkType := ''thinking'', bkContent := traceW\<rparr>]\<rparr>],
     byID = [''m'' \<mapsto> 0], calls = Map.empty, sealed = Map.empty\<rparr>"

definition thoughtsW :: thoughtSummaries where
  "thoughtsW = \<lparr>tsMessage = ''m'', tsBlock = ''b'', tsTrace = traceW, tsEpoch = 1, tsInFlight = True,
     tsLast = Some 5, tsTimer = None, tsJobs = [\<lparr>sjTail = traceW, sjEpoch = 1, sjMessage = ''m'', sjBlock = ''b''\<rparr>]\<rparr>"

lemma fields_traceW: "length (Fields traceW) = 20"
  by (simp add: traceW_def Fields_def spaceLen_def spaceRunes_def eval_nat_numeral)

lemma follow_thoughtsW: "follow 5 replyW (ReasoningChunk ''m'' ''a'') newThoughts = thoughtsW"
proof -
  have "TrimSuffix ''m'' ReasoningSuffix = ''m''" by (simp add: TrimSuffix_def ReasoningSuffix_def)
  then show ?thesis
    using fields_traceW by (simp add: LastBlock_def replyW_def Message0_def Block0_def closeTrace_def newThoughts_def
        considerTrace_def minSummaryWords_def summaryWait_def fire_def summaryTail_def summaryTailWords_def thoughtsW_def Let_def)
qed

theorem summaries_rationed_witness:
  "thoughtReach 5 thoughtsW {} [5] \<and>
   length (filter (\<lambda>j. sjEpoch j = tsEpoch thoughtsW) (tsJobs thoughtsW)) \<le> 1 \<and>
   (\<exists>text. snd (summaryArrives (hd (tsJobs thoughtsW)) (Some ''x'') thoughtsW) =
      Some (ReasoningSummary (tsMessage thoughtsW) (tsBlock thoughtsW) text))"
proof -
  have "thoughtReach 5 thoughtsW ({} \<union> set_option (tsTimer thoughtsW)) (asked 5 newThoughts thoughtsW @ [])"
    by (rule thoughtReach.follows [OF thoughtReach.start [of 5] _ follow_thoughtsW [symmetric]]) simp
  then have r: "thoughtReach 5 thoughtsW {} [5]" by (simp add: thoughtsW_def asked_def newThoughts_def)
  have x: "TrimSpace ''x'' \<noteq> []" by code_simp
  obtain e where e: "snd (summaryArrives (hd (tsJobs thoughtsW)) (Some ''x'') thoughtsW) = Some e"
    using x by (simp add: summaryArrives_def thoughtsW_def)
  have "hd (tsJobs thoughtsW) \<in> set (tsJobs thoughtsW)" by (simp add: thoughtsW_def)
  then show ?thesis using r e summaries_rationed [OF r] by blast
qed

end
