(* ===== verification/Reply_Stream.thy ===== *)
theory Reply_Stream
  imports Thoughts Frame_Log
begin

text \<open>How a run's events become frames, \<^verbatim>\<open>internal/engine/stream.go\<close>.  The stream's mutex
  orders every emit, timer and summary, so a run is a sequence of such steps.  Deltas
  that follow each other closely are held back and leave as one frame; the assembler
  reads only what is framed.  The main result is that holding deltas back changes
  nothing: once the held deltas are framed, the reply the assembler has built is the one
  it would have built from every event as it was emitted.  Encoding JSON is an argument;
  the log the frames go to is the one of \<^verbatim>\<open>runlog.go\<close>.\<close>

section \<open>The stream\<close>

definition deltaWindow :: int where "deltaWindow = 50000000"

text \<open>A held delta is told from a later one by \<open>pdID\<close>, as its pointer does in Go.\<close>

record pendingDelta =
  pdFirst :: Event
  pdKey :: string
  pdText :: string
  pdAt :: string
  pdID :: nat

record Stream =
  stFrames :: FrameLog
  stObserve :: "MessageAssembler option"
  stThoughts :: "thoughtSummaries option"
  stFolding :: bool
  stActivities :: "ActivitySnapshot list"
  stPending :: "pendingDelta option"
  stLastDelta :: string
  stLastAt :: int
  stNext :: nat

text \<open>What the standard library does with JSON: the members of an event and of a frame's
  header, a frame as an object, the delta it holds, and writing them again.\<close>

record streamEnv =
  seMembers :: "Event \<Rightarrow> bytes option"
  seHeader :: "string \<Rightarrow> string \<Rightarrow> bytes option"
  seObject :: "bytes \<Rightarrow> (string \<times> bytes) list"
  seDelta :: "bytes \<Rightarrow> string"
  seString :: "string \<Rightarrow> bytes"
  seWrite :: "(string \<times> bytes) list \<Rightarrow> bytes"
  seTimeline :: timelineEnv

definition encodeAt :: "streamEnv \<Rightarrow> Event \<Rightarrow> string \<Rightarrow> bytes option" where
  "encodeAt J e emitted = EncodeEvent (seMembers J) (seHeader J) e emitted"

definition merged :: "streamEnv \<Rightarrow> bytes list \<Rightarrow> bytes" where
  "merged J deltas = seWrite J (AList.update ''delta'' (seString J (concat (map (seDelta J) deltas)))
     (seObject J (hd deltas)))"

section \<open>Tool activities\<close>

definition activityAt :: "string \<Rightarrow> ActivitySnapshot list \<Rightarrow> nat option" where
  "activityAt i as = IndexFunc (\<lambda>a. asMessageID a = i) as"

definition patchActivity :: "ActivitySnapshot \<Rightarrow> ActivityPatch \<Rightarrow> ActivitySnapshot" where
  "patchActivity a op = (case apValue op of
     PNumber v \<Rightarrow> if apPath op = ''/progress'' then a\<lparr>asContent := (asContent a)\<lparr>taProgress := v\<rparr>\<rparr> else a
   | PText v \<Rightarrow> if apPath op = ''/output/-''
       then a\<lparr>asContent := (asContent a)\<lparr>taOutput := taOutput (asContent a) @ [v]\<rparr>\<rparr> else a
   | POther v \<Rightarrow> a)"

fun track :: "Event \<Rightarrow> ActivitySnapshot list \<Rightarrow> ActivitySnapshot list" where
  "track (ActivityOpened s) as = (case activityAt (asMessageID s) as of
     Some i \<Rightarrow> as[i := s] | None \<Rightarrow> as @ [s])"
| "track (ActivityDelta i kind patch display) as = (case activityAt i as of None \<Rightarrow> as
     | Some k \<Rightarrow>
        let a = foldl patchActivity (as ! k) patch
        in as[k := (if display \<noteq> None then a\<lparr>asDisplay := display\<rparr> else a)])"
| "track e as = as"

definition activityFrame :: "streamEnv \<Rightarrow> string \<Rightarrow> ActivitySnapshot list \<Rightarrow> string \<Rightarrow> bytes option" where
  "activityFrame J stampNow as i = (case activityAt i as of None \<Rightarrow> None
     | Some k \<Rightarrow> encodeAt J (ActivityOpened (as ! k)) stampNow)"

section \<open>Framing\<close>

fun typeName :: "Event \<Rightarrow> string" where
  "typeName (TextChunk _ _ _) = ''domain.TextChunk''"
| "typeName (ReasoningChunk _ _) = ''domain.ReasoningChunk''"
| "typeName (ToolCallArgs _ _) = ''domain.ToolCallArgs''"
| "typeName _ = []"

definition deltaKey :: "Event \<Rightarrow> string" where
  "deltaKey e = typeName e @ '':'' @ Target e"

fun kindOf :: "Event \<Rightarrow> frameKind \<times> string" where
  "kindOf (ActivityOpened s) = (frameActivity, asMessageID s)"
| "kindOf (ActivityDelta i _ _ _) = (frameActivity, i)"
| "kindOf e = (if isTextDelta e then (frameDelta, deltaKey e) else (frameKept, []))"

text \<open>The time of a step: the monotonic clock and the time stamp \<^verbatim>\<open>api.Timestamp\<close> gives.\<close>

type_synonym clock = "int \<times> string"

definition observe :: "streamEnv \<Rightarrow> clock \<Rightarrow> Event \<Rightarrow> string \<Rightarrow> Stream \<Rightarrow> Stream option" where
  "observe J t e emitted s = (case stObserve s of None \<Rightarrow> Some s
     | Some a \<Rightarrow> (case Apply (seTimeline J) (snd t) e emitted a of None \<Rightarrow> None
        | Some a' \<Rightarrow> Some (s\<lparr>stObserve := Some a',
            stThoughts := map_option (follow (fst t) a' e) (stThoughts s)\<rparr>)))"

definition writeFrame ::
  "streamEnv \<Rightarrow> clock \<Rightarrow> Event \<Rightarrow> frameKind \<Rightarrow> string \<Rightarrow> string \<Rightarrow> Stream \<Rightarrow> Stream option" where
  "writeFrame J t e kind key emitted s =
    (case encodeAt J e emitted of None \<Rightarrow> Some s
     | Some encoded \<Rightarrow>
        let (log, full) = grow encoded kind key (stFrames s);
            s = s\<lparr>stFrames := log, stLastDelta := []\<rparr>;
            s = (if kind = frameDelta then s\<lparr>stLastDelta := key, stLastAt := fst t\<rparr> else s);
            s = s\<lparr>stActivities := track e (stActivities s)\<rparr>
        in case observe J t e emitted s of None \<Rightarrow> None
           | Some s \<Rightarrow> Some (if full \<and> stFolding s
               then s\<lparr>stFrames := foldLog (merged J) (activityFrame J (snd t) (stActivities s)) (stFrames s)\<rparr>
               else s))"

definition framePending :: "streamEnv \<Rightarrow> clock \<Rightarrow> Stream \<Rightarrow> Stream option" where
  "framePending J t s = (case stPending s of None \<Rightarrow> Some s
     | Some p \<Rightarrow> writeFrame J t (WithText (pdFirst p) (pdText p)) frameDelta (pdKey p) (pdAt p)
                   (s\<lparr>stPending := None\<rparr>))"

definition holdDelta :: "Event \<Rightarrow> string \<Rightarrow> string \<Rightarrow> Stream \<Rightarrow> Stream" where
  "holdDelta e key emitted s = s\<lparr>stPending := Some \<lparr>pdFirst = e, pdKey = key, pdText = DeltaText e,
     pdAt = emitted, pdID = stNext s\<rparr>, stNext := stNext s + 1\<rparr>"

definition joins :: "Stream \<Rightarrow> string \<Rightarrow> string \<Rightarrow> bool" where
  "joins s key text = (case stPending s of None \<Rightarrow> False
     | Some p \<Rightarrow> pdKey p = key \<and> length (pdText p) + length text \<le> mergedFrameBytes)"

definition joinDelta :: "string \<Rightarrow> string \<Rightarrow> Stream \<Rightarrow> Stream" where
  "joinDelta text emitted s = s\<lparr>stPending := map_option (\<lambda>p. p\<lparr>pdText := pdText p @ text, pdAt := emitted\<rparr>)
     (stPending s)\<rparr>"

definition frame :: "streamEnv \<Rightarrow> clock \<Rightarrow> Event \<Rightarrow> string \<Rightarrow> Stream \<Rightarrow> Stream option" where
  "frame J t e emitted s =
    (let (kind, key) = kindOf e in
     if kind \<noteq> frameDelta then
       (case framePending J t s of None \<Rightarrow> None | Some s \<Rightarrow> writeFrame J t e kind key emitted s)
     else if joins s key (DeltaText e) then Some (joinDelta (DeltaText e) emitted s)
     else case framePending J t s of None \<Rightarrow> None
       | Some s \<Rightarrow>
          if key = stLastDelta s \<and> deltaWindow - (fst t - stLastAt s) > 0
          then Some (holdDelta e key emitted s)
          else writeFrame J t e kind key emitted s)"

definition emit :: "streamEnv \<Rightarrow> clock \<Rightarrow> Event \<Rightarrow> Stream \<Rightarrow> Stream option" where
  "emit J t e s = frame J t e (snd t) s"

text \<open>The window's timer, for the held delta it was set for.\<close>

definition windowEnds :: "streamEnv \<Rightarrow> clock \<Rightarrow> nat \<Rightarrow> Stream \<Rightarrow> Stream option" where
  "windowEnds J t i s = (case stPending s of None \<Rightarrow> Some s
     | Some p \<Rightarrow> if pdID p = i then framePending J t s else Some s)"

definition summaryIn :: "streamEnv \<Rightarrow> clock \<Rightarrow> summaryJob \<Rightarrow> string option \<Rightarrow> Stream \<Rightarrow> Stream option" where
  "summaryIn J t j answer s = (case stThoughts s of None \<Rightarrow> Some s
     | Some th \<Rightarrow> let (th, e) = summaryArrives j answer th; s = s\<lparr>stThoughts := Some th\<rparr>
         in case e of None \<Rightarrow> Some s | Some e \<Rightarrow> frame J t e (snd t) s)"

section \<open>Runs of a stream\<close>

datatype streamStep =
    Emit Event
  | WindowEnds nat
  | TraceTimer nat
  | SummaryIn summaryJob "string option"

fun streamDo :: "streamEnv \<Rightarrow> clock \<Rightarrow> streamStep \<Rightarrow> Stream \<Rightarrow> Stream option" where
  "streamDo J t (Emit e) s = emit J t e s"
| "streamDo J t (WindowEnds i) s = windowEnds J t i s"
| "streamDo J t (TraceTimer epoch) s =
     Some (s\<lparr>stThoughts := map_option (timerFires (fst t) epoch) (stThoughts s)\<rparr>)"
| "streamDo J t (SummaryIn j answer) s = summaryIn J t j answer s"

fun streamRun :: "streamEnv \<Rightarrow> (clock \<times> streamStep) list \<Rightarrow> Stream \<Rightarrow> Stream option" where
  "streamRun J [] s = Some s"
| "streamRun J ((t, x) # xs) s = (case streamDo J t x s of None \<Rightarrow> None | Some s \<Rightarrow> streamRun J xs s)"

text \<open>The end of a run: what is held back is framed, and the reply's messages are read.\<close>

definition replyAtEnd :: "streamEnv \<Rightarrow> clock \<Rightarrow> Stream \<Rightarrow> Message list option" where
  "replyAtEnd J t s = (case framePending J t s of None \<Rightarrow> None
     | Some s \<Rightarrow> map_option MessagesOf (stObserve s))"

text \<open>Every event as it was emitted.\<close>

definition emitted :: "(clock \<times> streamStep) list \<Rightarrow> (string \<times> Event \<times> string) list" where
  "emitted xs = concat (map (\<lambda>(t, x). case x of Emit e \<Rightarrow> [(snd t, e, snd t)] | _ \<Rightarrow> []) xs)"

section \<open>Two deltas in turn apply as one\<close>

text \<open>A message whose last text of a kind is open: the next delta of the kind extends a
  block it has.\<close>

definition openIn :: "string \<Rightarrow> nat \<Rightarrow> Message \<Rightarrow> bool" where
  "openIn kind n m \<longleftrightarrow> msTimeline m \<noteq> [] \<and>
     (kind = ''thinking'' \<and> lateTail n (msTimeline m) \<or>
      n < length (msTimeline m) \<and> bkType (last (msTimeline m)) = kind)"

lemma growBlock_twice:
  "x \<le> y \<Longrightarrow> growBlock kind d' y (growBlock kind d x b) = growBlock kind (d @ d') y b"
proof -
  assume "x \<le> y"
  consider "kind = ''content''" | "\<not> 0 < bkStartedAt b" | "kind \<noteq> ''content''" "0 < bkStartedAt b" "bkStartedAt b \<le> x"
    | "kind \<noteq> ''content''" "0 < bkStartedAt b" "\<not> bkStartedAt b \<le> x" by blast
  then show ?thesis
    by cases (use \<open>x \<le> y\<close> in \<open>simp_all add: growBlock_def Let_def del: of_int_diff\<close>)
qed

lemma streamInto_late:
  assumes "lateTail n (msTimeline m)" "msTimeline m = bs @ [b, c]"
  shows "streamInto i ''thinking'' d x n m = m\<lparr>msTimeline := bs @ [b\<lparr>bkContent := bkContent b @ d\<rparr>, c]\<rparr>"
  using assms by (simp add: streamInto_def Let_def nth_append list_update_append)

lemma streamInto_last:
  assumes "\<not> (kind = ''thinking'' \<and> lateTail n (msTimeline m))" "openBlock i kind x n (msTimeline m) = bs @ [b]"
  shows "streamInto i kind d x n m = m\<lparr>msTimeline := bs @ [growBlock kind d x b],
     msContent := msContent m @ (if kind = ''content'' then d else [])\<rparr>"
  by (simp only: streamInto_def Let_def assms if_False) (simp add: nth_append list_update_append)

lemma lateTail_not_last: "lateTail n bs \<Longrightarrow> bkType (last bs) = ''content''"
  by (erule lateTail_split) simp

lemma late_again: "lateTail n (bs @ [b, c]) \<Longrightarrow> lateTail n (bs @ [b\<lparr>bkContent := d\<rparr>, c])"
  by (simp add: lateTail_def nth_append)

lemma openIn_streamInto:
  assumes "kind = ''content'' \<or> kind = ''thinking''" "n \<le> length (msTimeline m)"
  shows "openIn kind n (streamInto i kind d x n m)"
proof (cases "kind = ''thinking'' \<and> lateTail n (msTimeline m)")
  case True
  then obtain bs b c where s: "msTimeline m = bs @ [b, c]" using lateTail_split by blast
  then show ?thesis using True streamInto_late [OF _ s] late_again s by (simp add: openIn_def)
next
  case False
  obtain bs b where ob: "openBlock i kind x n (msTimeline m) = bs @ [b]" "bkType b = kind"
    using openBlock_props [OF assms(1)] by metis
  have "n < length (openBlock i kind x n (msTimeline m))" using assms(2) by (auto simp: openBlock_def)
  then have "n < length (bs @ [b])" unfolding ob(1) .
  then show ?thesis unfolding streamInto_last [OF False ob(1)] by (simp add: openIn_def ob(2))
qed

lemma streamInto_twice:
  assumes kind: "kind = ''content'' \<or> kind = ''thinking''" and o: "openIn kind n m" and xy: "x \<le> y"
  shows "streamInto i kind d' y n (streamInto i kind d x n m) = streamInto i kind (d @ d') y n m"
proof (cases "kind = ''thinking'' \<and> lateTail n (msTimeline m)")
  case True
  then obtain bs b c where s: "msTimeline m = bs @ [b, c]" using lateTail_split by blast
  have late: "lateTail n (msTimeline m)" and k: "kind = ''thinking''" using True by blast+
  let ?b = "b\<lparr>bkContent := bkContent b @ d\<rparr>"
  have l2: "lateTail n (msTimeline (m\<lparr>msTimeline := bs @ [?b, c]\<rparr>))" using late_again late s by simp
  have b: "?b\<lparr>bkContent := bkContent ?b @ d'\<rparr> = b\<lparr>bkContent := bkContent b @ (d @ d')\<rparr>" by (cases b) simp
  have t: "msTimeline (m\<lparr>msTimeline := bs @ [?b, c]\<rparr>) = bs @ [?b, c]" by simp
  show ?thesis unfolding k streamInto_late [OF late s] streamInto_late [OF l2 t] b by (cases m) simp
next
  case False
  then have last: "n < length (msTimeline m)" "bkType (last (msTimeline m)) = kind" "msTimeline m \<noteq> []"
    using o by (auto simp: openIn_def)
  then obtain bs b where s: "msTimeline m = bs @ [b]" by (metis append_butlast_last_id)
  have ob: "openBlock i kind z n (bs @ [c]) = bs @ [c]" if "bkType c = kind" for z c
    using that last s by (simp add: openBlock_def)
  have b: "bkType b = kind" using last s by simp
  have f: "\<not> (kind = ''thinking'' \<and> lateTail n (bs @ [c]))" if "bkType c = kind" for c
    using that lateTail_not_last [of n "bs @ [c]"] by auto
  let ?m = "m\<lparr>msTimeline := bs @ [growBlock kind d x b], msContent := msContent m @ (if kind = ''content'' then d else [])\<rparr>"
  have one: "streamInto i kind e z n m = m\<lparr>msTimeline := bs @ [growBlock kind e z b],
      msContent := msContent m @ (if kind = ''content'' then e else [])\<rparr>" for e z
    by (rule streamInto_last) (use f [OF b] ob [OF b] s in simp_all)
  have "streamInto i kind d' y n ?m = ?m\<lparr>msTimeline := bs @ [growBlock kind d' y (growBlock kind d x b)],
      msContent := msContent ?m @ (if kind = ''content'' then d' else [])\<rparr>"
    by (rule streamInto_last) (use f [of "growBlock kind d x b"] ob [of "growBlock kind d x b"] b in simp_all)
  then show ?thesis unfolding one growBlock_twice [OF xy] by simp
qed

section \<open>Open texts of the assembler\<close>

definition openText :: "string \<Rightarrow> string \<Rightarrow> MessageAssembler \<Rightarrow> bool" where
  "openText i kind a = (case byID a (orphanID i) of None \<Rightarrow> False
     | Some p \<Rightarrow> openIn kind (ValueOr (sealed a i) 0) (ordered a ! p))"

text \<open>The leading blocks a continued reply seals are blocks it has.\<close>

definition sealedOk :: "MessageAssembler \<Rightarrow> bool" where
  "sealedOk a \<longleftrightarrow> (\<forall>i n. sealed a i = Some n \<longrightarrow> i \<noteq> [] \<and>
     (\<exists>p. byID a i = Some p \<and> n \<le> length (msTimeline (ordered a ! p))))"

lemma messageFor_open: "openText i kind a \<Longrightarrow> \<exists>p. byID a (orphanID i) = Some p \<and> messageFor now i a = (a, p)"
  by (auto simp: openText_def messageFor_def Let_def split: option.splits)

text \<open>While a text is open, a delta changes only the message's open block.\<close>

lemma streamed_open:
  assumes "openText i kind a" "byID a (orphanID i) = Some p"
  shows "streamed parse now i kind d x a =
     updMessage p (streamInto i kind d (Millis parse x) (ValueOr (sealed a i) 0)) a"
proof -
  have "messageFor now i a = (a, p)" using assms messageFor_open by fastforce
  moreover have "msTimeline (ordered a ! p) \<noteq> []" using assms by (simp add: openText_def openIn_def)
  ultimately show ?thesis by (simp add: streamed_def stamp_def Let_def)
qed

lemma updMessage_twice:
  "p < length (ordered a) \<Longrightarrow> updMessage p f (updMessage p g a) = updMessage p (\<lambda>m. f (g m)) a"
  by (simp add: updMessage_def)

lemma streamed_opens:
  assumes ok: "assemblerOk a" and sl: "sealedOk a" and kind: "kind = ''content'' \<or> kind = ''thinking''"
  shows "openText i kind (streamed parse now i kind d x a)"
proof -
  obtain a1 p where m: "messageFor now i a = (a1, p)" by fastforce
  note m1 = messageFor_ok [OF ok m]
  define a2 where "a2 = stamp i p x a1"
  note st = stamp_ok [OF m1(1,3,2), where s = i and emitted = x, folded a2_def]
  have p: "p < length (ordered a2)" "byID a2 (orphanID i) = Some p" using st(2,5) m1(2,3) by simp_all
  have n: "ValueOr (sealed a2 i) 0 \<le> length (msTimeline (ordered a2 ! p))"
  proof (cases "sealed a i")
    case None
    then show ?thesis using st(4) m1(5) by (simp add: ValueOr_def)
  next
    case (Some n)
    then obtain q where q: "i \<noteq> []" "byID a i = Some q" "n \<le> length (msTimeline (ordered a ! q))"
      using sl by (auto simp: sealedOk_def)
    then have "a1 = a" "p = q" using m by (auto simp: messageFor_def orphanID_def Let_def)
    then show ?thesis using Some q(3) st(4,8) m1(5) by (simp add: ValueOr_def)
  qed
  have "streamed parse now i kind d x a =
      updMessage p (streamInto i kind d (Millis parse x) (ValueOr (sealed a2 i) 0)) a2"
    by (simp add: streamed_def m a2_def Let_def)
  then show ?thesis using p n openIn_streamInto [OF kind n] by (simp add: openText_def nth_updMessage)
qed

lemma streamed_twice:
  assumes ok: "assemblerOk a" and o: "openText i kind a" and kind: "kind = ''content'' \<or> kind = ''thinking''"
    and sl: "sealedOk a" and xy: "Millis parse x \<le> Millis parse y"
  shows "streamed parse now' i kind d' y (streamed parse now i kind d x a) = streamed parse now'' i kind (d @ d') y a"
proof -
  obtain p where p: "byID a (orphanID i) = Some p" using messageFor_open [OF o] by blast
  have len: "p < length (ordered a)" using byID_D [OF ok p] by blast
  let ?n = "ValueOr (sealed a i) 0"
  have s1: "streamed parse now i kind d x a = updMessage p (streamInto i kind d (Millis parse x) ?n) a"
    using streamed_open [OF o p] .
  have o2: "openText i kind (streamed parse now i kind d x a)" by (rule streamed_opens [OF ok sl kind])
  have "streamed parse now' i kind d' y (streamed parse now i kind d x a) =
      updMessage p (streamInto i kind d' (Millis parse y) ?n) (updMessage p (streamInto i kind d (Millis parse x) ?n) a)"
    using streamed_open [OF o2, of p] p by (simp add: s1)
  also have "\<dots> = updMessage p (streamInto i kind (d @ d') (Millis parse y) ?n) a"
    using o p streamInto_twice [OF kind _ xy] unfolding updMessage_twice [OF len]
    by (simp add: updMessage_def openText_def)
  finally show ?thesis using streamed_open [OF o p] by simp
qed

text \<open>Events keep what is sealed and every message where it was, with at least its blocks.\<close>

definition evolves :: "MessageAssembler \<Rightarrow> MessageAssembler \<Rightarrow> bool" where
  "evolves a a' \<longleftrightarrow> sealed a' = sealed a \<and> (\<forall>i p. byID a i = Some p \<longrightarrow>
     byID a' i = Some p \<and> length (msTimeline (ordered a ! p)) \<le> length (msTimeline (ordered a' ! p)))"

lemma evolves_refl [simp]: "evolves a a"
  by (simp add: evolves_def)

lemma evolvesD:
  assumes "evolves a b" "byID a i = Some p"
  shows "byID b i = Some p" "length (msTimeline (ordered a ! p)) \<le> length (msTimeline (ordered b ! p))"
  using assms by (simp_all add: evolves_def)

lemma evolves_trans [trans]:
  assumes ab: "evolves a b" and bc: "evolves b c"
  shows "evolves a c"
  unfolding evolves_def
proof (intro conjI allI impI)
  show "sealed c = sealed a" using ab bc by (simp add: evolves_def)
  fix i p assume p: "byID a i = Some p"
  note b = evolvesD [OF ab p]
  note c = evolvesD [OF bc b(1)]
  show "byID c i = Some p" by (rule c(1))
  show "length (msTimeline (ordered a ! p)) \<le> length (msTimeline (ordered c ! p))"
    by (rule order.trans [OF b(2) c(2)])
qed

lemma evolves_sealed:
  assumes e: "evolves a a'" and sl: "sealedOk a"
  shows "sealedOk a'"
  unfolding sealedOk_def
proof (intro allI impI)
  fix i n assume "sealed a' i = Some n"
  then have "sealed a i = Some n" using e by (simp add: evolves_def)
  then obtain p where p: "i \<noteq> []" "byID a i = Some p" "n \<le> length (msTimeline (ordered a ! p))"
    using sl unfolding sealedOk_def by blast
  show "i \<noteq> [] \<and> (\<exists>p. byID a' i = Some p \<and> n \<le> length (msTimeline (ordered a' ! p)))"
    using p(1) evolvesD [OF e p(2)] order.trans [OF p(3)] by blast
qed

lemma evolves_updMessage:
  assumes "assemblerOk a" "\<And>m. length (msTimeline m) \<le> length (msTimeline (f m))"
  shows "evolves a (updMessage p f a)"
  unfolding evolves_def
proof (intro conjI allI impI)
  show "sealed (updMessage p f a) = sealed a" by simp
  fix i q assume q: "byID a i = Some q"
  then show "byID (updMessage p f a) i = Some q" by simp
  have "q < length (ordered a)" using byID_D [OF assms(1) q] by blast
  then show "length (msTimeline (ordered a ! q)) \<le> length (msTimeline (ordered (updMessage p f a) ! q))"
    using assms(2) by (simp add: nth_updMessage)
qed

lemma evolves_messageFor:
  assumes ok: "assemblerOk a" and m: "messageFor now i a = (a', p)"
  shows "evolves a a'"
proof (cases "byID a (orphanID i)")
  case None
  have "byID a j = Some q \<Longrightarrow> q < length (ordered a)" for j q using byID_D [OF ok] by blast
  then show ?thesis using m None by (auto simp: messageFor_def Let_def evolves_def nth_append)
next
  case (Some q)
  then show ?thesis using m by (auto simp: messageFor_def)
qed

lemma evolves_stamp: "assemblerOk a \<Longrightarrow> evolves a (stamp i p x a)"
  by (simp add: stamp_def evolves_updMessage)

lemma evolves_streamed:
  assumes ok: "assemblerOk a" and kind: "kind = ''content'' \<or> kind = ''thinking''"
  shows "evolves a (streamed parse now i kind d x a)"
proof -
  obtain a1 p where m: "messageFor now i a = (a1, p)" by fastforce
  note m1 = messageFor_ok [OF ok m]
  have "evolves a a1" using evolves_messageFor [OF ok m] .
  also have "evolves a1 (stamp i p x a1)" using evolves_stamp [OF m1(1)] .
  also have "evolves (stamp i p x a1) (streamed parse now i kind d x a)"
    using streamInto_text(3) [OF kind] unfolding streamed_def m prod.case Let_def
    by (intro evolves_updMessage stamp_ok(1) [OF m1(1,3,2)]) (simp add: grows_def)
  finally show ?thesis .
qed

lemma evolves_startCall:
  assumes ok: "assemblerOk a"
  shows "evolves a (startCall parse now c name parent x a)"
proof -
  define i where "i = callParent c parent a"
  obtain a1 p where m: "messageFor now i a = (a1, p)" by fastforce
  note m1 = messageFor_ok [OF ok m]
  define a2 where "a2 = stamp i p x a1"
  define f where "f = (\<lambda>m :: Message. m\<lparr>msTimeline := msTimeline m @ [Block0\<lparr>bkID := c, bkType := ''tool_call'',
            bkToolCallID := c, bkName := name, bkStartedAt := Millis parse x\<rparr>]\<rparr>)"
  have "startCall parse now c name parent x a =
      (updMessage p f a2)\<lparr>calls := (calls a2)(c \<mapsto> \<lparr>brMessage = p, brIndex = length (msTimeline (ordered a2 ! p))\<rparr>)\<rparr>"
    unfolding startCall_def i_def [symmetric] Let_def m prod.case a2_def [symmetric] by (simp add: updMessage_def f_def)
  moreover have "evolves a (updMessage p f a2)"
  proof -
    have "evolves a a1" using evolves_messageFor [OF ok m] .
    also have "evolves a1 a2" unfolding a2_def using evolves_stamp [OF m1(1)] .
    also have "evolves a2 (updMessage p f a2)"
      by (rule evolves_updMessage) (simp_all add: a2_def stamp_ok(1) [OF m1(1,3,2)] f_def)
    finally show ?thesis .
  qed
  ultimately show ?thesis by (simp add: evolves_def)
qed

lemma evolves_onCall: "assemblerOk a \<Longrightarrow> onCall c f a = Some a' \<Longrightarrow> evolves a a'"
  by (auto simp: onCall_def evolves_updMessage split: option.splits if_splits)

lemma evolves_Apply:
  assumes ok: "assemblerOk a" and e: "Apply E now e x a = Some a'"
  shows "evolves a a'"
  using e evolves_streamed [OF ok, of "''content''"] evolves_streamed [OF ok, of "''thinking''"]
    evolves_startCall [OF ok] evolves_onCall [OF ok]
  by (cases e) (auto split: if_splits)

section \<open>Deltas to one target\<close>

fun openFor :: "Event \<Rightarrow> MessageAssembler \<Rightarrow> bool" where
  "openFor (TextChunk i _ _) a = openText i ''content'' a"
| "openFor (ReasoningChunk i _) a = openText (TrimSuffix i ReasoningSuffix) ''thinking'' a"
| "openFor _ a = True"

lemma textDelta_cases:
  assumes "isTextDelta d"
  obtains (chunk) i role u where "d = TextChunk i role u" | (reasoning) i u where "d = ReasoningChunk i u"
    | (args) c u where "d = ToolCallArgs c u"
  using assms by (cases d) simp_all

lemma same_key:
  assumes "isTextDelta d" "isTextDelta f" "deltaKey d = deltaKey f"
  shows "Apply E now d x a = Apply E now (WithText f (DeltaText d)) x a" "openFor d a = openFor f a"
  using assms(3)
  by (cases rule: textDelta_cases [OF assms(1)]; cases rule: textDelta_cases [OF assms(2)]; simp add: deltaKey_def)+

lemma WithText_delta [simp]: "isTextDelta d \<Longrightarrow> isTextDelta (WithText d t)"
  "isTextDelta d \<Longrightarrow> deltaKey (WithText d t) = deltaKey d" "isTextDelta d \<Longrightarrow> openFor (WithText d t) = openFor d"
  "isTextDelta d \<Longrightarrow> WithText d (DeltaText d) = d"
  by (erule textDelta_cases; simp add: deltaKey_def fun_eq_iff)+

lemma deltaKey_nonempty [simp]: "deltaKey d \<noteq> []"
  by (simp add: deltaKey_def)

lemma Apply_opens:
  assumes "assemblerOk a" "sealedOk a" "isTextDelta d" "Apply E now d x a = Some a'"
  shows "openFor d a'"
  using assms(4) streamed_opens [OF assms(1,2)] by (cases rule: textDelta_cases [OF assms(3)]) auto

lemma onCall_twice:
  assumes ok: "assemblerOk a" and b: "onCall c f a = Some b"
  shows "onCall c g b = onCall c (\<lambda>x. g (f x)) a"
proof (cases "calls a c")
  case None
  then show ?thesis using b by (simp add: onCall_def)
next
  case (Some r)
  let ?p = "brMessage r" and ?x = "brIndex r"
  have r: "?p < length (ordered a)" "?x < length (msTimeline (ordered a ! ?p))"
    using ok Some by (auto simp: assemblerOk_def callOk_def)
  then have b': "b = updMessage ?p (\<lambda>m. m\<lparr>msTimeline := (msTimeline m)[?x := f (msTimeline m ! ?x)]\<rparr>) a"
    using b Some by (simp add: onCall_def)
  show ?thesis using r Some unfolding b' onCall_def by (simp add: updMessage_def)
qed

lemma Apply_twice:
  assumes ok: "assemblerOk a" and sl: "sealedOk a" and d: "isTextDelta d" and o: "openFor d a"
    and xy: "Millis (teParse E) x \<le> Millis (teParse E) y" and b: "Apply E now (WithText d t) x a = Some b"
  shows "Apply E now' (WithText d t') y b = Apply E now'' (WithText d (t @ t')) y a"
  using d
proof (cases rule: textDelta_cases)
  case (chunk i role u)
  then show ?thesis using b o streamed_twice [OF ok _ _ sl xy, where kind = "''content''"] by auto
next
  case (reasoning i u)
  then show ?thesis using b o streamed_twice [OF ok _ _ sl xy, where kind = "''thinking''"] by auto
next
  case (args c u)
  then have "onCall c (\<lambda>b. b\<lparr>bkArguments := bkArguments b @ t\<rparr>) a = Some b" using b by simp
  from onCall_twice [OF ok this, of "\<lambda>b. b\<lparr>bkArguments := bkArguments b @ t'\<rparr>"] show ?thesis
    using args by simp
qed

section \<open>Holding deltas back changes nothing\<close>

definition encodes :: "streamEnv \<Rightarrow> bool" where
  "encodes J \<longleftrightarrow> (\<forall>e x. encodeAt J e x \<noteq> None)"

text \<open>A stream stands for the assembler \<open>raw\<close> that has read every event emitted: what it
  holds back, applied to what it has framed, gives \<open>raw\<close>.\<close>

definition standsFor :: "streamEnv \<Rightarrow> int \<Rightarrow> MessageAssembler \<Rightarrow> Stream \<Rightarrow> bool" where
  "standsFor J latest raw s \<longleftrightarrow> (\<exists>a. stObserve s = Some a \<and> assemblerOk a \<and> sealedOk a \<and>
     (case stPending s of
        None \<Rightarrow> raw = a \<and> (stLastDelta s \<noteq> [] \<longrightarrow>
          (\<exists>d. isTextDelta d \<and> deltaKey d = stLastDelta s \<and> openFor d a))
      | Some p \<Rightarrow> isTextDelta (pdFirst p) \<and> pdKey p = deltaKey (pdFirst p) \<and> openFor (pdFirst p) a \<and>
          Millis (teParse (seTimeline J)) (pdAt p) \<le> latest \<and>
          (\<forall>now. Apply (seTimeline J) now (WithText (pdFirst p) (pdText p)) (pdAt p) a = Some raw)))"

lemma writeFrame_reads:
  assumes J: "encodes J" and a: "stObserve s = Some a" "Apply (seTimeline J) (snd t) e x a = Some a'"
  obtains s' where "writeFrame J t e kind key x s = Some s'" "stObserve s' = Some a'"
    "stPending s' = stPending s" "stLastDelta s' = (if kind = frameDelta then key else [])"
proof -
  obtain enc where enc: "encodeAt J e x = Some enc" using J unfolding encodes_def by blast
  obtain log full where g: "grow enc kind key (stFrames s) = (log, full)" by fastforce
  show thesis
    using that a unfolding writeFrame_def enc option.case g Let_def prod.case observe_def
    by (cases "kind = frameDelta") auto
qed

lemma Apply_keeps:
  assumes "assemblerOk a" "sealedOk a" "Apply E now e x a = Some a'"
  shows "assemblerOk a'" "sealedOk a'"
  using Apply_adds [OF assms(1), of E now e x] evolves_sealed [OF evolves_Apply [OF assms(1,3)] assms(2)] assms(3)
  by (auto simp: adds_def)

text \<open>A stream with nothing held back that has read \<open>a\<close>.\<close>

lemma standsFor_clear:
  "stPending s = None \<Longrightarrow> standsFor J latest raw s \<longleftrightarrow> stObserve s = Some raw \<and> assemblerOk raw \<and> sealedOk raw \<and>
     (stLastDelta s \<noteq> [] \<longrightarrow> (\<exists>d. isTextDelta d \<and> deltaKey d = stLastDelta s \<and> openFor d raw))"
  by (auto simp: standsFor_def)

lemma framePending_sim:
  assumes J: "encodes J" and s: "standsFor J latest raw s"
  obtains s' where "framePending J t s = Some s'" "stPending s' = None" "\<And>n. standsFor J n raw s'"
proof (cases "stPending s")
  case None
  then show thesis using that s by (simp add: framePending_def standsFor_clear)
next
  case (Some p)
  from s Some obtain a where a: "stObserve s = Some a" "assemblerOk a" "sealedOk a" "isTextDelta (pdFirst p)"
      "pdKey p = deltaKey (pdFirst p)" "openFor (pdFirst p) a"
      and r: "\<And>now. Apply (seTimeline J) now (WithText (pdFirst p) (pdText p)) (pdAt p) a = Some raw"
    unfolding standsFor_def by auto
  have "stObserve (s\<lparr>stPending := None\<rparr>) = Some a" using a(1) by simp
  then obtain s' where
    s': "writeFrame J t (WithText (pdFirst p) (pdText p)) frameDelta (pdKey p) (pdAt p) (s\<lparr>stPending := None\<rparr>) = Some s'"
      "stObserve s' = Some raw" "stPending s' = stPending (s\<lparr>stPending := None\<rparr>)"
      "stLastDelta s' = (if frameDelta = frameDelta then pdKey p else [])"
    using writeFrame_reads [OF J _ r] by blast
  have none: "stPending s' = None" and key: "stLastDelta s' = pdKey p" using s'(3,4) by simp_all
  have k: "assemblerOk raw" "sealedOk raw" using Apply_keeps [OF a(2,3) r] by blast+
  have "openFor (pdFirst p) raw" using Apply_opens [OF a(2,3) _ r] a(4) by simp
  then have "standsFor J n raw s'" for n
    unfolding standsFor_clear [OF none] key using s'(2) k a(4,5) by auto
  moreover have "framePending J t s = Some s'" using Some s'(1) by (simp add: framePending_def)
  ultimately show thesis using that none by blast
qed

lemma kindOf_delta: "kindOf e = (frameDelta, key) \<longleftrightarrow> isTextDelta e \<and> key = deltaKey e"
  by (cases e) auto

text \<open>An event framed at once.\<close>

lemma writeFrame_sim:
  assumes J: "encodes J" and s: "standsFor J latest raw s" "stPending s = None"
    and e: "Apply (seTimeline J) (snd t) e x raw = Some raw'" and k: "kindOf e = (kind, key)"
  obtains s' where "writeFrame J t e kind key x s = Some s'" "\<And>n. standsFor J n raw' s'"
proof -
  have raw: "stObserve s = Some raw" "assemblerOk raw" "sealedOk raw" using s standsFor_clear by blast+
  obtain s' where s': "writeFrame J t e kind key x s = Some s'" "stObserve s' = Some raw'" "stPending s' = None"
      "stLastDelta s' = (if kind = frameDelta then key else [])"
    using writeFrame_reads [OF J raw(1) e, of kind key] s(2) by metis
  have keep: "assemblerOk raw'" "sealedOk raw'" using Apply_keeps [OF raw(2,3) e] by blast+
  have "stLastDelta s' \<noteq> [] \<Longrightarrow> \<exists>d. isTextDelta d \<and> deltaKey d = stLastDelta s' \<and> openFor d raw'"
  proof -
    assume "stLastDelta s' \<noteq> []"
    then have "kind = frameDelta" "stLastDelta s' = key" using s'(4) by (simp_all split: if_splits)
    then have "isTextDelta e" "deltaKey e = stLastDelta s'" using k by (simp_all add: kindOf_delta)
    then show ?thesis using Apply_opens [OF raw(2,3) _ e] by blast
  qed
  then have "standsFor J n raw' s'" for n unfolding standsFor_clear [OF s'(3)] using s'(2) keep by blast
  then show thesis using that s'(1) by blast
qed

lemma holdDelta_sim:
  assumes s: "standsFor J latest raw s" "stPending s = None" and e: "isTextDelta e" "stLastDelta s = deltaKey e"
    and r: "Apply (seTimeline J) now e x raw = Some raw'"
  shows "standsFor J (Millis (teParse (seTimeline J)) x) raw' (holdDelta e (deltaKey e) x s)"
proof -
  have raw: "stObserve s = Some raw" "assemblerOk raw" "sealedOk raw"
    and "\<exists>d. isTextDelta d \<and> deltaKey d = stLastDelta s \<and> openFor d raw"
    using s e(2) by (auto simp: standsFor_clear)
  then obtain d where d: "isTextDelta d" "deltaKey d = deltaKey e" "openFor d raw" using e(2) by auto
  then have o: "openFor e raw" using same_key(2) [OF d(1) e(1)] by simp
  have "Apply (seTimeline J) now' e x raw = Some raw'" for now'
  proof -
    obtain b where b: "Apply (seTimeline J) now (WithText e []) x raw = Some b" using Apply_adds [OF raw(2)] by blast
    from Apply_twice [OF raw(2,3) e(1) o order.refl b, of _ "DeltaText e"] r show ?thesis
      using e(1) by (metis WithText_delta(4) append_Nil)
  qed
  then show ?thesis using raw o e(1) by (simp add: standsFor_def holdDelta_def)
qed

lemma joinDelta_sim:
  assumes s: "standsFor J latest raw s" "stPending s = Some p" and e: "isTextDelta e" "pdKey p = deltaKey e"
    and up: "latest \<le> Millis (teParse (seTimeline J)) x" and r: "Apply (seTimeline J) now e x raw = Some raw'"
  shows "standsFor J (Millis (teParse (seTimeline J)) x) raw' (joinDelta (DeltaText e) x s)"
proof -
  from s obtain a where a: "stObserve s = Some a" "assemblerOk a" "sealedOk a" "isTextDelta (pdFirst p)"
      "pdKey p = deltaKey (pdFirst p)" "openFor (pdFirst p) a" "Millis (teParse (seTimeline J)) (pdAt p) \<le> latest"
      and h: "\<And>now. Apply (seTimeline J) now (WithText (pdFirst p) (pdText p)) (pdAt p) a = Some raw"
    unfolding standsFor_def by auto
  have xy: "Millis (teParse (seTimeline J)) (pdAt p) \<le> Millis (teParse (seTimeline J)) x" using a(7) up by simp
  have "Apply (seTimeline J) now' (WithText (pdFirst p) (pdText p @ DeltaText e)) x a = Some raw'" for now'
    using Apply_twice [OF a(2,3,4,6) xy h, of now "DeltaText e" now'] r
      same_key(1) [OF e(1) a(4), of "seTimeline J" now x raw] e(2) a(5) by simp
  then show ?thesis using a s(2) by (simp add: standsFor_def joinDelta_def)
qed

lemma frame_kept_sim:
  assumes J: "encodes J" and s: "standsFor J latest raw s" and e: "\<not> isTextDelta e"
    and r: "Apply (seTimeline J) (snd t) e x raw = Some raw'"
  obtains s' where "frame J t e x s = Some s'" "\<And>n. standsFor J n raw' s'"
proof -
  obtain kind key where k: "kindOf e = (kind, key)" by fastforce
  then have nd: "kind \<noteq> frameDelta" using e kindOf_delta by blast
  obtain s1 where s1: "framePending J t s = Some s1" "stPending s1 = None" "\<And>n. standsFor J n raw s1"
    using framePending_sim [OF J s] by blast
  obtain s2 where s2: "writeFrame J t e kind key x s1 = Some s2" "\<And>n. standsFor J n raw' s2"
    using writeFrame_sim [OF J s1(3,2) r k] by blast
  have "frame J t e x s = Some s2" using nd s1(1) s2(1) by (simp add: frame_def k)
  then show thesis using that s2(2) by blast
qed

lemma frame_delta_sim:
  assumes J: "encodes J" and s: "standsFor J latest raw s" and e: "isTextDelta e"
    and up: "latest \<le> Millis (teParse (seTimeline J)) x" and r: "Apply (seTimeline J) (snd t) e x raw = Some raw'"
  obtains s' where "frame J t e x s = Some s'" "standsFor J (Millis (teParse (seTimeline J)) x) raw' s'"
proof -
  have k: "kindOf e = (frameDelta, deltaKey e)" using e by (simp add: kindOf_delta)
  show thesis
  proof (cases "joins s (deltaKey e) (DeltaText e)")
    case True
    then obtain p where p: "stPending s = Some p" "pdKey p = deltaKey e" by (auto simp: joins_def split: option.splits)
    have "frame J t e x s = Some (joinDelta (DeltaText e) x s)" using True by (simp add: frame_def k)
    then show thesis using that joinDelta_sim [OF s p(1) e p(2) up r] by blast
  next
    case False
    obtain s1 where s1: "framePending J t s = Some s1" "stPending s1 = None" "\<And>n. standsFor J n raw s1"
      using framePending_sim [OF J s] by blast
    show thesis
    proof (cases "deltaKey e = stLastDelta s1 \<and> deltaWindow - (fst t - stLastAt s1) > 0")
      case True
      then have "frame J t e x s = Some (holdDelta e (deltaKey e) x s1)"
        using False s1(1) by (simp add: frame_def k)
      then show thesis using that holdDelta_sim [OF s1(3,2) e _ r] True by auto
    next
      case now: False
      obtain s2 where s2: "writeFrame J t e frameDelta (deltaKey e) x s1 = Some s2" "\<And>n. standsFor J n raw' s2"
        using writeFrame_sim [OF J s1(3,2) r k] by blast
      have "frame J t e x s = Some s2" using False now s1(1) s2(1) by (auto simp: frame_def k)
      then show thesis using that s2(2) by blast
    qed
  qed
qed

lemma standsFor_Apply:
  assumes "standsFor J latest raw s"
  shows "\<exists>raw'. Apply (seTimeline J) now e x raw = Some raw'"
proof -
  have "assemblerOk raw"
  proof (cases "stPending s")
    case None
    then show ?thesis using assms by (simp add: standsFor_clear)
  next
    case (Some p)
    then obtain a where "assemblerOk a" "sealedOk a"
      "Apply (seTimeline J) [] (WithText (pdFirst p) (pdText p)) (pdAt p) a = Some raw"
      using assms unfolding standsFor_def by auto
    then show ?thesis by (rule Apply_keeps(1))
  qed
  then show ?thesis using Apply_adds by blast
qed

lemma standsFor_thoughts [simp]: "standsFor J n raw (s\<lparr>stThoughts := th\<rparr>) = standsFor J n raw s"
  by (cases "stPending s") (simp_all add: standsFor_def)

text \<open>What a step adds to the events emitted.\<close>

definition emits :: "clock \<Rightarrow> streamStep \<Rightarrow> (string \<times> Event \<times> string) list" where
  "emits t x = (case x of Emit e \<Rightarrow> [(snd t, e, snd t)] | _ \<Rightarrow> [])"

lemma emitted_simps [simp]: "emitted [] = []" "emitted ((t, x) # xs) = emits t x @ emitted xs"
  by (simp_all add: emitted_def emits_def)

lemma streamDo_sim:
  assumes J: "encodes J" and s: "standsFor J latest raw s"
    and up: "\<forall>(now, e, x)\<in>set (emits t st). latest \<le> Millis (teParse (seTimeline J)) x"
  obtains s' raw' n where "streamDo J t st s = Some s'" "ApplyAll (seTimeline J) (emits t st) raw = Some raw'"
    "standsFor J n raw' s'" "n \<in> {latest} \<union> (\<lambda>(now, e, x). Millis (teParse (seTimeline J)) x) ` set (emits t st)"
proof (cases st)
  case (Emit e)
  obtain raw' where r: "Apply (seTimeline J) (snd t) e (snd t) raw = Some raw'" using standsFor_Apply [OF s] by blast
  obtain s' where "frame J t e (snd t) s = Some s'" "standsFor J (Millis (teParse (seTimeline J)) (snd t)) raw' s'"
  proof (cases "isTextDelta e")
    case True
    then show thesis using that frame_delta_sim [OF J s True _ r] up Emit by (auto simp: emits_def)
  next
    case False
    then show thesis using that frame_kept_sim [OF J s False r] by blast
  qed
  then show thesis using that [of s' raw'] r Emit by (simp add: emit_def emits_def)
next
  case (WindowEnds i)
  obtain s' where s': "framePending J t s = Some s'" "\<And>n. standsFor J n raw s'"
    using framePending_sim [OF J s] by blast
  show thesis
  proof (cases "\<exists>p. stPending s = Some p \<and> pdID p = i")
    case True
    then show thesis using that [of s' raw] s' WindowEnds by (auto simp: windowEnds_def emits_def)
  next
    case False
    then show thesis
      using that [of s raw] s WindowEnds by (auto simp: windowEnds_def emits_def split: option.splits)
  qed
next
  case (TraceTimer epoch)
  let ?s = "s\<lparr>stThoughts := map_option (timerFires (fst t) epoch) (stThoughts s)\<rparr>"
  have "standsFor J latest raw ?s" using s by simp
  then show thesis using that [of ?s raw latest] TraceTimer by (simp add: emits_def)
next
  case (SummaryIn j answer)
  show thesis
  proof (cases "stThoughts s")
    case None
    then show thesis using that [of s raw] s SummaryIn by (simp add: summaryIn_def emits_def)
  next
    case (Some th)
    obtain th' eo where th': "summaryArrives j answer th = (th', eo)" by fastforce
    let ?s = "s\<lparr>stThoughts := Some th'\<rparr>"
    have s1: "standsFor J latest raw ?s" using s by simp
    show thesis
    proof (cases eo)
      case None
      then show thesis using that [OF _ _ s1] Some th' SummaryIn by (simp add: summaryIn_def emits_def)
    next
      case e: (Some e)
      then obtain m b c where "e = ReasoningSummary m b c"
        using th' by (auto simp: summaryArrives_def Let_def split: if_splits option.splits)
      then have "\<not> isTextDelta e" "Apply (seTimeline J) (snd t) e (snd t) raw = Some raw" by simp_all
      then obtain s' where "frame J t e (snd t) ?s = Some s'" "\<And>n. standsFor J n raw s'"
        using frame_kept_sim [OF J s1] by blast
      then show thesis using that [of s' raw latest] Some th' e SummaryIn by (simp add: summaryIn_def emits_def)
    qed
  qed
qed

lemma streamRun_sim:
  assumes J: "encodes J"
  shows "standsFor J latest raw s \<Longrightarrow>
    sorted (latest # map (\<lambda>(now, e, x). Millis (teParse (seTimeline J)) x) (emitted xs)) \<Longrightarrow>
    \<exists>s' raw' n. streamRun J xs s = Some s' \<and> ApplyAll (seTimeline J) (emitted xs) raw = Some raw' \<and> standsFor J n raw' s'"
proof (induction xs arbitrary: s raw latest)
  case Nil
  then show ?case by auto
next
  case (Cons y xs)
  obtain t st where y: "y = (t, st)" by fastforce
  let ?m = "\<lambda>(now, e, x). Millis (teParse (seTimeline J)) x"
  have srt: "sorted (latest # map ?m (emits t st) @ map ?m (emitted xs))" using Cons.prems(2) y by simp
  then have up: "\<forall>(now, e, x)\<in>set (emits t st). latest \<le> Millis (teParse (seTimeline J)) x"
    by (cases st) (auto simp: emits_def)
  obtain s1 raw1 n where 1: "streamDo J t st s = Some s1" "ApplyAll (seTimeline J) (emits t st) raw = Some raw1"
      "standsFor J n raw1 s1" "n \<in> {latest} \<union> ?m ` set (emits t st)"
    using streamDo_sim [OF J Cons.prems(1) up] by blast
  have "sorted (n # map ?m (emitted xs))" using srt 1(4) by (cases st) (auto simp: emits_def)
  from Cons.IH [OF 1(3) this] show ?case using 1(1,2) y by (auto simp: ApplyAll_append)
qed

text \<open>A stream as a reply starts: the run's opening frames are out, nothing is held back, and
  the assembler is empty or holds the reply the run continues.\<close>

definition replyStarts :: "Message option \<Rightarrow> Stream \<Rightarrow> bool" where
  "replyStarts seed s \<longleftrightarrow> stObserve s = Some (startAssembler seed) \<and> stPending s = None \<and> stLastDelta s = []"

lemma startAssembler_sealed: "(\<And>m. seed = Some m \<Longrightarrow> msID m \<noteq> []) \<Longrightarrow> sealedOk (startAssembler seed)"
  by (auto simp: sealedOk_def startAssembler_def NewMessageAssembler_def Seed_def Let_def split: option.splits if_splits)

text \<open>C5: Holding deltas back never changes a reply.  Whatever a run emits, whenever its
  windows end and its summaries arrive, once what is held back is framed at the run's
  end the messages of the reply are exactly those that applying every emitted event
  by itself, as it was emitted, would give, times included.  The events can be encoded,
  their time stamps do not go back, and a continued reply has an id.\<close>

theorem held_deltas_change_nothing:
  assumes "encodes J" "replyStarts seed s" "\<And>m. seed = Some m \<Longrightarrow> msID m \<noteq> []"
    and "sorted (map (\<lambda>(now, e, x). Millis (teParse (seTimeline J)) x) (emitted xs))"
  shows "\<exists>s' a. streamRun J xs s = Some s' \<and> ApplyAll (seTimeline J) (emitted xs) (startAssembler seed) = Some a \<and>
     replyAtEnd J t s' = Some (MessagesOf a)"
proof -
  let ?ms = "map (\<lambda>(now, e, x). Millis (teParse (seTimeline J)) x) (emitted xs)"
  define low where "low = (if ?ms = [] then 0 else hd ?ms)"
  have srt: "sorted (low # ?ms)" using assms(4) by (cases ?ms) (auto simp: low_def)
  have "standsFor J low (startAssembler seed) s"
    using assms(2) startAssembler_ok startAssembler_sealed [OF assms(3)]
    by (simp add: replyStarts_def standsFor_def)
  from streamRun_sim [OF assms(1) this srt] obtain s' a n where
    run: "streamRun J xs s = Some s'" "ApplyAll (seTimeline J) (emitted xs) (startAssembler seed) = Some a"
    and sf: "standsFor J n a s'" by blast
  obtain s2 where s2: "framePending J t s' = Some s2" "stPending s2 = None" "standsFor J n a s2"
    using framePending_sim [OF assms(1) sf] by blast
  then have "stObserve s2 = Some a" using standsFor_clear by blast
  then have "replyAtEnd J t s' = Some (MessagesOf a)" using s2(1) by (simp add: replyAtEnd_def)
  then show ?thesis using run by blast
qed

definition envS :: streamEnv where
  "envS = \<lparr>seMembers = (\<lambda>e. Some ''{}''), seHeader = (\<lambda>k x. Some ''{}''), seObject = (\<lambda>f. []), seDelta = (\<lambda>f. []),
     seString = (\<lambda>x. x), seWrite = (\<lambda>m. []), seTimeline = envT\<rparr>"

definition streamS :: Stream where
  "streamS = \<lparr>stFrames = newRunlog, stObserve = Some (startAssembler None), stThoughts = None, stFolding = True,
     stActivities = [], stPending = None, stLastDelta = [], stLastAt = 0, stNext = 0\<rparr>"

definition stepsS :: "(clock \<times> streamStep) list" where
  "stepsS = [((1, ''1''), Emit (TextChunk ''m'' ''assistant'' ''a'')), ((2, ''2''), Emit (TextChunk ''m'' ''assistant'' ''b'')),
     ((3, ''3''), Emit (TextChunk ''m'' ''assistant'' ''c''))]"

text \<open>Of three chunks within a window, the last two are held back as one.\<close>

theorem held_deltas_change_nothing_witness:
  "(\<exists>s p. streamRun envS stepsS streamS = Some s \<and> stPending s = Some p \<and> pdText p = ''bc'') \<and>
   (\<exists>s' a. streamRun envS stepsS streamS = Some s' \<and> ApplyAll (seTimeline envS) (emitted stepsS) (startAssembler None) = Some a \<and>
     replyAtEnd envS (9, ''9'') s' = Some (MessagesOf a))"
proof (rule conjI)
  show "\<exists>s p. streamRun envS stepsS streamS = Some s \<and> stPending s = Some p \<and> pdText p = ''bc''"
    by (simp add: stepsS_def emit_def frame_def joins_def framePending_def writeFrame_def encodeAt_def EncodeEvent_def
        envS_def streamS_def observe_def deltaWindow_def holdDelta_def joinDelta_def mergedFrameBytes_def deltaKey_def
        grow_def newRunlog_def signal_def runLogBudget_def Let_def)
  show "\<exists>s' a. streamRun envS stepsS streamS = Some s' \<and> ApplyAll (seTimeline envS) (emitted stepsS) (startAssembler None) = Some a \<and>
     replyAtEnd envS (9, ''9'') s' = Some (MessagesOf a)"
    by (rule held_deltas_change_nothing [of envS None streamS stepsS])
       (simp_all add: encodes_def encodeAt_def EncodeEvent_def envS_def replyStarts_def streamS_def stepsS_def emits_def
         envT_def Millis_def ValueOr_def readNat_def byte_val_def)
qed

end
