(* ===== verification/Questions.thy ===== *)
theory Questions
  imports Chats "HOL-Library.AList"
begin

text \<open>The questions a reply asks and the answers the next message sends,
  \<^verbatim>\<open>internal/domain/questions.go\<close>, with the widget check of \<^verbatim>\<open>widgets.go\<close> they rest on.
  A Go map is a list of its entries, compared as a map.  Reading JSON and validating
  arguments against a widget's schema are arguments of the model.\<close>

section \<open>Questions\<close>

definition QuestionsWidget :: string where "QuestionsWidget = ''render_questions''"
definition SingleSelection :: string where "SingleSelection = ''single''"

record question =
  quID :: string
  quPrompt :: string
  quSelection :: string
  quOptions :: "QuestionOption list"

record questions =
  qsTitle :: string
  qsQuestions :: "question list"

text \<open>\<open>qeUnmarshal\<close> reads a questions widget's arguments, \<open>qeDraws\<close> says the arguments are
  JSON that fits the schema of the widget named, and \<open>qeCatalog\<close> names the widgets.\<close>

record questionsEnv =
  qeUnmarshal :: "string \<Rightarrow> questions option"
  qeDraws :: "string \<Rightarrow> string \<Rightarrow> bool"
  qeCatalog :: "string list"

definition readQuestions :: "questionsEnv \<Rightarrow> string \<Rightarrow> questions option" where
  "readQuestions Q arguments = (case qeUnmarshal Q arguments of None \<Rightarrow> None
     | Some q \<Rightarrow> if distinct (map quID (qsQuestions q)) \<and>
          (\<forall>item\<in>set (qsQuestions q). distinct (map qoID (quOptions item))) then Some q else None)"

text \<open>Whether \<^verbatim>\<open>WidgetFailure\<close> is nil: empty arguments are read as an empty object.\<close>

definition widgetDraws :: "questionsEnv \<Rightarrow> string \<Rightarrow> string \<Rightarrow> bool" where
  "widgetDraws Q name args \<longleftrightarrow> qeDraws Q name (if args = [] then ''{}'' else args) \<and>
     (name = QuestionsWidget \<longrightarrow> readQuestions Q args \<noteq> None)"

definition answerableQuestions :: "questionsEnv \<Rightarrow> Block \<Rightarrow> questions option" where
  "answerableQuestions Q b =
    (if bkType b \<noteq> ''tool_call'' \<or> bkName b \<noteq> QuestionsWidget then None
     else if QuestionsWidget \<in> set (qeCatalog Q) \<and> widgetDraws Q QuestionsWidget (bkArguments b)
     then readQuestions Q (bkArguments b) else None)"

section \<open>Answering\<close>

definition errOptionGone :: Error where
  "errOptionGone = Err 409 ''REVISION_CONFLICT'' ''The question no longer offers that option''"
definition errOneOption :: Error where
  "errOneOption = Err 400 ''BAD_REQUEST'' ''A single-choice question takes one option''"
definition errNotReply :: Error where
  "errNotReply = Err 400 ''BAD_REQUEST'' ''Only a reply takes answers''"
definition errWidgetRemoved :: Error where
  "errWidgetRemoved = Err 409 ''REVISION_CONFLICT'' ''The widget was removed''"
definition errNoAnswers :: Error where
  "errNoAnswers = Err 400 ''BAD_REQUEST'' ''The widget takes no answers''"
definition errUnanswerable :: Error where
  "errUnanswerable = Err 400 ''BAD_REQUEST'' ''The widget's questions cannot be answered''"
definition errQuestionGone :: Error where
  "errQuestionGone = Err 409 ''REVISION_CONFLICT'' ''The widget no longer asks that question''"

definition picked :: "question \<Rightarrow> string list \<Rightarrow> Error + string list" where
  "picked q ids =
    (let chosen = filter (\<lambda>o'. o' \<in> set ids) (map qoID (quOptions q)) in
     if \<not> set ids \<subseteq> set chosen then Inl errOptionGone
     else if quSelection q = SingleSelection \<and> length chosen \<noteq> 1 then Inl errOneOption
     else Inr chosen)"

fun changeAnswers ::
  "question list \<Rightarrow> (string \<times> string list option) list \<Rightarrow> (string \<times> string list) list \<Rightarrow>
     Error + (string \<times> string list) list" where
  "changeAnswers asked [] answers = Inr answers"
| "changeAnswers asked ((i, ids) # changes) answers =
    (case IndexFunc (\<lambda>q. quID q = i) asked of None \<Rightarrow> Inl errQuestionGone
     | Some k \<Rightarrow> (case ids of
         None \<Rightarrow> changeAnswers asked changes (AList.delete i answers)
       | Some ids \<Rightarrow> (case picked (asked ! k) ids of Inl e \<Rightarrow> Inl e
           | Inr chosen \<Rightarrow> changeAnswers asked changes (AList.update i chosen answers))))"

definition isCall :: "string \<Rightarrow> Block \<Rightarrow> bool" where
  "isCall callID b \<longleftrightarrow> bkType b = ''tool_call'' \<and> CallID b = callID"

definition AnswerQuestions ::
  "questionsEnv \<Rightarrow> string \<Rightarrow> (string \<times> string list option) list \<Rightarrow> Message \<Rightarrow> Error + Message" where
  "AnswerQuestions Q callID changes m =
    (if msRole m \<noteq> ''assistant'' then Inl errNotReply
     else case IndexFunc (isCall callID) (msTimeline m) of None \<Rightarrow> Inl errWidgetRemoved
     | Some index \<Rightarrow>
        let block = msTimeline m ! index in
        if bkName block \<noteq> QuestionsWidget then Inl errNoAnswers
        else case answerableQuestions Q block of None \<Rightarrow> Inl errUnanswerable
        | Some asked \<Rightarrow> (case changeAnswers (qsQuestions asked) changes (bkAnswers block) of
            Inl e \<Rightarrow> Inl e
          | Inr answers \<Rightarrow> Inr (m\<lparr>msTimeline := (msTimeline m)[index := block\<lparr>bkAnswers := answers\<rparr>]\<rparr>)))"

section \<open>Sending answers\<close>

definition answerOf :: "(string \<times> string list) list \<Rightarrow> question \<Rightarrow> AnsweredQuestion" where
  "answerOf answers q = \<lparr>aqID = quID q, aqPrompt = quPrompt q, aqAnswered = (map_of answers (quID q) \<noteq> None),
     aqSelected = filter (\<lambda>o'. qoID o' \<in> set (ValueOr (map_of answers (quID q)) [])) (quOptions q)\<rparr>"

definition answersOf :: "questionsEnv \<Rightarrow> Block \<Rightarrow> WidgetAnswers option" where
  "answersOf Q b = (case answerableQuestions Q b of None \<Rightarrow> None
     | Some asked \<Rightarrow> Some \<lparr>waToolCallID = CallID b, waTitle = qsTitle asked,
         waQuestions = map (answerOf (bkAnswers b)) (qsQuestions asked)\<rparr>)"

definition picks :: "WidgetAnswers \<Rightarrow> (string \<times> string list) list" where
  "picks w = foldl (\<lambda>p q. if aqAnswered q then AList.update (aqID q) (map qoID (aqSelected q)) p else p) []
     (waQuestions w)"

text \<open>\<^verbatim>\<open>maps.EqualFunc(a, b, slices.Equal)\<close>.\<close>

definition mapsEqual :: "('k \<times> 'v) list \<Rightarrow> ('k \<times> 'v) list \<Rightarrow> bool" where
  "mapsEqual a b \<longleftrightarrow> (\<forall>k\<in>set (map fst a) \<union> set (map fst b). map_of a k = map_of b k)"

definition sentAnswers :: "Message list \<Rightarrow> (string \<times> (string \<times> string list) list) list" where
  "sentAnswers messages = foldl (\<lambda>sent w. AList.update (waToolCallID w) (picks w) sent) []
     (concat (map msAnswers messages))"

definition currentAnswers :: "questionsEnv \<Rightarrow> Message list \<Rightarrow> WidgetAnswers list" where
  "currentAnswers Q messages = List.map_filter (answersOf Q)
     (concat (map msTimeline (filter (\<lambda>m. msRole m = ''assistant'') messages)))"

definition PendingAnswers :: "questionsEnv \<Rightarrow> Message list \<Rightarrow> WidgetAnswers list" where
  "PendingAnswers Q messages =
     filter (\<lambda>w. \<not> mapsEqual (picks w) (ValueOr (map_of (sentAnswers messages) (waToolCallID w)) []))
       (currentAnswers Q messages)"

definition isQuestions :: "Block \<Rightarrow> bool" where
  "isQuestions b \<longleftrightarrow> bkType b = ''tool_call'' \<and> bkName b = QuestionsWidget"

definition KeepAnswers :: "Message \<Rightarrow> Message \<Rightarrow> Message" where
  "KeepAnswers from m =
    (let given = foldl (\<lambda>g b. if isQuestions b then AList.update (CallID b) (bkAnswers b) g else g) []
           (msTimeline from)
     in if given = [] then m else
        m\<lparr>msTimeline := map (\<lambda>b. if isQuestions b
            then (case map_of given (CallID b) of None \<Rightarrow> b | Some a \<Rightarrow> b\<lparr>bkAnswers := a\<rparr>) else b)
          (msTimeline m)\<rparr>)"

fun joinWith :: "string \<Rightarrow> string list \<Rightarrow> string" where
  "joinWith sep [] = []"
| "joinWith sep [w] = w"
| "joinWith sep (w # ws) = w @ sep @ joinWith sep ws"

definition answerLine :: "nat \<Rightarrow> AnsweredQuestion \<Rightarrow> string" where
  "answerLine i q =
    (let labels = map (\<lambda>o'. ''['' @ qoID o' @ ''] '' @ qoLabel o') (aqSelected q);
         answer = (if \<not> aqAnswered q then ''(not answered)''
                   else if labels = [] then ''(none selected)'' else joinWith ''; '' labels)
     in CHR 0x0A # fmtNat (i + 1) @ ''. '' @ aqPrompt q @ CHR 0x0A # ''Answer: '' @ answer)"

definition widgetPrompt :: "WidgetAnswers \<Rightarrow> string" where
  "widgetPrompt w =
     CHR 0x0A # ''The user's answers to the questions of '' @ QuestionsWidget @ '' call '' @ waToolCallID w @
     (if waTitle w \<noteq> [] then '' ('' @ waTitle w @ '')'' else []) @ '':'' @
     concat (map (\<lambda>(i, q). answerLine i q) (enumerate 0 (waQuestions w)))"

definition AnswersPrompt :: "WidgetAnswers list \<Rightarrow> string" where
  "AnswersPrompt answers = ''<question_answers>'' @ concat (map widgetPrompt answers) @
     CHR 0x0A # ''</question_answers>''"

section \<open>Answers kept by question\<close>

lemma mapsEqual_iff: "mapsEqual a b \<longleftrightarrow> map_of a = map_of b"
proof
  assume *: "mapsEqual a b"
  show "map_of a = map_of b"
  proof
    fix k show "map_of a k = map_of b k"
      using * unfolding mapsEqual_def by (cases "k \<in> set (map fst a) \<union> set (map fst b)") (auto simp: map_of_eq_None_iff [THEN iffD2])
  qed
qed (simp add: mapsEqual_def)

lemma picked_Inr:
  "picked q ids = Inr chosen \<longleftrightarrow>
     chosen = filter (\<lambda>o'. o' \<in> set ids) (map qoID (quOptions q)) \<and> set ids \<subseteq> set (map qoID (quOptions q)) \<and>
     (quSelection q = SingleSelection \<longrightarrow> length chosen = 1)"
  by (auto simp: picked_def Let_def)

text \<open>What a change leaves a question's answer as.\<close>

definition chosenOf :: "question list \<Rightarrow> string \<Rightarrow> string list \<Rightarrow> string list" where
  "chosenOf asked i ids = (case IndexFunc (\<lambda>q. quID q = i) asked of None \<Rightarrow> []
     | Some k \<Rightarrow> filter (\<lambda>o'. o' \<in> set ids) (map qoID (quOptions (asked ! k))))"

definition answerAfter ::
  "question list \<Rightarrow> (string \<times> string list option) list \<Rightarrow> (string \<times> string list) list \<Rightarrow> string \<Rightarrow> string list option" where
  "answerAfter asked changes answers i = (case map_of changes i of None \<Rightarrow> map_of answers i
     | Some None \<Rightarrow> None | Some (Some ids) \<Rightarrow> Some (chosenOf asked i ids))"

text \<open>A change that is accepted names a question asked and options it offers, one of them
  when the question takes one.\<close>

definition changeOk :: "question list \<Rightarrow> string \<times> string list option \<Rightarrow> bool" where
  "changeOk asked c = (case IndexFunc (\<lambda>q. quID q = fst c) asked of None \<Rightarrow> False
     | Some k \<Rightarrow> (case snd c of None \<Rightarrow> True
         | Some ids \<Rightarrow> set ids \<subseteq> set (map qoID (quOptions (asked ! k))) \<and>
             (quSelection (asked ! k) = SingleSelection \<longrightarrow> length (chosenOf asked (fst c) ids) = 1)))"

lemma map_of_delete: "map_of (AList.delete i xs) j = (if i = j then None else map_of xs j)"
  by (simp add: delete_conv')

lemma map_of_update: "map_of (AList.update i v xs) j = (if i = j then Some v else map_of xs j)"
  by (simp add: update_conv')

lemma changeAnswers_Inr:
  assumes "changeAnswers asked changes answers = Inr after" "distinct (map fst changes)"
  shows "map_of after i = answerAfter asked changes answers i" "\<forall>c\<in>set changes. changeOk asked c"
proof -
  have "map_of after i = answerAfter asked changes answers i \<and> (\<forall>c\<in>set changes. changeOk asked c)"
    using assms
  proof (induction changes arbitrary: answers)
    case Nil
    then show ?case by (simp add: answerAfter_def)
  next
    case (Cons c changes)
    obtain j ids where c: "c = (j, ids)" by fastforce
    obtain k where k: "IndexFunc (\<lambda>q. quID q = j) asked = Some k"
      using Cons.prems(1) c by (auto split: option.splits)
    have j: "map_of changes j = None" using Cons.prems(2) c by (auto simp: map_of_eq_None_iff)
    have d: "distinct (map fst changes)" using Cons.prems(2) by simp
    show ?case
    proof (cases ids)
      case None
      then have "changeAnswers asked changes (AList.delete j answers) = Inr after"
        using Cons.prems(1) c k by (simp del: IndexFunc_None)
      from Cons.IH [OF this d] show ?thesis
        using None c k j by (auto simp: answerAfter_def changeOk_def map_of_delete split: option.splits)
    next
      case (Some xs)
      then obtain ch where ch: "picked (asked ! k) xs = Inr ch"
          "changeAnswers asked changes (AList.update j ch answers) = Inr after"
        using Cons.prems(1) c k by (auto split: sum.splits simp del: IndexFunc_None)
      have co: "chosenOf asked j xs = ch" using ch(1) k by (simp add: chosenOf_def picked_Inr)
      have "changeOk asked c" using conjunct2 [OF ch(1) [unfolded picked_Inr]] k c Some
        by (simp add: changeOk_def co)
      moreover have "answerAfter asked changes (AList.update j ch answers) i = answerAfter asked (c # changes) answers i"
        using c Some j co by (auto simp: answerAfter_def map_of_update split: option.splits)
      ultimately show ?thesis using Cons.IH [OF ch(2) d] by simp
    qed
  qed
  then show "map_of after i = answerAfter asked changes answers i" "\<forall>c\<in>set changes. changeOk asked c" by blast+
qed

text \<open>C25: Answers are taken as given or refused whole.  When answering a reply's questions
  succeeds, every change named a question the widget asks and options that question
  offers, one of them where it takes one; each question named then holds the options
  picked, in the order it offers them, or none when its answer is withdrawn, every other
  question keeps its answer, and nothing else of the reply changes.\<close>

theorem answers_take_the_picks:
  assumes "AnswerQuestions Q callID changes m = Inr m'" "distinct (map fst changes)"
  shows "\<exists>index asked answers. IndexFunc (isCall callID) (msTimeline m) = Some index \<and>
     answerableQuestions Q (msTimeline m ! index) = Some asked \<and>
     m' = m\<lparr>msTimeline := (msTimeline m)[index := (msTimeline m ! index)\<lparr>bkAnswers := answers\<rparr>]\<rparr> \<and>
     (\<forall>c\<in>set changes. changeOk (qsQuestions asked) c) \<and>
     (\<forall>i. map_of answers i = answerAfter (qsQuestions asked) changes (bkAnswers (msTimeline m ! index)) i)"
proof -
  from assms(1) obtain index asked answers where
    i: "IndexFunc (isCall callID) (msTimeline m) = Some index" "answerableQuestions Q (msTimeline m ! index) = Some asked"
      "changeAnswers (qsQuestions asked) changes (bkAnswers (msTimeline m ! index)) = Inr answers"
      "m' = m\<lparr>msTimeline := (msTimeline m)[index := (msTimeline m ! index)\<lparr>bkAnswers := answers\<rparr>]\<rparr>"
    by (auto simp: AnswerQuestions_def Let_def split: if_splits option.splits sum.splits simp del: IndexFunc_None)
  then show ?thesis using changeAnswers_Inr [OF i(3) assms(2)] by blast
qed

section \<open>Answers sent once\<close>

lemma sent_fold:
  "map_of (foldl (\<lambda>sent w. AList.update (waToolCallID w) (picks w) sent) sent ws) i =
     (if i \<in> waToolCallID ` set ws then Some (picks (last (filter (\<lambda>w. waToolCallID w = i) ws))) else map_of sent i)"
  by (induction ws rule: rev_induct) (auto simp: map_of_update)

lemma own_id:
  "distinct (map f ws) \<Longrightarrow> w \<in> set ws \<Longrightarrow> filter (\<lambda>v. f v = f w) ws = [w]"
proof (induction ws)
  case (Cons v ws)
  have "filter (\<lambda>u. f u = f w) ws = []" if "v = w" using Cons.prems(1) that
    by (metis (mono_tags, lifting) distinct.simps(2) filter_False image_eqI list.set_map list.simps(9))
  then show ?case using Cons by auto
qed simp

lemma sentAnswers_snoc:
  assumes "distinct (map waToolCallID (msAnswers m))" "w \<in> set (msAnswers m)"
  shows "map_of (sentAnswers (messages @ [m])) (waToolCallID w) = Some (picks w)"
proof -
  have "filter (\<lambda>v. waToolCallID v = waToolCallID w) (msAnswers m) = [w]"
    using own_id [OF assms] .
  then show ?thesis using assms(2) by (simp add: sentAnswers_def sent_fold)
qed

lemma sentAnswers_other:
  "i \<notin> waToolCallID ` set (msAnswers m) \<Longrightarrow> map_of (sentAnswers (messages @ [m])) i = map_of (sentAnswers messages) i"
  by (simp add: sentAnswers_def sent_fold)

text \<open>C21: Answers are sent once.  A message that sends the pending answers of the messages
  before it leaves nothing pending: until the user answers again, the next message
  sends none of them again.  The widgets that can be answered have ids of their own.\<close>

theorem answers_sent_once:
  assumes "distinct (map waToolCallID (currentAnswers Q messages))"
    and "msRole m = ''user''" "msAnswers m = PendingAnswers Q messages"
  shows "PendingAnswers Q (messages @ [m]) = []"
proof -
  have cur: "currentAnswers Q (messages @ [m]) = currentAnswers Q messages"
    using assms(2) by (simp add: currentAnswers_def)
  have d: "distinct (map waToolCallID (msAnswers m))"
    unfolding assms(3) PendingAnswers_def by (rule distinct_map_filter [OF assms(1)])
  have "mapsEqual (picks w) (ValueOr (map_of (sentAnswers (messages @ [m])) (waToolCallID w)) [])"
    if w: "w \<in> set (currentAnswers Q messages)" for w
  proof (cases "w \<in> set (msAnswers m)")
    case True
    then show ?thesis using sentAnswers_snoc [OF d] by (simp add: ValueOr_def mapsEqual_iff)
  next
    case False
    have "waToolCallID w \<notin> waToolCallID ` set (msAnswers m)"
    proof
      assume "waToolCallID w \<in> waToolCallID ` set (msAnswers m)"
      then obtain v where "v \<in> set (msAnswers m)" "waToolCallID v = waToolCallID w" by auto
      moreover then have "v \<in> set (currentAnswers Q messages)" using assms(3) by (simp add: PendingAnswers_def)
      ultimately have "v = w" using assms(1) w by (meson distinct_map inj_onD)
      then show False using False \<open>v \<in> set (msAnswers m)\<close> by simp
    qed
    then show ?thesis using False w sentAnswers_other [of "waToolCallID w" m messages] assms(3)
      by (auto simp: PendingAnswers_def)
  qed
  then show ?thesis unfolding PendingAnswers_def cur by (simp add: filter_empty_conv)
qed

section \<open>Examples\<close>

definition questionsX :: questions where
  "questionsX = \<lparr>qsTitle = ''t'', qsQuestions = [\<lparr>quID = ''q'', quPrompt = ''p'', quSelection = SingleSelection,
     quOptions = [\<lparr>qoID = ''a'', qoLabel = ''A''\<rparr>, \<lparr>qoID = ''b'', qoLabel = ''B''\<rparr>]\<rparr>]\<rparr>"

definition envX :: questionsEnv where
  "envX = \<lparr>qeUnmarshal = (\<lambda>s. Some questionsX), qeDraws = (\<lambda>n s. True), qeCatalog = [QuestionsWidget]\<rparr>"

definition replyX :: Message where
  "replyX = Message0\<lparr>msID := ''r'', msRole := ''assistant'', msTimeline := [Block0\<lparr>bkID := ''c'', bkType := ''tool_call'',
     bkName := QuestionsWidget, bkAnswers := [(''q'', [''b''])]\<rparr>]\<rparr>"

lemmas question_defs = AnswerQuestions_def replyX_def envX_def questionsX_def Message0_def Block0_def isCall_def CallID_def
  answerableQuestions_def widgetDraws_def readQuestions_def changeAnswers.simps picked_def SingleSelection_def Let_def

lemma answer_replyX:
  "AnswerQuestions envX ''c'' [(''q'', Some [''a''])] replyX =
     Inr (replyX\<lparr>msTimeline := [(hd (msTimeline replyX))\<lparr>bkAnswers := [(''q'', [''a''])]\<rparr>]\<rparr>)"
  by (simp add: question_defs)

theorem answers_take_the_picks_witness:
  "\<exists>m' index asked answers. AnswerQuestions envX ''c'' [(''q'', Some [''a''])] replyX = Inr m' \<and>
     m' = replyX\<lparr>msTimeline := (msTimeline replyX)[index := (msTimeline replyX ! index)\<lparr>bkAnswers := answers\<rparr>]\<rparr> \<and>
     changeOk (qsQuestions (asked :: questions)) (''q'', Some [''a''])"
proof -
  let ?m = "replyX\<lparr>msTimeline := [(hd (msTimeline replyX))\<lparr>bkAnswers := [(''q'', [''a''])]\<rparr>]\<rparr>"
  have d: "distinct (map fst [(''q'', Some [''a''])])" by simp
  obtain index asked answers where "?m = replyX\<lparr>msTimeline := (msTimeline replyX)[index :=
      (msTimeline replyX ! index)\<lparr>bkAnswers := answers\<rparr>]\<rparr>" "changeOk (qsQuestions (asked :: questions)) (''q'', Some [''a''])"
    using answers_take_the_picks [OF answer_replyX d] unfolding list.set by blast
  then show ?thesis using answer_replyX by blast
qed

lemma current_replyX:
  "currentAnswers envX [replyX] = [\<lparr>waToolCallID = ''c'', waTitle = ''t'',
     waQuestions = [\<lparr>aqID = ''q'', aqPrompt = ''p'', aqAnswered = True, aqSelected = [\<lparr>qoID = ''b'', qoLabel = ''B''\<rparr>]\<rparr>]\<rparr>]"
  by (simp add: currentAnswers_def answersOf_def answerOf_def ValueOr_def List.map_filter_def question_defs)

theorem answers_sent_once_witness:
  "let m = Message0\<lparr>msRole := ''user'', msAnswers := PendingAnswers envX [replyX]\<rparr>
   in PendingAnswers envX [replyX] \<noteq> [] \<and> PendingAnswers envX ([replyX] @ [m]) = []"
proof -
  let ?m = "Message0\<lparr>msRole := ''user'', msAnswers := PendingAnswers envX [replyX]\<rparr>"
  have "sentAnswers [replyX] = []" by (simp add: sentAnswers_def replyX_def Message0_def)
  then have "PendingAnswers envX [replyX] \<noteq> []"
    by (simp add: PendingAnswers_def current_replyX mapsEqual_def picks_def ValueOr_def)
  moreover have "PendingAnswers envX ([replyX] @ [?m]) = []"
    by (rule answers_sent_once) (simp_all add: current_replyX)
  ultimately show ?thesis by simp
qed

end
