(* ===== verification/Turns.thy ===== *)
theory Turns
  imports Questions "HOL-Library.Sublist"
begin

text \<open>What a turn does to its chat: the change it makes before its reply,
  \<^verbatim>\<open>internal/engine/transcript.go\<close>, what its run commits at the end, the closure of
  \<^verbatim>\<open>finishRun\<close> in \<^verbatim>\<open>internal/engine/finish.go\<close> with the widget replacement of
  \<^verbatim>\<open>internal/domain/widgets.go\<close>, and the windows a chat is shown in,
  \<^verbatim>\<open>internal/domain/views.go\<close>.  The closure may be applied more than once, since a chat
  another writer changed is read and committed again.\<close>

section \<open>Applying a turn\<close>

record TurnRequest =
  trThreadID :: string
  trKind :: string
  trContent :: "string option"
  trQuote :: "string option"
  trMessageID :: string
  trToolCallID :: string
  trSentAttachments :: bool

definition errMessageNotFound :: Error where
  "errMessageNotFound = Err 404 ''THREAD_NOT_FOUND'' ''The message was not found''"
definition errRoleMismatch :: Error where
  "errRoleMismatch = Err 400 ''BAD_REQUEST'' ''The turn kind does not match the message role''"
definition errEmptyMessage :: Error where
  "errEmptyMessage = Err 400 ''BAD_REQUEST'' ''A message, attachment or answer is required''"
definition errNothingToRetry :: Error where
  "errNothingToRetry = Err 400 ''BAD_REQUEST'' ''The chat has nothing to retry''"

text \<open>What a turn starts from once its kind has cut the chat: the messages kept, and the
  content, quote and attachments of the question it may add.\<close>

definition cutKinds :: "string list" where
  "cutKinds = [''edit'', ''regenerate'', ''continue'']"

definition replyKinds :: "string list" where
  "replyKinds = [''regenerate'', ''retryToolCall'', ''continue'', ''answer'', ''compact'']"

record turnDraft =
  tdMessages :: "Message list"
  tdContent :: string
  tdQuote :: string
  tdAttachments :: "Attachment list"

definition turnIndex :: "Thread \<Rightarrow> TurnRequest \<Rightarrow> nat option" where
  "turnIndex t r =
    (if trKind r = ''continue'' \<and> trMessageID r = [] then
       (if thMessages t = [] then None else Some (length (thMessages t) - 1))
     else MessageIndex t (trMessageID r))"

definition cutTurn :: "Thread \<Rightarrow> TurnRequest \<Rightarrow> turnDraft \<Rightarrow> Error + turnDraft" where
  "cutTurn t r d =
    (if trKind r \<notin> set cutKinds then Inr d
     else case turnIndex t r of None \<Rightarrow> Inl errMessageNotFound
     | Some index \<Rightarrow>
        let m = thMessages t ! index in
        if msRole m \<noteq> (if trKind r = ''edit'' then ''user'' else ''assistant'') then Inl errRoleMismatch
        else let d = (if trKind r = ''edit'' then
                d\<lparr>tdContent := (if trContent r = None then msContent m else tdContent d),
                  tdAttachments := (if trSentAttachments r then tdAttachments d else msAttachments m),
                  tdQuote := (if trQuote r = None then msQuote m else tdQuote d)\<rparr> else d)
             in Inr (d\<lparr>tdMessages := take (if trKind r = ''continue'' then index + 1 else index) (tdMessages d)\<rparr>))"

definition askTurn :: "TurnRequest \<Rightarrow> turnDraft \<Rightarrow> turnDraft" where
  "askTurn r d = (if trKind r = ''ask'' then d\<lparr>tdContent := ValueOr (trQuote r) [], tdQuote := []\<rparr> else d)"

definition questionOf :: "questionsEnv \<Rightarrow> string \<Rightarrow> TurnRequest \<Rightarrow> string \<Rightarrow> turnDraft \<Rightarrow> Message" where
  "questionOf Q now r messageID d =
    Message0\<lparr>msID := messageID, msRole := ''user'', msContent := tdContent d, msQuote := tdQuote d,
      msAttachments := tdAttachments d, msCreatedAt := now,
      msAnswers := (if trKind r = ''send'' \<or> trKind r = ''edit'' then PendingAnswers Q (tdMessages d) else [])\<rparr>"

definition emptyQuestion :: "TurnRequest \<Rightarrow> Message \<Rightarrow> bool" where
  "emptyQuestion r m \<longleftrightarrow> trKind r = ''send'' \<and> TrimSpace (msContent m) = [] \<and> TrimSpace (msQuote m) = [] \<and>
     msAttachments m = [] \<and> msAnswers m = []"

definition applyTurn ::
  "questionsEnv \<Rightarrow> string \<Rightarrow> Thread \<Rightarrow> TurnRequest \<Rightarrow> string \<Rightarrow> Attachment list \<Rightarrow> Error + Thread" where
  "applyTurn Q now t r messageID attachments =
    (if MessageIndex t messageID \<noteq> None then Inr t
     else bindR (cutTurn t r \<lparr>tdMessages = thMessages t, tdContent = ValueOr (trContent r) [],
                   tdQuote = ValueOr (trQuote r) [], tdAttachments = attachments\<rparr>) (\<lambda>d.
       let d = askTurn r d in
       if trKind r \<in> set replyKinds then Inr (t\<lparr>thMessages := tdMessages d\<rparr>)
       else let m = questionOf Q now r messageID d in
         if emptyQuestion r m then Inl errEmptyMessage
         else Inr (t\<lparr>thMessages := tdMessages d @ [m]\<rparr>)))"

definition retried :: "Thread \<Rightarrow> TurnRequest \<Rightarrow> Error + TurnRequest" where
  "retried t r =
    (if thMessages t = [] then Inl errNothingToRetry
     else let l = last (thMessages t) in
       Inr (if thLastRequestKind t = ''compact'' then r\<lparr>trKind := ''compact'', trMessageID := []\<rparr>
            else if msRole l = ''user'' then r\<lparr>trKind := ''answer'', trMessageID := []\<rparr>
            else if thLastRequestKind t = ''continue'' \<and> (ValueOr (msIsError l) False \<or> ValueOr (msIsInterrupted l) False)
            then r\<lparr>trKind := ''continue'', trMessageID := msID l\<rparr>
            else r\<lparr>trKind := ''regenerate'', trMessageID := msID l\<rparr>))"

section \<open>Committing a run\<close>

record compaction =
  coMarker :: Message
  coBefore :: string
  coUsage :: "ContextUsage option"

record retryTarget =
  rtBlock :: Block
  rtParentID :: string

record runCommit =
  rcCompacted :: "compaction option"
  rcTarget :: "retryTarget option"
  rcArguments :: string
  rcResult :: "bytes option"
  rcToolCallID :: string
  rcMessages :: "Message list"
  rcContinued :: bool
  rcReply :: string
  rcRunID :: string
  rcKind :: string
  rcFailed :: bool
  rcCancelled :: bool

text \<open>\<^verbatim>\<open>slices.Insert\<close> within the list.\<close>

definition insertAt :: "nat \<Rightarrow> 'a \<Rightarrow> 'a list \<Rightarrow> 'a list" where
  "insertAt k x xs = take k xs @ x # drop k xs"

definition errWidgetChanged :: Error where
  "errWidgetChanged = Err 409 ''REVISION_CONFLICT'' ''The widget changed during its retry''"
definition errWidgetGone :: Error where
  "errWidgetGone = Err 409 ''REVISION_CONFLICT'' ''The widget was removed during its retry''"

fun replaceIn :: "string \<Rightarrow> string \<Rightarrow> string \<Rightarrow> string \<Rightarrow> bytes option \<Rightarrow> Message list \<Rightarrow> Error + Message list" where
  "replaceIn messageID callID expected args result [] = Inl errWidgetGone"
| "replaceIn messageID callID expected args result (m # ms) =
    (case (if msID m = messageID then IndexFunc (\<lambda>b. CallID b = callID) (msTimeline m) else None) of
       None \<Rightarrow> (case replaceIn messageID callID expected args result ms of Inl e \<Rightarrow> Inl e | Inr ms \<Rightarrow> Inr (m # ms))
     | Some j \<Rightarrow>
        let block = msTimeline m ! j in
        if bkArguments block \<noteq> expected \<and> bkArguments block \<noteq> args then Inl errWidgetChanged
        else Inr (m\<lparr>msTimeline := (msTimeline m)[j := block\<lparr>bkArguments := args, bkResult := result, bkAnswers := []\<rparr>]\<rparr> # ms))"

definition ReplaceWidget :: "string \<Rightarrow> string \<Rightarrow> string \<Rightarrow> string \<Rightarrow> bytes option \<Rightarrow> Thread \<Rightarrow> Error + Thread" where
  "ReplaceWidget messageID callID expected args result t =
    (case replaceIn messageID callID expected args result (thMessages t) of Inl e \<Rightarrow> Inl e
     | Inr ms \<Rightarrow> Inr (t\<lparr>thMessages := ms\<rparr>))"

definition commitMarker :: "compaction option \<Rightarrow> Thread \<Rightarrow> Thread" where
  "commitMarker c t = (case c of None \<Rightarrow> t
     | Some c \<Rightarrow> if MessageIndex t (msID (coMarker c)) \<noteq> None then t
         else case MessageIndex t (coBefore c) of None \<Rightarrow> t
         | Some k \<Rightarrow> t\<lparr>thMessages := insertAt k (coMarker c) (thMessages t), thContextUsage := coUsage c\<rparr>)"

definition commitReply :: "bool \<Rightarrow> string \<Rightarrow> Thread \<Rightarrow> Message \<Rightarrow> Thread" where
  "commitReply continued reply t m = (case MessageIndex t (msID m) of
     None \<Rightarrow> t\<lparr>thMessages := thMessages t @ [m]\<rparr>
   | Some k \<Rightarrow> if continued \<and> msID m = reply
       then t\<lparr>thMessages := (thMessages t)[k := KeepAnswers (thMessages t ! k) m]\<rparr> else t)"

definition commitReplies :: "runCommit \<Rightarrow> Thread \<Rightarrow> Thread \<times> Error option" where
  "commitReplies c t = (case rcTarget c of
     Some target \<Rightarrow>
       if rcArguments c \<noteq> [] then
         (case ReplaceWidget (rtParentID target) (rcToolCallID c) (bkArguments (rtBlock target)) (rcArguments c) (rcResult c) t of
            Inl e \<Rightarrow> (t, Some e) | Inr t \<Rightarrow> (t, None))
       else (foldl (commitReply (rcContinued c) (rcReply c)) t (rcMessages c), None)
   | None \<Rightarrow> (foldl (commitReply (rcContinued c) (rcReply c)) t (rcMessages c), None))"

definition clearRun :: "string \<Rightarrow> Thread \<Rightarrow> Thread" where
  "clearRun runID t = (case thActiveRun t of None \<Rightarrow> t
     | Some a \<Rightarrow> if arRunID a = runID then t\<lparr>thActiveRun := None\<rparr> else t)"

definition requestKind :: "runCommit \<Rightarrow> Thread \<Rightarrow> string" where
  "requestKind c t =
    (if rcKind c = ''compact'' then
       (if rcFailed c \<and> \<not> rcCancelled c then ''compact''
        else if thLastRequestKind t = ''compact'' then [] else thLastRequestKind t)
     else thLastRequestKind t)"

definition commitRun :: "runCommit \<Rightarrow> Thread \<Rightarrow> Thread" where
  "commitRun c t = (let t = clearRun (rcRunID c) t in t\<lparr>thLastRequestKind := requestKind c t\<rparr>)"

definition finishCommit :: "runCommit \<Rightarrow> Thread \<Rightarrow> Thread \<times> Error option" where
  "finishCommit c t = (case commitReplies c (commitMarker (rcCompacted c) t) of (t, e) \<Rightarrow> (commitRun c t, e))"

section \<open>Windows of a chat\<close>

definition MessageWindow :: nat where "MessageWindow = 50"
definition MaxMessageWindow :: nat where "MaxMessageWindow = 200"

definition shownMessages :: "Thread \<Rightarrow> Message list" where
  "shownMessages t = drop (min (length (thMessages t)) (thHiddenCount t)) (thMessages t)"

definition MessageCount :: "Thread \<Rightarrow> nat" where
  "MessageCount t = length (filter (\<lambda>m. \<not> isMarker m) (shownMessages t))"

definition windowEnd :: "string \<Rightarrow> Message list \<Rightarrow> nat" where
  "windowEnd before all = (if before = [] then length all
     else ValueOr (IndexFunc (\<lambda>m. msID m = before) all) (length all))"

text \<open>\<^verbatim>\<open>Window\<close>: the messages of the window, and whether older ones are left out.\<close>

definition WindowOf :: "Thread \<Rightarrow> string \<Rightarrow> int \<Rightarrow> Message list \<times> bool" where
  "WindowOf t before limit =
    (let all = shownMessages t; e = windowEnd before all;
         n = (if limit \<le> 0 \<or> limit > int MaxMessageWindow then MessageWindow else nat limit);
         s = e - n
     in (take (e - s) (drop s all), s > 0))"

section \<open>A turn's change\<close>

text \<open>Where a turn's kind cuts its chat, and what it adds there.\<close>

definition keepsUpTo :: "Thread \<Rightarrow> TurnRequest \<Rightarrow> nat \<Rightarrow> bool" where
  "keepsUpTo t r k \<longleftrightarrow>
    (if trKind r \<in> set cutKinds then case turnIndex t r of None \<Rightarrow> False
       | Some i \<Rightarrow> k = (if trKind r = ''continue'' then i + 1 else i) \<and>
           msRole (thMessages t ! i) = (if trKind r = ''edit'' then ''user'' else ''assistant'')
     else k = length (thMessages t))"

definition adds :: "questionsEnv \<Rightarrow> TurnRequest \<Rightarrow> string \<Rightarrow> Message list \<Rightarrow> Message list \<Rightarrow> bool" where
  "adds Q r messageID kept added \<longleftrightarrow>
    (if trKind r \<in> set replyKinds then added = []
     else case added of [m] \<Rightarrow> msID m = messageID \<and> msRole m = ''user'' \<and>
         msAnswers m = (if trKind r = ''send'' \<or> trKind r = ''edit'' then PendingAnswers Q kept else [])
       | _ \<Rightarrow> False)"

lemma cutTurn_Inr:
  assumes "cutTurn t r d = Inr d'" "tdMessages d = thMessages t"
  shows "\<exists>k. tdMessages d' = take k (thMessages t) \<and> keepsUpTo t r k"
proof (cases "trKind r \<in> set cutKinds")
  case False
  then show ?thesis using assms by (simp add: cutTurn_def keepsUpTo_def)
next
  case True
  then show ?thesis
    using assms by (auto simp: cutTurn_def keepsUpTo_def Let_def split: option.splits if_splits)
qed

lemma askTurn_messages [simp]: "tdMessages (askTurn r d) = tdMessages d"
  by (simp add: askTurn_def)

lemma questionOf_simps [simp]:
  "msID (questionOf Q now r mid d) = mid" "msRole (questionOf Q now r mid d) = ''user''"
  "msAnswers (questionOf Q now r mid d) = (if trKind r = ''send'' \<or> trKind r = ''edit'' then PendingAnswers Q (tdMessages d) else [])"
  by (simp_all add: questionOf_def Message0_def)

lemma adds_reply: "trKind r \<in> set replyKinds \<Longrightarrow> adds Q r mid kept []"
  by (simp add: adds_def)

lemma adds_question:
  "trKind r \<notin> set replyKinds \<Longrightarrow> tdMessages d = kept \<Longrightarrow> adds Q r mid kept [questionOf Q now r mid d]"
  by (simp add: adds_def)

text \<open>C16: A turn changes only the end of its chat, and once.  A turn that is accepted keeps
  the chat's messages up to the one it names where its kind cuts the chat there, whose
  role fits the kind, and all of them otherwise; it then adds one question, under the id
  given and with the answers not yet sent, or nothing when its kind asks for a reply
  alone.  Nothing else of the chat changes, and a turn that added its question changes
  nothing when it is applied again, whenever that is.\<close>

theorem turn_changes_only_its_end:
  assumes "applyTurn Q now t r messageID attachments = Inr t'" "MessageIndex t messageID = None"
  shows "\<exists>k added. t' = t\<lparr>thMessages := take k (thMessages t) @ added\<rparr> \<and> keepsUpTo t r k \<and>
     adds Q r messageID (take k (thMessages t)) added \<and>
     (added \<noteq> [] \<longrightarrow> (\<forall>now' attachments'. applyTurn Q now' t' r messageID attachments' = Inr t'))"
proof -
  define d0 where "d0 = \<lparr>tdMessages = thMessages t, tdContent = ValueOr (trContent r) [],
                   tdQuote = ValueOr (trQuote r) [], tdAttachments = attachments\<rparr>"
  obtain d where d: "cutTurn t r d0 = Inr d"
      and t': "(if trKind r \<in> set replyKinds then Inr (t\<lparr>thMessages := tdMessages (askTurn r d)\<rparr>)
       else let m = questionOf Q now r messageID (askTurn r d) in
         if emptyQuestion r m then Inl errEmptyMessage
         else Inr (t\<lparr>thMessages := tdMessages (askTurn r d) @ [m]\<rparr>)) = Inr t'"
    using assms unfolding applyTurn_def d0_def [symmetric] by (cases "cutTurn t r d0") (auto simp: Let_def)
  have "tdMessages d0 = thMessages t" by (simp add: d0_def)
  then obtain k where k: "tdMessages d = take k (thMessages t)" "keepsUpTo t r k"
    using cutTurn_Inr [OF d] by blast
  show ?thesis
  proof (cases "trKind r \<in> set replyKinds")
    case True
    then have "t' = t\<lparr>thMessages := take k (thMessages t) @ []\<rparr>" using t' k(1) by simp
    then show ?thesis using k(2) adds_reply [OF True] by blast
  next
    case False
    let ?m = "questionOf Q now r messageID (askTurn r d)"
    have e: "t' = t\<lparr>thMessages := take k (thMessages t) @ [?m]\<rparr>"
      using t' False k(1) by (auto simp: Let_def split: if_splits)
    have "MessageIndex t' messageID \<noteq> None" by (simp add: e MessageIndex_def)
    then have "\<forall>now' attachments'. applyTurn Q now' t' r messageID attachments' = Inr t'" by (simp add: applyTurn_def)
    moreover have "adds Q r messageID (take k (thMessages t)) [?m]"
      by (rule adds_question [OF False]) (simp add: k(1))
    ultimately show ?thesis using e k(2) by blast
  qed
qed

definition questionX :: "string \<Rightarrow> Message" where
  "questionX i = Message0\<lparr>msID := i, msRole := ''user'', msContent := ''hello''\<rparr>"

definition threadX :: Thread where
  "threadX = \<lparr>thID = ''t'', thTitle = [], thTitleState = [], thCreatedAt = [], thUpdatedAt = [], thModel = [],
     thProjectID = None, thPresetID = None, thPinned = False, thWebSearchEnabled = False,
     thMessages = [questionX ''u'', replyX, questionX ''v''], thLastRequestID = [], thLastRequestKind = [],
     thActiveRun = None, thContextUsage = None, thFlagged = False, thHiddenCount = 0, thRecordVersion = 1\<rparr>"

definition editX :: TurnRequest where
  "editX = \<lparr>trThreadID = ''t'', trKind = ''edit'', trContent = Some ''other'', trQuote = None, trMessageID = ''v'',
     trToolCallID = [], trSentAttachments = False\<rparr>"

lemmas turn_example_defs = questionX_def threadX_def editX_def replyX_def Message0_def Block0_def MessageIndex_def

lemma editX_applies: "\<exists>t'. applyTurn envX ''now'' threadX editX ''w'' [] = Inr t'"
proof -
  have "turnIndex threadX editX = Some 2" "trKind editX = ''edit''" "trKind editX \<in> set cutKinds"
      "trKind editX \<notin> set replyKinds" "MessageIndex threadX ''w'' = None" "msRole (thMessages threadX ! 2) = ''user''"
    by (simp_all add: turn_example_defs turnIndex_def cutKinds_def replyKinds_def numeral_2_eq_2)
  then show ?thesis by (simp add: applyTurn_def cutTurn_def Let_def emptyQuestion_def)
qed

theorem turn_changes_only_its_end_witness:
  "\<exists>t' k added. applyTurn envX ''now'' threadX editX ''w'' [] = Inr t' \<and>
     t' = threadX\<lparr>thMessages := take k (thMessages threadX) @ added\<rparr> \<and> k = 2 \<and>
     adds envX editX ''w'' (take k (thMessages threadX)) added"
proof -
  obtain t' where t': "applyTurn envX ''now'' threadX editX ''w'' [] = Inr t'" using editX_applies by blast
  have "MessageIndex threadX ''w'' = None" by (simp add: turn_example_defs)
  from turn_changes_only_its_end [OF t' this] obtain k added where
    k: "t' = threadX\<lparr>thMessages := take k (thMessages threadX) @ added\<rparr>" "keepsUpTo threadX editX k"
       "adds envX editX ''w'' (take k (thMessages threadX)) added" by blast
  have "turnIndex threadX editX = Some 2" by (simp add: turn_example_defs turnIndex_def numeral_2_eq_2)
  then have "k = 2" using k(2) by (simp add: keepsUpTo_def editX_def cutKinds_def)
  then show ?thesis using t' k by blast
qed

section \<open>Committing a run again\<close>

lemma IndexFunc_update_same:
  "IndexFunc P xs = Some k \<Longrightarrow> P y \<Longrightarrow> IndexFunc P (xs[k := y]) = Some k"
  by (induction xs arbitrary: k) (auto split: if_splits)

lemma IndexFunc_update_map:
  "map f (xs[k := y]) = map f xs \<Longrightarrow> IndexFunc (\<lambda>x. f x = i) (xs[k := y]) = IndexFunc (\<lambda>x. f x = i) xs"
proof -
  have c: "IndexFunc (\<lambda>x. f x = i) zs = IndexFunc (\<lambda>v. v = i) (map f zs)" for zs by (induction zs) auto
  show "map f (xs[k := y]) = map f xs \<Longrightarrow> ?thesis" unfolding c by simp
qed

lemma IndexFunc_append_found: "IndexFunc P xs = Some k \<Longrightarrow> IndexFunc P (xs @ ys) = Some k"
  by (induction xs arbitrary: k) (auto split: if_splits)

lemma IndexFunc_append_new: "IndexFunc P xs = None \<Longrightarrow> P y \<Longrightarrow> IndexFunc P (xs @ [y]) = Some (length xs)"
  by (induction xs) (auto split: if_splits simp del: IndexFunc_None)

lemma map_update_same: "k < length xs \<Longrightarrow> f y = f (xs ! k) \<Longrightarrow> map f (xs[k := y]) = map f xs"
  by (metis list_update_id map_update nth_map)

text \<open>Whether a chat holds a message.\<close>

definition holds :: "Thread \<Rightarrow> string \<Rightarrow> bool" where
  "holds t i \<longleftrightarrow> i \<in> set (map msID (thMessages t))"

lemma MessageIndex_None_holds: "MessageIndex t i = None \<longleftrightarrow> \<not> holds t i"
  by (auto simp: MessageIndex_def holds_def)

lemma KeepAnswers_id [simp]: "msID (KeepAnswers from m) = msID m"
  by (simp add: KeepAnswers_def Let_def)

abbreviation givenAnswers :: "(string \<times> (string \<times> string list) list) list \<Rightarrow> Block list \<Rightarrow> (string \<times> (string \<times> string list) list) list" where
  "givenAnswers \<equiv> foldl (\<lambda>g b. if isQuestions b then AList.update (CallID b) (bkAnswers b) g else g)"

abbreviation asked :: "Block list \<Rightarrow> string list" where
  "asked bs \<equiv> map CallID (filter isQuestions bs)"

lemma givenAnswers_other: "c \<notin> set (asked bs) \<Longrightarrow> map_of (givenAnswers g bs) c = map_of g c"
  by (induction bs arbitrary: g) (auto simp: map_of_update)

lemma givenAnswers_own:
  "b \<in> set bs \<Longrightarrow> isQuestions b \<Longrightarrow> distinct (asked bs) \<Longrightarrow> map_of (givenAnswers g bs) (CallID b) = Some (bkAnswers b)"
proof (induction bs arbitrary: g)
  case (Cons x bs)
  show ?case
  proof (cases "b = x")
    case True
    then have "CallID b \<notin> set (asked bs)" using Cons.prems by auto
    then have "map_of (givenAnswers (AList.update (CallID b) (bkAnswers b) g) bs) (CallID b) = Some (bkAnswers b)"
      by (subst givenAnswers_other) (simp_all add: map_of_update)
    then show ?thesis using True Cons.prems(2) by simp
  qed (use Cons in \<open>auto split: if_splits\<close>)
qed simp

text \<open>What \<^verbatim>\<open>KeepAnswers\<close> makes of a block: its answers alone may change, and only a question's.\<close>

definition answersOnly :: "(Block \<Rightarrow> Block) \<Rightarrow> bool" where
  "answersOnly h \<longleftrightarrow> (\<forall>b. \<exists>a. h b = b\<lparr>bkAnswers := a\<rparr>) \<and> (\<forall>b. \<not> isQuestions b \<longrightarrow> h b = b)"

lemma answersOnly_same:
  assumes "answersOnly h"
  shows "isQuestions (h b) = isQuestions b" "CallID (h b) = CallID b" "b\<lparr>bkAnswers := bkAnswers (h b)\<rparr> = h b"
proof -
  obtain a where "h b = b\<lparr>bkAnswers := a\<rparr>" using assms unfolding answersOnly_def by blast
  then show "isQuestions (h b) = isQuestions b" "CallID (h b) = CallID b" "b\<lparr>bkAnswers := bkAnswers (h b)\<rparr> = h b"
    by (simp_all add: isQuestions_def CallID_def)
qed

lemma asked_answersOnly: "answersOnly h \<Longrightarrow> asked (map h bs) = asked bs"
  by (induction bs) (simp_all add: answersOnly_same)

lemma KeepAnswers_answersOnly: "\<exists>h. answersOnly h \<and> KeepAnswers from m = m\<lparr>msTimeline := map h (msTimeline m)\<rparr>"
proof -
  define g where "g = givenAnswers [] (msTimeline from)"
  define h where "h = (\<lambda>b. if isQuestions b then (case map_of g (CallID b) of None \<Rightarrow> b | Some a \<Rightarrow> b\<lparr>bkAnswers := a\<rparr>) else b)"
  have self: "\<exists>a. b = b\<lparr>bkAnswers := a\<rparr>" for b :: Block by (rule exI [of _ "bkAnswers b"]) simp
  have "answersOnly h" unfolding answersOnly_def h_def by (auto split: option.splits intro: self)
  moreover have "answersOnly (\<lambda>b. b)" unfolding answersOnly_def using self by simp
  moreover have "KeepAnswers from m = m\<lparr>msTimeline := map (if g = [] then (\<lambda>b. b) else h) (msTimeline m)\<rparr>"
    by (simp add: KeepAnswers_def Let_def g_def h_def)
  ultimately show ?thesis by (intro exI [of _ "if g = [] then (\<lambda>b. b) else h"]) simp
qed

lemma KeepAnswers_again:
  assumes h: "answersOnly h" and d: "distinct (asked (msTimeline m))" and x: "x = m\<lparr>msTimeline := map h (msTimeline m)\<rparr>"
  shows "KeepAnswers x m = x"
proof -
  define g where "g = givenAnswers [] (map h (msTimeline m))"
  have g: "map_of g (CallID b) = Some (bkAnswers (h b))" if "b \<in> set (msTimeline m)" "isQuestions b" for b
    using givenAnswers_own [of "h b" "map h (msTimeline m)" "[]"] that d
    by (simp add: g_def answersOnly_same [OF h] asked_answersOnly [OF h])
  have keep: "(if isQuestions b then (case map_of g (CallID b) of None \<Rightarrow> b | Some a \<Rightarrow> b\<lparr>bkAnswers := a\<rparr>) else b) = h b"
    if "b \<in> set (msTimeline m)" for b
    using g [OF that] h by (simp add: answersOnly_same [OF h] answersOnly_def)
  have eq: "KeepAnswers x m = (if g = [] then m else m\<lparr>msTimeline := map (\<lambda>b. if isQuestions b
      then (case map_of g (CallID b) of None \<Rightarrow> b | Some a \<Rightarrow> b\<lparr>bkAnswers := a\<rparr>) else b) (msTimeline m)\<rparr>)"
    by (simp add: KeepAnswers_def Let_def g_def x)
  show ?thesis
  proof (cases "g = []")
    case True
    then have "h b = b" if "b \<in> set (msTimeline m)" for b using keep [OF that] unfolding True by (auto split: if_splits)
    then have "map h (msTimeline m) = msTimeline m" by (simp add: map_idI)
    then show ?thesis using eq True x by simp
  next
    case False
    have "map (\<lambda>b. if isQuestions b then (case map_of g (CallID b) of None \<Rightarrow> b | Some a \<Rightarrow> b\<lparr>bkAnswers := a\<rparr>) else b)
        (msTimeline m) = map h (msTimeline m)"
      by (rule map_cong [OF refl]) (rule keep)
    then show ?thesis unfolding eq using False x by simp
  qed
qed

lemma KeepAnswers_twice:
  "distinct (asked (msTimeline m)) \<Longrightarrow> KeepAnswers (KeepAnswers f m) m = KeepAnswers f m"
  using KeepAnswers_answersOnly [of f m] KeepAnswers_again by metis

lemma KeepAnswers_self: "distinct (asked (msTimeline m)) \<Longrightarrow> KeepAnswers m m = m"
proof (rule KeepAnswers_again [where h = "\<lambda>b. b"])
  have "\<exists>a. b = b\<lparr>bkAnswers := a\<rparr>" for b :: Block by (rule exI [of _ "bkAnswers b"]) simp
  then show "answersOnly (\<lambda>b. b)" unfolding answersOnly_def by simp
qed simp_all

text \<open>A reply is settled in a chat when committing it again changes nothing.\<close>

definition settled :: "bool \<Rightarrow> string \<Rightarrow> Thread \<Rightarrow> Message \<Rightarrow> bool" where
  "settled continued reply t m \<longleftrightarrow> (case MessageIndex t (msID m) of None \<Rightarrow> False
     | Some k \<Rightarrow> continued \<and> msID m = reply \<longrightarrow> KeepAnswers (thMessages t ! k) m = thMessages t ! k)"

lemma settled_unchanged: "settled continued reply t m \<Longrightarrow> commitReply continued reply t m = t"
  by (auto simp: settled_def commitReply_def split: option.splits)

lemma commitReply_settles:
  assumes "distinct (asked (msTimeline m))"
  shows "settled continued reply (commitReply continued reply t m) m"
proof (cases "MessageIndex t (msID m)")
  case None
  then have "MessageIndex (commitReply continued reply t m) (msID m) = Some (length (thMessages t))"
    unfolding MessageIndex_def commitReply_def by (simp add: IndexFunc_append_new del: IndexFunc_None)
  then show ?thesis using None assms by (simp add: settled_def commitReply_def KeepAnswers_self)
next
  case (Some k)
  then have k: "k < length (thMessages t)" "msID (thMessages t ! k) = msID m"
    using IndexFunc_Some by (fastforce simp: MessageIndex_def)+
  show ?thesis
  proof (cases "continued \<and> msID m = reply")
    case True
    let ?x = "KeepAnswers (thMessages t ! k) m"
    have c: "commitReply continued reply t m = t\<lparr>thMessages := (thMessages t)[k := ?x]\<rparr>"
      using True Some by (simp add: commitReply_def)
    have "MessageIndex (commitReply continued reply t m) (msID m) = Some k"
      using Some by (simp add: c MessageIndex_def IndexFunc_update_same)
    then show ?thesis using k(1) assms by (simp add: settled_def c KeepAnswers_twice)
  qed (use Some in \<open>auto simp: settled_def commitReply_def\<close>)
qed

lemma commitReply_keeps_settled:
  assumes s: "settled continued reply t m" and ne: "msID m' \<noteq> msID m"
  shows "settled continued reply (commitReply continued reply t m') m"
proof -
  obtain k where k: "MessageIndex t (msID m) = Some k"
      "continued \<and> msID m = reply \<longrightarrow> KeepAnswers (thMessages t ! k) m = thMessages t ! k"
    using s by (auto simp: settled_def split: option.splits)
  have kl: "k < length (thMessages t)" "msID (thMessages t ! k) = msID m"
    using IndexFunc_Some k(1) by (fastforce simp: MessageIndex_def)+
  have I: "settled continued reply t' m" if "MessageIndex t' (msID m) = Some k" "thMessages t' ! k = thMessages t ! k" for t'
    using that k(2) by (simp add: settled_def)
  show ?thesis
  proof (cases "MessageIndex t (msID m')")
    case None
    show ?thesis
      by (rule I) (use None k kl in \<open>simp_all add: commitReply_def MessageIndex_def IndexFunc_append_found nth_append del: IndexFunc_None\<close>)
  next
    case (Some j)
    then have j: "j < length (thMessages t)" "msID (thMessages t ! j) = msID m'"
      using IndexFunc_Some by (fastforce simp: MessageIndex_def)+
    have jk: "j \<noteq> k" using j(2) kl(2) ne by auto
    have "map msID ((thMessages t)[j := KeepAnswers (thMessages t ! j) m']) = map msID (thMessages t)"
      by (rule map_update_same) (use j in simp_all)
    from IndexFunc_update_map [OF this] show ?thesis
      by (intro I) (use Some k jk in \<open>simp_all add: commitReply_def MessageIndex_def\<close>)
  qed
qed

lemma commitReplies_settle:
  assumes "distinct (map msID ms)" "\<forall>m\<in>set ms. distinct (asked (msTimeline m))"
  shows "\<forall>m\<in>set ms. settled continued reply (foldl (commitReply continued reply) t ms) m"
  using assms
proof (induction ms rule: rev_induct)
  case (snoc x ms)
  let ?t = "foldl (commitReply continued reply) t ms"
  have "\<forall>m\<in>set ms. settled continued reply ?t m" using snoc by simp
  moreover have "\<forall>m\<in>set ms. msID x \<noteq> msID m" using snoc.prems(1) by auto
  ultimately have "\<forall>m\<in>set ms. settled continued reply (commitReply continued reply ?t x) m"
    using commitReply_keeps_settled by blast
  then show ?case using commitReply_settles snoc.prems(2) by simp
qed simp

lemma commit_settled:
  "\<forall>m\<in>set ms. settled continued reply t m \<Longrightarrow> foldl (commitReply continued reply) t ms = t"
  by (induction ms) (simp_all add: settled_unchanged)

lemma replaceIn_again:
  "replaceIn messageID callID expected args result ms = Inr ms' \<Longrightarrow>
     replaceIn messageID callID expected args result ms' = Inr ms' \<and> map msID ms' = map msID ms"
proof (induction ms arbitrary: ms')
  case (Cons m ms)
  let ?at = "if msID m = messageID then IndexFunc (\<lambda>b. CallID b = callID) (msTimeline m) else None"
  show ?case
  proof (cases ?at)
    case None
    then show ?thesis using Cons by (auto split: sum.splits simp del: IndexFunc_None)
  next
    case (Some j)
    define block where "block = msTimeline m ! j"
    define block' where "block' = block\<lparr>bkArguments := args, bkResult := result, bkAnswers := []\<rparr>"
    have m: "msID m = messageID" and at: "IndexFunc (\<lambda>b. CallID b = callID) (msTimeline m) = Some j"
      using Some by (auto split: if_splits)
    then have j: "j < length (msTimeline m)" "CallID block = callID" using IndexFunc_Some [OF at] by (simp_all add: block_def)
    have ms': "ms' = m\<lparr>msTimeline := (msTimeline m)[j := block']\<rparr> # ms"
      using Cons.prems Some by (auto simp: Let_def block_def block'_def split: if_splits)
    have "IndexFunc (\<lambda>b. CallID b = callID) ((msTimeline m)[j := block']) = Some j"
      by (rule IndexFunc_update_same [OF at]) (use j(2) in \<open>auto simp: block'_def CallID_def\<close>)
    then show ?thesis using m j(1) by (simp add: ms' block'_def)
  qed
qed simp

lemma replaceIn_others:
  "replaceIn messageID callID expected args result ms = Inr ms' \<Longrightarrow> m \<in> set ms \<Longrightarrow> msID m \<noteq> messageID \<Longrightarrow> m \<in> set ms'"
proof (induction ms arbitrary: ms')
  case (Cons x ms)
  show ?case
  proof (cases "if msID x = messageID then IndexFunc (\<lambda>b. CallID b = callID) (msTimeline x) else None")
    case None
    then show ?thesis using Cons by (auto split: sum.splits simp del: IndexFunc_None)
  next
    case (Some j)
    then have "tl ms' = ms" "m \<noteq> x"
      using Cons.prems by (auto simp: Let_def split: if_splits simp del: IndexFunc_None)
    then show ?thesis using Cons.prems(1,2) by (cases ms') (auto split: sum.splits option.splits)
  qed
qed simp

lemma ReplaceWidget_Inr:
  "ReplaceWidget p c x a r t = Inr t' \<longleftrightarrow> (\<exists>ms. replaceIn p c x a r (thMessages t) = Inr ms \<and> t' = t\<lparr>thMessages := ms\<rparr>)"
  by (auto simp: ReplaceWidget_def split: sum.splits)

lemma clearRun_simps [simp]:
  "thMessages (clearRun i t) = thMessages t" "clearRun i (clearRun i t) = clearRun i t"
  "clearRun i (t\<lparr>thLastRequestKind := k\<rparr>) = (clearRun i t)\<lparr>thLastRequestKind := k\<rparr>"
  by (simp_all add: clearRun_def split: option.splits)

lemma requestKind_twice: "requestKind c (t\<lparr>thLastRequestKind := requestKind c u\<rparr>) = requestKind c u"
  by (simp add: requestKind_def)

lemma commitRun_messages [simp]: "thMessages (commitRun c t) = thMessages t"
  by (simp add: commitRun_def Let_def)

lemma commitRun_twice: "commitRun c (commitRun c t) = commitRun c t"
  by (simp add: commitRun_def Let_def requestKind_twice)

text \<open>A run's replies are well formed when no two share an id and no reply asks twice under
  one call id, and its compaction sits before a message that is none of them.\<close>

definition commitOk :: "runCommit \<Rightarrow> bool" where
  "commitOk c \<longleftrightarrow> distinct (map msID (rcMessages c)) \<and> (\<forall>m\<in>set (rcMessages c). distinct (asked (msTimeline m))) \<and>
     (case rcCompacted c of None \<Rightarrow> True | Some k \<Rightarrow> coBefore k \<notin> msID ` set (rcMessages c))"

lemma settled_cong: "thMessages u = thMessages t \<Longrightarrow> settled continued reply u m = settled continued reply t m"
  by (simp add: settled_def MessageIndex_def cong: option.case_cong)

lemma commitReplies_again:
  assumes "commitOk c" "commitReplies c t = (t', e)" "thMessages u = thMessages t'"
  shows "commitReplies c u = (u, e)"
proof -
  have d: "distinct (map msID (rcMessages c))" "\<forall>m\<in>set (rcMessages c). distinct (asked (msTimeline m))"
    using assms(1) by (simp_all add: commitOk_def)
  have fold: "foldl (commitReply (rcContinued c) (rcReply c)) u (rcMessages c) = u"
    if "t' = foldl (commitReply (rcContinued c) (rcReply c)) t (rcMessages c)"
    using commitReplies_settle [OF d] settled_cong [OF assms(3)] that by (intro commit_settled) blast
  show ?thesis
  proof (cases "rcTarget c = None \<or> rcArguments c = []")
    case True
    then show ?thesis using assms(2) fold by (auto simp: commitReplies_def split: option.splits)
  next
    case False
    then obtain target where target: "rcTarget c = Some target" "rcArguments c \<noteq> []" by auto
    let ?r = "\<lambda>t. replaceIn (rtParentID target) (rcToolCallID c) (bkArguments (rtBlock target)) (rcArguments c) (rcResult c) (thMessages t)"
    have r: "commitReplies c t = (case ?r t of Inl e \<Rightarrow> (t, Some e) | Inr ms \<Rightarrow> (t\<lparr>thMessages := ms\<rparr>, None))" for t
      using target by (simp add: commitReplies_def ReplaceWidget_def split: sum.splits)
    show ?thesis
    proof (cases "?r t")
      case (Inl x)
      then show ?thesis using assms(2,3) by (auto simp: r)
    next
      case (Inr ms)
      then have "?r u = Inr ms" "thMessages u = ms" "e = None"
        using assms(2,3) replaceIn_again by (auto simp: r)
      then show ?thesis by (auto simp: r)
    qed
  qed
qed

text \<open>What a commit keeps of the chat: its ids in order, and every message but those named.\<close>

definition keepsBut :: "string set \<Rightarrow> Message list \<Rightarrow> Message list \<Rightarrow> bool" where
  "keepsBut ids ms ms' \<longleftrightarrow> subseq (map msID ms) (map msID ms') \<and> (\<forall>m\<in>set ms. msID m \<notin> ids \<longrightarrow> m \<in> set ms')"

lemma keepsBut_refl: "keepsBut ids ms ms"
  by (simp add: keepsBut_def)

lemma keepsBut_trans: "keepsBut ids a b \<Longrightarrow> keepsBut ids b c \<Longrightarrow> keepsBut ids a c"
  unfolding keepsBut_def by (blast intro: subseq_order.trans)

lemma keepsBut_insert: "keepsBut ids ms (insertAt k x ms)"
proof -
  have "subseq (take k xs @ drop k xs) (take k xs @ y # drop k xs)" for xs and y :: string
    by (rule list_emb_append_mono) auto
  then have "subseq xs (take k xs @ y # drop k xs)" for xs and y :: string by (metis append_take_drop_id)
  moreover have "set ms \<subseteq> set (insertAt k x ms)" unfolding insertAt_def by (metis append_take_drop_id set_append set_subset_Cons Un_mono order_refl)
  ultimately show ?thesis by (auto simp: keepsBut_def insertAt_def take_map [symmetric] drop_map [symmetric])
qed

lemma keepsBut_update:
  assumes "k < length ms" "msID y = msID (ms ! k)" "msID y \<in> ids"
  shows "keepsBut ids ms (ms[k := y])"
proof -
  have "m \<in> set (ms[k := y])" if "m \<in> set ms" "msID m \<notin> ids" for m
  proof -
    obtain i where i: "i < length ms" "ms ! i = m" using \<open>m \<in> set ms\<close> by (auto simp: in_set_conv_nth)
    then have "i \<noteq> k" using assms that(2) by auto
    then show ?thesis using i by (metis length_list_update nth_list_update_neq nth_mem)
  qed
  then show ?thesis using map_update_same [of k ms msID y] assms by (simp add: keepsBut_def)
qed

lemma commitReply_keeps:
  "keepsBut (insert reply ids) (thMessages t) (thMessages (commitReply continued reply t m))"
proof (cases "MessageIndex t (msID m)")
  case None
  have "thMessages t @ [m] = insertAt (length (thMessages t)) m (thMessages t)" by (simp add: insertAt_def)
  then show ?thesis using None keepsBut_insert by (simp add: commitReply_def)
next
  case (Some k)
  then have "k < length (thMessages t)" "msID (thMessages t ! k) = msID m"
    using IndexFunc_Some by (fastforce simp: MessageIndex_def)+
  then show ?thesis using Some by (auto simp: commitReply_def keepsBut_refl intro: keepsBut_update)
qed

lemma commitMessages_keep:
  "keepsBut (insert reply ids) (thMessages t) (thMessages (foldl (commitReply continued reply) t ms))"
proof (induction ms arbitrary: t)
  case (Cons m ms)
  show ?case using keepsBut_trans [OF commitReply_keeps Cons.IH] by simp
qed (simp add: keepsBut_refl)

lemma commitMarker_keeps: "keepsBut ids (thMessages t) (thMessages (commitMarker k t))"
  by (auto simp: commitMarker_def keepsBut_refl keepsBut_insert split: option.splits)

definition touched :: "runCommit \<Rightarrow> string set" where
  "touched c = insert (rcReply c) (case rcTarget c of None \<Rightarrow> {} | Some target \<Rightarrow> {rtParentID target})"

lemma commitReplies_keeps:
  assumes "commitReplies c t = (t', e)"
  shows "keepsBut (touched c) (thMessages t) (thMessages t')"
proof (cases "rcTarget c = None \<or> rcArguments c = []")
  case True
  then have "t' = foldl (commitReply (rcContinued c) (rcReply c)) t (rcMessages c)"
    using assms by (auto simp: commitReplies_def split: option.splits)
  then show ?thesis using commitMessages_keep by (simp add: touched_def)
next
  case False
  then obtain target where target: "rcTarget c = Some target" "rcArguments c \<noteq> []" by auto
  let ?r = "replaceIn (rtParentID target) (rcToolCallID c) (bkArguments (rtBlock target)) (rcArguments c) (rcResult c) (thMessages t)"
  show ?thesis
  proof (cases ?r)
    case (Inl x)
    then show ?thesis using assms target by (auto simp: commitReplies_def ReplaceWidget_def keepsBut_refl)
  next
    case (Inr ms)
    then have "thMessages t' = ms" using assms target by (auto simp: commitReplies_def ReplaceWidget_def)
    moreover have "map msID ms = map msID (thMessages t)" using replaceIn_again [OF Inr] by simp
    ultimately show ?thesis using replaceIn_others [OF Inr] target by (auto simp: keepsBut_def touched_def)
  qed
qed

lemma commitReply_adds: "holds (commitReply continued reply u m) i \<Longrightarrow> holds u i \<or> i = msID m"
proof (cases "MessageIndex u (msID m)")
  case (Some k)
  then have "k < length (thMessages u)" "msID (thMessages u ! k) = msID m"
    using IndexFunc_Some by (fastforce simp: MessageIndex_def)+
  then have "map msID ((thMessages u)[k := KeepAnswers (thMessages u ! k) m]) = map msID (thMessages u)"
    by (intro map_update_same) simp_all
  then show "holds (commitReply continued reply u m) i \<Longrightarrow> ?thesis"
    using Some by (simp add: commitReply_def holds_def split: if_splits del: set_map)
qed (auto simp: commitReply_def holds_def)

lemma commitMessages_add:
  "holds (foldl (commitReply continued reply) u ms) i \<Longrightarrow> holds u i \<or> i \<in> msID ` set ms"
proof (induction ms arbitrary: u)
  case (Cons m ms)
  then have "holds (commitReply continued reply u m) i \<or> i \<in> msID ` set ms" by simp
  then show ?case using commitReply_adds [of continued reply u m i] by auto
qed simp

lemma commitReplies_adds:
  assumes "commitReplies c t = (t', e)" "holds t' i"
  shows "holds t i \<or> i \<in> msID ` set (rcMessages c)"
proof (cases "t' = foldl (commitReply (rcContinued c) (rcReply c)) t (rcMessages c)")
  case True
  then show ?thesis using assms(2) commitMessages_add by simp
next
  case False
  then consider "t' = t" | p k x a r where "ReplaceWidget p k x a r t = Inr t'"
    using assms(1) by (auto simp: commitReplies_def split: option.splits if_splits sum.splits)
  then show ?thesis
  proof cases
    case (2 p k x a r)
    then obtain ms where ms: "replaceIn p k x a r (thMessages t) = Inr ms" "t' = t\<lparr>thMessages := ms\<rparr>"
      by (auto simp: ReplaceWidget_Inr)
    have "map msID ms = map msID (thMessages t)" using replaceIn_again [OF ms(1)] by blast
    then show ?thesis using assms(2) ms(2) by (simp add: holds_def del: set_map)
  qed (use assms(2) in simp)
qed

lemma keepsBut_holds:
  assumes "keepsBut ids (thMessages t) (thMessages t')" "holds t i"
  shows "holds t' i"
proof -
  have "subseq (map msID (thMessages t)) (map msID (thMessages t'))" using assms(1) unfolding keepsBut_def by (rule conjunct1)
  moreover have "i \<in> set (map msID (thMessages t))" using assms(2) unfolding holds_def .
  ultimately obtain j where "j \<in> set (map msID (thMessages t'))" "i = j" by (rule list_emb_set)
  then show ?thesis unfolding holds_def by (simp only:)
qed

lemma commitMarker_stays:
  "k = None \<or> holds t (msID (coMarker (the k))) \<or> \<not> holds t (coBefore (the k)) \<Longrightarrow> commitMarker k t = t"
proof (elim disjE)
  assume "holds t (msID (coMarker (the k)))"
  then show ?thesis using MessageIndex_None_holds [of t "msID (coMarker (the k))"]
    by (cases k) (simp_all add: commitMarker_def)
next
  assume "\<not> holds t (coBefore (the k))"
  then have "MessageIndex t (coBefore (the k)) = None" using MessageIndex_None_holds by blast
  then show ?thesis by (cases k) (simp_all add: commitMarker_def)
qed (simp add: commitMarker_def)

lemma commitMarker_settles:
  "k = None \<or> holds (commitMarker k t) (msID (coMarker (the k))) \<or> \<not> holds (commitMarker k t) (coBefore (the k))"
proof (cases "k = None \<or> holds t (msID (coMarker (the k))) \<or> \<not> holds t (coBefore (the k))")
  case True
  then show ?thesis using commitMarker_stays by simp
next
  case False
  then obtain c where c: "k = Some c" "\<not> holds t (msID (coMarker c))" "holds t (coBefore c)" by auto
  then obtain i where "MessageIndex t (coBefore c) = Some i"
    using MessageIndex_None_holds [of t "coBefore c"] by (cases "MessageIndex t (coBefore c)") auto
  moreover have "MessageIndex t (msID (coMarker c)) = None" using c(2) MessageIndex_None_holds by blast
  ultimately have "thMessages (commitMarker k t) = insertAt i (coMarker c) (thMessages t)"
    using c(1) by (simp add: commitMarker_def)
  then have "holds (commitMarker k t) (msID (coMarker c))" by (simp add: insertAt_def holds_def)
  then show ?thesis using c(1) by simp
qed


definition commitX :: runCommit where
  "commitX = \<lparr>rcCompacted = Some \<lparr>coMarker = Message0\<lparr>msID := ''k'', msRole := ''compaction''\<rparr>, coBefore = ''v'', coUsage = None\<rparr>,
     rcTarget = None, rcArguments = [], rcResult = None, rcToolCallID = [],
     rcMessages = [Message0\<lparr>msID := ''a'', msRole := ''assistant''\<rparr>], rcContinued = False, rcReply = [],
     rcRunID = ''run'', rcKind = ''send'', rcFailed = False, rcCancelled = False\<rparr>"


section \<open>Windows join up\<close>

definition windowSize :: "int \<Rightarrow> nat" where
  "windowSize limit = (if limit \<le> 0 \<or> limit > int MaxMessageWindow then MessageWindow else nat limit)"

lemma windowSize_bounds: "0 < windowSize limit" "windowSize limit \<le> MaxMessageWindow"
  by (auto simp: windowSize_def MaxMessageWindow_def MessageWindow_def)

lemma WindowOf_eq:
  "WindowOf t before limit = (let e = windowEnd before (shownMessages t); s = e - windowSize limit
     in (take (e - s) (drop s (shownMessages t)), s > 0))"
  by (simp add: WindowOf_def windowSize_def Let_def)

lemma windowEnd_le: "windowEnd before all \<le> length all"
  using IndexFunc_Some [of "\<lambda>m. msID m = before" all]
  by (auto simp: windowEnd_def ValueOr_def split: option.splits intro: less_imp_le)

lemma windowEnd_at:
  assumes "distinct (map msID all)" "k < length all" "msID (all ! k) \<noteq> []"
  shows "windowEnd (msID (all ! k)) all = k"
proof -
  obtain j where j: "IndexFunc (\<lambda>m. msID m = msID (all ! k)) all = Some j" using IndexFunc_found assms(2) by (metis (mono_tags, lifting) nth_mem)
  then have "j < length all" "msID (all ! j) = msID (all ! k)" using IndexFunc_Some by fastforce+
  then have "j = k" using assms(1,2) by (metis length_map nth_eq_iff_index_eq nth_map)
  then show ?thesis using j assms(3) by (simp add: windowEnd_def ValueOr_def)
qed

text \<open>The windows read from \<open>before\<close> back to the first, each asked for before the first
  message of the last.\<close>

fun windowsBack :: "nat \<Rightarrow> Thread \<Rightarrow> string \<Rightarrow> int \<Rightarrow> Message list option" where
  "windowsBack 0 t before limit = None"
| "windowsBack (Suc n) t before limit = (case WindowOf t before limit of (w, hasOlder) \<Rightarrow>
     if \<not> hasOlder then Some w else map_option (\<lambda>older. older @ w) (windowsBack n t (msID (hd w)) limit))"

lemma windowsBack_take:
  assumes "distinct (map msID (shownMessages t))" "[] \<notin> msID ` set (shownMessages t)"
    "windowEnd before (shownMessages t) = e" "e < n"
  shows "windowsBack n t before limit = Some (take e (shownMessages t))"
  using assms(3,4)
proof (induction n arbitrary: before e)
  case (Suc n)
  let ?all = "shownMessages t"
  define s where "s = e - windowSize limit"
  have e: "e \<le> length ?all" using windowEnd_le Suc.prems(1) by metis
  have w: "WindowOf t before limit = (take (e - s) (drop s ?all), s > 0)"
    by (simp add: WindowOf_eq Suc.prems(1) s_def Let_def)
  have j: "take s ?all @ take (e - s) (drop s ?all) = take e ?all"
    by (metis diff_le_self le_add_diff_inverse s_def take_add)
  show ?case
  proof (cases "s > 0")
    case True
    then have s: "s < e" using windowSize_bounds(1) [of limit] by (simp add: s_def)
    then have h: "hd (take (e - s) (drop s ?all)) = ?all ! s" using e by (simp add: hd_take hd_drop_conv_nth)
    have "msID (?all ! s) \<noteq> []" using assms(2) s e by (metis image_eqI nth_mem order_less_le_trans)
    then have "windowEnd (msID (?all ! s)) ?all = s" using windowEnd_at [OF assms(1)] s e by simp
    from Suc.IH [OF this] s Suc.prems(2) have "windowsBack n t (msID (?all ! s)) limit = Some (take s ?all)" by simp
    then show ?thesis using True by (simp add: w h j)
  next
    case False
    then show ?thesis using j by (simp add: w)
  qed
qed simp

text \<open>C24: A chat's windows join up.  A window holds at most 200 messages, and reading a chat
  window by window from its end, each before the first message of the last until none is
  left, ends and gives every message the chat shows, once and in order.\<close>

theorem windows_join:
  assumes "distinct (map msID (shownMessages t))" "[] \<notin> msID ` set (shownMessages t)"
  shows "length (fst (WindowOf t before limit)) \<le> MaxMessageWindow \<and>
     windowsBack (Suc (length (shownMessages t))) t [] limit = Some (shownMessages t)"
proof -
  have "windowEnd [] (shownMessages t) = length (shownMessages t)" by (simp add: windowEnd_def)
  from windowsBack_take [OF assms this, of "Suc (length (shownMessages t))" limit]
  have "windowsBack (Suc (length (shownMessages t))) t [] limit = Some (shownMessages t)" by (simp del: windowsBack.simps)
  moreover have "length (fst (WindowOf t before limit)) \<le> MaxMessageWindow"
    using windowSize_bounds(2) [of limit] by (simp add: WindowOf_eq Let_def)
  ultimately show ?thesis by blast
qed

theorem windows_join_witness:
  "windowsBack 4 threadX [] 2 = Some (thMessages threadX) \<and> map msID (thMessages threadX) = [''u'', ''r'', ''v'']"
proof -
  have "shownMessages threadX = thMessages threadX" by (simp add: shownMessages_def threadX_def)
  moreover have "map msID (thMessages threadX) = [''u'', ''r'', ''v'']" by (simp add: turn_example_defs)
  moreover have "length (thMessages threadX) = 3" by (simp add: threadX_def)
  ultimately show ?thesis using windows_join [of threadX "[]" 2]
    by (simp add: turn_example_defs numeral_eq_Suc)
qed

end
