(* ===== verification/Prompts.thy ===== *)
theory Prompts
  imports Turns "HOL-Library.Signed_Division"
begin

text \<open>The prompt a turn sends its model, \<^verbatim>\<open>internal/engine/context.go\<close>: how messages are
  rendered, how a compaction's summary is put before the messages it left, what a prompt
  fills of the window, and when it is refused or compacted first.  Counting the tokens
  of a text, the JSON of a model message besides its content, the words of a time and the
  repair of a call's arguments are arguments of the model.\<close>

section \<open>Model messages\<close>

datatype part = TextPart string | ImagePart string

text \<open>A message without content, which \<^verbatim>\<open>omitempty\<close> leaves out, has no parts.\<close>

datatype content = MText string | MParts "part list"

record toolCallJSON =
  tjID :: string
  tjName :: string
  tjArguments :: string

record modelMessage =
  mmRole :: string
  mmContent :: content
  mmReasoning :: "(string \<times> string) option"
  mmCalls :: "toolCallJSON list"
  mmCallID :: string

definition plain :: "string \<Rightarrow> content \<Rightarrow> modelMessage" where
  "plain role c = \<lparr>mmRole = role, mmContent = c, mmReasoning = None, mmCalls = [], mmCallID = []\<rparr>"

record promptEnv =
  peTokens :: "string \<Rightarrow> nat"
  peRest :: "modelMessage \<Rightarrow> string"
  peSent :: "string \<Rightarrow> string option"
  peHistoryArgs :: "string \<Rightarrow> string"
  peResultText :: "bytes \<Rightarrow> string"
  peSearchInstructions :: string

record Request =
  rqSystem :: string
  rqWidgetHint :: string
  rqPolicy :: string
  rqWindow :: int
  rqGroups :: "modelMessage list list"
  rqCosts :: "int list option"
  rqReminder :: modelMessage
  rqRendered :: string
  rqWebSearch :: bool
  rqHistory :: "modelMessage list list"
  rqMessages :: "Message list"
  rqVision :: bool
  rqClock :: string
  rqInstruction :: string
  rqCompacts :: bool
  rqUsage :: "ContextUsage option"
  rqCompact :: bool

section \<open>Rendering messages\<close>

definition quote :: "string \<Rightarrow> content" where
  "quote s = (if s = [] then MParts [] else MText s)"

definition answered :: "string \<Rightarrow> string \<Rightarrow> modelMessage" where
  "answered i c = (plain ''tool'' (quote c))\<lparr>mmCallID := i\<rparr>"

definition sentReminder :: "promptEnv \<Rightarrow> string \<Rightarrow> string" where
  "sentReminder P createdAt = (case peSent P createdAt of None \<Rightarrow> []
     | Some time \<Rightarrow> ''<system-reminder>Sent: '' @ time @ ''</system-reminder>'')"

definition newlines :: string where "newlines = [CHR 0x0A, CHR 0x0A]"

definition leadBy :: "string \<Rightarrow> string \<Rightarrow> string" where
  "leadBy p t = (if t \<noteq> [] then p @ newlines @ t else p)"

definition inReplyTo :: "string \<Rightarrow> string" where
  "inReplyTo q = ''In reply to:'' @ CHR 0x0A # ''> '' @ concat (map (\<lambda>c. if c = CHR 0x0A then CHR 0x0A # ''> '' else [c]) q)"

definition userText :: "Message \<Rightarrow> string" where
  "userText m =
    (let t = msContent m;
         t = (if msQuote m \<noteq> [] then leadBy (inReplyTo (msQuote m)) t else t)
     in if msAnswers m \<noteq> [] then leadBy (AnswersPrompt (msAnswers m)) t else t)"

definition imageOf :: "bool \<Rightarrow> Attachment \<Rightarrow> part list" where
  "imageOf vision a = (if IsImage a \<and> vision \<and> atBase64 a \<noteq> []
     then [ImagePart (''data:'' @ (if atInferenceMimeType a \<noteq> [] then atInferenceMimeType a else atMimeType a) @
       '';base64,'' @ atBase64 a)] else [])"

definition descriptionOf :: "bool \<Rightarrow> Attachment \<Rightarrow> string list" where
  "descriptionOf vision a = (if IsImage a \<and> \<not> (vision \<and> atBase64 a \<noteq> []) \<and> atDescription a \<noteq> []
     then [''Image: '' @ atFileName a @ CHR 0x0A # ''Description:'' @ CHR 0x0A # atDescription a] else [])"

definition pageLabel :: "DocumentPage \<Rightarrow> string" where
  "pageLabel p = ''Page '' @ fmtInt (dpPage p) @ (if dpIsScanned p then '' (scanned)'' else []) @ '':'' @
     (if dpText p \<noteq> [] then CHR 0x0A # dpText p else [])"

definition pageParts :: "DocumentPage \<Rightarrow> part list" where
  "pageParts p = TextPart (pageLabel p) #
     (if dpImage p \<noteq> [] then [ImagePart (''data:image/png;base64,'' @ dpImage p)] else [])"

definition partsOf :: "bool \<Rightarrow> Attachment \<Rightarrow> part list" where
  "partsOf vision a = (if \<not> IsImage a \<and> vision \<and> atPages a \<noteq> []
     then TextPart (''[Attached file: '' @ atFileName a @ '']'') # concat (map pageParts (atPages a)) else [])"

definition docOf :: "bool \<Rightarrow> Attachment \<Rightarrow> string list" where
  "docOf vision a = (if \<not> IsImage a \<and> \<not> (vision \<and> atPages a \<noteq> []) \<and> atTextContent a \<noteq> []
     then [''Document title: '' @ atFileName a @ CHR 0x0A # ''Document contents:'' @ CHR 0x0A # atTextContent a] else [])"

definition userContent :: "promptEnv \<Rightarrow> Message \<Rightarrow> bool \<Rightarrow> content" where
  "userContent P m vision =
    (let docs = concat (map (docOf vision) (msAttachments m));
         descriptions = concat (map (descriptionOf vision) (msAttachments m));
         parts = concat (map (partsOf vision) (msAttachments m));
         images = concat (map (imageOf vision) (msAttachments m));
         t = userText m;
         t = (if docs \<noteq> [] then ''---'' @ CHR 0x0A # ''Document content:'' @ CHR 0x0A # joinWith newlines docs @
                CHR 0x0A # ''---'' @ newlines @ t else t);
         t = (if descriptions \<noteq> [] then t @ newlines @ ''[Treat these descriptions as if they are the raw images.]'' @
                CHR 0x0A # joinWith newlines descriptions else t);
         sent = sentReminder P (msCreatedAt m);
         t = (if sent \<noteq> [] then leadBy sent t else t)
     in if parts @ images \<noteq> [] then MParts (parts @ TextPart t # images) else MText t)"

definition callJSON :: "promptEnv \<Rightarrow> Block \<Rightarrow> toolCallJSON" where
  "callJSON P b = \<lparr>tjID = CallID b, tjName = bkName b,
     tjArguments = peHistoryArgs P (if bkArguments b \<noteq> [] then bkArguments b else ''{}'')\<rparr>"

definition resultOf :: "promptEnv \<Rightarrow> Block \<Rightarrow> string" where
  "resultOf P b = (case bkResult b of None \<Rightarrow> ''executed''
     | Some r \<Rightarrow> if prefix ''render_'' (bkName b) then ''executed'' else peResultText P r)"

definition ofType :: "string \<Rightarrow> Message \<Rightarrow> Block list" where
  "ofType ty m = filter (\<lambda>b. bkType b = ty) (msTimeline m)"

definition RenderMessage :: "promptEnv \<Rightarrow> Message \<Rightarrow> bool \<Rightarrow> string \<Rightarrow> modelMessage list" where
  "RenderMessage P m vision policy =
    (if msRole m = ''user'' then [plain ''user'' (userContent P m vision)]
     else let c = concat (map bkContent (ofType ''content'' m));
              reasoning = concat (map bkContent (ofType ''thinking'' m));
              calls = map (callJSON P) (ofType ''tool_call'' m);
              results = map (\<lambda>b. answered (CallID b) (resultOf P b)) (ofType ''tool_call'' m)
          in (plain ''assistant'' (MText (if c = [] then msContent m else c)))\<lparr>
               mmReasoning := (if policy = ''all'' \<or> (policy = ''tool-call-only'' \<and> calls \<noteq> [])
                 then Some (''reasoning_content'', reasoning) else None),
               mmCalls := calls\<rparr> # results)"

section \<open>A summary before the messages it left\<close>

definition compactedNote :: string where
  "compactedNote = ''The earlier part of this conversation was compacted into this summary to fit the context window. Treat it as your memory of those messages. Files, images and pages from that part are no longer available; ask the user to share them again if you need their exact content. Do not mention this summary unless the user asks about earlier messages.''"

definition lower :: "char \<Rightarrow> char" where
  "lower c = (if CHR ''A'' \<le> c \<and> c \<le> CHR ''Z'' then char_of (of_char c + 32 :: nat) else c)"

text \<open>How much of a text a pattern in small letters matches without regard to case: the
  long s, two bytes, folds to an s.\<close>

fun matchFold :: "string \<Rightarrow> string \<Rightarrow> bool" where
  "matchFold [] xs = True"
| "matchFold (c # p) [] = False"
| "matchFold (c # p) (x # xs) =
    (if lower x = c then matchFold p xs
     else if c = CHR ''s'' \<and> x = CHR 0xC5 then (case xs of y # ys \<Rightarrow> y = CHR 0xBF \<and> matchFold p ys | [] \<Rightarrow> False)
     else False)"

definition summaryTag :: string where "summaryTag = ''conversation_summary''"

definition tagOpens :: "string \<Rightarrow> bool" where
  "tagOpens xs \<longleftrightarrow> matchFold summaryTag xs \<or> matchFold (CHR ''/'' # summaryTag) xs"

text \<open>\<^verbatim>\<open>summaryTags.ReplaceAllString(summary, "&lt;$1")\<close>: a match holds one \<^verbatim>\<open><\<close>, its first.\<close>

fun escapeTags :: "string \<Rightarrow> string" where
  "escapeTags [] = []"
| "escapeTags (x # xs) = (if x = CHR ''<'' \<and> tagOpens xs then ''&lt;'' @ escapeTags xs else x # escapeTags xs)"

definition summaryText :: "string \<Rightarrow> string" where
  "summaryText summary = ''<conversation_summary>'' @ CHR 0x0A # compactedNote @ newlines @ escapeTags summary @
     CHR 0x0A # ''</conversation_summary>''"

definition withText :: "string \<Rightarrow> content \<Rightarrow> content" where
  "withText t c = (case c of MText x \<Rightarrow> MText (t @ newlines @ x) | MParts ps \<Rightarrow> MParts (TextPart t # ps))"

definition withSummary :: "modelMessage list list \<Rightarrow> string \<Rightarrow> modelMessage list list" where
  "withSummary groups summary =
    (let t = summaryText summary in
     case groups of
       (q # rest) # gs \<Rightarrow> if mmRole q \<noteq> ''user'' then [plain ''user'' (MText t)] # groups
                        else (q\<lparr>mmContent := withText t (mmContent q)\<rparr> # rest) # gs
     | _ \<Rightarrow> [plain ''user'' (MText t)] # groups)"

section \<open>What a prompt fills\<close>

definition imageTokens :: nat where "imageTokens = 1500"
definition summaryReserve :: int where "summaryReserve = 4096"

fun partTokens :: "promptEnv \<Rightarrow> part \<Rightarrow> nat" where
  "partTokens P (TextPart t) = peTokens P t"
| "partTokens P (ImagePart u) = imageTokens"

definition messageTokens :: "promptEnv \<Rightarrow> modelMessage \<Rightarrow> int" where
  "messageTokens P m = int (4 + peTokens P (peRest P m) +
     (case mmContent m of MText t \<Rightarrow> peTokens P t | MParts ps \<Rightarrow> sum_list (map (partTokens P) ps)))"

definition groupCost :: "promptEnv \<Rightarrow> modelMessage list \<Rightarrow> int" where
  "groupCost P g = sum_list (map (messageTokens P) g)"

definition groupCosts :: "promptEnv \<Rightarrow> Request \<Rightarrow> int list \<times> Request" where
  "groupCosts P req = (case rqCosts req of Some costs \<Rightarrow> (costs, req)
     | None \<Rightarrow> let costs = map (groupCost P) (rqGroups req) in (costs, req\<lparr>rqCosts := Some costs\<rparr>))"

definition limitOf :: "Request \<Rightarrow> int" where
  "limitOf req = (rqWindow req * 4) sdiv 5"

definition systemOf :: "promptEnv \<Rightarrow> Request \<Rightarrow> bool \<Rightarrow> string" where
  "systemOf P req searching = rqSystem req @ (if searching then newlines @ peSearchInstructions P else []) @
     (if rqWidgetHint req \<noteq> [] then newlines @ rqWidgetHint req else [])"

definition tokens :: "promptEnv \<Rightarrow> string \<Rightarrow> int" where
  "tokens P s = int (peTokens P s)"

definition fixedCost :: "promptEnv \<Rightarrow> Request \<Rightarrow> bool \<Rightarrow> string \<Rightarrow> int" where
  "fixedCost P req searching definitions =
     tokens P (systemOf P req searching) + tokens P definitions + messageTokens P (rqReminder req) + 8"

definition fits :: "promptEnv \<Rightarrow> Request \<Rightarrow> modelMessage list \<Rightarrow> string \<Rightarrow> bool" where
  "fits P req messages definitions \<longleftrightarrow>
     tokens P definitions + sum_list (map (messageTokens P) messages) \<le> limitOf req"

definition promptOf :: "promptEnv \<Rightarrow> Request \<Rightarrow> bool \<Rightarrow> modelMessage list" where
  "promptOf P req searching =
     (let system = systemOf P req searching in
      if TrimSpace system \<noteq> [] then [plain ''system'' (MText system)] else []) @
     concat (rqGroups req) @ [rqReminder req]"

definition requestContextUsage :: "promptEnv \<Rightarrow> Request \<Rightarrow> ContextUsage \<times> Request" where
  "requestContextUsage P req =
    (let system = rqSystem req @ newlines @ rqWidgetHint req @
           (if rqWebSearch req then newlines @ peSearchInstructions P else []);
         (costs, req') = groupCosts P req;
         used = tokens P system + tokens P (rqRendered req) + messageTokens P (rqReminder req) + 8 + sum_list costs;
         limit = limitOf req
     in (\<lparr>cuUsedTokens = used, cuLimitTokens = limit,
          cuPercentage = of_int used * 100 / of_int (max 1 limit)\<rparr>, req'))"

text \<open>\<^verbatim>\<open>math.Round\<close> of a number that is not negative.\<close>

definition roundHalf :: "rat \<Rightarrow> int" where
  "roundHalf x = \<lfloor>x + 1 / 2\<rfloor>"

definition thousands :: "int \<Rightarrow> string" where
  "thousands n = (if n < 1000 then fmtInt n else fmtInt (roundHalf (of_int n / 1000)) @ ''k'')"

definition contextReminder :: "ContextUsage \<Rightarrow> bool \<Rightarrow> string" where
  "contextReminder u compacts = ''Context used: '' @ fmtInt (roundHalf (cuPercentage u)) @
     ''% of the room this conversation may fill (~'' @ thousands (cuUsedTokens u) @ '' of '' @
     thousands (cuLimitTokens u) @ '' tokens).'' @
     (if compacts then '' Once it is full, the earlier messages are summarized to make room.'' else [])"

definition reminderOf :: "Request \<Rightarrow> string \<Rightarrow> modelMessage" where
  "reminderOf req context = plain ''user'' (MText (''<system-reminder>'' @ rqClock req @ context @
     ''</system-reminder>'' @ rqInstruction req))"

definition remind :: "promptEnv \<Rightarrow> Request \<Rightarrow> Request" where
  "remind P req =
    (let (usage, req) = requestContextUsage P (req\<lparr>rqReminder := reminderOf req []\<rparr>)
     in req\<lparr>rqUsage := Some usage,
            rqReminder := reminderOf req (CHR 0x0A # contextReminder usage (rqCompacts req))\<rparr>)"

definition rendered :: "promptEnv \<Rightarrow> Request \<Rightarrow> Message list \<Rightarrow> modelMessage list list" where
  "rendered P req ms = map (\<lambda>m. RenderMessage P m (rqVision req) (rqPolicy req)) (filter (\<lambda>m. \<not> isMarker m) ms)"

definition render :: "promptEnv \<Rightarrow> Request \<Rightarrow> Request" where
  "render P req =
    (let latest = LatestCompaction (rqMessages req);
         groups = rendered P req (drop (nat (latest + 1)) (rqMessages req))
     in req\<lparr>rqGroups := (if latest \<ge> 0 then withSummary groups (msContent (rqMessages req ! nat latest)) else groups),
            rqHistory := rendered P req (rqMessages req), rqCosts := None\<rparr>)"

section \<open>Prompts that fit\<close>

definition errSystemTooLarge :: Error where
  "errSystemTooLarge = Err 413 ''CONTEXT_TOO_LARGE'' ''The system and tools exceed the context window''"
definition errConversationTooLarge :: Error where
  "errConversationTooLarge = Err 413 ''CONTEXT_TOO_LARGE'' ''The conversation exceeds the context window''"
definition errLatestTooLarge :: Error where
  "errLatestTooLarge = Err 413 ''CONTEXT_TOO_LARGE'' ''The latest message exceeds the context window''"

definition BudgetConversation :: "promptEnv \<Rightarrow> Request \<Rightarrow> bool \<Rightarrow> string \<Rightarrow> Error + modelMessage list" where
  "BudgetConversation P req searching definitions =
    (if fixedCost P req searching definitions > limitOf req then Inl errSystemTooLarge
     else let messages = promptOf P req searching in
       if \<not> fits P req messages definitions then Inl errConversationTooLarge else Inr messages)"

text \<open>Why a compaction did not happen.\<close>

datatype compactError = NothingToCompact | CompactFailed Error

text \<open>\<open>doCompact\<close> stands for the request's own: it works on the run's state and the request.\<close>

definition fitted ::
  "promptEnv \<Rightarrow> ('s \<Rightarrow> Request \<Rightarrow> int \<Rightarrow> 's \<times> (compactError + Request)) \<Rightarrow> 's \<Rightarrow> Request \<Rightarrow> bool \<Rightarrow> string \<Rightarrow>
     's \<times> Request \<times> (Error + modelMessage list)" where
  "fitted P doCompact s req searching definitions =
    (case BudgetConversation P req searching definitions of
       Inr messages \<Rightarrow> (s, req, Inr messages)
     | Inl e \<Rightarrow>
        if fixedCost P req searching definitions > limitOf req \<or> \<not> rqCompact req then (s, req, Inl e)
        else let req = req\<lparr>rqCompact := False\<rparr> in
          case doCompact s req (fixedCost P req searching definitions) of
            (s, Inl NothingToCompact) \<Rightarrow> (s, req, Inl errLatestTooLarge)
          | (s, Inl (CompactFailed e)) \<Rightarrow> (s, req, Inl e)
          | (s, Inr req) \<Rightarrow> (s, req, BudgetConversation P req searching definitions))"

fun lastUserGroup :: "modelMessage list list \<Rightarrow> nat \<Rightarrow> nat" where
  "lastUserGroup groups 0 = 0"
| "lastUserGroup groups (Suc k) = (if mmRole (hd (groups ! Suc k)) = ''user'' then Suc k else lastUserGroup groups k)"

definition preflightBudget :: "promptEnv \<Rightarrow> Request \<Rightarrow> Error option \<times> Request" where
  "preflightBudget P req =
    (case BudgetConversation P req (rqWebSearch req) (rqRendered req) of Inr _ \<Rightarrow> (None, req)
     | Inl _ \<Rightarrow>
       let fixed = fixedCost P req (rqWebSearch req) (rqRendered req) in
       if fixed > limitOf req then (Some errSystemTooLarge, req)
       else let question = lastUserGroup (rqGroups req) (length (rqGroups req) - 1);
                (costs, req) = groupCosts P req;
                kept = fixed + (if question > 0 then summaryReserve else 0) + sum_list (drop question costs)
            in (if kept > limitOf req then Some errLatestTooLarge else None, req))"

section \<open>A summary cannot leave its tags\<close>

definition tagAt :: "string \<Rightarrow> bool" where
  "tagAt xs \<longleftrightarrow> (case xs of [] \<Rightarrow> False | x # r \<Rightarrow> x = CHR ''<'' \<and> tagOpens r)"

lemma tagAt_simps [simp]: "\<not> tagAt []" "tagAt (x # r) \<longleftrightarrow> x = CHR ''<'' \<and> tagOpens r"
  by (simp_all add: tagAt_def)

lemma matchFold_escape:
  "matchFold p (escapeTags xs) \<Longrightarrow> CHR ''&'' \<notin> set p \<Longrightarrow> matchFold p xs"
proof (induction p arbitrary: xs)
  case (Cons c p)
  show ?case
  proof (cases xs)
    case Nil
    then show ?thesis using Cons.prems by simp
  next
    case (Cons x ys)
    have l: "lower CHR ''&'' = CHR ''&''" by (simp add: lower_def)
    have ne: "\<not> (x = CHR ''<'' \<and> tagOpens ys)"
    proof
      assume "x = CHR ''<'' \<and> tagOpens ys"
      then have "matchFold (c # p) (''&lt;'' @ escapeTags ys)" using Cons.prems(1) Cons by simp
      then show False using Cons.prems(2) l by (auto split: if_splits)
    qed
    then have "escapeTags xs = x # escapeTags ys" using Cons by auto
    then have m: "matchFold (c # p) (x # escapeTags ys)" using Cons.prems(1) by (simp only:)
    show ?thesis
    proof (cases "lower x = c")
      case True
      then show ?thesis using m Cons.IH [of ys] Cons.prems(2) Cons by simp
    next
      case False
      then obtain zs where zs: "c = CHR ''s''" "x = CHR 0xC5" "escapeTags ys = CHR 0xBF # zs" "matchFold p zs"
        using m by (auto split: if_splits list.splits)
      then obtain ws where "ys = CHR 0xBF # ws" "zs = escapeTags ws" by (cases ys) (auto split: if_splits)
      then show ?thesis using zs Cons.IH [of ws] Cons.prems(2) Cons False by simp
    qed
  qed
qed simp

lemma tagOpens_escape: "tagOpens (escapeTags xs) \<Longrightarrow> tagOpens xs"
proof -
  have "CHR ''&'' \<notin> set summaryTag" "CHR ''&'' \<notin> set (CHR ''/'' # summaryTag)" by (simp_all add: summaryTag_def)
  then show "tagOpens (escapeTags xs) \<Longrightarrow> tagOpens xs" unfolding tagOpens_def using matchFold_escape by blast
qed

lemma matchFold_line:
  "matchFold p (xs @ CHR 0x0A # ys) \<Longrightarrow> CHR 0x0A \<notin> set p \<Longrightarrow> matchFold p xs"
proof (induction p xs rule: matchFold.induct)
  case (2 c p)
  have "lower CHR 0x0A = CHR 0x0A" by (simp add: lower_def)
  then show ?case using 2 by (auto split: if_splits)
next
  case (3 c p x xs)
  show ?case
  proof (cases "lower x = c")
    case True
    then show ?thesis using 3 by simp
  next
    case False
    then have "c = CHR ''s''" "x = CHR 0xC5" "case xs @ CHR 0x0A # ys of y # zs \<Rightarrow> y = CHR 0xBF \<and> matchFold p zs | [] \<Rightarrow> False"
      using 3(3) by (auto split: if_splits)
    then show ?thesis using 3(2) 3(4) False by (cases xs) auto
  qed
qed simp

lemma tagOpens_line: "tagOpens (xs @ CHR 0x0A # ys) \<Longrightarrow> tagOpens xs"
proof -
  have "CHR 0x0A \<notin> set summaryTag" "CHR 0x0A \<notin> set (CHR ''/'' # summaryTag)" by (simp_all add: summaryTag_def)
  then show "tagOpens (xs @ CHR 0x0A # ys) \<Longrightarrow> tagOpens xs" unfolding tagOpens_def using matchFold_line by blast
qed

lemma no_tag_in_escaped:
  "k < length (escapeTags xs) \<Longrightarrow> \<not> tagAt (drop k (escapeTags xs @ CHR 0x0A # ys))"
proof (induction xs arbitrary: k)
  case (Cons x xs)
  show ?case
  proof (cases "x = CHR ''<'' \<and> tagOpens xs")
    case True
    then have e: "escapeTags (x # xs) = ''&lt;'' @ escapeTags xs" by simp
    show ?thesis
    proof (cases "k < 4")
      case True
      then have "k = 0 \<or> k = 1 \<or> k = 2 \<or> k = 3" by auto
      then show ?thesis unfolding e by (elim disjE) simp_all
    next
      case False
      then obtain j where j: "k = Suc (Suc (Suc (Suc j)))" by (metis Suc_numeral add_2_eq_Suc le_Suc_ex linorder_not_less numeral_Bit0 numeral_2_eq_2 plus_nat.simps)
      then have "drop k (escapeTags (x # xs) @ CHR 0x0A # ys) = drop j (escapeTags xs @ CHR 0x0A # ys)"
        unfolding e by simp
      then show ?thesis using Cons.IH [of j] Cons.prems j unfolding e by simp
    qed
  next
    case False
    then have e: "escapeTags (x # xs) = x # escapeTags xs" by auto
    show ?thesis
    proof (cases k)
      case 0
      then show ?thesis using False tagOpens_escape [of xs] tagOpens_line [of "escapeTags xs" ys] unfolding e by auto
    next
      case (Suc j)
      then show ?thesis using Cons unfolding e by simp
    qed
  qed
qed simp

lemma no_tag_outside: "CHR ''<'' \<notin> set xs \<Longrightarrow> k < length xs \<Longrightarrow> \<not> tagAt (drop k (xs @ ys))"
proof -
  assume "CHR ''<'' \<notin> set xs" "k < length xs"
  moreover from this have "drop k (xs @ ys) = xs ! k # drop (Suc k) xs @ ys" by (simp add: Cons_nth_drop_Suc [symmetric])
  ultimately show ?thesis by (metis nth_mem tagAt_simps(2))
qed

definition closingTag :: string where "closingTag = ''</conversation_summary>''"

text \<open>What opens the wrapped summary, after its first character.\<close>

definition openingText :: string where
  "openingText = ''conversation_summary>'' @ CHR 0x0A # compactedNote @ newlines"

lemma summaryText_parts:
  "summaryText summary = CHR ''<'' # openingText @ escapeTags summary @ CHR 0x0A # closingTag"
  by (simp add: summaryText_def openingText_def closingTag_def)

lemma opening_no_tag: "CHR ''<'' \<notin> set openingText"
  by (simp add: openingText_def compactedNote_def newlines_def)

lemma tagOpens_both: "tagOpens (openingText @ xs)" "tagOpens (tl closingTag)" "tagAt closingTag"
  by (simp_all add: tagOpens_def openingText_def closingTag_def summaryTag_def lower_def)

lemma no_tag_after: "0 < k \<Longrightarrow> \<not> tagAt (drop k closingTag)"
proof (cases "k < length closingTag")
  case True
  assume "0 < k"
  then obtain j where j: "k = Suc j" by (cases k) auto
  have "CHR ''<'' \<notin> set (tl closingTag)" "closingTag = CHR ''<'' # tl closingTag" by (simp_all add: closingTag_def)
  then show ?thesis using no_tag_outside [of "tl closingTag" j "[]"] True j by (metis append_Nil2 drop_Suc_Cons length_tl less_diff_conv Suc_eq_plus1)
qed simp

text \<open>C17: A summary cannot leave its tags.  Whatever a compaction's summary says, the text
  the model reads holds just two tags of a conversation summary, in any case and in
  either form: the one it starts with and the one it ends with.\<close>

theorem summary_stays_wrapped:
  "tagAt (drop k (summaryText summary)) \<longleftrightarrow>
     k = 0 \<or> k = length (summaryText summary) - length closingTag"
proof -
  let ?n = "length openingText" and ?m = "length (escapeTags summary)"
  have len: "length (summaryText summary) - length closingTag = ?n + ?m + 2" by (simp add: summaryText_parts)
  consider "k = 0" | "0 < k" "k \<le> ?n" | "?n < k" "k \<le> ?n + ?m" | "k = ?n + ?m + 1" | "k = ?n + ?m + 2" | "?n + ?m + 2 < k"
    by linarith
  then show ?thesis
  proof cases
    case 1
    then show ?thesis by (simp add: summaryText_parts tagOpens_both)
  next
    case 2
    then obtain j where j: "k = Suc j" "j < ?n" by (cases k) auto
    then show ?thesis using no_tag_outside [OF opening_no_tag, of j] len by (simp add: summaryText_parts)
  next
    case 3
    then obtain j where j: "k = Suc (?n + j)" "j < ?m" by (metis Suc_le_eq add_less_cancel_left less_imp_Suc_add Suc_le_lessD add_Suc_right)
    then have "drop k (summaryText summary) = drop j (escapeTags summary @ CHR 0x0A # closingTag)"
      by (simp add: summaryText_parts)
    then show ?thesis using no_tag_in_escaped [OF j(2)] j len by simp
  next
    case 4
    then show ?thesis using len by (simp add: summaryText_parts)
  next
    case 5
    then show ?thesis using len by (simp add: summaryText_parts tagOpens_both)
  next
    case 6
    then obtain j where j: "k = ?n + ?m + 2 + j" "0 < j" using less_imp_add_positive by blast
    then have "drop k (summaryText summary) = drop j closingTag" by (simp add: summaryText_parts)
    then show ?thesis using no_tag_after [OF j(2)] j len by simp
  qed
qed

end
