(* ===== verification/Compacting.thy ===== *)
theory Compacting
  imports Prompts
begin

text \<open>Compacting a chat whose prompt would not fit, \<^verbatim>\<open>internal/engine/compaction.go\<close>: which
  messages are summarized and which are kept, what the summary reads of them, and the
  marker left before the first message kept.  The summarizer, the clock, the ids and the
  JSON of the events are arguments of the model.\<close>

section \<open>What a summary reads\<close>

record Document =
  doKind :: string
  doAttrs :: "(string \<times> string) list"
  doText :: string

definition unfinished :: "ToolDisplay \<Rightarrow> string" where
  "unfinished display = (if tdStatus display = ''failed'' then ''it failed'' else ''it was stopped before it finished'')"

definition orElse :: "string \<Rightarrow> string \<Rightarrow> string" where
  "orElse a b = (if a \<noteq> [] then a else b)"

definition namedSources :: "ToolDisplay \<Rightarrow> string" where
  "namedSources display = joinWith ''; '' (map (\<lambda>s. orElse (dsTitle s) (dsURL s) @ '' <'' @ dsURL s @ ''>'') (tdSources display))"

text \<open>What reading a call's stored arguments and result shows, where the block keeps no display.\<close>

type_synonym searchDisplay = "string \<Rightarrow> string \<Rightarrow> bytes option \<Rightarrow> ToolDisplay option"

definition callLine :: "promptEnv \<Rightarrow> searchDisplay \<Rightarrow> Block \<Rightarrow> string" where
  "callLine P D b =
    (let display = (case bkDisplay b of Some d \<Rightarrow> Some d | None \<Rightarrow> D (bkName b) (bkArguments b) (bkResult b));
         widget = (if prefix ''render_'' (bkName b)
           then ''Showed the user the '' @ bkName b @ '' widget with '' @ peHistoryArgs P (orElse (bkArguments b) ''{}'')
           else ''Called '' @ bkName b)
     in case display of None \<Rightarrow> widget
        | Some d \<Rightarrow>
           if bkName b = ''web_search'' then
             (if tdStatus d \<noteq> ''completed'' then ''Tried to search the web for \"'' @ tdQuery d @ ''\", but '' @ unfinished d
              else ''Searched the web for \"'' @ tdQuery d @ ''\". Results: '' @ orElse (namedSources d) ''none'')
           else if bkName b = ''web_fetch'' then
             (if tdStatus d \<noteq> ''completed'' then ''Tried to read '' @ tdURL d @ '', but '' @ unfinished d
              else ''Read '' @ orElse (namedSources d) (tdURL d))
           else widget)"

definition replyText :: "promptEnv \<Rightarrow> searchDisplay \<Rightarrow> Message \<Rightarrow> string" where
  "replyText P D m =
    (let b = concat (map (\<lambda>b. if bkType b = ''content'' then bkContent b
               else if bkType b = ''tool_call'' then CHR 0x0A # ''['' @ callLine P D b @ '']'' @ [CHR 0x0A]
               else []) (msTimeline m));
         wrote = (\<exists>b\<in>set (msTimeline m). bkType b = ''content'' \<and> bkContent b \<noteq> [])
     in if \<not> wrote then TrimSpace (msContent m @ CHR 0x0A # b) else TrimSpace b)"

definition questionText :: "Message \<Rightarrow> string" where
  "questionText m = joinWith newlines
     ((if msAnswers m \<noteq> [] then [AnswersPrompt (msAnswers m)] else []) @
      (if msQuote m \<noteq> [] then [inReplyTo (msQuote m)] else []) @
      (if msContent m \<noteq> [] then [msContent m] else []))"

definition DocumentText :: "Attachment \<Rightarrow> string" where
  "DocumentText a = (if atTextContent a \<noteq> [] then atTextContent a
     else joinWith newlines (filter (\<lambda>t. t \<noteq> []) (map dpText (atPages a))))"

definition attachmentDocument :: "Attachment \<Rightarrow> Document" where
  "attachmentDocument a =
    (let t = (if IsImage a then orElse (atDescription a) ''[An image with no description.]'' else DocumentText a)
     in \<lparr>doKind = ''attachment'', doAttrs = [(''name'', atFileName a), (''kind'', atKind a)],
         doText = orElse t ''[No text was read from this file.]''\<rparr>)"

definition messageDocuments :: "promptEnv \<Rightarrow> searchDisplay \<Rightarrow> Message \<Rightarrow> Document list" where
  "messageDocuments P D m =
    (let attrs = (''from'', msRole m) # (case peSent P (msCreatedAt m) of None \<Rightarrow> [] | Some sent \<Rightarrow> [(''sent'', sent)])
     in if msRole m = ''user'' then
          \<lparr>doKind = ''message'', doAttrs = attrs, doText = questionText m\<rparr> # map attachmentDocument (msAttachments m)
        else if msRole m = ''assistant'' then
          [\<lparr>doKind = ''message'',
            doAttrs = attrs @ (if ValueOr (msIsError m) False then [(''state'', ''failed'')]
                               else if ValueOr (msIsInterrupted m) False then [(''state'', ''stopped'')] else []),
            doText = replyText P D m\<rparr>]
        else [])"

definition transcript :: "promptEnv \<Rightarrow> searchDisplay \<Rightarrow> Message list \<Rightarrow> Document list" where
  "transcript P D messages = concat (map (messageDocuments P D) messages)"

section \<open>What is kept\<close>

definition recentTokens :: int where "recentTokens = 20000"
definition recentShareTenths :: int where "recentShareTenths = 5"

fun lastQuestionFrom :: "Message list \<Rightarrow> nat \<Rightarrow> int" where
  "lastQuestionFrom messages 0 = - 1"
| "lastQuestionFrom messages (Suc i) =
    (if msRole (messages ! i) = ''user'' then int i else lastQuestionFrom messages i)"

definition lastQuestion :: "Message list \<Rightarrow> int" where
  "lastQuestion messages = lastQuestionFrom messages (length messages)"

definition compactable :: "Message list \<Rightarrow> bool" where
  "compactable messages \<longleftrightarrow> lastQuestion messages > LatestCompaction messages + 1"

definition messageCost :: "promptEnv \<Rightarrow> Request \<Rightarrow> Message \<Rightarrow> int" where
  "messageCost P req m = sum_list (map (messageTokens P) (RenderMessage P m (rqVision req) (rqPolicy req)))"

fun keptLoop :: "(Message \<Rightarrow> int) \<Rightarrow> Message list \<Rightarrow> nat \<Rightarrow> int \<Rightarrow> nat \<Rightarrow> nat \<Rightarrow> int \<Rightarrow> nat" where
  "keptLoop C messages lo most 0 kept cost = kept"
| "keptLoop C messages lo most (Suc i) kept cost =
    (if i < lo then kept
     else let cost = cost + C (messages ! i) in
       if cost > most then kept
       else keptLoop C messages lo most i (if msRole (messages ! i) = ''user'' then i else kept) cost)"

definition keptFrom :: "promptEnv \<Rightarrow> Request \<Rightarrow> int \<Rightarrow> nat \<Rightarrow> nat \<Rightarrow> int \<Rightarrow> nat" where
  "keptFrom P req latest question shown most =
     keptLoop (messageCost P req) (rqMessages req) (nat (max (latest + 2) (int shown))) most question question 0"

section \<open>Compacting\<close>

record compactEnv =
  ceSummarize :: "(string \<Rightarrow> Document list \<Rightarrow> (string \<times> string) option) option"
  ceSearchDisplay :: searchDisplay
  ceMarkerID :: string
  ceCreatedAt :: string
  ceStarted :: int
  ceEnded :: int
  ceVersion :: int
  ceFirstShown :: string
  ceCancelled :: "Error option"
  ceView :: "Message \<Rightarrow> bytes"
  ceSnapshot :: "ContextUsage option \<Rightarrow> bytes"

text \<open>What a run's compaction leaves outside its request: the events it emitted and the
  compaction its commit keeps.\<close>

record compactState =
  csEvents :: "Event list"
  csCompacted :: "compaction option"

definition errCompactionFailed :: Error where
  "errCompactionFailed = Err 502 ''COMPACTION_FAILED'' ''The chat could not be compacted to fit the context window''"

definition emitEvent :: "Event \<Rightarrow> compactState \<Rightarrow> compactState" where
  "emitEvent e s = s\<lparr>csEvents := csEvents s @ [e]\<rparr>"

text \<open>The room the exchanges kept may fill, and the first message the run showed its client.\<close>

definition keptRoom :: "promptEnv \<Rightarrow> Request \<Rightarrow> int \<Rightarrow> int" where
  "keptRoom P req reserved =
    (let room = limitOf req - reserved - summaryReserve -
           sum_list (map (messageCost P req) (drop (nat (lastQuestion (rqMessages req))) (rqMessages req)))
     in min recentTokens ((room * recentShareTenths) sdiv 10))"

definition shownFrom :: "compactEnv \<Rightarrow> Message list \<Rightarrow> nat" where
  "shownFrom E messages =
     ValueOr (IndexFunc (\<lambda>m. msID m = ceFirstShown E) messages) (nat (lastQuestion messages))"

definition keptIndex :: "promptEnv \<Rightarrow> compactEnv \<Rightarrow> Request \<Rightarrow> int \<Rightarrow> nat" where
  "keptIndex P E req reserved =
     keptFrom P req (LatestCompaction (rqMessages req)) (nat (lastQuestion (rqMessages req)))
       (shownFrom E (rqMessages req)) (keptRoom P req reserved)"

definition summarized :: "promptEnv \<Rightarrow> compactEnv \<Rightarrow> Request \<Rightarrow> nat \<Rightarrow> (string \<times> string) option" where
  "summarized P E req kept =
    (let messages = rqMessages req; latest = LatestCompaction messages;
         earlier = (if latest \<ge> 0 then msContent (messages ! nat latest) else [])
     in case ceSummarize E of None \<Rightarrow> None
        | Some f \<Rightarrow> f earlier (transcript P (ceSearchDisplay E) (drop (nat (latest + 1)) (take kept messages))))"

definition markerOf :: "compactEnv \<Rightarrow> Message list \<Rightarrow> nat \<Rightarrow> string \<Rightarrow> string \<Rightarrow> Message" where
  "markerOf E messages kept words model =
     Message0\<lparr>msID := ceMarkerID E, msRole := CompactionRole, msCreatedAt := ceCreatedAt E, msContent := words,
       msCompaction := Some \<lparr>cmMessages = int (length (filter (\<lambda>m. \<not> isMarker m) (take kept messages))),
         cmStartedAt = ceStarted E, cmEndedAt = ceEnded E, cmModel = model, cmVersion = ceVersion E\<rparr>\<rparr>"

definition compactRun ::
  "promptEnv \<Rightarrow> compactEnv \<Rightarrow> compactState \<Rightarrow> Request \<Rightarrow> int \<Rightarrow> compactState \<times> (compactError + Request)" where
  "compactRun P E s req reserved =
    (let messages = rqMessages req in
     if lastQuestion messages \<le> LatestCompaction messages + 1 then (s, Inl NothingToCompact)
     else let kept = keptIndex P E req reserved;
              beforeID = msID (messages ! kept);
              s = emitEvent (CompactionStart (ceMarkerID E) beforeID) s
          in case summarized P E req kept of
               None \<Rightarrow> (emitEvent (CompactionEnd (ceMarkerID E) beforeID ''failed'' []) s,
                        Inl (CompactFailed (case ceCancelled E of Some e \<Rightarrow> e | None \<Rightarrow> errCompactionFailed)))
             | Some (words, model) \<Rightarrow>
                let marker = markerOf E messages kept words model;
                    req = remind P (render P (req\<lparr>rqMessages := insertAt kept marker messages\<rparr>));
                    s = s\<lparr>csCompacted := Some \<lparr>coMarker = marker, coBefore = beforeID, coUsage = rqUsage req\<rparr>\<rparr>;
                    s = emitEvent (CompactionEnd (ceMarkerID E) beforeID ''completed'' (ceView E marker)) s;
                    s = emitEvent (StateSnapshotEvent (ceSnapshot E (rqUsage req))) s
                in (s, Inr req))"

definition errNothingToCompactNow :: Error where
  "errNothingToCompactNow = Err 400 ''NOTHING_TO_COMPACT'' ''The chat holds nothing before its latest exchange to compact''"

definition compactChat ::
  "promptEnv \<Rightarrow> compactEnv \<Rightarrow> compactState \<Rightarrow> Request \<Rightarrow> compactState \<times> (compactError + Request)" where
  "compactChat P E s req = compactRun P E s req (fixedCost P req (rqWebSearch req) (rqRendered req))"

section \<open>The exchanges kept\<close>

lemma messageTokens_pos: "0 < messageTokens P m"
  by (simp add: messageTokens_def)

lemma messageCost_nonneg: "0 \<le> messageCost P req m"
  unfolding messageCost_def by (rule sum_list_nonneg) (auto intro: less_imp_le [OF messageTokens_pos])

lemma lastQuestionFrom_cases:
  "lastQuestionFrom messages n = - 1 \<or>
     (\<exists>i<n. lastQuestionFrom messages n = int i \<and> msRole (messages ! i) = ''user'')"
  by (induction n) (auto simp: less_Suc_eq)

lemma lastQuestion_cases:
  assumes "lastQuestion messages \<ge> 0"
  obtains q where "lastQuestion messages = int q" "q < length messages" "msRole (messages ! q) = ''user''"
  using lastQuestionFrom_cases [of messages "length messages"] assms unfolding lastQuestion_def by auto

text \<open>What the messages from \<open>i\<close> up to the question fill.\<close>

definition costBetween :: "(Message \<Rightarrow> int) \<Rightarrow> Message list \<Rightarrow> nat \<Rightarrow> nat \<Rightarrow> int" where
  "costBetween C messages i q = sum_list (map (\<lambda>j. C (messages ! j)) [i..<q])"

lemma costBetween_step: "i < q \<Longrightarrow> costBetween C messages i q = C (messages ! i) + costBetween C messages (Suc i) q"
  by (simp add: costBetween_def upt_conv_Cons)

lemma costBetween_mono:
  assumes "\<And>m. 0 \<le> C m" "i \<le> j" "j \<le> q"
  shows "costBetween C messages j q \<le> costBetween C messages i q"
proof -
  have "[i..<q] = [i..<j] @ [j..<q]" using assms(2,3) upt_add_eq_append [of i j "q - j"] by simp
  then have "costBetween C messages i q = sum_list (map (\<lambda>k. C (messages ! k)) [i..<j]) + costBetween C messages j q"
    by (simp add: costBetween_def)
  moreover have "0 \<le> sum_list (map (\<lambda>k. C (messages ! k)) [i..<j])" using assms(1) by (intro sum_list_nonneg) auto
  ultimately show ?thesis by simp
qed

definition keepsFrom :: "(Message \<Rightarrow> int) \<Rightarrow> Message list \<Rightarrow> nat \<Rightarrow> int \<Rightarrow> nat \<Rightarrow> nat \<Rightarrow> bool" where
  "keepsFrom C messages lo most q k \<longleftrightarrow>
     k \<le> q \<and> msRole (messages ! k) = ''user'' \<and>
     (k < q \<longrightarrow> lo \<le> k \<and> costBetween C messages k q \<le> most) \<and>
     (\<forall>j. lo \<le> j \<longrightarrow> j < k \<longrightarrow> msRole (messages ! j) = ''user'' \<longrightarrow> costBetween C messages j q > most)"

lemma keptLoop_keeps:
  assumes nonneg: "\<And>m. 0 \<le> C m"
  shows "\<lbrakk>i \<le> kept; kept \<le> q; msRole (messages ! kept) = ''user''; cost = costBetween C messages i q;
     kept < q \<longrightarrow> lo \<le> kept \<and> costBetween C messages kept q \<le> most;
     \<forall>j. i \<le> j \<longrightarrow> j < kept \<longrightarrow> msRole (messages ! j) \<noteq> ''user''\<rbrakk>
   \<Longrightarrow> keepsFrom C messages lo most q (keptLoop C messages lo most i kept cost)"
proof (induction i arbitrary: kept cost)
  case 0
  then show ?case by (simp add: keepsFrom_def)
next
  case (Suc i)
  have c: "cost + C (messages ! i) = costBetween C messages i q"
    using Suc.prems costBetween_step [of i q C messages] by simp
  consider (low) "i < lo" | (full) "lo \<le> i" "costBetween C messages i q > most" | (on) "lo \<le> i" "costBetween C messages i q \<le> most"
    by linarith
  then show ?case
  proof cases
    case low
    then show ?thesis using Suc.prems by (auto simp: keepsFrom_def)
  next
    case full
    have "costBetween C messages j q > most" if "j < kept" "msRole (messages ! j) = ''user''" for j
    proof -
      have "j \<le> i" using that Suc.prems(6) by (metis not_less_eq_eq)
      then have "costBetween C messages i q \<le> costBetween C messages j q"
        by (intro costBetween_mono) (use nonneg Suc.prems(1,2) in simp_all)
      then show ?thesis using full(2) by simp
    qed
    then show ?thesis using full Suc.prems c by (simp add: keepsFrom_def Let_def)
  next
    case on
    then have "keptLoop C messages lo most (Suc i) kept cost =
        keptLoop C messages lo most i (if msRole (messages ! i) = ''user'' then i else kept) (costBetween C messages i q)"
      by (simp add: Let_def c)
    moreover have "keepsFrom C messages lo most q
        (keptLoop C messages lo most i (if msRole (messages ! i) = ''user'' then i else kept) (costBetween C messages i q))"
    proof (rule Suc.IH)
      show "\<forall>j. i \<le> j \<longrightarrow> j < (if msRole (messages ! i) = ''user'' then i else kept) \<longrightarrow> msRole (messages ! j) \<noteq> ''user''"
      proof (intro allI impI)
        fix j assume j: "i \<le> j" "j < (if msRole (messages ! i) = ''user'' then i else kept)"
        then have "msRole (messages ! i) \<noteq> ''user''" "j < kept" by (auto split: if_splits)
        then show "msRole (messages ! j) \<noteq> ''user''" using Suc.prems(6) j(1) by (cases "j = i") auto
      qed
    qed (use Suc.prems on in auto)
    ultimately show ?thesis by simp
  qed
qed

lemma keptFrom_keeps:
  assumes "msRole (rqMessages req ! q) = ''user''"
  shows "keepsFrom (messageCost P req) (rqMessages req) (nat (max (latest + 2) (int shown))) most q
     (keptFrom P req latest q shown most)"
  unfolding keptFrom_def by (rule keptLoop_keeps [OF messageCost_nonneg]) (use assms in \<open>auto simp: costBetween_def\<close>)

lemma LatestCompaction_insert:
  assumes "isMarker m" "LatestCompaction ms < int k" "k \<le> length ms"
  shows "LatestCompaction (insertAt k m ms) = int k"
proof -
  let ?new = "insertAt k m ms"
  have at: "?new ! k = m" "length ?new = Suc (length ms)" using assms(3) by (simp_all add: insertAt_def nth_append)
  have later: "\<not> isMarker (?new ! j)" if "k < j" "j < length ?new" for j
  proof -
    have "?new ! j = ms ! (j - 1)" using that assms(3) by (simp add: insertAt_def nth_append nth_Cons')
    moreover have "LatestCompaction ms < int (j - 1)" "j - 1 < length ms" using that assms(2) at(2) by simp_all
    ultimately show ?thesis using after_LatestCompaction by simp
  qed
  show ?thesis
  proof (cases ?new rule: LatestCompaction_cases)
    case none
    then show ?thesis using assms(1,3) at by (metis less_Suc_eq_le nth_mem)
  next
    case (marker i)
    have "\<not> i < k" using marker(4) [of k] at assms(1,3) by auto
    moreover have "\<not> k < i" using later marker(1,3) by blast
    ultimately show ?thesis using marker(2) by simp
  qed
qed

lemma remind_keeps [simp]:
  "rqGroups (remind P req) = rqGroups req" "rqMessages (remind P req) = rqMessages req"
  "rqHistory (remind P req) = rqHistory req" "rqCompact (remind P req) = rqCompact req"
  "rqWindow (remind P req) = rqWindow req"
  by (simp_all add: remind_def requestContextUsage_def groupCosts_def Let_def split: option.splits prod.splits)

lemma render_keeps [simp]:
  "rqMessages (render P req) = rqMessages req" "rqCompact (render P req) = rqCompact req"
  "rqWindow (render P req) = rqWindow req"
  by (simp_all add: render_def Let_def)

lemma rendered_insert:
  "isMarker m \<Longrightarrow> rendered P req (insertAt k m ms) = rendered P req ms"
proof -
  have "filter Q ms = filter Q (take k ms) @ filter Q (drop k ms)" for Q by (metis append_take_drop_id filter_append)
  then show "isMarker m \<Longrightarrow> ?thesis" by (simp add: rendered_def insertAt_def)
qed

lemma markerOf_simps [simp]: "isMarker (markerOf E ms k words model)" "msContent (markerOf E ms k words model) = words"
  by (simp_all add: markerOf_def isMarker_def Message0_def)

lemma rendered_cong: "rendered P (req\<lparr>rqMessages := ms\<rparr>) = rendered P req"
  by (simp add: rendered_def fun_eq_iff)

lemma render_inserted:
  assumes "LatestCompaction (rqMessages req) < int k" "k \<le> length (rqMessages req)" "isMarker m"
  shows "rqGroups (render P (req\<lparr>rqMessages := insertAt k m (rqMessages req)\<rparr>)) =
       withSummary (rendered P req (drop k (rqMessages req))) (msContent m)"
    "rqHistory (render P (req\<lparr>rqMessages := insertAt k m (rqMessages req)\<rparr>)) = rendered P req (rqMessages req)"
proof -
  have "LatestCompaction (insertAt k m (rqMessages req)) = int k" by (rule LatestCompaction_insert) (use assms in simp_all)
  moreover have "insertAt k m (rqMessages req) ! k = m" "drop (Suc k) (insertAt k m (rqMessages req)) = drop k (rqMessages req)"
    using assms(2) by (simp_all add: insertAt_def nth_append)
  moreover have "nat (int k + 1) = Suc k" by simp
  ultimately show "rqGroups (render P (req\<lparr>rqMessages := insertAt k m (rqMessages req)\<rparr>)) =
       withSummary (rendered P req (drop k (rqMessages req))) (msContent m)"
    by (simp add: render_def Let_def rendered_cong)
  show "rqHistory (render P (req\<lparr>rqMessages := insertAt k m (rqMessages req)\<rparr>)) = rendered P req (rqMessages req)"
    by (simp add: render_def Let_def rendered_cong rendered_insert assms(3))
qed

text \<open>The least index a compaction may keep from.\<close>

definition keptLow :: "compactEnv \<Rightarrow> Message list \<Rightarrow> nat" where
  "keptLow E messages = nat (max (LatestCompaction messages + 2) (int (shownFrom E messages)))"

lemma keptIndex_keeps:
  assumes "LatestCompaction (rqMessages req) + 1 < lastQuestion (rqMessages req)"
  shows "\<exists>q. lastQuestion (rqMessages req) = int q \<and> q < length (rqMessages req) \<and>
     LatestCompaction (rqMessages req) + 1 < int (keptIndex P E req reserved) \<and>
     keepsFrom (messageCost P req) (rqMessages req) (keptLow E (rqMessages req)) (keptRoom P req reserved) q
       (keptIndex P E req reserved)"
proof -
  have "0 \<le> lastQuestion (rqMessages req)" using assms LatestCompaction_bounds(1) [of "rqMessages req"] by simp
  then obtain q where q: "lastQuestion (rqMessages req) = int q" "q < length (rqMessages req)" "msRole (rqMessages req ! q) = ''user''"
    using lastQuestion_cases by blast
  let ?k = "keptIndex P E req reserved"
  have keeps: "keepsFrom (messageCost P req) (rqMessages req) (keptLow E (rqMessages req)) (keptRoom P req reserved) q ?k"
    unfolding keptIndex_def keptLow_def q(1) nat_int by (rule keptFrom_keeps [OF q(3)])
  then have "LatestCompaction (rqMessages req) + 1 < int ?k"
    using assms q(1) by (auto simp: keepsFrom_def keptLow_def le_eq_less_or_eq)
  then show ?thesis using q keeps by blast
qed

text \<open>C11: A compaction keeps the latest exchanges whole.  When a chat is compacted, the
  messages the model goes on reading open with a question no later than the turn's, at
  least one message after the chat's last marker is left to the summary, and where earlier
  exchanges are kept they were shown to the client and fill no more than their share, which
  every longer run of whole exchanges would pass.  No message is lost: the chat is as it
  was with a marker before the first message kept, the prompt is the summary and what
  follows the marker, and the history the safeguards read is the same.\<close>

theorem compaction_keeps_latest:
  assumes "compactRun P E s req reserved = (s', Inr req')" "rqHistory req = rendered P req (rqMessages req)"
  shows "\<exists>k q words model. lastQuestion (rqMessages req) = int q \<and> LatestCompaction (rqMessages req) + 1 < int k \<and>
     keepsFrom (messageCost P req) (rqMessages req) (keptLow E (rqMessages req)) (keptRoom P req reserved) q k \<and>
     rqMessages req' = insertAt k (markerOf E (rqMessages req) k words model) (rqMessages req) \<and>
     rqGroups req' = withSummary (rendered P req (drop k (rqMessages req))) words \<and>
     rqHistory req' = rqHistory req"
proof -
  let ?ms = "rqMessages req" and ?k = "keptIndex P E req reserved"
  have c: "LatestCompaction ?ms + 1 < lastQuestion ?ms"
    using assms(1) by (auto simp: compactRun_def Let_def split: if_splits)
  from keptIndex_keeps [OF c] obtain q where q: "lastQuestion ?ms = int q" "q < length ?ms"
      "LatestCompaction ?ms + 1 < int ?k"
      "keepsFrom (messageCost P req) ?ms (keptLow E ?ms) (keptRoom P req reserved) q ?k" by blast
  obtain words model where t: "summarized P E req ?k = Some (words, model)"
    using assms(1) c by (auto simp: compactRun_def Let_def split: option.splits)
  have req': "req' = remind P (render P (req\<lparr>rqMessages := insertAt ?k (markerOf E ?ms ?k words model) ?ms\<rparr>))"
    using assms(1) c t by (simp add: compactRun_def Let_def)
  have "LatestCompaction ?ms < int ?k" "?k \<le> length ?ms" using q(2-4) by (simp_all add: keepsFrom_def)
  note r = render_inserted [OF this markerOf_simps(1), of P E ?ms ?k words model]
  have "rqMessages req' = insertAt ?k (markerOf E ?ms ?k words model) ?ms" by (simp add: req')
  moreover have "rqGroups req' = withSummary (rendered P req (drop ?k ?ms)) words" by (simp add: req' r(1))
  moreover have "rqHistory req' = rqHistory req" by (simp add: req' r(2) assms(2))
  ultimately show ?thesis using q by blast
qed

definition promptX :: promptEnv where
  "promptX = \<lparr>peTokens = length, peRest = (\<lambda>_. []), peSent = (\<lambda>_. None), peHistoryArgs = (\<lambda>s. s),
     peResultText = (\<lambda>b. []), peSearchInstructions = []\<rparr>"

definition compactX :: compactEnv where
  "compactX = \<lparr>ceSummarize = Some (\<lambda>_ _. Some (''short'', ''m'')), ceSearchDisplay = (\<lambda>_ _ _. None), ceMarkerID = ''k'',
     ceCreatedAt = [], ceStarted = 1, ceEnded = 2, ceVersion = 2, ceFirstShown = ''u'', ceCancelled = None,
     ceView = (\<lambda>_. []), ceSnapshot = (\<lambda>_. [])\<rparr>"

definition requestX :: Request where
  "requestX = render promptX \<lparr>rqSystem = [], rqWidgetHint = [], rqPolicy = ''none'', rqWindow = 100000, rqGroups = [], rqCosts = None,
     rqReminder = plain ''user'' (MText []), rqRendered = [], rqWebSearch = False, rqHistory = [],
     rqMessages = thMessages threadX, rqVision = False, rqClock = [], rqInstruction = [], rqCompacts = True,
     rqUsage = None, rqCompact = True\<rparr>"

theorem compaction_keeps_latest_witness:
  "\<exists>s' req' words model. compactRun promptX compactX \<lparr>csEvents = [], csCompacted = None\<rparr> requestX 0 = (s', Inr req') \<and>
     rqMessages req' = insertAt 2 (markerOf compactX (thMessages threadX) 2 words model) (thMessages threadX) \<and>
     rqHistory req' = rqHistory requestX"
proof -
  have ms: "rqMessages requestX = thMessages threadX" by (simp add: requestX_def)
  have h: "rqHistory requestX = rendered promptX requestX (rqMessages requestX)"
    by (simp add: requestX_def render_def Let_def rendered_def)
  have lq: "lastQuestion (thMessages threadX) = 2" "LatestCompaction (thMessages threadX) = - 1"
    by (simp_all add: lastQuestion_def LatestCompaction_def CompactionRole_def turn_example_defs numeral_2_eq_2)
  have sum: "summarized promptX compactX requestX k = Some (''short'', ''m'')" for k
    by (simp add: summarized_def compactX_def Let_def)
  obtain s' req' where r: "compactRun promptX compactX \<lparr>csEvents = [], csCompacted = None\<rparr> requestX 0 = (s', Inr req')"
    by (simp add: compactRun_def Let_def ms lq sum)
  from compaction_keeps_latest [OF r h] obtain k q words model where
    k: "lastQuestion (thMessages threadX) = int q" "LatestCompaction (thMessages threadX) + 1 < int k"
       "keepsFrom (messageCost promptX requestX) (thMessages threadX) (keptLow compactX (thMessages threadX)) (keptRoom promptX requestX 0) q k"
       "rqMessages req' = insertAt k (markerOf compactX (thMessages threadX) k words model) (thMessages threadX)"
       "rqHistory req' = rqHistory requestX" unfolding ms by blast
  have "k \<noteq> 1" using k(3) by (auto simp: keepsFrom_def turn_example_defs)
  then have k2: "k = 2" using k(1-3) lq by (auto simp: keepsFrom_def)
  show ?thesis using r k(4,5) k2 by blast
qed

end
