(* ===== verification/Model_Stream.thy ===== *)
theory Model_Stream
  imports Compacting
begin

text \<open>One model turn, \<^verbatim>\<open>turn\<close> and \<^verbatim>\<open>announce\<close> of \<^verbatim>\<open>internal/engine/agent.go\<close>: the lines of the
  model's stream, the text, the reasoning and the tool calls read from them, and the
  events that show each to the caller as it arrives.  Reading a line's JSON, repairing a
  widget's arguments and drawing ids are arguments of the model; what the events become
  is the reply stream's part.\<close>

section \<open>Lines and chunks\<close>

definition maxToolCalls :: int where "maxToolCalls = 128"

record ToolCall =
  tcID :: string
  tcName :: string
  tcArgs :: string
  tcOpen :: bool
  tcHeld :: bool

record toolCallDelta =
  deIndex :: int
  deID :: string
  deName :: string
  deArguments :: string

record choice =
  chFinishReason :: string
  chContent :: string
  chReasoning :: string
  chReasoningAlt :: string
  chToolCalls :: "toolCallDelta list"

text \<open>A chunk's error is the error its data makes, where it holds one.\<close>

record chunk =
  ckModel :: string
  ckError :: "Error option"
  ckUsage :: "bytes option"
  ckChoice :: "choice option"

datatype line = Ignored | DoneLine | InvalidLine | ChunkLine chunk

record turnEnv =
  teUnmarshal :: "string \<Rightarrow> chunk option"
  teWidgets :: "string list"
  teWidgetArguments :: "string \<Rightarrow> string"
  teToken :: "nat \<Rightarrow> string"

definition readLine :: "turnEnv \<Rightarrow> string \<Rightarrow> line" where
  "readLine T s =
    (if \<not> prefix ''data:'' s then Ignored
     else let d = TrimSpace (drop 5 s) in
       if d = ''[DONE]'' then DoneLine
       else if d = [] then Ignored
       else case teUnmarshal T d of None \<Rightarrow> InvalidLine | Some c \<Rightarrow> ChunkLine c)"

section \<open>Reading a turn\<close>

record turnState =
  tuCalls :: "ToolCall list"
  tuAnswer :: string
  tuReasoning :: string
  tuField :: string
  tuEnded :: bool
  tuUsage :: "bytes option"
  tuModel :: string
  tuDrawn :: nat
  tuEvents :: "Event list"

definition shows_event :: "Event \<Rightarrow> turnState \<Rightarrow> turnState" where
  "shows_event e s = s\<lparr>tuEvents := tuEvents s @ [e]\<rparr>"

definition newCall :: "string \<Rightarrow> ToolCall" where
  "newCall i = \<lparr>tcID = i, tcName = [], tcArgs = [], tcOpen = False, tcHeld = False\<rparr>"

text \<open>The calls up to an index, each missing one under an id drawn for it.\<close>

definition roomFor :: "turnEnv \<Rightarrow> nat \<Rightarrow> turnState \<Rightarrow> turnState" where
  "roomFor T i s =
    (let n = Suc i - length (tuCalls s)
     in s\<lparr>tuCalls := tuCalls s @ map (\<lambda>k. newCall (''call_'' @ teToken T (tuDrawn s + k))) [0..<n],
          tuDrawn := tuDrawn s + n\<rparr>)"

definition withDelta :: "toolCallDelta \<Rightarrow> ToolCall \<Rightarrow> ToolCall" where
  "withDelta d c = c\<lparr>tcID := (if deID d \<noteq> [] then deID d else tcID c), tcName := tcName c @ deName d,
     tcArgs := tcArgs c @ deArguments d\<rparr>"

definition announce :: "turnEnv \<Rightarrow> string \<Rightarrow> toolCallDelta \<Rightarrow> turnState \<Rightarrow> turnState" where
  "announce T message d s =
    (let i = nat (deIndex d); s = roomFor T i s; c = withDelta d (tuCalls s ! i) in
     if \<not> tcOpen c \<and> tcName c \<noteq> [] then
       let c = c\<lparr>tcHeld := (tcName c \<in> set (teWidgets T)), tcOpen := True\<rparr>;
           s = shows_event (ToolCallStart (tcID c) (tcName c) message) (s\<lparr>tuCalls := (tuCalls s)[i := c]\<rparr>)
       in if \<not> tcHeld c \<and> tcArgs c \<noteq> [] then shows_event (ToolCallArgs (tcID c) (tcArgs c)) s else s
     else let s = s\<lparr>tuCalls := (tuCalls s)[i := c]\<rparr> in
       if tcOpen c \<and> \<not> tcHeld c \<and> deArguments d \<noteq> [] then shows_event (ToolCallArgs (tcID c) (deArguments d)) s
       else s)"

definition errTooManyCalls :: Error where
  "errTooManyCalls = Err 502 ''UPSTREAM_REFUSED'' ''The model exceeded the tool call limit''"
definition errInvalidJSON :: Error where
  "errInvalidJSON = Err 502 ''UPSTREAM_REFUSED'' ''The model stream contains invalid JSON''"
definition errCutStream :: Error where
  "errCutStream = Err 502 ''UPSTREAM_REFUSED'' ''The model stream ended before completion''"

fun announceAll :: "turnEnv \<Rightarrow> string \<Rightarrow> toolCallDelta list \<Rightarrow> turnState \<Rightarrow> turnState \<times> Error option" where
  "announceAll T message [] s = (s, None)"
| "announceAll T message (d # ds) s =
    (if deIndex d < 0 \<or> deIndex d \<ge> maxToolCalls then (s, Some errTooManyCalls)
     else announceAll T message ds (announce T message d s))"

definition readReasoning :: "string \<Rightarrow> choice \<Rightarrow> turnState \<Rightarrow> turnState" where
  "readReasoning message c s =
    (let r = orElse (chReasoning c) (chReasoningAlt c) in
     if r = [] then s
     else shows_event (ReasoningChunk (message @ ReasoningSuffix) r)
       (s\<lparr>tuField := (if chReasoning c = [] then ''reasoning'' else tuField s), tuReasoning := tuReasoning s @ r\<rparr>))"

definition readContent :: "string \<Rightarrow> choice \<Rightarrow> turnState \<Rightarrow> turnState" where
  "readContent message c s =
    (if chContent c = [] then s
     else shows_event (TextChunk message ''assistant'' (chContent c)) (s\<lparr>tuAnswer := tuAnswer s @ chContent c\<rparr>))"

definition readChunk :: "turnEnv \<Rightarrow> string \<Rightarrow> chunk \<Rightarrow> turnState \<Rightarrow> turnState \<times> Error option" where
  "readChunk T message c s =
    (case ckError c of Some e \<Rightarrow> (s, Some e)
     | None \<Rightarrow>
       let s = (if ckModel c \<noteq> [] \<and> ckModel c \<noteq> ''auto'' then s\<lparr>tuModel := ckModel c\<rparr> else s);
           s = (case ckUsage c of None \<Rightarrow> s | Some u \<Rightarrow> s\<lparr>tuUsage := Some u\<rparr>)
       in case ckChoice c of None \<Rightarrow> (s, None)
          | Some ch \<Rightarrow>
            let s = (if chFinishReason ch \<noteq> [] then s\<lparr>tuEnded := True\<rparr> else s)
            in announceAll T message (chToolCalls ch) (readContent message ch (readReasoning message ch s)))"

fun readLines :: "turnEnv \<Rightarrow> string \<Rightarrow> line list \<Rightarrow> turnState \<Rightarrow> turnState \<times> Error option" where
  "readLines T message [] s = (s, None)"
| "readLines T message (Ignored # ls) s = readLines T message ls s"
| "readLines T message (DoneLine # ls) s = (s\<lparr>tuEnded := True\<rparr>, None)"
| "readLines T message (InvalidLine # ls) s = (s, Some errInvalidJSON)"
| "readLines T message (ChunkLine c # ls) s = (case readChunk T message c s of
     (s, Some e) \<Rightarrow> (s, Some e) | (s, None) \<Rightarrow> readLines T message ls s)"

text \<open>What closes each call once the stream has ended.\<close>

definition parentOf :: "string \<Rightarrow> string \<Rightarrow> string" where
  "parentOf message answer = (if answer = [] then [] else message)"

definition closedArgs :: "turnEnv \<Rightarrow> ToolCall \<Rightarrow> string" where
  "closedArgs T c = (if tcHeld c then teWidgetArguments T (tcArgs c) else tcArgs c)"

definition closeCall :: "turnEnv \<Rightarrow> string \<Rightarrow> ToolCall \<Rightarrow> turnState \<Rightarrow> turnState" where
  "closeCall T parent c s =
    (let shown = tcOpen c \<and> \<not> tcHeld c;
         s = (if \<not> tcOpen c then shows_event (ToolCallStart (tcID c) (tcName c) parent) s else s);
         a = closedArgs T c;
         s = (if a = [] then shows_event (ToolCallArgs (tcID c) ''{}'') s
              else if \<not> shown then shows_event (ToolCallArgs (tcID c) a) s else s)
     in shows_event (ToolCallEnd (tcID c)) s)"

definition closeCalls :: "turnEnv \<Rightarrow> string \<Rightarrow> turnState \<Rightarrow> turnState" where
  "closeCalls T message s =
     (foldl (\<lambda>s' c. closeCall T (parentOf message (tuAnswer s)) c s') s (tuCalls s))
       \<lparr>tuCalls := map (\<lambda>c. c\<lparr>tcArgs := closedArgs T c\<rparr>) (tuCalls s)\<rparr>"

definition turn0 :: turnState where
  "turn0 = \<lparr>tuCalls = [], tuAnswer = [], tuReasoning = [], tuField = ''reasoning_content'', tuEnded = False,
     tuUsage = None, tuModel = [], tuDrawn = 0, tuEvents = []\<rparr>"

text \<open>\<open>broken\<close> is the error that ended the stream's lines, if one did, which a stream read
  to its last line does not meet.\<close>

definition readTurn :: "turnEnv \<Rightarrow> string \<Rightarrow> string list \<Rightarrow> Error option \<Rightarrow> turnState \<times> Error option" where
  "readTurn T message ls broken =
    (case readLines T message (map (readLine T) ls) turn0 of
       (s, Some e) \<Rightarrow> (s, Some e)
     | (s, None) \<Rightarrow>
        if broken \<noteq> None \<and> DoneLine \<notin> set (map (readLine T) ls) then (s, broken)
        else if \<not> tuEnded s then (s, Some errCutStream)
        else (closeCalls T message s, None))"

section \<open>Calls are shown as they are made\<close>

fun about :: "string \<Rightarrow> Event \<Rightarrow> bool" where
  "about i (ToolCallStart j n p) = (j = i)"
| "about i (ToolCallArgs j a) = (j = i)"
| "about i (ToolCallEnd j) = (j = i)"
| "about i e = False"

text \<open>What the caller was told of a call.\<close>

definition told :: "string \<Rightarrow> Event list \<Rightarrow> Event list" where
  "told i es = filter (about i) es"

lemma told_append [simp]: "told i (es @ fs) = told i es @ told i fs" "told i [] = []"
  by (simp_all add: told_def)

lemma told_only: "\<forall>e\<in>set es. about i e \<Longrightarrow> told i es = es"
  by (simp add: told_def)

lemma about_unique: "about i e \<Longrightarrow> about j e \<Longrightarrow> i = j"
  by (cases e) auto

lemma told_others: "\<forall>e\<in>set es. about i e \<Longrightarrow> i \<noteq> j \<Longrightarrow> told j es = []"
  unfolding told_def using about_unique by (auto simp: filter_empty_conv)

definition opened :: "ToolCall \<Rightarrow> Event list \<Rightarrow> string list \<Rightarrow> bool" where
  "opened c es ds \<longleftrightarrow> (\<exists>n p. es = ToolCallStart (tcID c) n p # map (ToolCallArgs (tcID c)) ds \<and> prefix n (tcName c))"

definition callTold :: "ToolCall \<Rightarrow> Event list \<Rightarrow> bool" where
  "callTold c es \<longleftrightarrow> (if tcOpen c then \<exists>ds. opened c es ds \<and> concat ds = (if tcHeld c then [] else tcArgs c)
     else es = [] \<and> tcName c = [] \<and> \<not> tcHeld c)"

definition drawnID :: "turnEnv \<Rightarrow> nat \<Rightarrow> string" where
  "drawnID T k = ''call_'' @ teToken T k"

text \<open>Ids a model's calls and the engine's own draws may have: no two calls share one.\<close>

definition goodIds :: "turnEnv \<Rightarrow> (nat \<Rightarrow> string) \<Rightarrow> bool" where
  "goodIds T name \<longleftrightarrow> inj name \<and> inj (teToken T) \<and> (\<forall>j k. name j \<noteq> drawnID T k) \<and> (\<forall>j. name j \<noteq> [])"

definition callOk :: "turnEnv \<Rightarrow> (nat \<Rightarrow> string) \<Rightarrow> nat set \<Rightarrow> nat \<Rightarrow> Event list \<Rightarrow> nat \<Rightarrow> ToolCall \<Rightarrow> bool" where
  "callOk T name named drawn es j c \<longleftrightarrow>
    (if j \<in> named then tcID c = name j \<and> callTold c (told (name j) es) else \<exists>k<drawn. c = newCall (drawnID T k))"

definition callsTold :: "turnEnv \<Rightarrow> (nat \<Rightarrow> string) \<Rightarrow> nat set \<Rightarrow> turnState \<Rightarrow> bool" where
  "callsTold T name named s \<longleftrightarrow>
     length (tuCalls s) \<le> nat maxToolCalls \<and>
     (\<forall>j<length (tuCalls s). callOk T name named (tuDrawn s) (tuEvents s) j (tuCalls s ! j)) \<and>
     (\<forall>i. told i (tuEvents s) \<noteq> [] \<longrightarrow> (\<exists>j\<in>named. i = name j)) \<and>
     distinct (map tcID (tuCalls s))"

lemma callsTold_nth:
  assumes "callsTold T name named s" "j < length (tuCalls s)"
  shows "j \<in> named \<Longrightarrow> tcID (tuCalls s ! j) = name j \<and> callTold (tuCalls s ! j) (told (name j) (tuEvents s))"
    "j \<notin> named \<Longrightarrow> \<exists>k<tuDrawn s. tuCalls s ! j = newCall (drawnID T k)"
  using assms unfolding callsTold_def callOk_def by (auto split: if_splits)

lemma callsTold_roomFor:
  assumes inv: "callsTold T name named s" and g: "goodIds T name" and i: "i < nat maxToolCalls"
    and named: "\<forall>j\<in>named. j < length (tuCalls s)"
  shows "callsTold T name named (roomFor T i s)" "i < length (tuCalls (roomFor T i s))" "length (tuCalls s) \<le> length (tuCalls (roomFor T i s))"
proof -
  define n where "n = Suc i - length (tuCalls s)"
  let ?new = "map (\<lambda>k. newCall (drawnID T (tuDrawn s + k))) [0..<n]"
  have r: "roomFor T i s = s\<lparr>tuCalls := tuCalls s @ ?new, tuDrawn := tuDrawn s + n\<rparr>"
    by (simp add: roomFor_def Let_def n_def drawnID_def)
  have len: "length (tuCalls (roomFor T i s)) = max (length (tuCalls s)) (Suc i)" by (simp add: r n_def)
  then show "i < length (tuCalls (roomFor T i s))" "length (tuCalls s) \<le> length (tuCalls (roomFor T i s))" by simp_all
  have inj: "drawnID T a = drawnID T b \<Longrightarrow> a = b" for a b using g by (auto simp: goodIds_def drawnID_def dest: injD)
  have old: "x = name j \<or> (\<exists>k<tuDrawn s. x = drawnID T k)" if "j < length (tuCalls s)" "x = tcID (tuCalls s ! j)" for x j
    using callsTold_nth [OF inv that(1)] that(2) by (cases "j \<in> named") (auto simp: newCall_def)
  have "distinct (map tcID ?new)" using inj by (fastforce simp: distinct_map newCall_def inj_on_def)
  moreover have "tcID (tuCalls s ! j) \<noteq> drawnID T (tuDrawn s + k)" if "j < length (tuCalls s)" for j k
    using old [OF that refl] g inj unfolding goodIds_def by fastforce
  ultimately have d: "distinct (map tcID (tuCalls s @ ?new))"
    using inv unfolding callsTold_def by (auto simp: in_set_conv_nth newCall_def)
  have "length (tuCalls (roomFor T i s)) \<le> nat maxToolCalls" using inv i len by (simp add: callsTold_def)
  moreover have "callOk T name named (tuDrawn s + n) (tuEvents s) j (tuCalls (roomFor T i s) ! j)"
    if j: "j < length (tuCalls (roomFor T i s))" for j
  proof (cases "j < length (tuCalls s)")
    case True
    then have "tuCalls (roomFor T i s) ! j = tuCalls s ! j" by (simp add: r nth_append)
    then show ?thesis using callsTold_nth [OF inv True] by (auto simp: callOk_def intro: trans_less_add1)
  next
    case False
    then have "tuCalls (roomFor T i s) ! j = newCall (drawnID T (tuDrawn s + (j - length (tuCalls s))))" "j - length (tuCalls s) < n"
      using j by (simp_all add: r nth_append)
    then show ?thesis using False named by (auto simp: callOk_def intro!: exI [of _ "tuDrawn s + (j - length (tuCalls s))"])
  qed
  ultimately show "callsTold T name named (roomFor T i s)"
    using inv d unfolding callsTold_def by (simp add: r)
qed

lemma callsTold_update:
  assumes inv: "callsTold T name named s" and g: "goodIds T name" and i: "i < length (tuCalls s)"
    and c: "tcID c = name i" "callTold c (told (name i) (tuEvents s) @ es)" and es: "\<forall>e\<in>set es. about (name i) e"
  shows "callsTold T name (insert i named) (s\<lparr>tuCalls := (tuCalls s)[i := c], tuEvents := tuEvents s @ es\<rparr>)"
proof -
  have nj: "name j \<noteq> name i" if "j \<noteq> i" for j using g that by (auto simp: goodIds_def dest: injD)
  have "callOk T name (insert i named) (tuDrawn s) (tuEvents s @ es) j ((tuCalls s)[i := c] ! j)" if j: "j < length (tuCalls s)" for j
  proof (cases "j = i")
    case True
    then show ?thesis using c i told_only [OF es] by (simp add: callOk_def)
  next
    case False
    then show ?thesis using callsTold_nth [OF inv j] told_others [OF es, of "name j"] nj [OF False] by (auto simp: callOk_def)
  qed
  moreover have "\<forall>k. told k (tuEvents s @ es) \<noteq> [] \<longrightarrow> (\<exists>j\<in>insert i named. k = name j)"
  proof (intro allI impI)
    fix k assume k: "told k (tuEvents s @ es) \<noteq> []"
    show "\<exists>j\<in>insert i named. k = name j"
      using k inv told_others [OF es, of k] unfolding callsTold_def by (cases "k = name i") auto
  qed
  moreover have "distinct (map tcID ((tuCalls s)[i := c]))"
  proof -
    have other: "name i \<noteq> tcID (tuCalls s ! j)" if "j < length (tuCalls s)" "j \<noteq> i" for j
      using callsTold_nth [OF inv that(1)] nj [OF that(2)] g by (cases "j \<in> named") (auto simp: newCall_def goodIds_def)
    have "name i \<notin> set (map tcID (tuCalls s)) - {map tcID (tuCalls s) ! i}"
    proof
      assume "name i \<in> set (map tcID (tuCalls s)) - {map tcID (tuCalls s) ! i}"
      then have "name i \<in> set (map tcID (tuCalls s))" "name i \<noteq> tcID (tuCalls s ! i)" using i by simp_all
      then obtain k where "k < length (tuCalls s)" "name i = tcID (tuCalls s ! k)" by (auto simp: set_conv_nth)
      then show False using other [of k] \<open>name i \<noteq> tcID (tuCalls s ! i)\<close> by blast
    qed
    then have "distinct ((map tcID (tuCalls s))[i := name i])"
      using inv unfolding callsTold_def by (intro distinct_list_update) simp_all
    then show ?thesis by (simp add: map_update c(1))
  qed
  ultimately show ?thesis using inv unfolding callsTold_def by (simp del: told_append insert_iff)
qed

lemma callTold_withDelta:
  assumes t: "callTold c es" and i: "tcID (withDelta d c) = tcID c \<or> es = []"
    and x: "x = withDelta d c"
  shows "\<not> (\<not> tcOpen c \<and> tcName x \<noteq> []) \<Longrightarrow>
       callTold x (es @ (if tcOpen c \<and> \<not> tcHeld c \<and> deArguments d \<noteq> [] then [ToolCallArgs (tcID x) (deArguments d)] else []))"
    "\<not> tcOpen c \<Longrightarrow> tcName x \<noteq> [] \<Longrightarrow> y = x\<lparr>tcHeld := h, tcOpen := True\<rparr> \<Longrightarrow>
       callTold y (es @ ToolCallStart (tcID y) (tcName y) m #
         (if \<not> h \<and> tcArgs y \<noteq> [] then [ToolCallArgs (tcID y) (tcArgs y)] else []))"
proof -
  show "callTold x (es @ (if tcOpen c \<and> \<not> tcHeld c \<and> deArguments d \<noteq> [] then [ToolCallArgs (tcID x) (deArguments d)] else []))"
    if n: "\<not> (\<not> tcOpen c \<and> tcName x \<noteq> [])"
  proof (cases "tcOpen c")
    case False
    then show ?thesis using t n by (simp add: x callTold_def withDelta_def)
  next
    case True
    then obtain ds where ds: "opened c es ds" "concat ds = (if tcHeld c then [] else tcArgs c)" using t by (auto simp: callTold_def)
    then have "es \<noteq> []" by (auto simp: opened_def)
    then have same: "tcID x = tcID c" using i x by simp
    have op: "tcOpen x" "tcHeld x = tcHeld c" "tcArgs x = tcArgs c @ deArguments d" "tcName x = tcName c @ deName d"
      using True by (simp_all add: x withDelta_def)
    have o1: "opened x es ds" using ds(1) same by (auto simp: opened_def op(4))
    show ?thesis
    proof (cases "\<not> tcHeld c \<and> deArguments d \<noteq> []")
      case True
      then have "opened x (es @ [ToolCallArgs (tcID x) (deArguments d)]) (ds @ [deArguments d])"
        using o1 by (auto simp: opened_def)
      moreover have "concat (ds @ [deArguments d]) = tcArgs x" using ds(2) True op by simp
      ultimately show ?thesis using True \<open>tcOpen c\<close> op by (auto simp: callTold_def)
    next
      case False
      then show ?thesis using o1 ds(2) op \<open>tcOpen c\<close> by (auto simp: callTold_def)
    qed
  qed
  show "callTold y (es @ ToolCallStart (tcID y) (tcName y) m #
         (if \<not> h \<and> tcArgs y \<noteq> [] then [ToolCallArgs (tcID y) (tcArgs y)] else []))"
    if o': "\<not> tcOpen c" "tcName x \<noteq> []" and y: "y = x\<lparr>tcHeld := h, tcOpen := True\<rparr>"
  proof -
    have "es = []" using t o' by (simp add: callTold_def)
    moreover have "opened y (ToolCallStart (tcID y) (tcName y) m # map (ToolCallArgs (tcID y)) ds) ds" for ds
      by (auto simp: opened_def)
    from this [of "[]"] this [of "[tcArgs y]"] show ?thesis using \<open>es = []\<close> y by (auto simp: callTold_def)
  qed
qed

text \<open>A delta names its call by the call's own id, or by none once the call has one.\<close>

definition steadyDelta :: "(nat \<Rightarrow> string) \<Rightarrow> nat set \<Rightarrow> toolCallDelta \<Rightarrow> bool" where
  "steadyDelta name named d \<longleftrightarrow> deID d = name (nat (deIndex d)) \<or> (deID d = [] \<and> nat (deIndex d) \<in> named)"

lemma callTold_new: "callTold (newCall i) []"
  by (simp add: callTold_def newCall_def)

lemma callsTold_announce:
  assumes inv: "callsTold T name named s" and g: "goodIds T name" and d: "steadyDelta name named d"
    and i: "0 \<le> deIndex d" "deIndex d < maxToolCalls" and named: "\<forall>j\<in>named. j < length (tuCalls s)"
  shows "callsTold T name (insert (nat (deIndex d)) named) (announce T m d s) \<and>
     (\<forall>j\<in>insert (nat (deIndex d)) named. j < length (tuCalls (announce T m d s)))"
proof -
  let ?i = "nat (deIndex d)"
  define s1 where "s1 = roomFor T ?i s"
  have "?i < nat maxToolCalls" using i by (simp add: nat_less_eq_zless)
  note room = callsTold_roomFor [OF inv g this named, folded s1_def]
  define c where "c = tuCalls s1 ! ?i"
  define x where "x = withDelta d c"
  let ?es = "told (name ?i) (tuEvents s1)"
  have ct: "callTold c ?es" "tcID x = name ?i" "tcID x = tcID c \<or> ?es = []"
  proof -
    have "name ?i \<noteq> []" using g by (simp add: goodIds_def)
    then show "tcID x = name ?i" using d callsTold_nth(1) [OF room(1,2)]
      by (auto simp: steadyDelta_def x_def withDelta_def c_def)
    show "callTold c ?es"
    proof (cases "?i \<in> named")
      case True
      then show ?thesis using callsTold_nth(1) [OF room(1,2)] by (simp add: c_def)
    next
      case False
      then obtain k where k: "c = newCall (drawnID T k)" using callsTold_nth(2) [OF room(1,2)] c_def by auto
      have "?es = []" using room(1) False g unfolding callsTold_def goodIds_def by (metis injD)
      then show ?thesis using k callTold_new by simp
    qed
    show "tcID x = tcID c \<or> ?es = []"
    proof (cases "?i \<in> named")
      case True
      then show ?thesis using \<open>tcID x = name ?i\<close> callsTold_nth(1) [OF room(1,2)] by (simp add: c_def)
    next
      case False
      then show ?thesis using room(1) g unfolding callsTold_def goodIds_def by (metis injD)
    qed
  qed
  note step = callTold_withDelta [OF ct(1) ct(3) [unfolded x_def] x_def]
  have "\<exists>c' es. announce T m d s = s1\<lparr>tuCalls := (tuCalls s1)[?i := c'], tuEvents := tuEvents s1 @ es\<rparr> \<and>
      tcID c' = name ?i \<and> (\<forall>e\<in>set es. about (name ?i) e) \<and> callTold c' (?es @ es)"
  proof (cases "\<not> tcOpen c \<and> tcName x \<noteq> []")
    case False
    let ?e = "if tcOpen c \<and> \<not> tcHeld c \<and> deArguments d \<noteq> [] then [ToolCallArgs (tcID x) (deArguments d)] else []"
    have same: "tcOpen x = tcOpen c" "tcHeld x = tcHeld c" by (simp_all add: x_def withDelta_def)
    have "announce T m d s = s1\<lparr>tuCalls := (tuCalls s1)[?i := x], tuEvents := tuEvents s1 @ ?e\<rparr>"
      using False unfolding announce_def Let_def s1_def [symmetric] c_def [symmetric] x_def [symmetric]
      by (auto simp: shows_event_def same)
    moreover have "callTold x (?es @ ?e)" using step(1) False by blast
    moreover have "\<forall>e\<in>set ?e. about (name ?i) e" using ct(2) by simp
    ultimately show ?thesis using ct(2) by blast
  next
    case True
    define y where "y = x\<lparr>tcHeld := (tcName x \<in> set (teWidgets T)), tcOpen := True\<rparr>"
    let ?e = "ToolCallStart (tcID y) (tcName y) m #
         (if \<not> tcName x \<in> set (teWidgets T) \<and> tcArgs y \<noteq> [] then [ToolCallArgs (tcID y) (tcArgs y)] else [])"
    have same: "tcOpen x = tcOpen c" "tcName y = tcName x" "tcID y = tcID x" "tcHeld y = (tcName x \<in> set (teWidgets T))"
      by (simp_all add: x_def y_def withDelta_def)
    have "announce T m d s = s1\<lparr>tuCalls := (tuCalls s1)[?i := y], tuEvents := tuEvents s1 @ ?e\<rparr>"
      using True unfolding announce_def Let_def s1_def [symmetric] c_def [symmetric] x_def [symmetric] y_def [symmetric]
      by (auto simp: shows_event_def same)
    moreover have "callTold y (?es @ ?e)" using step(2) True y_def by blast
    moreover have "\<forall>e\<in>set ?e. about (name ?i) e" using ct(2) same by simp
    ultimately show ?thesis using ct(2) same(3) by metis
  qed
  then obtain c' es where a: "announce T m d s = s1\<lparr>tuCalls := (tuCalls s1)[?i := c'], tuEvents := tuEvents s1 @ es\<rparr>"
      "tcID c' = name ?i" "\<forall>e\<in>set es. about (name ?i) e" "callTold c' (?es @ es)" by blast
  have "callsTold T name (insert ?i named) (announce T m d s)"
    unfolding a(1) by (rule callsTold_update [OF room(1) g room(2) a(2,4,3)])
  moreover have "\<forall>j\<in>insert ?i named. j < length (tuCalls (announce T m d s))"
    using room(2,3) named by (auto simp: a(1))
  ultimately show ?thesis by blast
qed

fun steadyIds :: "(nat \<Rightarrow> string) \<Rightarrow> nat set \<Rightarrow> toolCallDelta list \<Rightarrow> bool" where
  "steadyIds name named [] = True"
| "steadyIds name named (d # ds) = (steadyDelta name named d \<and> steadyIds name (insert (nat (deIndex d)) named) ds)"

definition namedBy :: "nat set \<Rightarrow> toolCallDelta list \<Rightarrow> nat set" where
  "namedBy named ds = named \<union> (\<lambda>d. nat (deIndex d)) ` set ds"

lemma namedBy_simps [simp]:
  "namedBy named [] = named" "namedBy named (d # ds) = namedBy (insert (nat (deIndex d)) named) ds"
  by (auto simp: namedBy_def)

lemma steadyIds_append:
  "steadyIds name named (ds @ es) \<longleftrightarrow> steadyIds name named ds \<and> steadyIds name (namedBy named ds) es"
  by (induction ds arbitrary: named) auto

definition turnTold :: "turnEnv \<Rightarrow> (nat \<Rightarrow> string) \<Rightarrow> nat set \<Rightarrow> turnState \<Rightarrow> bool" where
  "turnTold T name named s \<longleftrightarrow> callsTold T name named s \<and> (\<forall>j\<in>named. j < length (tuCalls s))"

lemma turnTold_cong:
  assumes "tuCalls s' = tuCalls s" "tuDrawn s' = tuDrawn s" "\<And>i. told i (tuEvents s') = told i (tuEvents s)"
  shows "turnTold T name named s' = turnTold T name named s"
  using assms unfolding turnTold_def callsTold_def callOk_def by simp

lemma turnTold_text:
  "turnTold T name named s \<Longrightarrow> turnTold T name named (readContent m c (readReasoning m c s))"
  by (rule turnTold_cong [THEN iffD2])
    (simp_all add: readContent_def readReasoning_def shows_event_def Let_def told_def)

lemma announceAll_told:
  "\<lbrakk>announceAll T m ds s = (s', None); turnTold T name named s; goodIds T name; steadyIds name named ds\<rbrakk>
   \<Longrightarrow> turnTold T name (namedBy named ds) s'"
proof (induction ds arbitrary: s named)
  case (Cons d ds)
  have i: "0 \<le> deIndex d" "deIndex d < maxToolCalls" and rest: "announceAll T m ds (announce T m d s) = (s', None)"
    using Cons.prems(1) by (auto split: if_splits)
  have "turnTold T name (insert (nat (deIndex d)) named) (announce T m d s)"
    using callsTold_announce [of T name named s d m] Cons.prems i unfolding turnTold_def by simp
  then show ?case using Cons.IH [OF rest] Cons.prems by simp
qed simp

fun lineDeltas :: "line \<Rightarrow> toolCallDelta list" where
  "lineDeltas (ChunkLine c) = (case ckChoice c of None \<Rightarrow> [] | Some ch \<Rightarrow> chToolCalls ch)"
| "lineDeltas l = []"

lemma readChunk_told:
  assumes "readChunk T m c s = (s', None)" "turnTold T name named s" "goodIds T name"
    "steadyIds name named (lineDeltas (ChunkLine c))"
  shows "turnTold T name (namedBy named (lineDeltas (ChunkLine c))) s'"
proof -
  define s1 where "s1 = (if ckModel c \<noteq> [] \<and> ckModel c \<noteq> ''auto'' then s\<lparr>tuModel := ckModel c\<rparr> else s)"
  define s2 where "s2 = (case ckUsage c of None \<Rightarrow> s1 | Some u \<Rightarrow> s1\<lparr>tuUsage := Some u\<rparr>)"
  have e: "ckError c = None" using assms(1) by (auto simp: readChunk_def split: option.splits)
  have t2: "turnTold T name named s2"
    using assms(2) by (rule turnTold_cong [THEN iffD2, rotated 3]) (simp_all add: s2_def s1_def split: option.splits)
  show ?thesis
  proof (cases "ckChoice c")
    case None
    then show ?thesis using assms(1) e t2 unfolding readChunk_def s1_def [symmetric] s2_def [symmetric] Let_def by simp
  next
    case (Some ch)
    define s3 where "s3 = (if chFinishReason ch \<noteq> [] then s2\<lparr>tuEnded := True\<rparr> else s2)"
    have "turnTold T name named s3"
      using t2 by (rule turnTold_cong [THEN iffD2, rotated 3]) (simp_all add: s3_def)
    from turnTold_text [OF this]
    have t3: "turnTold T name named (readContent m ch (readReasoning m ch s3))" .
    have "announceAll T m (chToolCalls ch) (readContent m ch (readReasoning m ch s3)) = (s', None)"
      using assms(1) e Some unfolding readChunk_def s1_def [symmetric] s2_def [symmetric] Let_def by (simp add: s3_def)
    from announceAll_told [OF this t3 assms(3)] show ?thesis using assms(4) Some by simp
  qed
qed

lemma readLines_told:
  "\<lbrakk>readLines T m ls s = (s', None); turnTold T name named s; goodIds T name; steadyIds name named (concat (map lineDeltas ls))\<rbrakk>
   \<Longrightarrow> \<exists>named'. turnTold T name named' s'"
proof (induction ls arbitrary: s named)
  case (Cons l ls)
  show ?case
  proof (cases l)
    case DoneLine
    have "turnTold T name named (s\<lparr>tuEnded := True\<rparr>)" using Cons.prems(2) by (rule turnTold_cong [THEN iffD2, rotated 3]) simp_all
    then show ?thesis using Cons.prems(1) DoneLine by auto
  next
    case (ChunkLine c)
    obtain s1 where s1: "readChunk T m c s = (s1, None)" "readLines T m ls s1 = (s', None)"
      using Cons.prems(1) ChunkLine by (auto split: prod.splits option.splits)
    have st: "steadyIds name named (lineDeltas l)" "steadyIds name (namedBy named (lineDeltas l)) (concat (map lineDeltas ls))"
      using Cons.prems(4) by (simp_all add: steadyIds_append)
    from readChunk_told [OF s1(1) Cons.prems(2,3) st(1) [unfolded ChunkLine]]
    show ?thesis using Cons.IH [OF s1(2) _ Cons.prems(3)] st(2) ChunkLine by blast
  qed (use Cons in simp_all)
qed auto

definition closingOf :: "turnEnv \<Rightarrow> string \<Rightarrow> ToolCall \<Rightarrow> Event list" where
  "closingOf T parent c =
    (if \<not> tcOpen c then [ToolCallStart (tcID c) (tcName c) parent] else []) @
    map (ToolCallArgs (tcID c)) (if closedArgs T c = [] then [''{}''] else if tcOpen c \<and> \<not> tcHeld c then [] else [closedArgs T c]) @
    [ToolCallEnd (tcID c)]"

lemma closeCall_eq: "closeCall T parent c s = s\<lparr>tuEvents := tuEvents s @ closingOf T parent c\<rparr>"
  by (simp add: closeCall_def closingOf_def shows_event_def Let_def)

lemma closeAll_eq:
  "foldl (\<lambda>s' c. closeCall T parent c s') s cs = s\<lparr>tuEvents := tuEvents s @ concat (map (closingOf T parent) cs)\<rparr>"
  by (induction cs arbitrary: s) (simp_all add: closeCall_eq)

lemma closeCalls_parts:
  "tuCalls (closeCalls T m s) = map (\<lambda>c. c\<lparr>tcArgs := closedArgs T c\<rparr>) (tuCalls s)"
  "tuEvents (closeCalls T m s) = tuEvents s @ concat (map (closingOf T (parentOf m (tuAnswer s))) (tuCalls s))"
  by (simp_all add: closeCalls_def closeAll_eq)

lemma closingOf_about: "e \<in> set (closingOf T parent c) \<Longrightarrow> about (tcID c) e"
  by (auto simp: closingOf_def split: if_splits)

lemma told_closing:
  "distinct (map tcID cs) \<Longrightarrow> c \<in> set cs \<Longrightarrow> told (tcID c) (concat (map (closingOf T parent) cs)) = closingOf T parent c"
proof (induction cs)
  case (Cons d cs)
  have none: "told i (concat (map (closingOf T parent) xs)) = []" if "i \<notin> tcID ` set xs" for i xs
    using that by (induction xs) (auto intro!: told_others [of _ _ i] closingOf_about)
  show ?case
  proof (cases "c = d")
    case True
    then show ?thesis using Cons.prems(1) none [of "tcID d" cs] told_only [of "closingOf T parent d" "tcID d"] closingOf_about by auto
  next
    case False
    then have "c \<in> set cs" "tcID c \<noteq> tcID d" using Cons.prems by (auto simp: image_iff)
    then show ?thesis using Cons told_others [of "closingOf T parent d" "tcID d" "tcID c"] closingOf_about by auto
  qed
qed simp

text \<open>What a caller is told of a call that is complete.\<close>

definition shownAs :: "ToolCall \<Rightarrow> Event list \<Rightarrow> bool" where
  "shownAs c es \<longleftrightarrow> (\<exists>n p ds. told (tcID c) es =
       ToolCallStart (tcID c) n p # map (ToolCallArgs (tcID c)) ds @ [ToolCallEnd (tcID c)] \<and>
     prefix n (tcName c) \<and> concat ds = (if tcArgs c = [] then ''{}'' else tcArgs c))"

lemma closed_shown:
  assumes t: "callTold c es"
  shows "\<exists>n p ds. es @ closingOf T parent c = ToolCallStart (tcID c) n p # map (ToolCallArgs (tcID c)) ds @ [ToolCallEnd (tcID c)] \<and>
     prefix n (tcName c) \<and> concat ds = (if closedArgs T c = [] then ''{}'' else closedArgs T c)"
proof (cases "tcOpen c")
  case False
  then have "es = []" using t by (simp add: callTold_def)
  then show ?thesis using False
    by (intro exI [of _ "tcName c"] exI [of _ parent] exI [of _ "[if closedArgs T c = [] then ''{}'' else closedArgs T c]"])
      (simp add: closingOf_def)
next
  case True
  then obtain ds where "opened c es ds" and ds: "concat ds = (if tcHeld c then [] else tcArgs c)"
    using t by (auto simp: callTold_def)
  then obtain n p where np: "es = ToolCallStart (tcID c) n p # map (ToolCallArgs (tcID c)) ds" "prefix n (tcName c)"
    by (auto simp: opened_def)
  let ?more = "if closedArgs T c = [] then [''{}''] else if tcHeld c then [closedArgs T c] else []"
  have "closingOf T parent c = map (ToolCallArgs (tcID c)) ?more @ [ToolCallEnd (tcID c)]" using True by (simp add: closingOf_def)
  moreover have "concat (ds @ ?more) = (if closedArgs T c = [] then ''{}'' else closedArgs T c)"
    using ds by (simp add: closedArgs_def)
  ultimately show ?thesis using np
    by (intro exI [of _ n] exI [of _ p] exI [of _ "ds @ ?more"]) simp
qed


text \<open>A turn whose stream opens one call in two chunks.\<close>

definition deltaX :: "string \<Rightarrow> string \<Rightarrow> string \<Rightarrow> choice" where
  "deltaX i n a = \<lparr>chFinishReason = [], chContent = [], chReasoning = [], chReasoningAlt = [],
     chToolCalls = [\<lparr>deIndex = 0, deID = i, deName = n, deArguments = a\<rparr>]\<rparr>"

definition turnX :: turnEnv where
  "turnX = \<lparr>teUnmarshal = (\<lambda>d. Some \<lparr>ckModel = [], ckError = None, ckUsage = None,
       ckChoice = Some (if d = ''1'' then deltaX ''x'' ''f'' ''{'' else deltaX [] [] ''}'')\<rparr>),
     teWidgets = [], teWidgetArguments = (\<lambda>s. s), teToken = (\<lambda>n. replicate n (CHR ''z''))\<rparr>"

definition nameX :: "nat \<Rightarrow> string" where
  "nameX j = CHR ''x'' # replicate j (CHR ''x'')"


end
