(* ===== verification/Agent.thy ===== *)
theory Agent
  imports Model_Stream
begin

text \<open>A run's exchange with its model, \<^verbatim>\<open>loop\<close> of \<^verbatim>\<open>internal/engine/agent.go\<close>, and the tools it
  calls, \<^verbatim>\<open>Invoke\<close> there and the toolset of \<^verbatim>\<open>internal/engine/tools.go\<close>.  What the model
  streams, what renewing a credential gives and what each tool returns are arguments of the
  model; the tools of a turn run at the same time, and are taken one after the other.\<close>

section \<open>Tools\<close>

definition MaxTurns :: nat where "MaxTurns = 16"
definition MaxToolOutput :: nat where "MaxToolOutput = 30000"
definition MaxWidgetRetries :: nat where "MaxWidgetRetries = 2"

record Toolset =
  tsWidgets :: "string list"
  tsSearches :: "string \<Rightarrow> bool"
  tsRejected :: "string \<Rightarrow> nat"

definition retry :: "string \<Rightarrow> Toolset \<Rightarrow> bool \<times> Toolset" where
  "retry name t = (if tsRejected t name \<ge> MaxWidgetRetries then (False, t)
     else (True, t\<lparr>tsRejected := (tsRejected t)(name := tsRejected t name + 1)\<rparr>))"

definition clip :: "string \<Rightarrow> nat \<Rightarrow> string" where
  "clip out limit = (if length out > limit then take limit out @ CHR 0x0A # ''[truncated]''
     else if out = [] then ''[no output]'' else out)"

text \<open>What a call meets: a panic's report and how many events came before it, a widget's validation failure, what the widget
  returns, what a search gives the model to read or fails with, what the caller is shown of it,
  and the id of the result.\<close>

record toolOutcome =
  toPanic :: "(nat \<times> string) option"
  toFailure :: "bytes option"
  toLocal :: bytes
  toSearch :: "string + string"
  toShown :: "bytes \<times> bytes option \<times> ToolDisplay option"
  toActivity :: "ToolDisplay option"
  toMessageID :: string

definition resultEvent :: "toolOutcome \<Rightarrow> ToolCall \<Rightarrow> bytes \<Rightarrow> Event" where
  "resultEvent r c content = ToolCallResult (toMessageID r) (tcID c) ''tool'' (Some content) [] None"

definition QuestionsShown :: string where
  "QuestionsShown = ''The questions are shown to the user, who answers them in place. Their answers reach you with their next message.''"

definition activityOf :: "toolOutcome \<Rightarrow> ToolCall \<Rightarrow> Event" where
  "activityOf r c = ActivityOpened \<lparr>asMessageID = ActivityPrefix @ tcID c, asActivityType = ''TOOL'',
     asContent = \<lparr>taToolCallID = tcID c, taTool = tcName c, taProgress = 0, taOutput = []\<rparr>, asDisplay = toActivity r\<rparr>"

definition invokeTool :: "toolOutcome \<Rightarrow> ToolCall \<Rightarrow> Toolset \<Rightarrow> Toolset \<times> Event list \<times> modelMessage" where
  "invokeTool r c t =
    (if \<not> tsSearches t (tcName c) then
         if tcName c \<notin> set (tsWidgets t) then (t, [], answered (tcID c) ''{\"error\":\"unknown tool\"}'')
         else case toFailure r of
           Some failure \<Rightarrow> (case retry (tcName c) t of
               (False, t) \<Rightarrow> (t, [resultEvent r c failure], answered (tcID c) ''{\"status\":\"executed\"}'')
             | (True, t) \<Rightarrow> (t, [resultEvent r c failure], answered (tcID c) failure))
         | None \<Rightarrow> (t, [resultEvent r c (toLocal r)],
             answered (tcID c) (if tcName c = QuestionsWidget then QuestionsShown else ''[rendered for the user]''))
       else let (content, metadata, display) = toShown r; read = (case toSearch r of Inl failure \<Rightarrow> failure | Inr found \<Rightarrow> found)
         in (t, [activityOf r c, ToolCallResult (toMessageID r) (tcID c) ''tool'' (Some content) (case metadata of None \<Rightarrow> [] | Some m \<Rightarrow> m) display],
             answered (tcID c) (clip read MaxToolOutput)))"

definition Invoke :: "toolOutcome \<Rightarrow> ToolCall \<Rightarrow> Toolset \<Rightarrow> Toolset \<times> Event list \<times> modelMessage" where
  "Invoke r c t = (case toPanic r of None \<Rightarrow> invokeTool r c t
     | Some (k, report) \<Rightarrow> (case invokeTool r c t of (_, es, _) \<Rightarrow> (t, take k es, answered (tcID c) report)))"

fun execute :: "(nat \<Rightarrow> toolOutcome) \<Rightarrow> nat \<Rightarrow> ToolCall list \<Rightarrow> Toolset \<Rightarrow> Toolset \<times> Event list \<times> modelMessage list" where
  "execute R i [] t = (t, [], [])"
| "execute R i (c # cs) t =
    (case Invoke (R i) c t of (t, es, m) \<Rightarrow>
     case execute R (Suc i) cs t of (t, fs, ms) \<Rightarrow> (t, es @ fs, m # ms))"

section \<open>The exchange\<close>

record payload =
  plMessages :: "modelMessage list"
  plTools :: string

text \<open>\<open>aeTurn\<close> is the model's answer to a request, a refusal or the lines it streams and what
  cut them; \<open>aeRefresh\<close> renews the run's credential; \<open>aeTools\<close> is what a turn's calls meet.\<close>

record 'w agentEnv =
  aeTurn :: "'w \<Rightarrow> payload \<Rightarrow> 'w \<times> (Error + string list \<times> Error option)"
  aeRefresh :: "('w \<Rightarrow> 'w \<times> Error option) option"
  aeTools :: "'w \<Rightarrow> 'w \<times> (nat \<Rightarrow> toolOutcome)"
  aeReplyID :: string
  aeDefinitions :: string
  aeSearching :: bool

record 'w agentState =
  agWorld :: 'w
  agRequest :: Request
  agCompact :: compactState
  agTools :: Toolset
  agSent :: "payload list"
  agRefreshed :: bool

definition errExchangeTooLarge :: Error where
  "errExchangeTooLarge = Err 413 ''CONTEXT_TOO_LARGE'' ''The current tool exchange exceeds the context window''"
definition errMaxTurns :: Error where
  "errMaxTurns = Err 502 ''MAX_TURNS'' (''The model called tools for '' @ fmtNat MaxTurns @ '' turns without answering'')"

definition FinalAnswerInstruction :: string where
  "FinalAnswerInstruction = ''You have reached the maximum number of tool iterations. Do not call any more tools. Provide the best answer you can.''"

definition emitAll :: "Event list \<Rightarrow> 'w agentState \<Rightarrow> 'w agentState" where
  "emitAll es st = st\<lparr>agCompact := (agCompact st)\<lparr>csEvents := csEvents (agCompact st) @ es\<rparr>\<rparr>"

text \<open>An exchange that outgrows the window compacts the history before it, once.\<close>

definition refit ::
  "promptEnv \<Rightarrow> compactEnv \<Rightarrow> bool \<Rightarrow> string \<Rightarrow> 'w agentState \<Rightarrow> modelMessage list \<Rightarrow> nat \<Rightarrow>
     'w agentState \<times> (Error + modelMessage list \<times> nat)" where
  "refit P E searching tools st conversation history =
    (let req = agRequest st in
     if fits P req conversation tools then (st, Inr (conversation, history))
     else let exchange = drop history conversation; req' = req\<lparr>rqCompact := False\<rparr>; st = st\<lparr>agRequest := req'\<rparr> in
       if \<not> rqCompact req then (st, Inl errExchangeTooLarge)
       else case compactRun P E (agCompact st) req' (fixedCost P req' searching tools + sum_list (map (messageTokens P) exchange)) of
           (c, Inl NothingToCompact) \<Rightarrow> (st\<lparr>agCompact := c\<rparr>, Inl errExchangeTooLarge)
         | (c, Inl (CompactFailed e)) \<Rightarrow> (st\<lparr>agCompact := c\<rparr>, Inl e)
         | (c, Inr req) \<Rightarrow>
             let st = st\<lparr>agCompact := c, agRequest := req\<rparr>; conversation = promptOf P req searching @ exchange in
             if \<not> fits P req conversation tools then (st, Inl errExchangeTooLarge)
             else (st, Inr (conversation, length conversation - length exchange)))"

definition modelTurn ::
  "'w agentEnv \<Rightarrow> turnEnv \<Rightarrow> payload \<Rightarrow> 'w agentState \<Rightarrow> 'w agentState \<times> (Error + turnState)" where
  "modelTurn A T p st =
    (case aeTurn A (agWorld st) p of (w, answer) \<Rightarrow>
     let st = st\<lparr>agWorld := w, agSent := agSent st @ [p]\<rparr> in
     case answer of Inl e \<Rightarrow> (st, Inl e)
     | Inr (ls, broken) \<Rightarrow> (case readTurn T (aeReplyID A) ls broken of (s, e) \<Rightarrow>
         let st = emitAll (tuEvents s) st in case e of Some e \<Rightarrow> (st, Inl e) | None \<Rightarrow> (st, Inr s)))"

text \<open>A request the model refused as unauthorized is sent again once, as it was.\<close>

definition sendTurn ::
  "'w agentEnv \<Rightarrow> turnEnv \<Rightarrow> payload \<Rightarrow> 'w agentState \<Rightarrow> 'w agentState \<times> (Error + turnState)" where
  "sendTurn A T p st =
    (case modelTurn A T p st of (st, Inr s) \<Rightarrow> (st, Inr s)
     | (st, Inl e) \<Rightarrow> (case aeRefresh A of None \<Rightarrow> (st, Inl e)
        | Some f \<Rightarrow>
          if agRefreshed st \<or> eHTTP e \<noteq> 401 then (st, Inl e)
          else case f (agWorld st) of (w, r) \<Rightarrow>
            let st = st\<lparr>agWorld := w, agRefreshed := True\<rparr> in
            case r of Some e \<Rightarrow> (st, Inl e) | None \<Rightarrow> modelTurn A T p st))"

definition requested :: "promptEnv \<Rightarrow> Request \<Rightarrow> turnState \<Rightarrow> modelMessage" where
  "requested P req s =
     (plain ''assistant'' (quote (tuAnswer s)))\<lparr>
       mmCalls := map (\<lambda>c. \<lparr>tjID = tcID c, tjName = tcName c, tjArguments = peHistoryArgs P (tcArgs c)\<rparr>) (tuCalls s),
       mmReasoning := (if (rqPolicy req = ''all'' \<or> rqPolicy req = ''tool-call-only'') \<and> tuReasoning s \<noteq> []
         then Some (tuField s, tuReasoning s) else None)\<rparr>"

text \<open>The calls of a turn, made and answered.\<close>

definition answerCalls ::
  "promptEnv \<Rightarrow> 'w agentEnv \<Rightarrow> turnState \<Rightarrow> 'w agentState \<Rightarrow> 'w agentState \<times> modelMessage list" where
  "answerCalls P A s st =
    (case aeTools A (agWorld st) of (w, R) \<Rightarrow>
     case execute R 0 (tuCalls s) (agTools st) of (t, es, ms) \<Rightarrow>
       (emitAll es (st\<lparr>agWorld := w, agTools := t\<rparr>), requested P (agRequest st) s # ms))"

text \<open>\<open>n\<close> is how many more turns may call tools: past them the model answers with none.\<close>

fun agentLoop ::
  "promptEnv \<Rightarrow> compactEnv \<Rightarrow> 'w agentEnv \<Rightarrow> turnEnv \<Rightarrow> nat \<Rightarrow> 'w agentState \<Rightarrow> modelMessage list \<Rightarrow> nat \<Rightarrow>
     'w agentState \<times> Error option" where
  "agentLoop P E A T 0 st conversation history =
    (let conversation = conversation @ [plain ''system'' (MText FinalAnswerInstruction)] in
     case refit P E (aeSearching A) [] st conversation history of (st, Inl e) \<Rightarrow> (st, Some e)
     | (st, Inr (conversation, history)) \<Rightarrow>
       (case sendTurn A T \<lparr>plMessages = conversation, plTools = []\<rparr> st of (st, Inl e) \<Rightarrow> (st, Some e)
        | (st, Inr s) \<Rightarrow> (st, if tuCalls s = [] then None else Some errMaxTurns)))"
| "agentLoop P E A T (Suc n) st conversation history =
    (case refit P E (aeSearching A) (aeDefinitions A) st conversation history of (st, Inl e) \<Rightarrow> (st, Some e)
     | (st, Inr (conversation, history)) \<Rightarrow>
       (case sendTurn A T \<lparr>plMessages = conversation, plTools = aeDefinitions A\<rparr> st of (st, Inl e) \<Rightarrow> (st, Some e)
        | (st, Inr s) \<Rightarrow>
          if tuCalls s = [] then (st, None)
          else case answerCalls P A s st of (st, ms) \<Rightarrow>
            agentLoop P E A T n st (conversation @ ms) history))"

definition agentRun ::
  "promptEnv \<Rightarrow> compactEnv \<Rightarrow> 'w agentEnv \<Rightarrow> turnEnv \<Rightarrow> 'w agentState \<Rightarrow> 'w agentState \<times> Error option" where
  "agentRun P E A T st =
    (case fitted P (compactRun P E) (agCompact st) (agRequest st) (aeSearching A) (aeDefinitions A) of
       (c, req, result) \<Rightarrow>
       let st = st\<lparr>agCompact := c, agRequest := req\<rparr> in
       case result of Inl e \<Rightarrow> (st, Some e)
       | Inr conversation \<Rightarrow> agentLoop P E A T MaxTurns st conversation (length conversation))"

section \<open>Calls and their answers\<close>

text \<open>A message with the answers to its calls, in their order.\<close>

definition answersTo :: "modelMessage \<Rightarrow> modelMessage list \<Rightarrow> bool" where
  "answersTo m as \<longleftrightarrow> mmRole m \<noteq> ''tool'' \<and> map mmCallID as = map tjID (mmCalls m) \<and> (\<forall>a\<in>set as. mmRole a = ''tool'')"

inductive paired :: "modelMessage list \<Rightarrow> bool" where
  paired_Nil: "paired []"
| paired_Cons: "answersTo m as \<Longrightarrow> paired ms \<Longrightarrow> paired (m # as @ ms)"

lemma paired_append: "paired xs \<Longrightarrow> paired ys \<Longrightarrow> paired (xs @ ys)"
  by (induction rule: paired.induct) (auto intro: paired_Cons)

lemma paired_group: "answersTo m as \<Longrightarrow> paired (m # as)"
  using paired_Cons [OF _ paired_Nil, of m as] by simp

lemma paired_concat: "\<forall>g\<in>set gs. paired g \<Longrightarrow> paired (concat gs)"
  by (induction gs) (auto intro: paired_Nil paired_append)

lemma answered_simps [simp]: "mmCallID (answered i c) = i" "mmRole (answered i c) = ''tool''"
  by (simp_all add: answered_def plain_def)

lemma paired_plain: "role \<noteq> ''tool'' \<Longrightarrow> paired [plain role c]"
  by (rule paired_group) (simp add: answersTo_def plain_def)

lemma paired_RenderMessage: "paired (RenderMessage P m vision policy)"
proof (cases "msRole m = ''user''")
  case True
  then show ?thesis by (simp add: RenderMessage_def paired_plain)
next
  case False
  then show ?thesis unfolding RenderMessage_def Let_def if_not_P [OF False]
    by (intro paired_group) (simp add: answersTo_def plain_def callJSON_def comp_def)
qed

definition groupsPaired :: "modelMessage list list \<Rightarrow> bool" where
  "groupsPaired gs \<longleftrightarrow> (\<forall>g\<in>set gs. paired g)"

lemma groupsPaired_rendered: "groupsPaired (rendered P req ms)"
  by (simp add: groupsPaired_def rendered_def paired_RenderMessage)

inductive_cases paired_ConsE: "paired (m # ms)"

lemma groupsPaired_withSummary:
  assumes "groupsPaired gs"
  shows "groupsPaired (withSummary gs summary)"
proof -
  have new: "paired [plain ''user'' (MText t)]" for t by (rule paired_plain) simp
  show ?thesis
  proof (cases gs)
    case Nil
    then show ?thesis using new by (simp add: withSummary_def groupsPaired_def)
  next
    case (Cons g rest)
    show ?thesis
    proof (cases g)
      case Nil
      then show ?thesis using assms new Cons by (simp add: withSummary_def groupsPaired_def)
    next
      case (Cons q as)
      have "paired (q # as)" using assms \<open>gs = g # rest\<close> Cons by (simp add: groupsPaired_def)
      then have "paired (q\<lparr>mmContent := c\<rparr> # as)" for c
        by (elim paired_ConsE) (auto simp: answersTo_def intro!: paired_Cons)
      then show ?thesis using assms new \<open>gs = g # rest\<close> Cons by (auto simp: withSummary_def groupsPaired_def Let_def)
    qed
  qed
qed

text \<open>A request the engine may send: its history and its reminder hold every call's answers.\<close>

definition requestPaired :: "Request \<Rightarrow> bool" where
  "requestPaired req \<longleftrightarrow> groupsPaired (rqGroups req) \<and> paired [rqReminder req]"

lemma paired_promptOf: "requestPaired req \<Longrightarrow> paired (promptOf P req searching)"
  unfolding promptOf_def requestPaired_def groupsPaired_def Let_def
  by (intro paired_append paired_concat) (auto intro: paired_Nil paired_plain)

lemma requestPaired_render: "groupsPaired (rqGroups (render P req))"
  by (simp add: render_def Let_def groupsPaired_rendered groupsPaired_withSummary)

lemma requestPaired_remind: "groupsPaired (rqGroups req) \<Longrightarrow> requestPaired (remind P req)"
  unfolding requestPaired_def
  by (simp add: remind_def requestContextUsage_def groupCosts_def Let_def reminderOf_def paired_plain split: option.splits prod.splits)

section \<open>What a run sends\<close>

fun isCompaction :: "Event \<Rightarrow> bool" where
  "isCompaction (CompactionStart i b) = True"
| "isCompaction e = False"

definition compactions :: "Event list \<Rightarrow> nat" where
  "compactions es = length (filter isCompaction es)"

lemma compactions_append [simp]: "compactions (es @ fs) = compactions es + compactions fs" "compactions [] = 0"
  by (simp_all add: compactions_def)

lemma compactions_none: "\<forall>e\<in>set es. \<not> isCompaction e \<Longrightarrow> compactions es = 0"
  by (simp add: compactions_def)

lemma compactRun_request:
  assumes "compactRun P E s req reserved = (s', Inr req')"
  shows "requestPaired req'" "rqWindow req' = rqWindow req" "rqCompact req' = rqCompact req"
proof -
  obtain ms where "req' = remind P (render P (req\<lparr>rqMessages := ms\<rparr>))"
    using assms by (auto simp: compactRun_def Let_def split: if_splits option.splits prod.splits)
  then show "requestPaired req'" "rqWindow req' = rqWindow req" "rqCompact req' = rqCompact req"
    by (simp_all add: requestPaired_remind requestPaired_render)
qed

lemma compactRun_compactions:
  "compactRun P E s req reserved = (s', r) \<Longrightarrow> compactions (csEvents s') \<le> compactions (csEvents s) + 1"
  by (auto simp: compactRun_def Let_def emitEvent_def compactions_def split: if_splits option.splits)

text \<open>The events of a turn show what the model streamed, and no compaction.\<close>

definition showsOnly :: "turnState \<Rightarrow> bool" where
  "showsOnly s \<longleftrightarrow> (\<forall>e\<in>set (tuEvents s). \<not> isCompaction e)"

lemma showsOnly_event: "showsOnly s \<Longrightarrow> \<not> isCompaction e \<Longrightarrow> showsOnly (shows_event e s)"
  by (simp add: showsOnly_def shows_event_def)

lemma showsOnly_cong: "tuEvents s' = tuEvents s \<Longrightarrow> showsOnly s' = showsOnly s"
  by (simp add: showsOnly_def)

lemma showsOnly_announce: "showsOnly s \<Longrightarrow> showsOnly (announce T m d s)"
  by (simp add: announce_def Let_def showsOnly_def shows_event_def roomFor_def)

lemma showsOnly_announceAll: "showsOnly s \<Longrightarrow> announceAll T m ds s = (s', e) \<Longrightarrow> showsOnly s'"
  by (induction ds arbitrary: s) (auto split: if_splits intro: showsOnly_announce)

lemma showsOnly_text: "showsOnly s \<Longrightarrow> showsOnly (readContent m c (readReasoning m c s))"
  by (simp add: readContent_def readReasoning_def Let_def showsOnly_def shows_event_def)

lemma showsOnly_readChunk:
  assumes "showsOnly s" "readChunk T m c s = (s', e)"
  shows "showsOnly s'"
proof -
  have s: "showsOnly (s\<lparr>tuModel := a\<rparr>)" "showsOnly (s\<lparr>tuUsage := u\<rparr>)" "showsOnly (s\<lparr>tuModel := a, tuUsage := u\<rparr>)"
    "showsOnly (s\<lparr>tuModel := a, tuEnded := b\<rparr>)" "showsOnly (s\<lparr>tuUsage := u, tuEnded := b\<rparr>)" "showsOnly (s\<lparr>tuEnded := b\<rparr>)"
    "showsOnly (s\<lparr>tuModel := a, tuUsage := u, tuEnded := b\<rparr>)" for a u b
    using assms(1) by (simp_all add: showsOnly_def)
  show ?thesis using assms(2) assms(1) unfolding readChunk_def Let_def
    by (auto split: option.splits if_splits intro: s elim!: showsOnly_announceAll [rotated] intro!: showsOnly_text)
qed

lemma showsOnly_readLines: "showsOnly s \<Longrightarrow> readLines T m ls s = (s', e) \<Longrightarrow> showsOnly s'"
proof (induction T m ls s rule: readLines.induct)
  case (5 T m c ls s)
  then show ?case by (auto split: prod.splits option.splits dest: showsOnly_readChunk)
qed (auto simp: showsOnly_def)

lemma showsOnly_readTurn: "readTurn T m ls broken = (s, e) \<Longrightarrow> showsOnly s"
proof -
  assume r: "readTurn T m ls broken = (s, e)"
  obtain s1 e1 where s1: "readLines T m (map (readLine T) ls) turn0 = (s1, e1)" by fastforce
  have "showsOnly turn0" by (simp add: showsOnly_def turn0_def)
  from showsOnly_readLines [OF this s1] have "showsOnly s1" .
  moreover have "\<not> isCompaction x" if "x \<in> set (concat (map (closingOf T p) cs))" for x p cs
    using that by (auto simp: closingOf_def split: if_splits)
  then have "showsOnly s1 \<Longrightarrow> showsOnly (closeCalls T m s1)" unfolding showsOnly_def closeCalls_parts(2) by fastforce
  ultimately show ?thesis using r s1 by (auto simp: readTurn_def split: option.splits if_splits)
qed

definition sentOk :: "promptEnv \<Rightarrow> int \<Rightarrow> payload \<Rightarrow> bool" where
  "sentOk P limit p \<longleftrightarrow>
     tokens P (plTools p) + sum_list (map (messageTokens P) (plMessages p)) \<le> limit \<and> paired (plMessages p)"

definition agentOk :: "promptEnv \<Rightarrow> int \<Rightarrow> 'w agentState \<Rightarrow> bool" where
  "agentOk P limit st \<longleftrightarrow> limitOf (agRequest st) = limit \<and> requestPaired (agRequest st) \<and>
     (\<forall>p\<in>set (agSent st). sentOk P limit p) \<and>
     compactions (csEvents (agCompact st)) + (if rqCompact (agRequest st) then 1 else 0) \<le> 1"

text \<open>How many requests were sent, and whether the one sent again still may be.\<close>

definition sends :: "'w agentState \<Rightarrow> nat" where
  "sends st = length (agSent st) + (if agRefreshed st then 0 else 1)"

lemma requestPaired_compact [simp]: "requestPaired (req\<lparr>rqCompact := b\<rparr>) = requestPaired req"
  by (simp add: requestPaired_def)

lemma limitOf_cong: "rqWindow req' = rqWindow req \<Longrightarrow> limitOf req' = limitOf req"
  by (simp add: limitOf_def)

lemma agentOk_compacted:
  assumes ok: "agentOk P limit st" and c: "rqCompact (agRequest st)"
    and run: "compactRun P E (agCompact st) ((agRequest st)\<lparr>rqCompact := False\<rparr>) reserved = (s, r)"
  shows "r = Inr req \<Longrightarrow> agentOk P limit (st\<lparr>agRequest := req, agCompact := s\<rparr>)"
    "agentOk P limit (st\<lparr>agRequest := (agRequest st)\<lparr>rqCompact := False\<rparr>, agCompact := s\<rparr>)"
proof -
  have n: "compactions (csEvents s) \<le> 1" using ok c compactRun_compactions [OF run] by (simp add: agentOk_def)
  show "agentOk P limit (st\<lparr>agRequest := req, agCompact := s\<rparr>)" if "r = Inr req"
    using ok n compactRun_request [OF run [unfolded that]] limitOf_cong [of req "agRequest st"] by (simp add: agentOk_def)
  show "agentOk P limit (st\<lparr>agRequest := (agRequest st)\<lparr>rqCompact := False\<rparr>, agCompact := s\<rparr>)"
    using ok n limitOf_cong [of "(agRequest st)\<lparr>rqCompact := False\<rparr>" "agRequest st"] by (simp add: agentOk_def)
qed

lemma refit_ok:
  assumes ok: "agentOk P limit st" and conv: "paired conversation" "paired (drop history conversation)" "history \<le> length conversation"
    and r: "refit P E searching tools st conversation history = (st', result)"
  shows "agentOk P limit st' \<and> sends st' = sends st \<and>
     (\<forall>c h. result = Inr (c, h) \<longrightarrow> sentOk P limit \<lparr>plMessages = c, plTools = tools\<rparr> \<and> paired (drop h c) \<and> h \<le> length c)"
proof (cases "fits P (agRequest st) conversation tools")
  case True
  then have "st' = st" "result = Inr (conversation, history)" using r by (simp_all add: refit_def)
  then show ?thesis using True ok conv by (simp add: sentOk_def fits_def agentOk_def)
next
  case False
  define exchange where "exchange = drop history conversation"
  define req0 where "req0 = (agRequest st)\<lparr>rqCompact := False\<rparr>"
  show ?thesis
  proof (cases "rqCompact (agRequest st)")
    case no: False
    have "st' = st\<lparr>agRequest := req0\<rparr>" "result = Inl errExchangeTooLarge"
      using r no False by (simp_all add: refit_def Let_def req0_def)
    then show ?thesis using ok no by (simp add: agentOk_def sends_def req0_def limitOf_def)
  next
    case yes: True
    obtain s res where run: "compactRun P E (agCompact st) req0
        (fixedCost P req0 searching tools + sum_list (map (messageTokens P) exchange)) = (s, res)" by fastforce
    note okc = agentOk_compacted [OF ok yes run [unfolded req0_def], folded req0_def]
    have r': "(st', result) = (case res of
         Inl NothingToCompact \<Rightarrow> (st\<lparr>agRequest := req0, agCompact := s\<rparr>, Inl errExchangeTooLarge)
       | Inl (CompactFailed e) \<Rightarrow> (st\<lparr>agRequest := req0, agCompact := s\<rparr>, Inl e)
       | Inr req \<Rightarrow> if \<not> fits P req (promptOf P req searching @ exchange) tools
           then (st\<lparr>agRequest := req, agCompact := s\<rparr>, Inl errExchangeTooLarge)
           else (st\<lparr>agRequest := req, agCompact := s\<rparr>, Inr (promptOf P req searching @ exchange, length (promptOf P req searching))))"
      using r False yes run unfolding refit_def exchange_def req0_def
      by (auto simp: Let_def split: sum.splits compactError.splits if_splits)
    show ?thesis
    proof (cases res)
      case (Inl x)
      then show ?thesis using r' okc(2) by (cases x) (simp_all add: sends_def)
    next
      case (Inr req)
      then have okr: "agentOk P limit (st\<lparr>agRequest := req, agCompact := s\<rparr>)" using okc(1) by simp
      then have "paired (promptOf P req searching @ exchange)"
        using conv(2) by (auto simp: agentOk_def exchange_def intro!: paired_append paired_promptOf)
      then show ?thesis using r' Inr okr conv(2)
        by (auto simp: sends_def sentOk_def fits_def agentOk_def exchange_def split: if_splits)
    qed
  qed
qed

lemma agentOk_emit:
  "agentOk P limit st \<Longrightarrow> compactions es = 0 \<Longrightarrow> agentOk P limit (emitAll es st)" "sends (emitAll es st) = sends st"
  "agRefreshed (emitAll es st) = agRefreshed st"
  by (simp_all add: agentOk_def emitAll_def sends_def)

lemma modelTurn_ok:
  assumes ok: "agentOk P limit st" and p: "sentOk P limit p" and r: "modelTurn A T p st = (st', result)"
  shows "agentOk P limit st' \<and> sends st' = sends st + 1 \<and> agRefreshed st' = agRefreshed st"
proof -
  obtain w answer where w: "aeTurn A (agWorld st) p = (w, answer)" by fastforce
  define st1 where "st1 = st\<lparr>agWorld := w, agSent := agSent st @ [p]\<rparr>"
  have ok1: "agentOk P limit st1" "sends st1 = sends st + 1" "agRefreshed st1 = agRefreshed st"
    using ok p by (simp_all add: st1_def agentOk_def sends_def)
  show ?thesis
  proof (cases answer)
    case (Inl e)
    then have "st' = st1" using r w by (simp add: modelTurn_def st1_def)
    then show ?thesis using ok1 by simp
  next
    case (Inr x)
    obtain ls broken s e where x: "x = (ls, broken)" and t: "readTurn T (aeReplyID A) ls broken = (s, e)" by (metis surj_pair)
    have "compactions (tuEvents s) = 0" using showsOnly_readTurn [OF t] by (intro compactions_none) (simp add: showsOnly_def)
    moreover have "st' = emitAll (tuEvents s) st1"
      using r w Inr x t by (auto simp: modelTurn_def st1_def Let_def split: option.splits)
    ultimately show ?thesis using ok1 by (simp add: agentOk_emit)
  qed
qed

lemma sendTurn_ok:
  assumes ok: "agentOk P limit st" and p: "sentOk P limit p" and r: "sendTurn A T p st = (st', result)"
  shows "agentOk P limit st' \<and> sends st' \<le> sends st + 1"
proof -
  obtain st1 res where m: "modelTurn A T p st = (st1, res)" by fastforce
  note ok1 = modelTurn_ok [OF ok p m]
  show ?thesis
  proof (cases "\<exists>e f. res = Inl e \<and> aeRefresh A = Some f \<and> \<not> agRefreshed st1 \<and> eHTTP e = 401")
    case False
    then have "st' = st1" using r m by (auto simp: sendTurn_def split: sum.splits option.splits if_splits)
    then show ?thesis using ok1 by simp
  next
    case True
    then obtain e f where e: "res = Inl e" "aeRefresh A = Some f" "\<not> agRefreshed st1" "eHTTP e = 401" by blast
    obtain w failed where w: "f (agWorld st1) = (w, failed)" by fastforce
    define st2 where "st2 = st1\<lparr>agWorld := w, agRefreshed := True\<rparr>"
    have ok2: "agentOk P limit st2" "sends st2 + 1 = sends st1"
      using ok1 e(3) by (simp_all add: st2_def agentOk_def sends_def)
    have r': "(st', result) = (case failed of Some e \<Rightarrow> (st2, Inl e) | None \<Rightarrow> modelTurn A T p st2)"
      using r m e w by (simp add: sendTurn_def st2_def Let_def split: option.splits)
    show ?thesis
    proof (cases failed)
      case None
      then have "modelTurn A T p st2 = (st', result)" using r' by simp
      from modelTurn_ok [OF ok2(1) p this] show ?thesis using ok2(2) ok1 by simp
    next
      case (Some x)
      then show ?thesis using r' ok2 ok1 by simp
    qed
  qed
qed

lemma Invoke_answers:
  assumes "Invoke r c t = (t', es, m)"
  shows "mmCallID m = tcID c" "mmRole m = ''tool''" "compactions es = 0"
proof -
  have tool: "mmCallID m = tcID c \<and> mmRole m = ''tool'' \<and> (\<forall>e\<in>set es. \<not> isCompaction e)"
    if "invokeTool r c t = (t', es, m)" for t' es m
    using that unfolding invokeTool_def resultEvent_def activityOf_def Let_def
    by (auto split: if_splits option.splits prod.splits bool.splits)
  have "mmCallID m = tcID c \<and> mmRole m = ''tool'' \<and> (\<forall>e\<in>set es. \<not> isCompaction e)"
    using assms tool unfolding Invoke_def
    by (auto split: option.splits prod.splits dest: in_set_takeD)
  then show "mmCallID m = tcID c" "mmRole m = ''tool''" "compactions es = 0" using compactions_none by blast+
qed

lemma execute_answers:
  "execute R i cs t = (t', es, ms) \<Longrightarrow>
     map mmCallID ms = map tcID cs \<and> (\<forall>m\<in>set ms. mmRole m = ''tool'') \<and> compactions es = 0"
proof (induction cs arbitrary: i t t' es ms)
  case (Cons c cs)
  obtain t1 es1 m where i1: "Invoke (R i) c t = (t1, es1, m)" by (metis surj_pair)
  obtain fs ns where e: "execute R (Suc i) cs t1 = (t', fs, ns)" "es = es1 @ fs" "ms = m # ns"
    using Cons.prems i1 by (auto split: prod.splits)
  show ?case using Invoke_answers [OF i1] Cons.IH [OF e(1)] e by simp
qed simp

lemma answerCalls_ok:
  assumes ok: "agentOk P limit st" and r: "answerCalls P A s st = (st', ms)"
  shows "agentOk P limit st' \<and> sends st' = sends st \<and> paired ms"
proof -
  obtain w R where w: "aeTools A (agWorld st) = (w, R)" by fastforce
  obtain t es as where e: "execute R 0 (tuCalls s) (agTools st) = (t, es, as)" by (metis surj_pair)
  have st': "st' = emitAll es (st\<lparr>agWorld := w, agTools := t\<rparr>)" and ms: "ms = requested P (agRequest st) s # as"
    using r w e by (auto simp: answerCalls_def)
  have "agentOk P limit (st\<lparr>agWorld := w, agTools := t\<rparr>)" "sends (st\<lparr>agWorld := w, agTools := t\<rparr>) = sends st"
    using ok by (simp_all add: agentOk_def sends_def)
  then have "agentOk P limit st' \<and> sends st' = sends st" unfolding st' using execute_answers [OF e] by (simp add: agentOk_emit)
  moreover have "paired ms" unfolding ms
    by (rule paired_group) (use execute_answers [OF e] in \<open>simp add: answersTo_def requested_def plain_def comp_def\<close>)
  ultimately show ?thesis by blast
qed

lemma sentOk_paired: "sentOk P limit \<lparr>plMessages = c, plTools = tools\<rparr> \<Longrightarrow> paired c"
  by (simp add: sentOk_def)

lemma paired_drop_append:
  "paired (drop h xs) \<Longrightarrow> h \<le> length xs \<Longrightarrow> paired ys \<Longrightarrow> paired (drop h (xs @ ys))"
  by (simp add: paired_append)

lemma agentLoop_ok:
  "\<lbrakk>agentLoop P E A T n st conversation history = (st', e); agentOk P limit st; paired conversation;
    paired (drop history conversation); history \<le> length conversation\<rbrakk>
   \<Longrightarrow> agentOk P limit st' \<and> sends st' \<le> sends st + n + 1"
proof (induction n arbitrary: st conversation history)
  case 0
  let ?conv = "conversation @ [plain ''system'' (MText FinalAnswerInstruction)]"
  have p: "paired [plain ''system'' (MText FinalAnswerInstruction)]" by (rule paired_plain) simp
  obtain st1 res where r: "refit P E (aeSearching A) [] st ?conv history = (st1, res)" by fastforce
  note ok1 = refit_ok [OF 0(2) paired_append [OF 0(3) p] paired_drop_append [OF 0(4,5) p] _ r]
  show ?case
  proof (cases res)
    case (Inl x)
    then show ?thesis using 0(1,5) r ok1 by (auto simp: Let_def)
  next
    case (Inr x)
    obtain c h where x: "x = (c, h)" by fastforce
    obtain st2 r2 where s: "sendTurn A T \<lparr>plMessages = c, plTools = []\<rparr> st1 = (st2, r2)" by fastforce
    have "sentOk P limit \<lparr>plMessages = c, plTools = []\<rparr>" "agentOk P limit st1" "sends st1 = sends st" using ok1 Inr x 0(5) by auto
    then have "agentOk P limit st2 \<and> sends st2 \<le> sends st + 1" using sendTurn_ok [OF _ _ s] by auto
    moreover have "st' = st2" using 0(1) r Inr x s by (auto simp: Let_def split: sum.splits)
    ultimately show ?thesis by simp
  qed
next
  case (Suc n)
  obtain st1 res where r: "refit P E (aeSearching A) (aeDefinitions A) st conversation history = (st1, res)" by fastforce
  note ok1 = refit_ok [OF Suc.prems(2-5) r]
  show ?case
  proof (cases res)
    case (Inl x)
    then show ?thesis using Suc.prems(1) r ok1 by auto
  next
    case (Inr x)
    obtain c h where x: "x = (c, h)" by fastforce
    obtain st2 r2 where s: "sendTurn A T \<lparr>plMessages = c, plTools = aeDefinitions A\<rparr> st1 = (st2, r2)" by fastforce
    have c: "sentOk P limit \<lparr>plMessages = c, plTools = aeDefinitions A\<rparr>" "paired (drop h c)" "h \<le> length c"
        "agentOk P limit st1" "sends st1 = sends st" using ok1 Inr x by auto
    have ok2: "agentOk P limit st2" "sends st2 \<le> sends st + 1" using sendTurn_ok [OF c(4,1) s] c(5) by auto
    show ?thesis
    proof (cases "\<exists>t. r2 = Inr t \<and> tuCalls t \<noteq> []")
      case False
      then have "st' = st2" using Suc.prems(1) r Inr x s by (auto split: sum.splits if_splits)
      then show ?thesis using ok2 by simp
    next
      case True
      then obtain t where t: "r2 = Inr t" "tuCalls t \<noteq> []" by blast
      obtain st3 ms where a: "answerCalls P A t st2 = (st3, ms)" by fastforce
      note ok3 = answerCalls_ok [OF ok2(1) a]
      have "agentLoop P E A T n st3 (c @ ms) h = (st', e)" using Suc.prems(1) r Inr x s t a by simp
      from Suc.IH [OF this] have "agentOk P limit st' \<and> sends st' \<le> sends st3 + n + 1"
        using ok3 c(2,3) sentOk_paired [OF c(1)] by (simp add: paired_append)
      then show ?thesis using ok3 ok2 by simp
    qed
  qed
qed

lemma BudgetConversation_Inr:
  "BudgetConversation P req searching definitions = Inr messages \<Longrightarrow> messages = promptOf P req searching"
  by (auto simp: BudgetConversation_def Let_def split: if_splits)

lemma fitted_ok:
  assumes ok: "agentOk P limit st"
    and f: "fitted P (compactRun P E) (agCompact st) (agRequest st) searching definitions = (s, req, result)"
  shows "agentOk P limit (st\<lparr>agCompact := s, agRequest := req\<rparr>)"
    "result = Inr messages \<Longrightarrow> messages = promptOf P req searching"
proof -
  have swap: "st\<lparr>agCompact := s, agRequest := req\<rparr> = st\<lparr>agRequest := req, agCompact := s\<rparr>" for s req by simp
  define req0 where "req0 = (agRequest st)\<lparr>rqCompact := False\<rparr>"
  obtain s1 res where run: "compactRun P E (agCompact st) req0 (fixedCost P req0 searching definitions) = (s1, res)" by fastforce
  have "(s, req, result) = (agCompact st, agRequest st, BudgetConversation P (agRequest st) searching definitions) \<or>
      rqCompact (agRequest st) \<and> s = s1 \<and>
        ((\<exists>e. res = Inl e \<and> req = req0 \<and> (\<exists>e. result = Inl e)) \<or>
         (res = Inr req \<and> result = BudgetConversation P req searching definitions))"
    using f run unfolding fitted_def req0_def
    by (auto simp: Let_def split: sum.splits if_splits compactError.splits)
  then consider (as_is) "s = agCompact st" "req = agRequest st" "result = BudgetConversation P (agRequest st) searching definitions"
    | (failed) "rqCompact (agRequest st)" "s = s1" "req = req0" "\<exists>e. result = Inl e"
    | (compacted) "rqCompact (agRequest st)" "s = s1" "res = Inr req" "result = BudgetConversation P req searching definitions"
    by auto
  then have "agentOk P limit (st\<lparr>agCompact := s, agRequest := req\<rparr>) \<and>
      (result = Inr messages \<longrightarrow> messages = promptOf P req searching)"
  proof cases
    case as_is
    then show ?thesis using ok BudgetConversation_Inr by auto
  next
    case failed
    then show ?thesis using agentOk_compacted(2) [OF ok failed(1) run [unfolded req0_def]] unfolding swap by (auto simp: req0_def)
  next
    case compacted
    then show ?thesis using agentOk_compacted(1) [OF ok compacted(1) run [unfolded req0_def]] BudgetConversation_Inr unfolding swap by metis
  qed
  then show "agentOk P limit (st\<lparr>agCompact := s, agRequest := req\<rparr>)" "result = Inr messages \<Longrightarrow> messages = promptOf P req searching"
    by blast+
qed

text \<open>C3: A run ends, and asks its model only what fits.  However its model and its tools
  answer, a run sends at most 18 requests, 17 turns and one sent again under a renewed
  credential; each fills no more of the model's window than a prompt may, tools included,
  and holds after every message that calls tools one answer to each call, in order and
  under its id; and the chat is compacted once at most.\<close>

theorem agent_requests_fit:
  assumes "agentRun P E A T st = (st', e)" "requestPaired (agRequest st)" "agSent st = []" "csEvents (agCompact st) = []"
  shows "length (agSent st') \<le> MaxTurns + 2 \<and>
     (\<forall>p\<in>set (agSent st'). tokens P (plTools p) + sum_list (map (messageTokens P) (plMessages p)) \<le> limitOf (agRequest st) \<and>
        paired (plMessages p)) \<and>
     compactions (csEvents (agCompact st')) \<le> 1"
proof -
  let ?l = "limitOf (agRequest st)"
  have ok: "agentOk P ?l st" using assms(2-4) by (simp add: agentOk_def)
  obtain s req result where f: "fitted P (compactRun P E) (agCompact st) (agRequest st) (aeSearching A) (aeDefinitions A) = (s, req, result)"
    by (metis surj_pair)
  let ?st = "st\<lparr>agCompact := s, agRequest := req\<rparr>"
  note ok1 = fitted_ok [OF ok f]
  have n: "sends ?st \<le> 1" using assms(3) by (simp add: sends_def)
  have "agentOk P ?l st' \<and> sends st' \<le> MaxTurns + 2"
  proof (cases result)
    case (Inl x)
    then have "st' = ?st" using assms(1) f by (simp add: agentRun_def)
    then show ?thesis using ok1(1) n by simp
  next
    case (Inr c)
    then have l: "agentLoop P E A T MaxTurns ?st c (length c) = (st', e)" using assms(1) f by (simp add: agentRun_def)
    have "paired c" using ok1 Inr paired_promptOf by (auto simp: agentOk_def)
    from agentLoop_ok [OF l ok1(1) this] show ?thesis using n paired_Nil by simp
  qed
  then show ?thesis by (auto simp: agentOk_def sends_def sentOk_def split: if_splits)
qed

text \<open>A run whose model calls a widget once and then answers.\<close>

definition outcomeX :: toolOutcome where
  "outcomeX = \<lparr>toPanic = None, toFailure = None, toLocal = [], toSearch = Inr [], toShown = ([], None, None), toActivity = None,
     toMessageID = ''r''\<rparr>"

definition agentX :: "nat agentEnv" where
  "agentX = \<lparr>aeTurn = (\<lambda>n p. (n + 1, Inr (if n = 0 then [''data:1'', ''data:2'', ''data:[DONE]''] else [''data:[DONE]''], None))),
     aeRefresh = None, aeTools = (\<lambda>n. (n, \<lambda>_. outcomeX)), aeReplyID = ''m'', aeDefinitions = ''tools'', aeSearching = False\<rparr>"

definition agentStateX :: "nat agentState" where
  "agentStateX = \<lparr>agWorld = 0, agRequest = requestX, agCompact = \<lparr>csEvents = [], csCompacted = None\<rparr>,
     agTools = \<lparr>tsWidgets = [''f''], tsSearches = (\<lambda>_. False), tsRejected = (\<lambda>_. 0)\<rparr>, agSent = [], agRefreshed = False\<rparr>"

lemma agentX_runs: "map (\<lambda>p. length (plMessages p)) (agSent (fst (agentRun promptX compactX agentX turnX agentStateX))) = [5, 7]"
  by code_simp

theorem agent_requests_fit_witness:
  "\<exists>st' e. agentRun promptX compactX agentX turnX agentStateX = (st', e) \<and>
     map (\<lambda>p. length (plMessages p)) (agSent st') = [5, 7] \<and>
     (\<forall>p\<in>set (agSent st'). tokens promptX (plTools p) + sum_list (map (messageTokens promptX) (plMessages p)) \<le> limitOf requestX \<and>
        paired (plMessages p))"
proof -
  obtain st' e where r: "agentRun promptX compactX agentX turnX agentStateX = (st', e)" by fastforce
  have "groupsPaired (rqGroups requestX)" unfolding requestX_def by (rule requestPaired_render)
  moreover have "rqReminder requestX = plain ''user'' (MText [])" by (simp add: requestX_def render_def Let_def)
  ultimately have "requestPaired (agRequest agentStateX)"
    by (simp add: requestPaired_def agentStateX_def paired_plain)
  from agent_requests_fit [OF r this] show ?thesis using r agentX_runs by (simp add: agentStateX_def)
qed

end
