(* ===== verification/Spec2Isabelle.thy ===== *)
theory Spec2Isabelle
  imports Envelope Frame_Log Jobs Search_Cache Chunks Inference_Gate Live_Runs Search_Index Store_Commit Row_Removal Page_Walk
    Reply_Stream Agent
begin

text \<open>
  The confidential harness of Tinfoil Chat, verified.

  \<^bold>\<open>The program.\<close>  The harness runs inside an enclave.  It seals a caller's chats, profile and
  projects under the caller's key and keeps them, as rows of opaque bytes, in the control plane
  outside; it runs the caller's turns against models and streams each reply; and it keeps an
  encrypted search index of the chats.  Its parts, and the theories that model them:

  \<^item> \<^verbatim>\<open>internal/seal\<close>, the cryptography of what is stored.  \<open>Seal_AAD\<close>: the canonical JSON writer and the
    associated data of payloads, wrapped keys and key bundles (\<^verbatim>\<open>aad.go\<close>).  \<open>Op_Hash\<close>: the operation
    hash and the keys derived by HKDF (\<^verbatim>\<open>ophash.go\<close>, \<^verbatim>\<open>keyid.go\<close>, \<^verbatim>\<open>searchkey.go\<close>).  \<open>Base64\<close>: the strict and
    the lenient decoders the envelopes use.  \<open>Envelope\<close>: the envelopes of version 0 to 2 and shares
    (\<^verbatim>\<open>envelope.go\<close>, \<^verbatim>\<open>aesgcm.go\<close>, \<^verbatim>\<open>share.go\<close>).  AES-GCM, HKDF, HMAC, gzip and the JSON of an
    envelope are arguments (\<open>codec\<close>, \<open>hkdf\<close>), with what the code relies on as named laws
    (\<open>codecLaws\<close>, \<open>openTidy\<close>) that the witnesses instantiate.
  \<^item> \<^verbatim>\<open>internal/api\<close> and \<^verbatim>\<open>internal/store/errors.go\<close>: \<open>Api_Errors\<close>, how each failure is told to the client.
  \<^item> \<^verbatim>\<open>internal/controlplane\<close>.  \<open>CP_Client\<close>: the client's row calls over an arbitrary transport
    (\<^verbatim>\<open>client.go\<close>).  \<open>CP_Stub\<close>: the control plane's storage API as its in-memory stand-in implements it, each
    route a handler on the store (\<^verbatim>\<open>cpstub/stub.go\<close>).  \<open>CP_Revisions\<close>: how a row's revisions move
    under any sequence of requests.
  \<^item> \<^verbatim>\<open>internal/store\<close>.  \<open>Grant_Scope\<close>: what a storage grant permits (\<^verbatim>\<open>scope.go\<close>).  \<open>Rows\<close>: pushing,
    pulling and resealing rows (\<^verbatim>\<open>rows.go\<close>, \<^verbatim>\<open>rows_chat.go\<close>, \<^verbatim>\<open>rewrap.go\<close>) over an environment \<open>env\<close> that
    holds the transport, clock, random bytes, uuids and the JSON and time parsers.  \<open>Push_Once\<close>: \<^verbatim>\<open>Store.Push\<close>
    over a network that loses requests and answers and on which others write.
    \<open>Row_Reads\<close>: what a pull shows.  \<open>Store_Commit\<close>: \<^verbatim>\<open>Store.CommitRow\<close>.
  \<^item> \<^verbatim>\<open>internal/engine\<close>.  \<open>Live_Runs\<close>: the registry of running and queued turns, as a step relation whose
    steps are the critical sections of the code (\<^verbatim>\<open>live.go\<close>, \<^verbatim>\<open>queue.go\<close>, \<^verbatim>\<open>accept.go\<close>, \<^verbatim>\<open>shutdown.go\<close>).
    \<open>Frame_Log\<close>: the log of a run's frames with its buffers on a heap, its folding and its followers (\<^verbatim>\<open>runlog.go\<close>,
    \<^verbatim>\<open>follow.go\<close>).  \<open>Reply_Stream\<close>: how a run's events become frames, with deltas held back and joined
    (\<^verbatim>\<open>stream.go\<close>).  \<open>Thoughts\<close>: when reasoning is summarized (\<^verbatim>\<open>thoughts.go\<close>).  \<open>Turns\<close>: what a turn changes in
    its chat and what its run commits (\<^verbatim>\<open>transcript.go\<close>, \<^verbatim>\<open>finish.go\<close>).  \<open>Prompts\<close>: rendering and fitting the
    prompt (\<^verbatim>\<open>context.go\<close>).  \<open>Compacting\<close>: compacting a chat that outgrew the window (\<^verbatim>\<open>compaction.go\<close>).
    \<open>Model_Stream\<close>: reading a model turn from its stream, and \<open>Agent\<close>: the exchange of a run with its
    model and its tools (\<^verbatim>\<open>agent.go\<close>, \<^verbatim>\<open>tools.go\<close>).
  \<^item> \<^verbatim>\<open>internal/domain\<close>.  \<open>Chats\<close>: chats, messages, blocks and events (\<^verbatim>\<open>thread.go\<close>, \<^verbatim>\<open>events.go\<close>).  \<open>Timeline\<close>:
    building a reply from events (\<^verbatim>\<open>timeline.go\<close>).  \<open>Questions\<close>: questions, answers and when they are sent
    (\<^verbatim>\<open>questions.go\<close>).  The windows of a chat (\<^verbatim>\<open>views.go\<close>) are in \<open>Turns\<close>.
  \<^item> \<^verbatim>\<open>internal/jobs\<close>: \<open>Jobs\<close>, one background job per owner.
  \<^item> \<^verbatim>\<open>internal/searchindex\<close> and \<^verbatim>\<open>internal/search\<close>.  \<open>Search_Index\<close>: the index, its updates, compaction,
    decoding and ranking.  \<open>Search_Cache\<close>: the cache of open indexes.  \<open>Chunks\<close>: cutting a chat into
    embedded chunks.  \<open>Inference_Gate\<close>: the limits on calls to the embedder.

  \<open>Prelude\<close> holds the result type (a sum with the error on the left), bytes, hex and decimal text and the
  lemmas the components share.

  \<^bold>\<open>How the parts meet.\<close>  A commit (\<open>CommitRow\<close>) loads a row through \<open>Pull\<close>, which calls the client's \<open>GetBlob\<close>,
  opens the envelope with \<open>DecryptV2\<close> or \<open>DecryptLegacy\<close> and reseals a legacy row; it pushes the edited
  row through \<open>Push\<close>, which seals with \<open>EncryptWith\<close>, binds the request with \<open>ComputeOperationHash\<close>
  and sends it with \<open>PutBlob\<close>; the transport is the network of \<open>Push_Once\<close> over the handlers of \<open>CP_Stub\<close>.
  A turn changes its chat (\<open>applyTurn\<close>), renders it (\<open>render\<close>, \<open>promptOf\<close>) and asks its model (\<open>agentRun\<close>),
  compacting first when the prompt would not fit (\<open>fitted\<close>, \<open>compactRun\<close>); each line the model streams becomes
  events (\<open>readTurn\<close>), which the stream frames into the run's log (\<open>frame\<close>) and the assembler builds the reply from
  (\<open>Apply\<close>); at its end the run commits the reply and the compaction's marker (\<open>finishCommit\<close>) through the store.
  Errors come back as values of \<open>goError\<close> and steer the retries, as \<open>Api_Errors\<close> maps them.

  \<^bold>\<open>Interfaces.\<close>  Locales state what one part promises another: \<open>change_handler\<close> (what every
  idempotent route of the control plane keeps), \<open>token_index\<close> (an index that tells its last writes),
  \<open>bounded_cache\<close> (a cache within its budget) and \<open>prefix_code\<close> (an encoding that can be read off the front of a
  string); each is interpreted on the model's definitions.

  \<^bold>\<open>What is proved.\<close>
  \<^item> Storage: a push is made at most once, whatever the network loses; a commit writes once, over the content it
    read; a pull accounts for every id; a revision is written at most once; a retried request is
    answered as the first; a run's grant confines it to its chat and project.
  \<^item> Sealing: round trips of envelopes and shares, canonical acceptance, associated data and operation
    tuples that determine their inputs, legacy formats.
  \<^item> Runs: one reply per chat, an exact registry that is empty at rest, handing the chat on; lent frames stay intact,
    a follower is told the run, an ended log is zeroed, reconnecting resumes.
  \<^item> Turns: a turn changes only the end of its chat, and once; a run sends a bounded number of requests, each
    within the window and with every call answered; a compaction keeps the latest exchanges and loses
    nothing, and its summary cannot leave its tags; a model's calls are shown to the caller as they are
    made; committing a run loses nothing and may be repeated.
  \<^item> Replies: a reply is what was streamed to it, calls keep their blocks, holding deltas back changes nothing, reasoning
    is summarized at a bounded rate; answers are taken as picked and sent once; a chat's windows join up.
  \<^item> Search: the index tells the last write through tombstones and compaction, keeps its invariant,
    decodes what it wrote, ranks within the limit; the cache serves an index only under its key and
    within its budget; chunks are bounded; the gate's limits hold in every interleaving.
  \<^item> Jobs and errors: one live job per owner, ending never panics; every failure has a known
    code, status and action.

  \<^bold>\<open>Bounds and loops.\<close>  Loops of the code that count attempts recurse on the attempts left
  (\<open>MaxCommitAttempts\<close>, \<open>PutBlobMaxAttempts\<close>); the others are structural or have a termination proof, so every
  operation is total.  No fuel is used: a run's exchange recurses on the turns that may still call
  tools, and the one counter a statement carries, in reading a chat window by window, is shown to be enough.  Integers whose width matters (lengths of the
  operation tuple, slots) carry their bounds in the statements.  Goroutines are modelled as steps that
  interleave; the fetches of one pull, which the code makes concurrently, are made in request order
  between other writers' requests.

  \<^bold>\<open>Not modelled.\<close>  The HTTP routes and the wiring (\<^verbatim>\<open>internal/server\<close>, \<^verbatim>\<open>main.go\<close>) and the clients of
  outside services (\<^verbatim>\<open>internal/inference\<close>, \<^verbatim>\<open>internal/buckets\<close>, \<^verbatim>\<open>internal/pages\<close>, \<^verbatim>\<open>internal/auth\<close>,
  \<^verbatim>\<open>internal/attach\<close>, \<^verbatim>\<open>internal/summarize\<close>) are I/O around the parts above.  Archives and importers
  (\<^verbatim>\<open>internal/archives\<close>, \<^verbatim>\<open>internal/importer\<close>), the JSON and legacy forms of chats and the profile (the rest of
  \<^verbatim>\<open>internal/domain\<close>), the system prompt's text, safeguards, citations and transfers (the rest of \<^verbatim>\<open>internal/engine\<close>), the goroutines that keep the index (the rest of \<^verbatim>\<open>internal/search\<close>)
  and key registration, maintenance and listings of \<^verbatim>\<open>internal/store\<close> are left out so far.
\<close>

end
